(* ===== verification/Prelude.thy ===== *)
theory Prelude
  imports Main "HOL-Library.Word"
begin

text \<open>
  Shared vocabulary of the development: the fixed-width integer types of the C code as word
  types, little-endian byte strings (the layout of a struct in the memory of the x86 host that
  runs the receiver) and their reversal, guarded reads out of a C object, and the list lemmas
  that several components use.

  A C object is a list of bytes.  A read that would leave the object is the value None, so a
  function that may run past the end of a buffer has an option type and its totality on a class
  of inputs is a theorem, never a convention.
\<close>

unbundle bit_operations_syntax

type_synonym u8 = "8 word"
type_synonym u16 = "16 word"
type_synonym u32 = "32 word"
type_synonym u64 = "64 word"
type_synonym bytes = "u8 list"

named_theorems codec_simps \<open>reading and writing fields of wire structures\<close>
named_theorems ring_simps \<open>arithmetic of ring indices\<close>
named_theorems inv_simps \<open>unfolding of invariants\<close>

section \<open>Little-endian words\<close>

text \<open>The value a little-endian machine loads from consecutive bytes.\<close>

fun le_word :: "bytes \<Rightarrow> 'a::len word" where
  "le_word [] = 0"
| "le_word (b # bs) = ucast b OR push_bit 8 (le_word bs)"

definition le_bytes :: "nat \<Rightarrow> 'a::len word \<Rightarrow> bytes" where
  "le_bytes k w = map (\<lambda>i. ucast (drop_bit (8 * i) w)) [0..<k]"

definition be_bytes :: "nat \<Rightarrow> 'a::len word \<Rightarrow> bytes" where
  "be_bytes k w = rev (le_bytes k w)"

lemma length_le_bytes [simp]: "length (le_bytes k w) = k"
  by (simp add: le_bytes_def)

lemma length_be_bytes [simp]: "length (be_bytes k w) = k"
  by (simp add: be_bytes_def)

lemma rev_be_bytes [simp]: "rev (be_bytes k w) = le_bytes k w"
  by (simp add: be_bytes_def)

lemma bit_le_word:
  "bit (le_word bs :: 'a::len word) n \<longleftrightarrow>
     n < LENGTH('a) \<and> n div 8 < length bs \<and> bit (bs ! (n div 8)) (n mod 8)"
proof (induction bs arbitrary: n)
  case Nil
  then show ?case by simp
next
  case (Cons b bs)
  show ?case
  proof (cases "n < 8")
    case True
    then show ?thesis by (auto simp: bit_simps)
  next
    case False
    then have "n = (n - 8) + 8" "n div 8 = Suc ((n - 8) div 8)" "n mod 8 = (n - 8) mod 8"
      by (auto simp: le_div_geq le_mod_geq)
    moreover have "\<not> bit b n"
      using False bit_imp_le_length [of b n] by auto
    ultimately show ?thesis
      using False Cons.IH [of "n - 8"] by (auto simp: bit_simps)
  qed
qed

lemma bit_le_bytes_nth:
  "i < k \<Longrightarrow> bit (le_bytes k (w :: 'a::len word) ! i) m \<longleftrightarrow> m < 8 \<and> bit w (8 * i + m)"
  by (auto simp: le_bytes_def bit_simps)

lemma le_word_le_bytes [codec_simps]:
  "LENGTH('a) = 8 * k \<Longrightarrow> le_word (le_bytes k (w :: 'a::len word)) = w"
  by (rule bit_word_eqI) (auto simp: bit_le_word bit_le_bytes_nth less_mult_imp_div_less)

lemma le_bytes_le_word [codec_simps]:
  "LENGTH('a) = 8 * k \<Longrightarrow> length bs = k \<Longrightarrow> le_bytes k (le_word bs :: 'a::len word) = bs"
  by (rule nth_equalityI, simp, rule bit_word_eqI)
    (auto simp: bit_le_word bit_le_bytes_nth)

lemma bit_le_word_rev:
  assumes "LENGTH('a) = 8 * k"
  shows "bit (le_word (rev (le_bytes k w)) :: 'a::len word) n \<longleftrightarrow>
    n < 8 * k \<and> bit (w :: 'a word) (8 * (k - Suc (n div 8)) + n mod 8)"
  using assms by (auto simp: bit_le_word rev_nth bit_le_bytes_nth less_mult_imp_div_less)

section \<open>Guarded access to a C object\<close>

definition read_at :: "'a list \<Rightarrow> nat \<Rightarrow> 'a option" where
  "read_at xs i = (if i < length xs then Some (xs ! i) else None)"

definition read_block :: "'a list \<Rightarrow> nat \<Rightarrow> nat \<Rightarrow> 'a list option" where
  "read_block xs i k = (if i + k \<le> length xs then Some (take k (drop i xs)) else None)"

lemma read_at_Some_iff [simp]: "read_at xs i = Some x \<longleftrightarrow> i < length xs \<and> xs ! i = x"
  by (auto simp: read_at_def)

lemma read_block_Some_iff [simp]:
  "read_block xs i k = Some ys \<longleftrightarrow> i + k \<le> length xs \<and> take k (drop i xs) = ys"
  by (auto simp: read_block_def)

section \<open>Lists\<close>

lemma below_split: "(n :: nat) < k \<Longrightarrow> n = 0 \<or> n = 1 \<or> n \<in> set [2..<k]"
  unfolding set_upt atLeastLessThan_iff by linarith

lemma take_drop_append_eq [codec_simps]:
  "length xs = i \<Longrightarrow> length ys = k \<Longrightarrow> take k (drop i (xs @ ys @ zs)) = ys"
  by simp

lemma map_fun_upd_notin [simp]: "x \<notin> set xs \<Longrightarrow> map (f(x := y)) xs = map f xs"
  by (induction xs) auto

lemma mod_Suc_wrap [ring_simps]:
  "i < n \<Longrightarrow> (i + 1) mod n = (if i + 1 = n then 0 else i + (1::nat))"
  by simp

end
