(* ===== verification/Byteorder.thy ===== *)
theory Byteorder
  imports Prelude
begin

text \<open>
  The helper functions of \<^verbatim>\<open>EXP/newstructures.h\<close>: the byte swaps that turn the big-endian fields of
  a router's packet into host values, the copies between 64-bit integers and byte arrays, the
  decimal conversions and the printed form of a MAC address.  Pointers to a value that is
  updated in place become functions from the old value to the new one.
\<close>

section \<open>Byte swaps\<close>

definition reversebytes_uint16t :: "u16 \<Rightarrow> u16" where
  "reversebytes_uint16t value =
     push_bit 8 (value AND 0x00FF) OR drop_bit 8 (value AND 0xFF00)"

definition reversebytes_uint32t :: "u32 \<Rightarrow> u32" where
  "reversebytes_uint32t value =
     push_bit 24 (value AND 0x000000FF) OR push_bit 8 (value AND 0x0000FF00) OR
     drop_bit 8 (value AND 0x00FF0000) OR drop_bit 24 (value AND 0xFF000000)"

text \<open>
  The signed variant masks its argument with unsigned constants, so every operand is converted
  to \<open>unsigned int\<close> and the shifts to the right are logical ones.
\<close>

definition reversebytes_sint32t :: "u32 \<Rightarrow> u32" where
  "reversebytes_sint32t value =
     push_bit 24 (value AND 0x000000FF) OR push_bit 8 (value AND 0x0000FF00) OR
     drop_bit 8 (value AND 0x00FF0000) OR drop_bit 24 (value AND 0xFF000000)"

definition reversebytes_uint64t :: "u64 \<Rightarrow> u64" where
  "reversebytes_uint64t value =
    (let low = value AND 0x00000000FFFFFFFF;
         high = drop_bit 32 (value AND 0xFFFFFFFF00000000);
         low_32 = reversebytes_uint32t (ucast low);
         high_32 = reversebytes_uint32t (ucast high);
         low' = push_bit 32 (ucast low_32 :: u64);
         high' = (ucast high_32 :: u64)
     in low' OR high')"

lemma reversebytes_uint16t_le: "reversebytes_uint16t w = le_word (rev (le_bytes 2 w))"
proof (rule bit_word_eqI)
  fix n assume "n < LENGTH(16)"
  then have "n < 16" by simp
  from below_split [OF this] show "bit (reversebytes_uint16t w) n = bit (le_word (rev (le_bytes 2 w)) :: u16) n"
    by (simp add: bit_le_word_rev upt_rec_numeral)
      (elim disjE; simp add: reversebytes_uint16t_def bit_simps; simp add: numeral_eq_Suc)
qed

lemma reversebytes_uint32t_le: "reversebytes_uint32t w = le_word (rev (le_bytes 4 w))"
proof (rule bit_word_eqI)
  fix n assume "n < LENGTH(32)"
  then have "n < 32" by simp
  from below_split [OF this] show "bit (reversebytes_uint32t w) n = bit (le_word (rev (le_bytes 4 w)) :: u32) n"
    by (simp add: bit_le_word_rev upt_rec_numeral)
      (elim disjE; simp add: reversebytes_uint32t_def bit_simps; simp add: numeral_eq_Suc)
qed

lemma reversebytes_sint32t_le: "reversebytes_sint32t w = le_word (rev (le_bytes 4 w))"
  using reversebytes_uint32t_le by (simp add: reversebytes_uint32t_def reversebytes_sint32t_def)

lemma reversebytes_uint64t_le: "reversebytes_uint64t w = le_word (rev (le_bytes 8 w))"
proof (rule bit_word_eqI)
  fix n assume "n < LENGTH(64)"
  then have "n < 64" by simp
  from below_split [OF this] show "bit (reversebytes_uint64t w) n = bit (le_word (rev (le_bytes 8 w)) :: u64) n"
    by (simp add: bit_le_word_rev upt_rec_numeral)
      (elim disjE; simp add: reversebytes_uint64t_def reversebytes_uint32t_def Let_def bit_simps;
        simp add: numeral_eq_Suc)
qed

lemmas reversebytes_le =
  reversebytes_uint16t_le reversebytes_uint32t_le reversebytes_sint32t_le reversebytes_uint64t_le

lemma rev_le_word_word:
  assumes "LENGTH('a) = 8 * k" and "length bs = k"
  shows "le_word (rev (le_bytes k (le_word bs :: 'a::len word))) = (le_word (rev bs) :: 'a word)"
  using assms by (simp add: le_bytes_le_word)

lemma reversebytes_involution [codec_simps]:
  "reversebytes_uint16t (reversebytes_uint16t v) = v"
  "reversebytes_uint32t (reversebytes_uint32t w) = w"
  "reversebytes_sint32t (reversebytes_sint32t w) = w"
  "reversebytes_uint64t (reversebytes_uint64t x) = x"
  by (simp_all add: reversebytes_le rev_le_word_word le_word_le_bytes)

text \<open>Loading the bytes of a big-endian machine gives the reversed value.\<close>

lemma le_word_be_bytes [codec_simps]:
  "le_word (be_bytes 2 v) = reversebytes_uint16t v"
  "le_word (be_bytes 4 w) = reversebytes_uint32t w"
  "le_word (be_bytes 8 x) = reversebytes_uint64t x"
  by (simp_all add: reversebytes_le be_bytes_def)

lemma reversebytes_sint32t_eq [codec_simps]: "reversebytes_sint32t w = reversebytes_uint32t w"
  by (simp add: reversebytes_le)

section \<open>64-bit integers and byte arrays\<close>

definition inttou64 :: "bytes \<Rightarrow> u64 \<Rightarrow> bytes" where
  "inttou64 tmp n = le_bytes 8 n @ drop 8 tmp"

definition chartou64 :: "bytes \<Rightarrow> u64 option" where
  "chartou64 a = map_option le_word (read_block a 0 8)"

section \<open>Decimal text\<close>

definition c_strlen :: "bytes \<Rightarrow> nat option" where
  "c_strlen s = (let k = length (takeWhile (\<lambda>c. c \<noteq> 0) s) in if k < length s then Some k else None)"

text \<open>
  The loop index of \<^verbatim>\<open>strtou32\<close> is an \<open>unsigned char\<close>, so the length of the text is taken modulo 256.
  A character is a \<open>signed char\<close> and its difference with the digit zero is an \<open>int\<close>, which
  the multiplication converts to \<open>unsigned long\<close>.
\<close>

fun strtou32_loop :: "bytes \<Rightarrow> nat \<Rightarrow> u64 \<Rightarrow> u64 \<Rightarrow> u64" where
  "strtou32_loop str 0 temp facto = temp"
| "strtou32_loop str (Suc i) temp facto =
     strtou32_loop str i (temp + (scast (str ! i) - 0x30) * facto) (facto * 10)"

definition strtou32 :: "bytes \<Rightarrow> u64 option" where
  "strtou32 str = (case c_strlen str of
      None \<Rightarrow> None
    | Some n \<Rightarrow> Some (strtou32_loop str (unat (word_of_nat n :: u8)) 0 1))"

function u16tostr_digits :: "u16 \<Rightarrow> bytes \<Rightarrow> bytes" where
  "u16tostr_digits dat temp =
    (if dat = 0 then temp
     else u16tostr_digits (dat div 10) (temp @ [ucast (dat mod 10 + 0x30)]))"
  by pat_completeness auto
termination
  by (relation "measure (\<lambda>(dat, temp). unat dat)")
    (auto simp: unat_div_distrib unat_gt_0)

declare u16tostr_digits.simps [simp del]

definition u16tostr :: "u16 \<Rightarrow> bytes" where
  "u16tostr dat =
    (let temp = u16tostr_digits dat [];
         str = rev temp
     in (if str = [] then [0x30] else str) @ [0])"

fun digits_value :: "bytes \<Rightarrow> u64" where
  "digits_value [] = 0"
| "digits_value (d # ds) = (scast d - 0x30) + 10 * digits_value ds"

lemma digits_value_snoc:
  "digits_value (ds @ [d]) = digits_value ds + 10 ^ length ds * (scast d - 0x30)"
proof (induction ds)
  case Nil
  show ?case by simp
next
  case (Cons a ds)
  show ?case unfolding append_Cons digits_value.simps Cons.IH by (simp add: algebra_simps)
qed

lemma strtou32_loop_rev:
  "strtou32_loop (rev ds @ z) (length ds) t f = t + f * digits_value ds"
proof (induction ds arbitrary: z t f)
  case Nil
  then show ?case by simp
next
  case (Cons d ds)
  then show ?case
    using Cons.IH [of "d # z"] by (simp add: nth_append algebra_simps)
qed

lemma digit_char_value:
  fixes dat :: u16
  shows "scast (ucast (dat mod 10 + 0x30) :: u8) - (0x30 :: u64) = ucast (dat mod 10)"
proof -
  define k where "k = unat (dat mod 10)"
  have "k < 10" by (simp add: k_def unat_mod_distrib)
  then have "k = 0 \<or> k = 1 \<or> k = 2 \<or> k = 3 \<or> k = 4 \<or> k = 5 \<or> k = 6 \<or> k = 7 \<or> k = 8 \<or> k = 9"
    by presburger
  moreover have "dat mod 10 = word_of_nat k" by (simp only: k_def of_nat_unat ucast_id)
  ultimately show ?thesis by (elim disjE) simp_all
qed

lemma ucast_div_mod_10:
  fixes dat :: u16
  shows "(ucast (dat mod 10) + 10 * ucast (dat div 10) :: u64) = ucast dat"
proof -
  have "(of_nat (unat (dat mod 10)) + 10 * of_nat (unat (dat div 10)) :: u64)
      = of_nat (unat (dat mod 10) + 10 * unat (dat div 10))"
    by simp
  also have "unat (dat mod 10) + 10 * unat (dat div 10) = unat dat"
    by (simp add: unat_mod_distrib unat_div_distrib)
  finally show ?thesis
    by simp
qed

lemma digits_value_u16:
  "digits_value (u16tostr_digits dat temp) = digits_value temp + 10 ^ length temp * ucast dat"
proof (induction dat temp rule: u16tostr_digits.induct)
  case (1 dat temp)
  show ?case
  proof (cases "dat = 0")
    case True
    then show ?thesis by (simp add: u16tostr_digits.simps)
  next
    case False
    let ?d = "ucast (dat mod 10 + 0x30) :: u8"
    have "digits_value (u16tostr_digits dat temp)
        = digits_value (u16tostr_digits (dat div 10) (temp @ [?d]))"
      using False by (subst u16tostr_digits.simps) simp
    also have "\<dots> = digits_value temp + 10 ^ length temp * (ucast (dat mod 10) + 10 * ucast (dat div 10))"
      unfolding "1.IH" [OF False] digits_value_snoc digit_char_value by (simp add: algebra_simps)
    finally show ?thesis by (simp only: ucast_div_mod_10)
  qed
qed

lemma digit_char_range:
  fixes dat :: u16
  shows "(ucast (dat mod 10 + 0x30) :: u8) \<noteq> 0"
proof
  assume "(ucast (dat mod 10 + 0x30) :: u8) = 0"
  then have "ucast (dat mod 10) = (- 0x30 :: u64)"
    using digit_char_value [of dat] by simp
  then have "unat (ucast (dat mod 10) :: u64) = unat (- 0x30 :: u64)" by simp
  moreover have "unat (ucast (dat mod 10) :: u64) = unat (dat mod 10)"
    by (simp add: unsigned_ucast_eq take_bit_nat_eq_self_iff del: unat_mod_distrib) (rule order_less_trans [OF unsigned_less], simp)
  ultimately have "unat (dat mod 10) = unat (- 0x30 :: u64)" by (rule trans [OF sym, rotated])
  moreover have "unat (dat mod 10) < 10" by (simp add: unat_mod_distrib)
  moreover have "unat (- 0x30 :: u64) = 18446744073709551568" by simp
  ultimately show False by linarith
qed

lemma u16tostr_digits_bounds:
  "unat dat < 10 ^ k \<Longrightarrow> length (u16tostr_digits dat temp) \<le> length temp + k"
proof (induction dat temp arbitrary: k rule: u16tostr_digits.induct)
  case (1 dat temp)
  show ?case
  proof (cases "dat = 0")
    case True
    then show ?thesis by (simp add: u16tostr_digits.simps)
  next
    case False
    with "1.prems" obtain j where j: "k = Suc j"
      by (cases k) (auto simp: unat_eq_0)
    then have "unat (dat div 10) < 10 ^ j"
      using "1.prems" by (simp add: unat_div_distrib)
    from "1.IH" [OF False this] False j show ?thesis
      by (subst u16tostr_digits.simps) simp
  qed
qed

lemma u16tostr_digits_nonzero:
  "0 \<notin> set temp \<Longrightarrow> 0 \<notin> set (u16tostr_digits dat temp)"
proof (induction dat temp rule: u16tostr_digits.induct)
  case (1 dat temp)
  then show ?case
    using digit_char_range [of dat] by (subst u16tostr_digits.simps) auto
qed

lemma c_strlen_terminated [simp]: "0 \<notin> set cs \<Longrightarrow> c_strlen (cs @ 0 # zs) = Some (length cs)"
proof -
  assume "0 \<notin> set cs"
  then have "takeWhile (\<lambda>c. c \<noteq> 0) (cs @ 0 # zs) = cs" by (auto simp: takeWhile_append)
  then show ?thesis by (simp add: c_strlen_def)
qed

lemma strtou32_digits:
  assumes "0 \<notin> set ds" "length ds < 256"
  shows "strtou32 (rev ds @ [0]) = Some (digits_value ds)"
  using assms strtou32_loop_rev [of ds "[0]" 0 1]
  by (simp add: strtou32_def c_strlen_terminated [of "rev ds" "[]", simplified] unat_of_nat take_bit_nat_eq_self_iff)

text \<open>
  Printing a 16-bit number in decimal and reading the text back gives the number: the
  buffer holds at most five digits and its terminator, and no digit is the NUL that would end
  the text early.
\<close>

theorem strtou32_u16tostr:
  "strtou32 (u16tostr dat) = Some (ucast dat) \<and> length (u16tostr dat) \<le> 6"
proof -
  let ?ds = "u16tostr_digits dat []"
  have "unat dat < 10 ^ 5" using unsigned_less [of dat, where ?'a = nat] by simp
  from u16tostr_digits_bounds [OF this, of "[]"] have len: "length ?ds \<le> 5" by simp
  have "strtou32 (rev ?ds @ [0]) = Some (ucast dat)"
    using strtou32_digits [of ?ds] u16tostr_digits_nonzero [of "[]" dat] len digits_value_u16 [of dat "[]"]
    by simp
  moreover have "strtou32 [0x30, 0] = Some 0"
    by (simp add: strtou32_def c_strlen_def)
  moreover have "?ds = [] \<Longrightarrow> ucast dat = (0 :: u64)"
    using digits_value_u16 [of dat "[]"] by simp
  ultimately show ?thesis using len by (auto simp: u16tostr_def Let_def)
qed

section \<open>Printed MAC addresses\<close>

definition hex_digit :: "nat \<Rightarrow> char" where
  "hex_digit d = ''0123456789abcdef'' ! d"

definition hex_byte :: "u8 \<Rightarrow> string" where
  "hex_byte b = [hex_digit (unat (drop_bit 4 b)), hex_digit (unat (b AND 15))]"

definition mac_text :: "bytes \<Rightarrow> string" where
  "mac_text addr =
     hex_byte (addr ! 0) @ '':'' @ hex_byte (addr ! 1) @ '':'' @ hex_byte (addr ! 2) @ '':'' @
     hex_byte (addr ! 3) @ '':'' @ hex_byte (addr ! 4) @ '':'' @ hex_byte (addr ! 5)"

text \<open>
  The guard of the C function: a null address or buffer or a buffer of fewer than 18 bytes ends
  the process, which is None here.
\<close>

definition mac_tranADDR_toString_r :: "bytes option \<Rightarrow> bool \<Rightarrow> nat \<Rightarrow> string option" where
  "mac_tranADDR_toString_r addr str_is_null bufsize =
    (case addr of
       None \<Rightarrow> None
     | Some a \<Rightarrow> if str_is_null \<or> bufsize < 18 then None else Some (mac_text a))"

lemma hex_digit_inj: "i < 16 \<Longrightarrow> j < 16 \<Longrightarrow> hex_digit i = hex_digit j \<longleftrightarrow> i = j"
proof -
  have "distinct ''0123456789abcdef''" by simp
  moreover assume "i < 16" "j < 16"
  ultimately show ?thesis
    unfolding hex_digit_def by (subst nth_eq_iff_index_eq) simp_all
qed

lemma nibble_bound: "unat (drop_bit 4 x) < 16" "unat (x AND 15) < 16" for x :: u8
proof -
  have "x AND 15 < 2 ^ 4" using and_mask_less' [of 4 x] by (simp add: mask_eq_exp_minus_1)
  then show "unat (x AND 15) < 16" by (simp add: word_less_nat_alt)
  have "unat x < 256" using unsigned_less [of x, where ?'a = nat] by simp
  then show "unat (drop_bit 4 x) < 16" by (subst unat_drop_bit_eq) (simp add: drop_bit_eq_div)
qed

lemma hex_byte_inj: "hex_byte a = hex_byte b \<longleftrightarrow> a = b"
proof
  assume eq: "hex_byte a = hex_byte b"
  from eq have "drop_bit 4 a = drop_bit 4 b" "a AND 15 = b AND 15"
    by (simp_all add: hex_byte_def hex_digit_inj nibble_bound flip: word_unat_eq_iff)
  then have "push_bit 4 (drop_bit 4 a) OR (a AND mask 4) = push_bit 4 (drop_bit 4 b) OR (b AND mask 4)"
    by (simp add: mask_eq_exp_minus_1)
  moreover have "push_bit 4 (drop_bit 4 x) OR (x AND mask 4) = x" for x :: u8
    by (rule bit_word_eqI) (auto simp: bit_simps)
  ultimately show "a = b" by simp
qed simp

lemma length_hex_byte [simp]: "length (hex_byte b) = 2"
  by (simp add: hex_byte_def)

lemma list6_eq_iff:
  "length a = 6 \<Longrightarrow> length b = 6 \<Longrightarrow>
   a = b \<longleftrightarrow> a ! 0 = b ! 0 \<and> a ! 1 = b ! 1 \<and> a ! 2 = b ! 2 \<and> a ! 3 = b ! 3 \<and> a ! 4 = b ! 4 \<and> a ! 5 = b ! 5"
  by (auto simp: numeral_eq_Suc length_Suc_conv)

lemma mac_text_eq_iff:
  "length a = 6 \<Longrightarrow> length b = 6 \<Longrightarrow> mac_text a = mac_text b \<longleftrightarrow> a = b"
  by (auto simp: mac_text_def hex_byte_inj list6_eq_iff)

section \<open>The clock\<close>

definition getcurrenttime :: "u64 \<times> u64 \<Rightarrow> u64" where
  "getcurrenttime tv = (case tv of (tv_sec, tv_usec) \<Rightarrow> tv_sec * 1000000 + tv_usec)"

end
