(* ===== verification/Wire.thy ===== *)
theory Wire
  imports Byteorder
begin

text \<open>
  The measurement records of \<^verbatim>\<open>EXP/newstructures.h\<close> and their two images on the wire.  A router
  copies a struct out of its own memory, so every multi-byte field travels in the order of a
  big-endian machine (\<open>..._to_bytes\<close>, the layout of the same structs in \<^verbatim>\<open>project/sendudp.c\<close>); the
  receiver copies the bytes into the struct of a little-endian host (\<open>..._of_bytes\<close>) and then
  reverses the fields that it uses (\<open>reverse_...\<close>, the calls at the head of each decoder).
  Padding words are kept, and so are the fields that a decoder forgets to reverse.
\<close>

section \<open>Reading fields\<close>

definition field_word :: "bytes \<Rightarrow> nat \<Rightarrow> nat \<Rightarrow> 'a::len word" where
  "field_word b i k = le_word (take k (drop i b))"

definition field_bytes :: "bytes \<Rightarrow> nat \<Rightarrow> nat \<Rightarrow> bytes" where
  "field_bytes b i k = take k (drop i b)"

lemma length_field_bytes: "i + k \<le> length b \<Longrightarrow> length (field_bytes b i k) = k"
  by (simp add: field_bytes_def)

lemma field_word_append [codec_simps]:
  "field_word (xs @ ys) i k =
    (if length xs \<le> i then field_word ys (i - length xs) k
     else if i + k \<le> length xs then field_word xs i k
     else le_word (take k (drop i (xs @ ys))))"
  by (simp add: field_word_def)

lemma field_bytes_append [codec_simps]:
  "field_bytes (xs @ ys) i k =
    (if length xs \<le> i then field_bytes ys (i - length xs) k
     else if i + k \<le> length xs then field_bytes xs i k
     else take k (drop i (xs @ ys)))"
  by (simp add: field_bytes_def)

lemma field_word_whole [codec_simps]: "length xs \<le> k \<Longrightarrow> field_word xs 0 k = le_word xs"
  by (simp add: field_word_def)

lemma field_bytes_whole [codec_simps]: "length xs \<le> k \<Longrightarrow> field_bytes xs 0 k = xs"
  by (simp add: field_bytes_def)

lemma field_word_drop_take [codec_simps]:
  "i + k \<le> n \<Longrightarrow> field_word (take n b) i k = field_word b i k"
  by (simp add: field_word_def drop_take min_def)

lemma be_bytes_single [codec_simps]: "le_word (be_bytes (Suc 0) w) = (w :: u8)"
  by (simp add: be_bytes_def le_bytes_def)

section \<open>The category tag\<close>

datatype data_category = WINSIZE | DROPS | IW | QUEUE | BEACON | SURVEY | KEEP_IW | KEEP_BEACON

definition data_category_value :: "data_category \<Rightarrow> nat" where
  "data_category_value c = (case c of
     WINSIZE \<Rightarrow> 1 | DROPS \<Rightarrow> 2 | IW \<Rightarrow> 3 | QUEUE \<Rightarrow> 4
   | BEACON \<Rightarrow> 5 | SURVEY \<Rightarrow> 6 | KEEP_IW \<Rightarrow> 7 | KEEP_BEACON \<Rightarrow> 8)"

section \<open>Records\<close>

record dp_packet =
  dp_ip_src :: u32
  dp_ip_dst :: u32
  dp_sec :: u32
  dp_usec :: u32
  dp_port_src :: u16
  dp_port_dst :: u16
  dp_sequence :: u32
  dp_ack_sequence :: u32
  dp_drop_count :: u32
  dp_dpl :: u16
  dp_pad :: u16
  dp_in_time :: u32
  dp_pad2 :: u32
  dp_pad1 :: u32

record data_iw =
  iw_station :: bytes
  iw_device :: u16
  iw_sec :: u32
  iw_usec :: u32
  iw_inactive_time :: u32
  iw_rx_bytes :: u32
  iw_rx_packets :: u32
  iw_tx_bytes :: u32
  iw_tx_packets :: u32
  iw_tx_retries :: u32
  iw_tx_failed :: u32
  iw_signal :: u32
  iw_signal_avg :: u32
  iw_expected_throughput :: u32
  iw_pad2 :: u32
  iw_pad :: u32

record data_queue =
  qu_queue_id :: u32
  qu_packets :: u32
  qu_bytes :: u64
  qu_sec :: u32
  qu_usec :: u32
  qu_qlen :: u32
  qu_backlog :: u32
  qu_drops :: u32
  qu_requeues :: u32
  qu_overlimits :: u32
  qu_pad :: u32

record data_beacon =
  be_sec :: u32
  be_usec :: u32
  be_data_rate :: u16
  be_freq :: u16
  be_timein :: u32
  be_signal :: u8
  be_pad :: u8
  be_bssid :: bytes
  be_pad2 :: u32
  be_pad1 :: u32

record data_survey =
  su_time :: u64
  su_sec :: u32
  su_usec :: u32
  su_time_busy :: u64
  su_time_ext_busy :: u64
  su_time_rx :: u64
  su_time_tx :: u64
  su_time_scan :: u64
  su_filled :: u32
  su_noise :: u8
  su_pad :: u8
  su_center_freq :: u16

record data_winsize =
  ws_ip_src :: u32
  ws_ip_dst :: u32
  ws_sourceaddr :: u16
  ws_destination :: u16
  ws_sequence :: u32
  ws_ack_sequence :: u32
  ws_flags :: u16
  ws_windowsize :: u16
  ws_sec :: u32
  ws_usec :: u32
  ws_datalength :: u32
  ws_wscale :: bytes
  ws_pad :: u8

definition dp_packet_of_bytes :: "bytes \<Rightarrow> dp_packet" where
  "dp_packet_of_bytes b = \<lparr>
     dp_ip_src = field_word b 0 4,
     dp_ip_dst = field_word b 4 4,
     dp_sec = field_word b 8 4,
     dp_usec = field_word b 12 4,
     dp_port_src = field_word b 16 2,
     dp_port_dst = field_word b 18 2,
     dp_sequence = field_word b 20 4,
     dp_ack_sequence = field_word b 24 4,
     dp_drop_count = field_word b 28 4,
     dp_dpl = field_word b 32 2,
     dp_pad = field_word b 34 2,
     dp_in_time = field_word b 36 4,
     dp_pad2 = field_word b 40 4,
     dp_pad1 = field_word b 44 4\<rparr>"

abbreviation sizeof_dp_packet :: nat where "sizeof_dp_packet \<equiv> 48"

definition data_iw_of_bytes :: "bytes \<Rightarrow> data_iw" where
  "data_iw_of_bytes b = \<lparr>
     iw_station = field_bytes b 0 6,
     iw_device = field_word b 6 2,
     iw_sec = field_word b 8 4,
     iw_usec = field_word b 12 4,
     iw_inactive_time = field_word b 16 4,
     iw_rx_bytes = field_word b 20 4,
     iw_rx_packets = field_word b 24 4,
     iw_tx_bytes = field_word b 28 4,
     iw_tx_packets = field_word b 32 4,
     iw_tx_retries = field_word b 36 4,
     iw_tx_failed = field_word b 40 4,
     iw_signal = field_word b 44 4,
     iw_signal_avg = field_word b 48 4,
     iw_expected_throughput = field_word b 52 4,
     iw_pad2 = field_word b 56 4,
     iw_pad = field_word b 60 4\<rparr>"

abbreviation sizeof_data_iw :: nat where "sizeof_data_iw \<equiv> 64"

definition data_queue_of_bytes :: "bytes \<Rightarrow> data_queue" where
  "data_queue_of_bytes b = \<lparr>
     qu_queue_id = field_word b 0 4,
     qu_packets = field_word b 4 4,
     qu_bytes = field_word b 8 8,
     qu_sec = field_word b 16 4,
     qu_usec = field_word b 20 4,
     qu_qlen = field_word b 24 4,
     qu_backlog = field_word b 28 4,
     qu_drops = field_word b 32 4,
     qu_requeues = field_word b 36 4,
     qu_overlimits = field_word b 40 4,
     qu_pad = field_word b 44 4\<rparr>"

abbreviation sizeof_data_queue :: nat where "sizeof_data_queue \<equiv> 48"

definition data_beacon_of_bytes :: "bytes \<Rightarrow> data_beacon" where
  "data_beacon_of_bytes b = \<lparr>
     be_sec = field_word b 0 4,
     be_usec = field_word b 4 4,
     be_data_rate = field_word b 8 2,
     be_freq = field_word b 10 2,
     be_timein = field_word b 12 4,
     be_signal = field_word b 16 1,
     be_pad = field_word b 17 1,
     be_bssid = field_bytes b 18 6,
     be_pad2 = field_word b 24 4,
     be_pad1 = field_word b 28 4\<rparr>"

abbreviation sizeof_data_beacon :: nat where "sizeof_data_beacon \<equiv> 32"

definition data_survey_of_bytes :: "bytes \<Rightarrow> data_survey" where
  "data_survey_of_bytes b = \<lparr>
     su_time = field_word b 0 8,
     su_sec = field_word b 8 4,
     su_usec = field_word b 12 4,
     su_time_busy = field_word b 16 8,
     su_time_ext_busy = field_word b 24 8,
     su_time_rx = field_word b 32 8,
     su_time_tx = field_word b 40 8,
     su_time_scan = field_word b 48 8,
     su_filled = field_word b 56 4,
     su_noise = field_word b 60 1,
     su_pad = field_word b 61 1,
     su_center_freq = field_word b 62 2\<rparr>"

abbreviation sizeof_data_survey :: nat where "sizeof_data_survey \<equiv> 64"

definition data_winsize_of_bytes :: "bytes \<Rightarrow> data_winsize" where
  "data_winsize_of_bytes b = \<lparr>
     ws_ip_src = field_word b 0 4,
     ws_ip_dst = field_word b 4 4,
     ws_sourceaddr = field_word b 8 2,
     ws_destination = field_word b 10 2,
     ws_sequence = field_word b 12 4,
     ws_ack_sequence = field_word b 16 4,
     ws_flags = field_word b 20 2,
     ws_windowsize = field_word b 22 2,
     ws_sec = field_word b 24 4,
     ws_usec = field_word b 28 4,
     ws_datalength = field_word b 32 4,
     ws_wscale = field_bytes b 36 3,
     ws_pad = field_word b 39 1\<rparr>"

abbreviation sizeof_data_winsize :: nat where "sizeof_data_winsize \<equiv> 40"

definition reverse_dp_packet :: "dp_packet \<Rightarrow> dp_packet" where
  "reverse_dp_packet r = r\<lparr>
     dp_sec := reversebytes_uint32t (dp_sec r),
     dp_usec := reversebytes_uint32t (dp_usec r),
     dp_in_time := reversebytes_uint32t (dp_in_time r),
     dp_sequence := reversebytes_uint32t (dp_sequence r),
     dp_ack_sequence := reversebytes_uint32t (dp_ack_sequence r),
     dp_ip_src := reversebytes_uint32t (dp_ip_src r),
     dp_ip_dst := reversebytes_uint32t (dp_ip_dst r),
     dp_port_src := reversebytes_uint16t (dp_port_src r),
     dp_port_dst := reversebytes_uint16t (dp_port_dst r),
     dp_dpl := reversebytes_uint16t (dp_dpl r),
     dp_drop_count := reversebytes_uint32t (dp_drop_count r)\<rparr>"

definition reverse_data_iw :: "data_iw \<Rightarrow> data_iw" where
  "reverse_data_iw r = r\<lparr>
     iw_sec := reversebytes_uint32t (iw_sec r),
     iw_usec := reversebytes_uint32t (iw_usec r),
     iw_device := reversebytes_uint16t (iw_device r),
     iw_inactive_time := reversebytes_uint32t (iw_inactive_time r),
     iw_rx_bytes := reversebytes_uint32t (iw_rx_bytes r),
     iw_rx_packets := reversebytes_uint32t (iw_rx_packets r),
     iw_tx_bytes := reversebytes_uint32t (iw_tx_bytes r),
     iw_tx_packets := reversebytes_uint32t (iw_tx_packets r),
     iw_tx_retries := reversebytes_uint32t (iw_tx_retries r),
     iw_tx_failed := reversebytes_uint32t (iw_tx_failed r),
     iw_signal := reversebytes_uint32t (iw_signal r),
     iw_signal_avg := reversebytes_uint32t (iw_signal_avg r),
     iw_expected_throughput := reversebytes_uint32t (iw_expected_throughput r)\<rparr>"

definition reverse_data_queue :: "data_queue \<Rightarrow> data_queue" where
  "reverse_data_queue r = r\<lparr>
     qu_sec := reversebytes_uint32t (qu_sec r),
     qu_usec := reversebytes_uint32t (qu_usec r),
     qu_bytes := reversebytes_uint64t (qu_bytes r),
     qu_queue_id := reversebytes_uint32t (qu_queue_id r),
     qu_packets := reversebytes_uint32t (qu_packets r),
     qu_qlen := reversebytes_uint32t (qu_qlen r),
     qu_backlog := reversebytes_uint32t (qu_backlog r),
     qu_drops := reversebytes_uint32t (qu_drops r),
     qu_requeues := reversebytes_uint32t (qu_requeues r),
     qu_overlimits := reversebytes_uint32t (qu_overlimits r)\<rparr>"

definition reverse_data_beacon :: "data_beacon \<Rightarrow> data_beacon" where
  "reverse_data_beacon r = r\<lparr>
     be_sec := reversebytes_uint32t (be_sec r),
     be_usec := reversebytes_uint32t (be_usec r),
     be_freq := reversebytes_uint16t (be_freq r)\<rparr>"

definition reverse_data_survey :: "data_survey \<Rightarrow> data_survey" where
  "reverse_data_survey r = r\<lparr>
     su_sec := reversebytes_uint32t (su_sec r),
     su_usec := reversebytes_uint32t (su_usec r),
     su_time := reversebytes_uint64t (su_time r),
     su_time_busy := reversebytes_uint64t (su_time_busy r),
     su_time_ext_busy := reversebytes_uint64t (su_time_ext_busy r),
     su_time_rx := reversebytes_uint64t (su_time_rx r),
     su_time_tx := reversebytes_uint64t (su_time_tx r),
     su_time_scan := reversebytes_uint64t (su_time_scan r),
     su_filled := reversebytes_uint32t (su_filled r),
     su_center_freq := reversebytes_uint16t (su_center_freq r)\<rparr>"

definition reverse_data_winsize :: "data_winsize \<Rightarrow> data_winsize" where
  "reverse_data_winsize r = r\<lparr>
     ws_datalength := reversebytes_uint32t (ws_datalength r),
     ws_ip_src := reversebytes_uint32t (ws_ip_src r),
     ws_ip_dst := reversebytes_uint32t (ws_ip_dst r),
     ws_sourceaddr := reversebytes_uint16t (ws_sourceaddr r),
     ws_destination := reversebytes_uint16t (ws_destination r),
     ws_sequence := reversebytes_uint32t (ws_sequence r),
     ws_ack_sequence := reversebytes_uint32t (ws_ack_sequence r),
     ws_flags := reversebytes_uint16t (ws_flags r),
     ws_windowsize := reversebytes_uint16t (ws_windowsize r),
     ws_sec := reversebytes_uint32t (ws_sec r),
     ws_usec := reversebytes_uint32t (ws_usec r)\<rparr>"

definition dp_packet_to_bytes :: "dp_packet \<Rightarrow> bytes" where
  "dp_packet_to_bytes r =
     be_bytes 4 (dp_ip_src r) @
     be_bytes 4 (dp_ip_dst r) @
     be_bytes 4 (dp_sec r) @
     be_bytes 4 (dp_usec r) @
     be_bytes 2 (dp_port_src r) @
     be_bytes 2 (dp_port_dst r) @
     be_bytes 4 (dp_sequence r) @
     be_bytes 4 (dp_ack_sequence r) @
     be_bytes 4 (dp_drop_count r) @
     be_bytes 2 (dp_dpl r) @
     be_bytes 2 (dp_pad r) @
     be_bytes 4 (dp_in_time r) @
     be_bytes 4 (dp_pad2 r) @
     be_bytes 4 (dp_pad1 r)"

definition data_iw_to_bytes :: "data_iw \<Rightarrow> bytes" where
  "data_iw_to_bytes r =
     iw_station r @
     be_bytes 2 (iw_device r) @
     be_bytes 4 (iw_sec r) @
     be_bytes 4 (iw_usec r) @
     be_bytes 4 (iw_inactive_time r) @
     be_bytes 4 (iw_rx_bytes r) @
     be_bytes 4 (iw_rx_packets r) @
     be_bytes 4 (iw_tx_bytes r) @
     be_bytes 4 (iw_tx_packets r) @
     be_bytes 4 (iw_tx_retries r) @
     be_bytes 4 (iw_tx_failed r) @
     be_bytes 4 (iw_signal r) @
     be_bytes 4 (iw_signal_avg r) @
     be_bytes 4 (iw_expected_throughput r) @
     be_bytes 4 (iw_pad2 r) @
     be_bytes 4 (iw_pad r)"

definition data_queue_to_bytes :: "data_queue \<Rightarrow> bytes" where
  "data_queue_to_bytes r =
     be_bytes 4 (qu_queue_id r) @
     be_bytes 4 (qu_packets r) @
     be_bytes 8 (qu_bytes r) @
     be_bytes 4 (qu_sec r) @
     be_bytes 4 (qu_usec r) @
     be_bytes 4 (qu_qlen r) @
     be_bytes 4 (qu_backlog r) @
     be_bytes 4 (qu_drops r) @
     be_bytes 4 (qu_requeues r) @
     be_bytes 4 (qu_overlimits r) @
     be_bytes 4 (qu_pad r)"

definition data_beacon_to_bytes :: "data_beacon \<Rightarrow> bytes" where
  "data_beacon_to_bytes r =
     be_bytes 4 (be_sec r) @
     be_bytes 4 (be_usec r) @
     be_bytes 2 (be_data_rate r) @
     be_bytes 2 (be_freq r) @
     be_bytes 4 (be_timein r) @
     be_bytes 1 (be_signal r) @
     be_bytes 1 (be_pad r) @
     be_bssid r @
     be_bytes 4 (be_pad2 r) @
     be_bytes 4 (be_pad1 r)"

definition data_survey_to_bytes :: "data_survey \<Rightarrow> bytes" where
  "data_survey_to_bytes r =
     be_bytes 8 (su_time r) @
     be_bytes 4 (su_sec r) @
     be_bytes 4 (su_usec r) @
     be_bytes 8 (su_time_busy r) @
     be_bytes 8 (su_time_ext_busy r) @
     be_bytes 8 (su_time_rx r) @
     be_bytes 8 (su_time_tx r) @
     be_bytes 8 (su_time_scan r) @
     be_bytes 4 (su_filled r) @
     be_bytes 1 (su_noise r) @
     be_bytes 1 (su_pad r) @
     be_bytes 2 (su_center_freq r)"

definition data_winsize_to_bytes :: "data_winsize \<Rightarrow> bytes" where
  "data_winsize_to_bytes r =
     be_bytes 4 (ws_ip_src r) @
     be_bytes 4 (ws_ip_dst r) @
     be_bytes 2 (ws_sourceaddr r) @
     be_bytes 2 (ws_destination r) @
     be_bytes 4 (ws_sequence r) @
     be_bytes 4 (ws_ack_sequence r) @
     be_bytes 2 (ws_flags r) @
     be_bytes 2 (ws_windowsize r) @
     be_bytes 4 (ws_sec r) @
     be_bytes 4 (ws_usec r) @
     be_bytes 4 (ws_datalength r) @
     ws_wscale r @
     be_bytes 1 (ws_pad r)"

section \<open>Round trips\<close>

lemmas to_bytes_defs =
  dp_packet_to_bytes_def data_iw_to_bytes_def data_queue_to_bytes_def
  data_beacon_to_bytes_def data_survey_to_bytes_def data_winsize_to_bytes_def

lemmas of_bytes_defs =
  dp_packet_of_bytes_def data_iw_of_bytes_def data_queue_of_bytes_def
  data_beacon_of_bytes_def data_survey_of_bytes_def data_winsize_of_bytes_def

lemmas reverse_defs =
  reverse_dp_packet_def reverse_data_iw_def reverse_data_queue_def
  reverse_data_beacon_def reverse_data_survey_def reverse_data_winsize_def

lemma length_to_bytes [simp]:
  "length (dp_packet_to_bytes d) = sizeof_dp_packet"
  "length (data_queue_to_bytes q) = sizeof_data_queue"
  "length (data_survey_to_bytes s) = sizeof_data_survey"
  by (simp_all add: to_bytes_defs)

lemma length_iw_to_bytes [simp]:
  "length (iw_station r) = 6 \<Longrightarrow> length (data_iw_to_bytes r) = sizeof_data_iw"
  by (simp add: to_bytes_defs)

lemma length_beacon_to_bytes [simp]:
  "length (be_bssid r) = 6 \<Longrightarrow> length (data_beacon_to_bytes r) = sizeof_data_beacon"
  by (simp add: to_bytes_defs)

lemma length_winsize_to_bytes [simp]:
  "length (ws_wscale r) = 3 \<Longrightarrow> length (data_winsize_to_bytes r) = sizeof_data_winsize"
  by (simp add: to_bytes_defs)

lemma dp_packet_roundtrip:
  "reverse_dp_packet (dp_packet_of_bytes (dp_packet_to_bytes r)) =
    r\<lparr>dp_pad := reversebytes_uint16t (dp_pad r), dp_pad2 := reversebytes_uint32t (dp_pad2 r),
      dp_pad1 := reversebytes_uint32t (dp_pad1 r)\<rparr>"
  by (cases r) (simp add: to_bytes_defs of_bytes_defs reverse_defs codec_simps)

lemma data_queue_roundtrip:
  "reverse_data_queue (data_queue_of_bytes (data_queue_to_bytes r)) =
    r\<lparr>qu_pad := reversebytes_uint32t (qu_pad r)\<rparr>"
  by (cases r) (simp add: to_bytes_defs of_bytes_defs reverse_defs codec_simps)

lemma data_survey_roundtrip:
  "reverse_data_survey (data_survey_of_bytes (data_survey_to_bytes r)) = r"
  by (cases r) (simp add: to_bytes_defs of_bytes_defs reverse_defs codec_simps)

lemma data_iw_roundtrip:
  "length (iw_station r) = 6 \<Longrightarrow>
   reverse_data_iw (data_iw_of_bytes (data_iw_to_bytes r)) =
    r\<lparr>iw_pad2 := reversebytes_uint32t (iw_pad2 r), iw_pad := reversebytes_uint32t (iw_pad r)\<rparr>"
  by (cases r) (simp add: to_bytes_defs of_bytes_defs reverse_defs codec_simps)

lemma data_winsize_roundtrip:
  "length (ws_wscale r) = 3 \<Longrightarrow>
   reverse_data_winsize (data_winsize_of_bytes (data_winsize_to_bytes r)) = r"
  by (cases r) (simp add: to_bytes_defs of_bytes_defs reverse_defs codec_simps)

text \<open>The beacon decoder leaves the data rate and the age of the entry unreversed.\<close>

lemma data_beacon_roundtrip:
  "length (be_bssid r) = 6 \<Longrightarrow>
   reverse_data_beacon (data_beacon_of_bytes (data_beacon_to_bytes r)) =
    r\<lparr>be_data_rate := reversebytes_uint16t (be_data_rate r),
      be_timein := reversebytes_uint32t (be_timein r),
      be_pad2 := reversebytes_uint32t (be_pad2 r), be_pad1 := reversebytes_uint32t (be_pad1 r)\<rparr>"
  by (cases r) (simp add: to_bytes_defs of_bytes_defs reverse_defs codec_simps)

end
