(* ===== verification/Hash_Table.thy ===== *)
theory Hash_Table
  imports Wire
begin

text \<open>
  The chained hash table of \<^verbatim>\<open>EXP/hash_lin.h\<close> in which the receiver keeps one entry per TCP flow.
  A chain is the list of its nodes in the order of their \<^verbatim>\<open>pNext\<close> pointers.  A key is the byte
  object the caller passes; the stored key is the copy that \<^verbatim>\<open>strcpy\<close> makes of it, which ends at the
  first NUL.  Every access to a key is guarded by the size of its object, so None means that the
  code reads memory that does not belong to the key.

  The table refines a partial map whose keys are pairs of a bucket and the first six bytes of the
  key, which is all that \<^verbatim>\<open>strcmp_lin\<close> compares.
\<close>

section \<open>State\<close>

record HashNode =
  sKey :: bytes
  node_time :: u64
  nValue :: u32

record hash_state =
  hashTable :: "nat \<Rightarrow> HashNode list"
  hash_table_size :: int

definition HASH_TABLE_MAX_SIZE :: nat where
  "HASH_TABLE_MAX_SIZE = 10000"

definition hash_table_init :: "hash_state" where
  "hash_table_init = \<lparr>hashTable = (\<lambda>_. []), hash_table_size = 0\<rparr>"

section \<open>Comparison and hashing of keys\<close>

text \<open>The loop counts the equal positions among the six it visits.\<close>

fun strcmp_lin_loop :: "bytes \<Rightarrow> bytes \<Rightarrow> nat \<Rightarrow> nat \<Rightarrow> nat \<Rightarrow> nat option" where
  "strcmp_lin_loop s t i 0 condition = Some condition"
| "strcmp_lin_loop s t i (Suc k) condition =
     (case (read_at s i, read_at t i) of
        (Some a, Some b) \<Rightarrow>
          strcmp_lin_loop s t (Suc i) k
            (if sint a - sint b = 0 then condition + 1 else condition)
      | _ \<Rightarrow> None)"

definition strcmp_lin :: "bytes \<Rightarrow> bytes \<Rightarrow> int option" where
  "strcmp_lin s t = (case strcmp_lin_loop s t 0 6 0 of
     None \<Rightarrow> None
   | Some condition \<Rightarrow> Some (if condition = 6 then 0 else 1))"

fun hash_loop :: "bytes \<Rightarrow> u32 \<Rightarrow> u32 option" where
  "hash_loop [] h = None"
| "hash_loop (c # cs) h =
     (if c = 0 then Some h else hash_loop cs (push_bit 5 h - h + scast c))"

fun hash_table_hash_str :: "bytes \<Rightarrow> u32 option" where
  "hash_table_hash_str [] = None"
| "hash_table_hash_str (c # cs) =
     (let h = scast c in if h \<noteq> 0 then hash_loop cs h else Some h)"

definition bucket_of :: "bytes \<Rightarrow> nat option" where
  "bucket_of skey = (case hash_table_hash_str skey of
     None \<Rightarrow> None
   | Some h \<Rightarrow> Some (unat h mod HASH_TABLE_MAX_SIZE))"

text \<open>The object that \<^verbatim>\<open>malloc (strlen (skey) + 1)\<close> and \<^verbatim>\<open>strcpy\<close> produce.\<close>

definition key_copy :: "bytes \<Rightarrow> bytes option" where
  "key_copy skey = (case c_strlen skey of None \<Rightarrow> None | Some n \<Rightarrow> Some (take (n + 1) skey))"

section \<open>Operations\<close>

fun chain_update :: "bytes \<Rightarrow> u32 \<Rightarrow> u64 \<Rightarrow> HashNode list \<Rightarrow> (HashNode list \<times> bool) option" where
  "chain_update skey v t [] = Some ([], False)"
| "chain_update skey v t (pHead # rest) =
     (case strcmp_lin (sKey pHead) skey of
        None \<Rightarrow> None
      | Some r \<Rightarrow>
          if r = 0 then Some (pHead\<lparr>nValue := v, node_time := t\<rparr> # rest, True)
          else (case chain_update skey v t rest of
                  None \<Rightarrow> None
                | Some (rest', found) \<Rightarrow> Some (pHead # rest', found)))"

definition hash_table_insert :: "bytes \<Rightarrow> u32 \<Rightarrow> u64 \<Rightarrow> hash_state \<Rightarrow> hash_state option" where
  "hash_table_insert skey nvalue time st =
    (if hash_table_size st \<ge> int HASH_TABLE_MAX_SIZE then Some st
     else case bucket_of skey of
       None \<Rightarrow> None
     | Some pos \<Rightarrow>
         (case chain_update skey nvalue time (hashTable st pos) of
            None \<Rightarrow> None
          | Some (chain, found_skey) \<Rightarrow>
              if found_skey then Some (st\<lparr>hashTable := (hashTable st)(pos := chain)\<rparr>)
              else (case key_copy skey of
                  None \<Rightarrow> None
                | Some k \<Rightarrow>
                    Some \<lparr>hashTable = (hashTable st)
                             (pos := \<lparr>sKey = k, node_time = time, nValue = nvalue\<rparr> # hashTable st pos),
                          hash_table_size = hash_table_size st + 1\<rparr>)))"

fun chain_remove :: "bytes \<Rightarrow> HashNode list \<Rightarrow> (HashNode list \<times> bool) option" where
  "chain_remove skey [] = Some ([], False)"
| "chain_remove skey (pHead # rest) =
     (case strcmp_lin skey (sKey pHead) of
        None \<Rightarrow> None
      | Some r \<Rightarrow>
          if r = 0 then Some (rest, True)
          else (case chain_remove skey rest of
                  None \<Rightarrow> None
                | Some (rest', removed) \<Rightarrow> Some (pHead # rest', removed)))"

definition hash_table_remove :: "bytes \<Rightarrow> hash_state \<Rightarrow> hash_state option" where
  "hash_table_remove skey st = (case bucket_of skey of
     None \<Rightarrow> None
   | Some pos \<Rightarrow>
       (case chain_remove skey (hashTable st pos) of
          None \<Rightarrow> None
        | Some (chain, removed) \<Rightarrow>
            Some (if removed
                  then \<lparr>hashTable = (hashTable st)(pos := chain),
                        hash_table_size = hash_table_size st - 1\<rparr>
                  else st)))"

fun chain_lookup :: "bytes \<Rightarrow> HashNode list \<Rightarrow> HashNode option option" where
  "chain_lookup skey [] = Some None"
| "chain_lookup skey (pHead # rest) =
     (case strcmp_lin skey (sKey pHead) of
        None \<Rightarrow> None
      | Some r \<Rightarrow> if r = 0 then Some (Some pHead) else chain_lookup skey rest)"

text \<open>The outer option is an access outside a key, the inner one the null pointer of a miss.\<close>

definition hash_table_lookup :: "bytes \<Rightarrow> hash_state \<Rightarrow> HashNode option option" where
  "hash_table_lookup skey st = (case bucket_of skey of
     None \<Rightarrow> None
   | Some pos \<Rightarrow> chain_lookup skey (hashTable st pos))"

text \<open>The assignment through the pointer that a lookup returns, \<^verbatim>\<open>hash_table_lookup (str)->time = time\<close>.\<close>

fun chain_set_time :: "bytes \<Rightarrow> u64 \<Rightarrow> HashNode list \<Rightarrow> HashNode list option" where
  "chain_set_time skey t [] = None"
| "chain_set_time skey t (pHead # rest) =
     (case strcmp_lin skey (sKey pHead) of
        None \<Rightarrow> None
      | Some r \<Rightarrow>
          if r = 0 then Some (pHead\<lparr>node_time := t\<rparr> # rest)
          else map_option ((#) pHead) (chain_set_time skey t rest))"

definition hash_table_set_time :: "bytes \<Rightarrow> u64 \<Rightarrow> hash_state \<Rightarrow> hash_state option" where
  "hash_table_set_time skey time st = (case bucket_of skey of
     None \<Rightarrow> None
   | Some pos \<Rightarrow> (case chain_set_time skey time (hashTable st pos) of
        None \<Rightarrow> None
      | Some chain \<Rightarrow> Some (st\<lparr>hashTable := (hashTable st)(pos := chain)\<rparr>)))"

section \<open>Dumping the flows\<close>

record flow_chain =
  fc_mac :: bytes
  fc_ip_src :: u32
  fc_ip_dst :: u32
  fc_port_src :: u16
  fc_port_dst :: u16

definition flow_of_key :: "bytes \<Rightarrow> flow_chain option" where
  "flow_of_key key = (case read_block key 0 18 of
     None \<Rightarrow> None
   | Some str \<Rightarrow> Some \<lparr>fc_mac = field_bytes str 0 6, fc_ip_src = field_word str 6 4,
       fc_ip_dst = field_word str 10 4, fc_port_src = field_word str 14 2,
       fc_port_dst = field_word str 16 2\<rparr>)"

fun flows_of_chain :: "HashNode list \<Rightarrow> flow_chain list option" where
  "flows_of_chain [] = Some []"
| "flows_of_chain (n # ns) = (case flow_of_key (sKey n) of
     None \<Rightarrow> None
   | Some f \<Rightarrow> (case flows_of_chain ns of None \<Rightarrow> None | Some fs \<Rightarrow> Some (f # fs)))"

text \<open>
  The list is built in a local variable and assigned to the parameter at the end, so the
  caller's pointer keeps its value: the second component is what the caller sees.
\<close>

definition flows_dump :: "hash_state \<Rightarrow> 'p \<Rightarrow> (flow_chain list \<times> 'p) option" where
  "flows_dump st flowc =
    (case flows_of_chain (concat (map (hashTable st) [0..<HASH_TABLE_MAX_SIZE])) of
       None \<Rightarrow> None
     | Some ptr \<Rightarrow> Some (ptr, flowc))"

section \<open>Comparison reads six bytes\<close>

lemma sint_eq_iff: "sint (a :: 'a::len word) = sint b \<longleftrightarrow> a = b"
  by (metis signed_word_eqI)

lemma strcmp_lin_loop_count:
  "i + k \<le> length s \<Longrightarrow> i + k \<le> length t \<Longrightarrow>
   strcmp_lin_loop s t i k c = Some (c + length (filter (\<lambda>j. s ! j = t ! j) [i..<i + k]))"
proof (induction k arbitrary: i c)
  case 0
  then show ?case by simp
next
  case (Suc k)
  have "[i..<i + Suc k] = i # [Suc i..<Suc i + k]"
    by (simp add: upt_conv_Cons)
  with Suc show ?case by (simp add: read_at_def sint_eq_iff del: upt_Suc)
qed

lemma take_eq_filter_nth:
  assumes "k \<le> length s" "k \<le> length t"
  shows "length (filter (\<lambda>j. s ! j = t ! j) [0..<k]) = k \<longleftrightarrow> take k s = take k t"
proof -
  have "length (filter (\<lambda>j. s ! j = t ! j) [0..<k]) = k \<longleftrightarrow> (\<forall>j<k. s ! j = t ! j)"
  proof
    assume len: "length (filter (\<lambda>j. s ! j = t ! j) [0..<k]) = k"
    show "\<forall>j<k. s ! j = t ! j"
    proof (intro allI impI, rule ccontr)
      fix j assume "j < k" "s ! j \<noteq> t ! j"
      then show False
        using len length_filter_less [of j "[0..<k]" "\<lambda>j. s ! j = t ! j"] by simp
    qed
  qed simp
  then show ?thesis using assms by (auto simp: list_eq_iff_nth_eq)
qed

lemma strcmp_lin_eq:
  "6 \<le> length s \<Longrightarrow> 6 \<le> length t \<Longrightarrow>
   strcmp_lin s t = Some (if take 6 s = take 6 t then 0 else 1)"
  using strcmp_lin_loop_count [of 0 6 s t 0] take_eq_filter_nth [of 6 s t]
  by (simp add: strcmp_lin_def)

section \<open>Keys\<close>

text \<open>
  A key that the table can hold: it has a NUL (or the hash runs off its end), and not before its
  sixth byte (or the stored copy is too short for the comparison).
\<close>

definition key_ok :: "bytes \<Rightarrow> bool" where
  "key_ok k = (case c_strlen k of None \<Rightarrow> False | Some n \<Rightarrow> 5 \<le> n)"

definition key_class :: "bytes \<Rightarrow> nat \<times> bytes" where
  "key_class k = (case bucket_of k of Some p \<Rightarrow> (p, take 6 k) | None \<Rightarrow> (0, take 6 k))"

lemma c_strlen_Some_iff:
  "c_strlen k = Some n \<longleftrightarrow> n < length k \<and> k ! n = 0 \<and> 0 \<notin> set (take n k)"
proof
  assume "c_strlen k = Some n"
  then have n: "n = length (takeWhile (\<lambda>c. c \<noteq> 0) k)" "n < length k"
    by (auto simp: c_strlen_def Let_def split: if_splits)
  then have "k ! n = 0"
    using nth_length_takeWhile [of "\<lambda>c. c \<noteq> 0" k] by simp
  moreover have "take n k = takeWhile (\<lambda>c. c \<noteq> 0) k"
    unfolding n(1) by (rule takeWhile_eq_take [symmetric])
  ultimately show "n < length k \<and> k ! n = 0 \<and> 0 \<notin> set (take n k)"
    using n by (auto dest: set_takeWhileD)
next
  assume a: "n < length k \<and> k ! n = 0 \<and> 0 \<notin> set (take n k)"
  then have "k = take n k @ 0 # drop (Suc n) k" by (metis id_take_nth_drop)
  with a show "c_strlen k = Some n"
    using c_strlen_terminated [of "take n k" "drop (Suc n) k"] by simp
qed

lemma hash_loop_prefix:
  "0 \<notin> set cs \<Longrightarrow> hash_loop (cs @ 0 # zs) h = hash_loop (cs @ [0]) h"
  by (induction cs arbitrary: h) auto

lemma hash_loop_defined: "0 \<notin> set cs \<Longrightarrow> hash_loop (cs @ 0 # zs) h \<noteq> None"
  by (induction cs arbitrary: h) auto

lemma hash_loop_undefined: "0 \<notin> set cs \<Longrightarrow> hash_loop cs h = None"
  by (induction cs arbitrary: h) auto

lemma scast_u8_eq_0: "(scast (c :: u8) :: u32) = 0 \<longleftrightarrow> c = 0"
proof
  assume a: "(scast c :: u32) = 0"
  show "c = 0"
  proof (rule bit_word_eqI)
    fix n assume "n < LENGTH(8)"
    moreover from a have "\<not> bit (scast c :: u32) n" by simp
    ultimately show "bit c n = bit 0 n" by (auto simp: bit_simps)
  qed
qed simp

lemma key_okE:
  assumes "key_ok k"
  obtains cs zs where "k = cs @ 0 # zs" "0 \<notin> set cs" "5 \<le> length cs"
    "key_copy k = Some (cs @ [0])"
proof -
  from assms obtain n where n: "c_strlen k = Some n" "5 \<le> n"
    by (auto simp: key_ok_def split: option.splits)
  then have "n < length k" "k ! n = 0" "0 \<notin> set (take n k)"
    by (simp_all add: c_strlen_Some_iff)
  moreover from this have "k = take n k @ 0 # drop (Suc n) k" by (metis id_take_nth_drop)
  moreover have "key_copy k = Some (take n k @ [0])"
    using n calculation by (simp add: key_copy_def take_Suc_conv_app_nth)
  ultimately show ?thesis
    using n(2) by (intro that [of "take n k" "drop (Suc n) k"]) simp_all
qed

lemma key_ok_length: "key_ok k \<Longrightarrow> 6 \<le> length k"
  by (erule key_okE) simp

lemma hash_str_prefix:
  "0 \<notin> set cs \<Longrightarrow> hash_table_hash_str (cs @ 0 # zs) = hash_table_hash_str (cs @ [0])"
proof (cases cs)
  case (Cons c cs')
  assume "0 \<notin> set cs"
  with Cons show ?thesis
    using hash_loop_prefix [of cs' zs "scast c"] by (simp add: Let_def)
qed simp

lemma hash_str_defined: "0 \<notin> set cs \<Longrightarrow> hash_table_hash_str (cs @ 0 # zs) \<noteq> None"
  by (cases cs) (use hash_loop_defined in \<open>simp_all add: Let_def\<close>)

lemma key_ok_bucket:
  assumes "key_ok k"
  shows "\<exists>p. bucket_of k = Some p \<and> p < HASH_TABLE_MAX_SIZE"
proof -
  from assms obtain cs zs where "k = cs @ 0 # zs" "0 \<notin> set cs" by (rule key_okE)
  then show ?thesis
    using hash_str_defined [of cs zs] by (auto simp: bucket_of_def HASH_TABLE_MAX_SIZE_def)
qed

lemma key_copy_ok:
  assumes "key_ok k"
  obtains k' where "key_copy k = Some k'" "key_ok k'" "take 6 k' = take 6 k"
    "bucket_of k' = bucket_of k"
proof -
  from assms obtain cs zs where k: "k = cs @ 0 # zs" "0 \<notin> set cs" "5 \<le> length cs"
    "key_copy k = Some (cs @ [0])" by (rule key_okE)
  moreover have "key_ok (cs @ [0])"
    using k by (simp add: key_ok_def c_strlen_terminated [of cs "[]", simplified])
  moreover have "bucket_of (cs @ [0]) = bucket_of k"
    using k hash_str_prefix [of cs zs] by (simp add: bucket_of_def)
  moreover have "take 6 (cs @ [0]) = take 6 k"
    using k(1,3) take_append [of 6 "cs @ [0]" zs] by simp
  ultimately show ?thesis using that [of "cs @ [0]"] by simp
qed

section \<open>Chains\<close>

definition chain_ok :: "nat \<Rightarrow> HashNode list \<Rightarrow> bool" where
  "chain_ok p ns \<longleftrightarrow>
     distinct (map (take 6 \<circ> sKey) ns) \<and>
     list_all (\<lambda>n. key_ok (sKey n) \<and> bucket_of (sKey n) = Some p) ns"

definition chain_map :: "HashNode list \<Rightarrow> bytes \<rightharpoonup> u32 \<times> u64" where
  "chain_map ns = map_of (map (\<lambda>n. (take 6 (sKey n), nValue n, node_time n)) ns)"

lemma chain_ok_simps [simp]:
  "chain_ok p []"
  "chain_ok p (n # ns) \<longleftrightarrow>
     take 6 (sKey n) \<notin> dom (chain_map ns) \<and> key_ok (sKey n) \<and>
     bucket_of (sKey n) = Some p \<and> chain_ok p ns"
  by (auto simp: chain_ok_def chain_map_def dom_map_of_conv_image_fst image_image)

lemma chain_map_simps [simp]:
  "chain_map [] = Map.empty"
  "chain_map (n # ns) = (chain_map ns)(take 6 (sKey n) \<mapsto> (nValue n, node_time n))"
  by (auto simp: chain_map_def)

lemma chain_lookup_map:
  "chain_ok p ns \<Longrightarrow> key_ok k \<Longrightarrow>
   \<exists>r. chain_lookup k ns = Some r \<and> map_option (\<lambda>n. (nValue n, node_time n)) r = chain_map ns (take 6 k)"
  by (induction ns) (auto simp: strcmp_lin_eq key_ok_length)

lemma chain_update_map:
  "chain_ok p ns \<Longrightarrow> key_ok k \<Longrightarrow>
   \<exists>ns' b. chain_update k v t ns = Some (ns', b) \<and> chain_ok p ns' \<and> length ns' = length ns \<and>
     b = (take 6 k \<in> dom (chain_map ns)) \<and>
     chain_map ns' = (if b then (chain_map ns)(take 6 k \<mapsto> (v, t)) else chain_map ns)"
proof (induction ns)
  case Nil
  then show ?case by (auto intro: exI [of _ False])
next
  case (Cons n ns)
  then obtain ns' b where IH: "chain_update k v t ns = Some (ns', b)" "chain_ok p ns'"
    "length ns' = length ns" "b = (take 6 k \<in> dom (chain_map ns))"
    "chain_map ns' = (if b then (chain_map ns)(take 6 k \<mapsto> (v, t)) else chain_map ns)" by auto
  show ?case
  proof (cases "take 6 (sKey n) = take 6 k")
    case True
    with Cons.prems show ?thesis by (auto simp: strcmp_lin_eq key_ok_length)
  next
    case False
    moreover from False have "take 6 k \<noteq> take 6 (sKey n)" by simp
    ultimately show ?thesis
      using Cons.prems IH
      by (intro exI [of _ "n # ns'"] exI [of _ b])
        (auto simp: strcmp_lin_eq key_ok_length fun_upd_twist)
  qed
qed

lemma chain_map_remove_fresh:
  "k \<notin> dom m \<Longrightarrow> m = (m(k \<mapsto> v))(k := None)"
  by (simp add: fun_upd_None_if_notin_dom)

lemma chain_remove_map:
  "chain_ok p ns \<Longrightarrow> key_ok k \<Longrightarrow>
   \<exists>ns' b. chain_remove k ns = Some (ns', b) \<and> chain_ok p ns' \<and>
     b = (take 6 k \<in> dom (chain_map ns)) \<and> length ns = (if b then Suc (length ns') else length ns') \<and>
     chain_map ns' = (chain_map ns)(take 6 k := None)"
proof (induction ns)
  case Nil
  then show ?case by (auto intro: exI [of _ False])
next
  case (Cons n ns)
  then have "chain_ok p ns" by simp
  from Cons.IH [OF this Cons.prems(2)]
  obtain ns' b where IH: "chain_remove k ns = Some (ns', b)" "chain_ok p ns'"
    "b = (take 6 k \<in> dom (chain_map ns))"
    "length ns = (if b then Suc (length ns') else length ns')"
    "chain_map ns' = (chain_map ns)(take 6 k := None)" by blast
  show ?case
  proof (cases "take 6 k = take 6 (sKey n)")
    case True
    moreover from Cons.prems have "take 6 (sKey n) \<notin> dom (chain_map ns)" by simp
    from chain_map_remove_fresh [OF this, of "(nValue n, node_time n)"]
    have "chain_map ns = (chain_map (n # ns))(take 6 k := None)" by (simp only: chain_map_simps True)
    ultimately show ?thesis
      using Cons.prems
      by (intro exI [of _ ns] exI [of _ True])
        (simp add: strcmp_lin_eq key_ok_length del: fun_upd_apply)
  next
    case False
    then show ?thesis
      using Cons.prems IH
      by (intro exI [of _ "n # ns'"] exI [of _ b])
        (auto simp: strcmp_lin_eq key_ok_length fun_upd_twist)
  qed
qed

section \<open>The table\<close>

definition hash_wf :: "hash_state \<Rightarrow> bool" where
  "hash_wf st \<longleftrightarrow>
     (\<forall>p. chain_ok p (hashTable st p)) \<and>
     hash_table_size st = (\<Sum>p<HASH_TABLE_MAX_SIZE. int (length (hashTable st p)))"

definition hash_content :: "hash_state \<Rightarrow> nat \<times> bytes \<rightharpoonup> u32 \<times> u64" where
  "hash_content st = (\<lambda>(p, k). chain_map (hashTable st p) k)"

definition hash_full :: "hash_state \<Rightarrow> bool" where
  "hash_full st \<longleftrightarrow> hash_table_size st \<ge> int HASH_TABLE_MAX_SIZE"

lemma hash_wf_init: "hash_wf hash_table_init" and hash_content_init: "hash_content hash_table_init = Map.empty"
  by (auto simp: hash_wf_def hash_table_init_def hash_content_def)

lemma hash_not_full_init: "\<not> hash_full hash_table_init"
  by (simp add: hash_full_def hash_table_init_def HASH_TABLE_MAX_SIZE_def)

lemma hash_content_upd:
  "hash_content (st\<lparr>hashTable := (hashTable st)(p := ns)\<rparr>) =
    (\<lambda>(q, k). if q = p then chain_map ns k else hash_content st (q, k))"
  by (auto simp: hash_content_def fun_eq_iff)

lemma sum_length_upd:
  fixes p :: nat
  assumes "p < n"
  shows "(\<Sum>q<n. int (length ((T(p := ns)) q))) =
    (\<Sum>q<n. int (length (T q))) + int (length ns) - int (length (T p))"
proof -
  let ?s = "\<lambda>U. \<Sum>q \<in> {..<n} - {p}. int (length (U q))"
  have split: "(\<Sum>q<n. int (length (U q))) = int (length (U p)) + ?s U" for U :: "nat \<Rightarrow> 'a list"
    using assms by (simp add: sum.remove)
  have "?s (T(p := ns)) = ?s T" by (rule sum.cong) auto
  then show ?thesis by (simp only: split fun_upd_same)
qed

lemma hash_table_lookup_content:
  assumes "hash_wf st" "key_ok k"
  shows "\<exists>r. hash_table_lookup k st = Some r \<and>
    map_option (\<lambda>n. (nValue n, node_time n)) r = hash_content st (key_class k)"
proof -
  from key_ok_bucket [OF assms(2)] obtain p where "bucket_of k = Some p" by blast
  with assms show ?thesis
    using chain_lookup_map [of p "hashTable st p" k]
    by (simp add: hash_table_lookup_def hash_content_def key_class_def hash_wf_def)
qed

lemma hash_table_insert_content:
  assumes wf: "hash_wf st" and ok: "key_ok k"
  shows "\<exists>st'. hash_table_insert k v t st = Some st' \<and> hash_wf st' \<and>
    hash_content st' = (if hash_full st then hash_content st
                        else (hash_content st)(key_class k \<mapsto> (v, t)))"
proof (cases "hash_full st")
  case True
  with wf show ?thesis by (auto simp: hash_table_insert_def hash_full_def)
next
  case False
  from key_ok_bucket [OF ok] obtain p where p: "bucket_of k = Some p" "p < HASH_TABLE_MAX_SIZE" by blast
  let ?ns = "hashTable st p"
  from wf have "chain_ok p ?ns" by (simp add: hash_wf_def)
  from chain_update_map [OF this ok] obtain ns' b where
    u: "chain_update k v t ?ns = Some (ns', b)" "chain_ok p ns'" "length ns' = length ?ns"
      "b = (take 6 k \<in> dom (chain_map ?ns))"
      "chain_map ns' = (if b then (chain_map ?ns)(take 6 k \<mapsto> (v, t)) else chain_map ?ns)"
    by blast
  obtain k' where k': "key_copy k = Some k'" "key_ok k'" "take 6 k' = take 6 k" "bucket_of k' = Some p"
    using key_copy_ok [OF ok] p by metis
  let ?new = "\<lparr>sKey = k', node_time = t, nValue = v\<rparr> # ?ns"
  define ch where "ch = (if b then ns' else ?new)"
  have ch: "chain_ok p ch" "chain_map ch = (chain_map ?ns)(take 6 k \<mapsto> (v, t))"
    "length ch = (if b then length ?ns else length ?ns + 1)"
    using u k' \<open>chain_ok p ?ns\<close> by (auto simp: ch_def)
  define st' where "st' = \<lparr>hashTable = (hashTable st)(p := ch),
    hash_table_size = (if b then hash_table_size st else hash_table_size st + 1)\<rparr>"
  have "hash_table_insert k v t st = Some st'"
    using False p u k' by (simp add: hash_table_insert_def hash_full_def st'_def ch_def)
  moreover have "hash_wf st'"
    using wf ch sum_length_upd [OF p(2), of "hashTable st" ch]
    by (cases b) (simp_all add: hash_wf_def st'_def)
  moreover have "hash_content st' = (hash_content st)(key_class k \<mapsto> (v, t))"
    using ch p by (auto simp: hash_content_def st'_def key_class_def fun_eq_iff)
  ultimately show ?thesis using False by simp
qed

lemma hash_table_remove_content:
  assumes wf: "hash_wf st" and ok: "key_ok k"
  shows "\<exists>st'. hash_table_remove k st = Some st' \<and> hash_wf st' \<and>
    hash_content st' = (hash_content st)(key_class k := None)"
proof -
  from key_ok_bucket [OF ok] obtain p where p: "bucket_of k = Some p" "p < HASH_TABLE_MAX_SIZE" by blast
  let ?ns = "hashTable st p"
  from wf have "chain_ok p ?ns" by (simp add: hash_wf_def)
  from chain_remove_map [OF this ok] obtain ns' b where
    r: "chain_remove k ?ns = Some (ns', b)" "chain_ok p ns'" "b = (take 6 k \<in> dom (chain_map ?ns))"
      "length ?ns = (if b then Suc (length ns') else length ns')"
      "chain_map ns' = (chain_map ?ns)(take 6 k := None)"
    by blast
  define st' where "st' = (if b then \<lparr>hashTable = (hashTable st)(p := ns'),
    hash_table_size = hash_table_size st - 1\<rparr> else st)"
  have "hash_table_remove k st = Some st'"
    using p r by (simp add: hash_table_remove_def st'_def)
  moreover have "hash_wf st'"
    using wf r sum_length_upd [OF p(2), of "hashTable st" ns']
    by (cases b) (simp_all add: hash_wf_def st'_def)
  moreover have "\<not> b \<Longrightarrow> chain_map ?ns (take 6 k) = None"
    using r(3) by (metis domIff)
  then have "hash_content st' = (hash_content st)(key_class k := None)"
    using r(5) p by (auto simp: hash_content_def st'_def key_class_def fun_eq_iff)
  ultimately show ?thesis by simp
qed

lemma chain_set_time_map:
  "chain_ok p ns \<Longrightarrow> key_ok k \<Longrightarrow> chain_map ns (take 6 k) = Some (v, t) \<Longrightarrow>
   \<exists>ns'. chain_set_time k t' ns = Some ns' \<and> chain_ok p ns' \<and> length ns' = length ns \<and>
     chain_map ns' = (chain_map ns)(take 6 k \<mapsto> (v, t'))"
proof (induction ns)
  case Nil
  then show ?case by simp
next
  case (Cons n ns)
  show ?case
  proof (cases "take 6 k = take 6 (sKey n)")
    case True
    with Cons.prems show ?thesis by (auto simp: strcmp_lin_eq key_ok_length)
  next
    case False
    with Cons.prems have "chain_ok p ns" "chain_map ns (take 6 k) = Some (v, t)" by simp_all
    from Cons.IH [OF this(1) Cons.prems(2) this(2)] obtain ns' where IH:
      "chain_set_time k t' ns = Some ns'" "chain_ok p ns'" "length ns' = length ns"
      "chain_map ns' = (chain_map ns)(take 6 k \<mapsto> (v, t'))" by blast
    with False Cons.prems show ?thesis
      by (intro exI [of _ "n # ns'"]) (auto simp: strcmp_lin_eq key_ok_length fun_upd_twist)
  qed
qed

lemma hash_table_set_time_content:
  assumes wf: "hash_wf st" and ok: "key_ok k" and found: "hash_content st (key_class k) = Some (v, t)"
  shows "\<exists>st'. hash_table_set_time k t' st = Some st' \<and> hash_wf st' \<and>
    hash_content st' = (hash_content st)(key_class k \<mapsto> (v, t'))"
proof -
  from key_ok_bucket [OF ok] obtain p where p: "bucket_of k = Some p" "p < HASH_TABLE_MAX_SIZE" by blast
  let ?ns = "hashTable st p"
  have "chain_ok p ?ns" "chain_map ?ns (take 6 k) = Some (v, t)"
    using wf found p by (simp_all add: hash_wf_def hash_content_def key_class_def)
  from chain_set_time_map [OF this(1) ok this(2), of t'] obtain ns' where
    u: "chain_set_time k t' ?ns = Some ns'" "chain_ok p ns'" "length ns' = length ?ns"
      "chain_map ns' = (chain_map ?ns)(take 6 k \<mapsto> (v, t'))" by blast
  define st' where "st' = st\<lparr>hashTable := (hashTable st)(p := ns')\<rparr>"
  have "hash_table_set_time k t' st = Some st'"
    using p u by (simp add: hash_table_set_time_def st'_def)
  moreover have "hash_wf st'"
    using wf u sum_length_upd [OF p(2), of "hashTable st" ns']
    by (simp add: hash_wf_def st'_def)
  moreover have "hash_content st' = (hash_content st)(key_class k \<mapsto> (v, t'))"
    using u p by (auto simp: hash_content_def st'_def key_class_def fun_eq_iff)
  ultimately show ?thesis by blast
qed

section \<open>The interface of a flow store\<close>

text \<open>
  What the decoder of TCP segments needs of its table: three operations, a class of admissible
  keys, a classification of keys, and a content that behaves as a partial map until the store
  is full.
\<close>

datatype ('k, 'v) store_op = Put 'k 'v | Del 'k

fun op_key :: "('k, 'v) store_op \<Rightarrow> 'k" where
  "op_key (Put k v) = k"
| "op_key (Del k) = k"

fun run_store ::
  "('k \<Rightarrow> 'v \<Rightarrow> 's \<Rightarrow> 's option) \<Rightarrow> ('k \<Rightarrow> 's \<Rightarrow> 's option) \<Rightarrow> ('k, 'v) store_op list \<Rightarrow> 's \<Rightarrow> 's option"
where
  "run_store ins del [] s = Some s"
| "run_store ins del (Put k v # ops) s =
     (case ins k v s of None \<Rightarrow> None | Some s' \<Rightarrow> run_store ins del ops s')"
| "run_store ins del (Del k # ops) s =
     (case del k s of None \<Rightarrow> None | Some s' \<Rightarrow> run_store ins del ops s')"

text \<open>The specification: a map over key classes that refuses to grow beyond its capacity.\<close>

fun spec_step :: "nat \<Rightarrow> ('k \<Rightarrow> 'c) \<Rightarrow> ('k, 'v) store_op \<Rightarrow> ('c \<rightharpoonup> 'v) \<Rightarrow> ('c \<rightharpoonup> 'v)" where
  "spec_step cap cls (Put k v) m = (if card (dom m) \<ge> cap then m else m(cls k \<mapsto> v))"
| "spec_step cap cls (Del k) m = m(cls k := None)"

definition spec_run :: "nat \<Rightarrow> ('k \<Rightarrow> 'c) \<Rightarrow> ('k, 'v) store_op list \<Rightarrow> ('c \<rightharpoonup> 'v) \<Rightarrow> ('c \<rightharpoonup> 'v)" where
  "spec_run cap cls ops m = fold (spec_step cap cls) ops m"

locale flow_store =
  fixes inv :: "'s \<Rightarrow> bool"
    and ok :: "'k \<Rightarrow> bool"
    and cls :: "'k \<Rightarrow> 'c"
    and content :: "'s \<Rightarrow> 'c \<rightharpoonup> 'v"
    and cap :: nat
    and look :: "'k \<Rightarrow> 's \<Rightarrow> 'v option option"
    and ins :: "'k \<Rightarrow> 'v \<Rightarrow> 's \<Rightarrow> 's option"
    and del :: "'k \<Rightarrow> 's \<Rightarrow> 's option"
  assumes look_content: "inv s \<Longrightarrow> ok k \<Longrightarrow> look k s = Some (content s (cls k))"
    and ins_content: "inv s \<Longrightarrow> ok k \<Longrightarrow>
      \<exists>s'. ins k v s = Some s' \<and> inv s' \<and> content s' = spec_step cap cls (Put k v) (content s)"
    and del_content: "inv s \<Longrightarrow> ok k \<Longrightarrow>
      \<exists>s'. del k s = Some s' \<and> inv s' \<and> content s' = spec_step cap cls (Del k) (content s)"
begin

lemma run_store_refines:
  "inv s \<Longrightarrow> list_all (\<lambda>x. ok (op_key x)) ops \<Longrightarrow>
   \<exists>s'. run_store ins del ops s = Some s' \<and> inv s' \<and> content s' = spec_run cap cls ops (content s)"
proof (induction ops arbitrary: s)
  case Nil
  then show ?case by (simp add: spec_run_def)
next
  case (Cons a ops)
  have "\<exists>s'. inv s' \<and> content s' = spec_step cap cls a (content s) \<and>
    run_store ins del (a # ops) s = run_store ins del ops s'"
  proof (cases a)
    case (Put k v)
    with Cons.prems ins_content [of s k v] show ?thesis by (auto simp del: spec_step.simps)
  next
    case (Del k)
    with Cons.prems del_content [of s k] show ?thesis by (auto simp del: spec_step.simps)
  qed
  then obtain s' where
    "inv s'" "content s' = spec_step cap cls a (content s)"
    "run_store ins del (a # ops) s = run_store ins del ops s'" by blast
  with Cons.IH [of s'] Cons.prems show ?case by (simp add: spec_run_def)
qed

lemma look_after_run:
  "inv s \<Longrightarrow> list_all (\<lambda>x. ok (op_key x)) ops \<Longrightarrow> ok k \<Longrightarrow>
   \<exists>s'. run_store ins del ops s = Some s' \<and>
     look k s' = Some (spec_run cap cls ops (content s) (cls k))"
  using run_store_refines look_content by metis

lemma look_after_put:
  "inv s \<Longrightarrow> ok k \<Longrightarrow> card (dom (content s)) < cap \<Longrightarrow>
   \<exists>s'. ins k v s = Some s' \<and> look k s' = Some (Some v)"
  using ins_content [of s k v] look_content by fastforce

lemma look_after_del:
  "inv s \<Longrightarrow> ok k \<Longrightarrow> \<exists>s'. del k s = Some s' \<and> look k s' = Some None"
  using del_content [of s k] look_content by fastforce

end

text \<open>The table's operations at the types of the interface.\<close>

definition hash_look :: "bytes \<Rightarrow> hash_state \<Rightarrow> (u32 \<times> u64) option option" where
  "hash_look k st = map_option (map_option (\<lambda>n. (nValue n, node_time n))) (hash_table_lookup k st)"

definition hash_ins :: "bytes \<Rightarrow> u32 \<times> u64 \<Rightarrow> hash_state \<Rightarrow> hash_state option" where
  "hash_ins k v st = hash_table_insert k (fst v) (snd v) st"

lemma dom_chain_map: "dom (chain_map ns) = take 6 ` sKey ` set ns"
  by (simp add: chain_map_def dom_map_of_conv_image_fst image_image)

lemma card_dom_chain_map: "chain_ok p ns \<Longrightarrow> card (dom (chain_map ns)) = length ns"
  by (simp add: chain_ok_def dom_chain_map image_image distinct_card [of "map (take 6 \<circ> sKey) ns", simplified])

lemma chain_ok_bucket_bound:
  "chain_ok p ns \<Longrightarrow> HASH_TABLE_MAX_SIZE \<le> p \<Longrightarrow> ns = []"
  by (cases ns) (auto dest: key_ok_bucket)

lemma hash_size_card:
  assumes "hash_wf st"
  shows "hash_table_size st = int (card (dom (hash_content st)))"
proof -
  let ?d = "\<lambda>p. dom (chain_map (hashTable st p))"
  have "dom (hash_content st) = Sigma {..<HASH_TABLE_MAX_SIZE} ?d"
  proof -
    have "p < HASH_TABLE_MAX_SIZE" if "chain_map (hashTable st p) k = Some v" for p k v
      using assms chain_ok_bucket_bound [of p "hashTable st p"] that
      by (force simp: hash_wf_def not_less)
    then show ?thesis by (force simp: hash_content_def dom_def)
  qed
  also have "card (Sigma {..<HASH_TABLE_MAX_SIZE} ?d) = (\<Sum>p<HASH_TABLE_MAX_SIZE. card (?d p))"
    by (simp add: dom_chain_map)
  also have "\<dots> = (\<Sum>p<HASH_TABLE_MAX_SIZE. length (hashTable st p))"
    using assms by (intro sum.cong) (auto simp: hash_wf_def intro: card_dom_chain_map)
  finally show ?thesis using assms by (simp add: hash_wf_def)
qed

interpretation hash: flow_store hash_wf key_ok key_class hash_content HASH_TABLE_MAX_SIZE
  hash_look hash_ins hash_table_remove
proof
  fix s k assume "hash_wf s" "key_ok k"
  then show "hash_look k s = Some (hash_content s (key_class k))"
    using hash_table_lookup_content by (fastforce simp: hash_look_def)
next
  fix s k v assume a: "hash_wf s" "key_ok k"
  then show "\<exists>s'. hash_ins k v s = Some s' \<and> hash_wf s' \<and>
    hash_content s' = spec_step HASH_TABLE_MAX_SIZE key_class (Put k v) (hash_content s)"
    using hash_table_insert_content [OF a, of "fst v" "snd v"] hash_size_card [OF a(1)]
    by (cases v) (auto simp: hash_ins_def hash_full_def)
next
  fix s k assume "hash_wf s" "key_ok k"
  then show "\<exists>s'. hash_table_remove k s = Some s' \<and> hash_wf s' \<and>
    hash_content s' = spec_step HASH_TABLE_MAX_SIZE key_class (Del k) (hash_content s)"
    using hash_table_remove_content by simp
qed

section \<open>Properties\<close>

text \<open>
  C1.  From the empty table, any sequence of insertions and removals with admissible keys runs
  without an access outside a key, keeps the table well formed (no two nodes of a chain agree on
  the bytes that are compared, the counter is the number of nodes), and leaves a table whose
  lookups are those of the partial map over key classes that refuses insertions at capacity.
\<close>

theorem hash_table_refines_map:
  assumes "list_all (\<lambda>x. key_ok (op_key x)) ops" and "key_ok k"
  shows "\<exists>st. run_store hash_ins hash_table_remove ops hash_table_init = Some st \<and> hash_wf st \<and>
    hash_look k st = Some (spec_run HASH_TABLE_MAX_SIZE key_class ops Map.empty (key_class k))"
proof -
  from hash.run_store_refines [OF hash_wf_init assms(1)]
  obtain st where "run_store hash_ins hash_table_remove ops hash_table_init = Some st" "hash_wf st"
    "hash_content st = spec_run HASH_TABLE_MAX_SIZE key_class ops Map.empty"
    by (auto simp: hash_content_init)
  then show ?thesis
    using hash.look_content [of st k] assms(2) by auto
qed

text \<open>
  A key without a NUL byte makes every operation read past the end of the key, because the
  hash runs until it meets one.  The receiver builds its keys from a MAC address, two addresses
  and two ports in an object of 18 bytes with no terminator.
\<close>

theorem hash_unterminated_key:
  assumes "0 \<notin> set k"
  shows "hash_table_lookup k st = None \<and> hash_table_remove k st = None \<and>
    (hash_full st \<or> hash_table_insert k v t st = None)"
proof -
  have "bucket_of k = None"
    using assms hash_loop_undefined [of "tl k"] by (cases k) (auto simp: bucket_of_def scast_u8_eq_0 Let_def)
  then show ?thesis
    by (auto simp: hash_table_lookup_def hash_table_remove_def hash_table_insert_def hash_full_def)
qed

theorem hash_unterminated_key_witness:
  "hash_table_lookup (replicate 18 1) hash_table_init = None"
  using hash_unterminated_key [of "replicate 18 1" hash_table_init 0 0] by (simp add: numeral_eq_Suc)

text \<open>
  An access point whose address starts with a zero byte: the stored copy of its key is a
  single NUL, so once a flow of it is in the table the next lookup in that bucket compares six
  bytes of an object that has one.
\<close>

theorem hash_zero_oui_overread:
  assumes "hd k = 0" and "k \<noteq> []"
  shows "\<exists>st. hash_table_insert k v t hash_table_init = Some st \<and> hash_table_lookup k st = None"
proof -
  from assms obtain ks where k: "k = 0 # ks" by (cases k) auto
  have b: "bucket_of (0 # ks) = Some 0" by (simp add: bucket_of_def HASH_TABLE_MAX_SIZE_def)
  have c: "key_copy (0 # ks) = Some [0]" by (simp add: key_copy_def c_strlen_def)
  have "strcmp_lin (0 # ks) [0] = None"
    by (cases ks) (auto simp: strcmp_lin_def numeral_eq_Suc read_at_def split: if_splits)
  with k b c show ?thesis
    by (simp add: hash_table_insert_def hash_table_init_def hash_table_lookup_def HASH_TABLE_MAX_SIZE_def)
qed

theorem hash_zero_oui_overread_witness:
  "\<exists>st. hash_table_insert [0, 1, 2] 7 9 hash_table_init = Some st \<and> hash_table_lookup [0, 1, 2] st = None"
  using hash_zero_oui_overread [of "[0, 1, 2]" 7 9] by simp

text \<open>
  An access point whose address ends in a zero byte, and has no other: all its flows are one
  entry of the table, whatever their addresses and ports, so the window scale stored for the
  last flow is the one that every other flow of that access point is given.
\<close>

theorem hash_flows_of_ap_merge:
  assumes "length m = 5" and "0 \<notin> set m" and wf: "hash_wf st" and room: "\<not> hash_full st"
  shows "\<exists>st'. hash_table_insert (m @ 0 # r1) v t st = Some st' \<and>
    hash_look (m @ 0 # r2) st' = Some (Some (v, t))"
proof -
  have ok: "key_ok (m @ 0 # r)" for r using assms by (simp add: key_ok_def)
  have cls: "key_class (m @ 0 # r1) = key_class (m @ 0 # r2)"
    using assms(1,2) hash_str_prefix [of m r1] hash_str_prefix [of m r2]
    by (simp add: key_class_def bucket_of_def split: option.splits)
  from hash.ins_content [OF wf ok, of r1 "(v, t)"] room hash_size_card [OF wf]
  obtain st' where "hash_table_insert (m @ 0 # r1) v t st = Some st'" "hash_wf st'"
    "hash_content st' = (hash_content st)(key_class (m @ 0 # r1) \<mapsto> (v, t))"
    by (auto simp: hash_ins_def hash_full_def)
  then show ?thesis
    using hash.look_content [OF _ ok, of st' r2] cls by simp
qed

theorem hash_flows_of_ap_merge_witness:
  "\<exists>st'. hash_table_insert ([4, 161, 81, 163, 87] @ 0 # [10]) 3 1 hash_table_init = Some st' \<and>
     hash_look ([4, 161, 81, 163, 87] @ 0 # [11]) st' = Some (Some (3, 1))"
  by (rule hash_flows_of_ap_merge [OF _ _ hash_wf_init]) (simp_all add: hash_not_full_init)

theorem hash_table_refines_map_witness:
  "\<exists>st. run_store hash_ins hash_table_remove
      [Put [4, 161, 81, 163, 87, 26, 0] (7, 100), Del [4, 161, 81, 163, 87, 27, 0]] hash_table_init = Some st \<and>
    hash_wf st \<and>
    hash_look [4, 161, 81, 163, 87, 26, 0] st =
      Some (spec_run HASH_TABLE_MAX_SIZE key_class
        [Put [4, 161, 81, 163, 87, 26, 0] (7, 100), Del [4, 161, 81, 163, 87, 27, 0]] Map.empty
        (key_class [4, 161, 81, 163, 87, 26, 0]))"
  by (rule hash_table_refines_map) (simp_all add: key_ok_def c_strlen_def)

end
