(* ===== verification/Api_Ring.thy ===== *)
theory Api_Ring
  imports Prelude
begin

text \<open>
  The buffers between the decoders of \<^verbatim>\<open>new_receiver.c\<close> and its API: an array of BUFFER_STORE
  records, the index of the next write, and for each of two independent groups of readers a start
  index and an amount.  Indices are natural numbers; an amount is an \<open>int\<close>, because the readers
  decrement it and test for a negative value.
\<close>

definition BUFFER_STORE :: nat where
  "BUFFER_STORE = 10000"

lemma BUFFER_STORE_pos [simp]: "0 < BUFFER_STORE" "1 < BUFFER_STORE" "BUFFER_STORE \<noteq> 0"
  by (simp_all add: BUFFER_STORE_def)

record 'a api_ring =
  slots :: "nat \<Rightarrow> 'a"
  bstart :: nat
  bend :: nat
  bamount :: int
  bstart1 :: nat
  bamount1 :: int

definition empty_ring :: "(nat \<Rightarrow> 'a) \<Rightarrow> 'a api_ring" where
  "empty_ring mem = \<lparr>slots = mem, bstart = 0, bend = 0, bamount = 0, bstart1 = 0, bamount1 = 0\<rparr>"

section \<open>Writing\<close>

text \<open>
  A decoder overwrites fields of the record at the write index, advances the index, and moves a
  start index to the slot after the write index once its amount exceeds the capacity.
\<close>

definition ring_push :: "('a \<Rightarrow> 'a) \<Rightarrow> 'a api_ring \<Rightarrow> 'a api_ring" where
  "ring_push upd r =
    (let slots' = (slots r)(bend r := upd (slots r (bend r)));
         amount = bamount r + 1;
         amount1 = bamount1 r + 1;
         end' = (bend r + 1) mod BUFFER_STORE
     in \<lparr>slots = slots',
         bstart = (if amount > int BUFFER_STORE then (end' + 1) mod BUFFER_STORE else bstart r),
         bend = end',
         bamount = (if amount > int BUFFER_STORE then int BUFFER_STORE else amount),
         bstart1 = (if amount1 > int BUFFER_STORE then (end' + 1) mod BUFFER_STORE else bstart1 r),
         bamount1 = (if amount1 > int BUFFER_STORE then int BUFFER_STORE else amount1)\<rparr>)"

text \<open>The survey buffer has one group of readers only.\<close>

definition survey_push :: "('a \<Rightarrow> 'a) \<Rightarrow> 'a api_ring \<Rightarrow> 'a api_ring" where
  "survey_push upd r =
    (let slots' = (slots r)(bend r := upd (slots r (bend r)));
         amount = bamount r + 1;
         end' = (bend r + 1) mod BUFFER_STORE
     in r\<lparr>slots := slots',
          bstart := (if amount > int BUFFER_STORE then (end' + 1) mod BUFFER_STORE else bstart r),
          bend := end',
          bamount := (if amount > int BUFFER_STORE then int BUFFER_STORE else amount)\<rparr>)"

section \<open>What a reader sees\<close>

text \<open>The length a reader computes from the indices, and the records it visits.\<close>

definition window_length :: "nat \<Rightarrow> nat \<Rightarrow> nat" where
  "window_length first last' =
    (if last' \<ge> first then last' - first else last' + BUFFER_STORE - first)"

definition ring_window :: "'a api_ring \<Rightarrow> 'a list" where
  "ring_window r =
    map (\<lambda>i. slots r ((bstart r + i) mod BUFFER_STORE)) [0..<window_length (bstart r) (bend r)]"

definition ring_window1 :: "'a api_ring \<Rightarrow> 'a list" where
  "ring_window1 r =
    map (\<lambda>i. slots r ((bstart1 r + i) mod BUFFER_STORE)) [0..<window_length (bstart1 r) (bend r)]"

text \<open>
  The state after n writes to an empty ring, as a function of n: the write index is n modulo the
  capacity; the start index follows it at a distance of one slot from the moment the ring has
  overflowed, so that BUFFER_STORE - 1 records are visible.
\<close>

definition ring_after :: "nat \<Rightarrow> nat \<times> nat \<times> int" where
  "ring_after n =
    (if n \<le> BUFFER_STORE then (0, n mod BUFFER_STORE, int n)
     else ((n + 1) mod BUFFER_STORE, n mod BUFFER_STORE, int BUFFER_STORE))"

fun push_all :: "('a \<Rightarrow> 'a) list \<Rightarrow> 'a api_ring \<Rightarrow> 'a api_ring" where
  "push_all [] r = r"
| "push_all (u # us) r = push_all us (ring_push u r)"

lemma push_all_snoc: "push_all (us @ [u]) r = ring_push u (push_all us r)"
  by (induction us arbitrary: r) auto

lemma mod_Suc_Suc: "Suc (Suc (m mod k)) mod k = Suc (Suc m) mod k"
  by (metis mod_Suc_eq)

lemma push_all_indices:
  "(bstart (push_all us (empty_ring mem)), bend (push_all us (empty_ring mem)),
    bamount (push_all us (empty_ring mem))) = ring_after (length us) \<and>
   bstart1 (push_all us (empty_ring mem)) = bstart (push_all us (empty_ring mem)) \<and>
   bamount1 (push_all us (empty_ring mem)) = bamount (push_all us (empty_ring mem))"
proof (induction us rule: rev_induct)
  case Nil
  show ?case by (simp add: empty_ring_def ring_after_def)
next
  case (snoc u us)
  then show ?case
    by (auto simp: push_all_snoc ring_push_def Let_def ring_after_def mod_Suc_eq mod_Suc_Suc split: if_splits)
qed

text \<open>The slot a record was written to holds it until BUFFER_STORE further writes.\<close>

lemma push_all_slot:
  assumes view: "\<And>x old. view (wr x old) = x"
  shows "i < length xs \<Longrightarrow> length xs \<le> i + BUFFER_STORE \<Longrightarrow>
   view (slots (push_all (map wr xs) (empty_ring mem)) (i mod BUFFER_STORE)) = xs ! i"
proof (induction xs rule: rev_induct)
  case Nil
  then show ?case by simp
next
  case (snoc x xs)
  let ?r = "push_all (map wr xs) (empty_ring mem)"
  have e: "bend ?r = length xs mod BUFFER_STORE"
    using push_all_indices [of "map wr xs" mem] by (auto simp: ring_after_def split: if_splits)
  show ?case
  proof (cases "i = length xs")
    case True
    then show ?thesis
      by (simp add: push_all_snoc ring_push_def Let_def e view)
  next
    case False
    then have "i < length xs" using snoc.prems by simp
    moreover have "i mod BUFFER_STORE \<noteq> length xs mod BUFFER_STORE"
    proof
      assume "i mod BUFFER_STORE = length xs mod BUFFER_STORE"
      then have "BUFFER_STORE dvd length xs - i"
        using \<open>i < length xs\<close> by (metis mod_eq_dvd_iff_nat less_imp_le)
      then have "BUFFER_STORE \<le> length xs - i"
        using \<open>i < length xs\<close> by (intro dvd_imp_le) auto
      then show False using snoc.prems(2) \<open>i < length xs\<close> by simp
    qed
    ultimately show ?thesis
      using snoc.IH snoc.prems by (simp add: push_all_snoc ring_push_def Let_def e nth_append)
  qed
qed

text \<open>The part of a history of writes that the readers of a ring are shown.\<close>

definition visible :: "'b list \<Rightarrow> 'b list" where
  "visible xs =
    (if length xs < BUFFER_STORE then xs
     else if length xs = BUFFER_STORE then []
     else drop (length xs - (BUFFER_STORE - 1)) xs)"

lemma window_length_after:
  "ring_after n = (s, e, a) \<Longrightarrow>
   window_length s e =
    (if n < BUFFER_STORE then n else if n = BUFFER_STORE then 0 else BUFFER_STORE - 1)"
  by (auto simp: ring_after_def window_length_def mod_Suc split: if_splits)

text \<open>
  C15.  What a reader of a ring sees after any sequence of writes by a decoder: the writes so far
  in order while they fit, nothing at all when exactly BUFFER_STORE writes have been made (the
  start and the write index then coincide), and the last BUFFER_STORE - 1 of them in order from
  then on.
\<close>

theorem ring_window_visible:
  assumes view: "\<And>x old. view (wr x old) = x"
  shows "map view (ring_window (push_all (map wr xs) (empty_ring mem))) = visible xs"
    (is "map view (ring_window ?r) = _")
proof -
  let ?n = "length xs"
  let ?len = "if ?n < BUFFER_STORE then ?n else if ?n = BUFFER_STORE then 0 else BUFFER_STORE - 1"
  have idx: "ring_after ?n = (bstart ?r, bend ?r, bamount ?r)"
    using push_all_indices [of "map wr xs" mem] by simp
  from window_length_after [OF idx] have len: "window_length (bstart ?r) (bend ?r) = ?len" .
  have start: "?n > BUFFER_STORE \<Longrightarrow> bstart ?r = Suc ?n mod BUFFER_STORE"
    "?n \<le> BUFFER_STORE \<Longrightarrow> bstart ?r = 0"
    using idx by (auto simp: ring_after_def)
  have slot: "view (slots ?r ((bstart ?r + i) mod BUFFER_STORE)) = visible xs ! i" if "i < ?len" for i
  proof (cases "?n < BUFFER_STORE")
    case True
    with that start show ?thesis
      using push_all_slot [of view wr i xs mem, OF view] by (simp add: visible_def)
  next
    case False
    with that have n: "?n > BUFFER_STORE" "i < BUFFER_STORE - 1" by (auto split: if_splits)
    let ?j = "?n - (BUFFER_STORE - 1) + i"
    have "(bstart ?r + i) mod BUFFER_STORE = (Suc ?n + i) mod BUFFER_STORE"
      using start(1) [OF n(1)] by (simp add: mod_simps)
    also have "Suc ?n + i = ?j + BUFFER_STORE" using n by simp
    finally have "(bstart ?r + i) mod BUFFER_STORE = ?j mod BUFFER_STORE" by simp
    then show ?thesis
      using push_all_slot [of view wr ?j xs mem, OF view] n by (simp add: visible_def)
  qed
  show ?thesis
    by (rule nth_equalityI) (use slot len in \<open>auto simp: ring_window_def visible_def split: if_splits\<close>)
qed

theorem ring_window_visible_witness:
  "map (\<lambda>x. x) (ring_window (push_all (map (\<lambda>x old. x) [10, 20, 30]) (empty_ring (\<lambda>_. 0)))) =
    visible [10, 20, 30 :: nat]"
  by (rule ring_window_visible) simp

end
