(* ===== verification/Receiver.thy ===== *)
theory Receiver
  imports Hash_Table Api_Ring
begin

text \<open>
  The decoders of \<^verbatim>\<open>new_receiver.c\<close> and the dispatcher \<^verbatim>\<open>process\<close> that walks over a datagram.  The state
  holds the flow table, the five API rings, the log file as the list of the printed values, and
  the readings of the clock still to come.  The bytes a decoder is given are those from its
  pointer to the end of the receive buffer; reading past them is None.  The structs of the two
  headers have no Ethernet addresses (they are commented out there), so the two columns of the
  log and the two members of the winsize buffer that hold them are left out.
\<close>

section \<open>Records offered to the API\<close>

record data_winsize_processed =
  wp_ip_src :: u32
  wp_ip_dst :: u32
  wp_sourceaddr :: u16
  wp_destination :: u16
  wp_sequence :: u32
  wp_ack_sequence :: u32
  wp_flags :: u16
  wp_windowsize :: u16
  wp_sec :: u32
  wp_usec :: u32
  wp_datalength :: u32
  wp_mac_addr :: string
  wp_kind :: u32
  wp_length :: u32

record data_iw_processed =
  ip_station :: string
  ip_mac_addr :: string
  ip_device :: u16
  ip_sec :: u32
  ip_usec :: u32
  ip_inactive_time :: u32
  ip_rx_bytes :: u32
  ip_rx_packets :: u32
  ip_tx_bytes :: u32
  ip_tx_packets :: u32
  ip_tx_retries :: u32
  ip_tx_failed :: u32
  ip_signal :: u32
  ip_signal_avg :: u32
  ip_noise :: u32
  ip_expected_throughput :: u32

record data_beacon_processed =
  bp_mac_addr :: string
  bp_sec :: u32
  bp_usec :: u32
  bp_data_rate :: u16
  bp_freq :: u16
  bp_timein :: u32
  bp_signal :: u8
  bp_bssid :: string

record data_dropped_processed =
  rp_mac_addr :: string
  rp_ip_src :: u32
  rp_ip_dst :: u32
  rp_sec :: u32
  rp_usec :: u32
  rp_port_src :: u16
  rp_port_dst :: u16
  rp_sequence :: u32
  rp_ack_sequence :: u32
  rp_drop_count :: u32
  rp_dpl :: u16
  rp_in_time :: u32

text \<open>The six bytes of padding between the MAC text and the first 64-bit member are kept.\<close>

record data_survey_processed =
  sp_mac_addr :: string
  sp_padding :: bytes
  sp_time :: u64
  sp_sec :: u32
  sp_usec :: u32
  sp_time_busy :: u64
  sp_time_ext_busy :: u64
  sp_time_rx :: u64
  sp_time_tx :: u64
  sp_time_scan :: u64
  sp_filled :: u32
  sp_noise :: u8
  sp_pad :: u8
  sp_center_freq :: u16

section \<open>State\<close>

datatype log_line = Log data_category (log_time: u64) (log_mac: string) (log_texts: "string list") (log_values: "int list")

record receiver =
  flows :: hash_state
  beacon_ring :: "data_beacon_processed api_ring"
  iw_ring :: "data_iw_processed api_ring"
  dropped_ring :: "data_dropped_processed api_ring"
  winsize_ring :: "data_winsize_processed api_ring"
  survey_ring :: "data_survey_processed api_ring"
  clock :: "nat \<Rightarrow> u64 \<times> u64"
  fp :: "log_line list"

text \<open>
  The state that \<^verbatim>\<open>start_threads\<close> sets up: an empty flow table and rings over freshly allocated
  records, whose contents are whatever the allocator returns.
\<close>

definition start_threads ::
  "(nat \<Rightarrow> data_beacon_processed) \<Rightarrow> (nat \<Rightarrow> data_iw_processed) \<Rightarrow> (nat \<Rightarrow> data_dropped_processed) \<Rightarrow>
   (nat \<Rightarrow> data_winsize_processed) \<Rightarrow> (nat \<Rightarrow> data_survey_processed) \<Rightarrow> (nat \<Rightarrow> u64 \<times> u64) \<Rightarrow> receiver"
where
  "start_threads b i d w s clk = \<lparr>flows = hash_table_init, beacon_ring = empty_ring b,
     iw_ring = empty_ring i, dropped_ring = empty_ring d, winsize_ring = empty_ring w,
     survey_ring = empty_ring s, clock = clk, fp = []\<rparr>"

text \<open>A receiver on an allocator that says nothing about its memory, with a clock at rest.\<close>

abbreviation cold_receiver :: receiver where
  "cold_receiver \<equiv> start_threads undefined undefined undefined undefined undefined (\<lambda>_. (0, 0))"

lemma flows_start_threads [simp]: "flows (start_threads b i d w s clk) = hash_table_init"
  by (simp add: start_threads_def)

text \<open>Reading the clock consumes one of its readings.\<close>

definition read_clock :: "receiver \<Rightarrow> u64 \<times> receiver" where
  "read_clock st = (getcurrenttime (clock st 0), st\<lparr>clock := (\<lambda>i. clock st (Suc i))\<rparr>)"

definition fprintf :: "log_line \<Rightarrow> receiver \<Rightarrow> receiver" where
  "fprintf l st = st\<lparr>fp := fp st @ [l]\<rparr>"

section \<open>Shared pieces of the decoders\<close>

definition timex_of :: "u32 \<Rightarrow> u32 \<Rightarrow> u64" where
  "timex_of sec usec = ucast sec * 1000000 + ucast usec"

fun dec_digits :: "nat \<Rightarrow> string" where
  "dec_digits n = (if n < 10 then [hex_digit n] else dec_digits (n div 10) @ [hex_digit (n mod 10)])"

declare dec_digits.simps [simp del]

text \<open>The four bytes of an address, the last one in memory first.\<close>

definition ip_text :: "u32 \<Rightarrow> string" where
  "ip_text ip = (let b = le_bytes 4 ip in
     dec_digits (unat (b ! 3)) @ ''.'' @ dec_digits (unat (b ! 2)) @ ''.'' @
     dec_digits (unat (b ! 1)) @ ''.'' @ dec_digits (unat (b ! 0)))"

definition flow_key :: "bytes \<Rightarrow> u32 \<Rightarrow> u32 \<Rightarrow> u16 \<Rightarrow> u16 \<Rightarrow> bytes" where
  "flow_key mac ip_a ip_b port_a port_b =
     mac @ le_bytes 4 ip_a @ le_bytes 4 ip_b @ le_bytes 2 port_a @ le_bytes 2 port_b"

section \<open>TCP segments\<close>

definition winsize_rdata :: "bytes \<Rightarrow> data_winsize" where
  "winsize_rdata buf =
    (let rdata = reverse_data_winsize (data_winsize_of_bytes (field_bytes buf 6 sizeof_data_winsize))
     in rdata\<lparr>ws_flags := ws_flags rdata AND 0x0017\<rparr>)"

text \<open>\<open>int << int\<close> is defined for a shift count from 0 to 31 only.\<close>

definition shift_int :: "u32 \<Rightarrow> u32 \<Rightarrow> u32 option" where
  "shift_int x n = (if 0 \<le> sint n \<and> sint n < 32 then Some (push_bit (nat (sint n)) x) else None)"

definition remove_if_found :: "bytes \<Rightarrow> hash_state \<Rightarrow> hash_state option" where
  "remove_if_found str h = (case hash_table_lookup str h of
     None \<Rightarrow> None
   | Some None \<Rightarrow> Some h
   | Some (Some _) \<Rightarrow> hash_table_remove str h)"

text \<open>
  The update of the flow table and the window size that results.  The second test of the
  original, \<^verbatim>\<open>rdata.flags & 0x0004 == 1\<close>, compares first: it is the conjunction with the value of
  \<open>4 = 1\<close>.
\<close>

definition track_flow :: "bytes \<Rightarrow> data_winsize \<Rightarrow> u32 \<Rightarrow> receiver \<Rightarrow> (u32 \<times> receiver) option" where
  "track_flow mac r wscale st =
    (let there = flow_key mac (ws_ip_src r) (ws_ip_dst r) (ws_sourceaddr r) (ws_destination r);
         back = flow_key mac (ws_ip_dst r) (ws_ip_src r) (ws_destination r) (ws_sourceaddr r);
         cal_windowsize = ucast (ws_windowsize r)
     in if ws_flags r = 2 \<or> ws_flags r = 18 then
          (let (time, st) = read_clock st
           in case hash_table_insert there wscale time (flows st) of
                None \<Rightarrow> None
              | Some h \<Rightarrow> Some (cal_windowsize, st\<lparr>flows := h\<rparr>))
        else if ws_flags r = 17 \<or> ws_flags r AND (if (0x0004 :: u16) = 1 then 1 else 0) \<noteq> 0 then
          (case remove_if_found there (flows st) of
             None \<Rightarrow> None
           | Some h \<Rightarrow>
               (case remove_if_found back h of
                  None \<Rightarrow> None
                | Some h' \<Rightarrow> Some (cal_windowsize, st\<lparr>flows := h'\<rparr>)))
        else if ws_flags r = 16 then
          (let (time, st) = read_clock st
           in case hash_table_lookup back (flows st) of
                None \<Rightarrow> None
              | Some (Some n) \<Rightarrow>
                  (case (shift_int (ucast (ws_windowsize r)) (nValue n),
                         hash_table_set_time back time (flows st)) of
                     (Some w, Some h) \<Rightarrow> Some (w, st\<lparr>flows := h\<rparr>)
                   | _ \<Rightarrow> None)
              | Some None \<Rightarrow>
                  (let (time, st) = read_clock st
                   in case hash_table_insert back wscale time (flows st) of
                        None \<Rightarrow> None
                      | Some h \<Rightarrow> Some (cal_windowsize, st\<lparr>flows := h\<rparr>)))
        else Some (cal_windowsize, st))"

definition winsize_log :: "bytes \<Rightarrow> data_winsize \<Rightarrow> u32 \<Rightarrow> log_line" where
  "winsize_log mac r cal =
     Log WINSIZE (timex_of (ws_sec r) (ws_usec r)) (mac_text mac)
       [ip_text (ws_ip_src r), ip_text (ws_ip_dst r)]
       [uint (ws_sourceaddr r), uint (ws_destination r), uint (ws_sequence r),
        uint (ws_ack_sequence r), uint (ws_windowsize r), uint cal, uint (ws_datalength r),
        uint (ws_flags r), uint (scast (ws_wscale r ! 0) :: u32),
        uint (scast (ws_wscale r ! 1) :: u32), uint (scast (ws_wscale r ! 2) :: u32)]"

definition winsize_store :: "string \<Rightarrow> data_winsize \<Rightarrow> data_winsize_processed \<Rightarrow> data_winsize_processed" where
  "winsize_store mac_addr r tmp = tmp\<lparr>
     wp_ip_src := ws_ip_src r, wp_ip_dst := ws_ip_dst r,
     wp_sourceaddr := ws_sourceaddr r, wp_destination := ws_destination r,
     wp_sequence := ws_sequence r, wp_ack_sequence := ws_ack_sequence r,
     wp_flags := ws_flags r, wp_windowsize := ws_windowsize r,
     wp_sec := ws_sec r, wp_usec := ws_usec r,
     wp_length := scast (ws_wscale r ! 1), wp_kind := scast (ws_wscale r ! 0),
     wp_mac_addr := mac_addr\<rparr>"

definition decode_winsize :: "bytes \<Rightarrow> receiver \<Rightarrow> receiver option" where
  "decode_winsize buf st =
    (if length buf < 6 + sizeof_data_winsize then None
     else let mac = field_bytes buf 0 6;
              rdata = winsize_rdata buf;
              wscale = scast (ws_wscale rdata ! 2);
              st0 = snd (read_clock st)
          in (case track_flow mac rdata wscale st0 of
                None \<Rightarrow> None
              | Some (cal_windowsize, st1) \<Rightarrow>
                  Some ((fprintf (winsize_log mac rdata cal_windowsize) st1)
                    \<lparr>winsize_ring := ring_push (winsize_store (mac_text mac) rdata) (winsize_ring st1)\<rparr>)))"

section \<open>Dropped packets\<close>

definition drops_store :: "string \<Rightarrow> dp_packet \<Rightarrow> data_dropped_processed \<Rightarrow> data_dropped_processed" where
  "drops_store mac_addr r tmp = tmp\<lparr>
     rp_mac_addr := mac_addr, rp_ip_src := dp_ip_src r, rp_ip_dst := dp_ip_dst r,
     rp_port_src := dp_port_src r, rp_port_dst := dp_port_dst r,
     rp_sequence := dp_sequence r, rp_ack_sequence := dp_ack_sequence r,
     rp_drop_count := dp_drop_count r, rp_dpl := dp_dpl r, rp_in_time := dp_in_time r\<rparr>"

definition decode_drops :: "bytes \<Rightarrow> receiver \<Rightarrow> receiver option" where
  "decode_drops buf st =
    (if length buf < 6 + sizeof_dp_packet then None
     else let mac = field_bytes buf 0 6;
              r = reverse_dp_packet (dp_packet_of_bytes (field_bytes buf 6 sizeof_dp_packet));
              line = Log DROPS (timex_of (dp_sec r) (dp_usec r)) (mac_text mac)
                [ip_text (dp_ip_src r), ip_text (dp_ip_dst r)]
                [uint (dp_port_src r), uint (dp_port_dst r), uint (dp_sequence r),
                 uint (dp_ack_sequence r), uint (dp_in_time r), uint (dp_dpl r),
                 uint (dp_drop_count r)]
          in Some ((fprintf line st)
               \<lparr>dropped_ring := ring_push (drops_store (mac_text mac) r) (dropped_ring st)\<rparr>))"

section \<open>Station statistics\<close>

text \<open>
  \<open>(float) x / 1000.0\<close> stored in a \<open>float\<close> and converted back to an unsigned integer.  A float
  has 24 significant bits and rounds to nearest, ties to even; the conversion back truncates.
\<close>

definition round_half_even :: "nat \<Rightarrow> nat \<Rightarrow> nat" where
  "round_half_even n d =
    (let q = n div d; r = n mod d
     in if 2 * r < d \<or> (2 * r = d \<and> even q) then q else q + 1)"

fun bit_length :: "nat \<Rightarrow> nat" where
  "bit_length n = (if n = 0 then 0 else Suc (bit_length (n div 2)))"

declare bit_length.simps [simp del]

definition float_of_u32 :: "nat \<Rightarrow> nat" where
  "float_of_u32 n =
    (let e = bit_length n - 24 in round_half_even n (2 ^ e) * 2 ^ e)"

definition float_div_1000 :: "u32 \<Rightarrow> u32" where
  "float_div_1000 x =
    (let m = float_of_u32 (unat x);
         s = 24 - bit_length (m div 1000)
     in word_of_nat (round_half_even (m * 2 ^ s) 1000 div 2 ^ s))"

definition iw_store :: "string \<Rightarrow> string \<Rightarrow> data_iw \<Rightarrow> data_iw_processed \<Rightarrow> data_iw_processed" where
  "iw_store mac_addr station r tmp = tmp\<lparr>
     ip_mac_addr := mac_addr, ip_station := station, ip_device := iw_device r,
     ip_inactive_time := iw_inactive_time r, ip_rx_bytes := iw_rx_bytes r,
     ip_rx_packets := iw_rx_packets r, ip_tx_bytes := iw_tx_bytes r,
     ip_tx_packets := iw_tx_packets r, ip_tx_retries := iw_tx_retries r,
     ip_tx_failed := iw_tx_failed r, ip_signal := iw_signal r,
     ip_signal_avg := iw_signal_avg r,
     ip_expected_throughput := float_div_1000 (iw_expected_throughput r)\<rparr>"

text \<open>The last column of the log line, the throughput printed with \<^verbatim>\<open>%f\<close>, is left out.\<close>

definition decode_iw :: "bytes \<Rightarrow> receiver \<Rightarrow> receiver option" where
  "decode_iw buf st =
    (if length buf < 6 + sizeof_data_iw then None
     else let mac = field_bytes buf 0 6;
              r = reverse_data_iw (data_iw_of_bytes (field_bytes buf 6 sizeof_data_iw));
              line = Log IW (timex_of (iw_sec r) (iw_usec r)) (mac_text mac)
                [mac_text (iw_station r)]
                [uint (iw_device r), uint (iw_inactive_time r), uint (iw_rx_bytes r),
                 uint (iw_rx_packets r), uint (iw_tx_bytes r), uint (iw_tx_packets r),
                 uint (iw_tx_retries r), uint (iw_tx_failed r), sint (iw_signal r),
                 sint (iw_signal_avg r)]
          in Some ((fprintf line st)
               \<lparr>iw_ring := ring_push (iw_store (mac_text mac) (mac_text (iw_station r)) r) (iw_ring st)\<rparr>))"

section \<open>Queue statistics\<close>

definition decode_queue :: "bytes \<Rightarrow> receiver \<Rightarrow> receiver option" where
  "decode_queue buf st =
    (if length buf < 6 + sizeof_data_queue then None
     else let mac = field_bytes buf 0 6;
              r = reverse_data_queue (data_queue_of_bytes (field_bytes buf 6 sizeof_data_queue))
          in Some (fprintf (Log QUEUE (timex_of (qu_sec r) (qu_usec r)) (mac_text mac) []
               [uint (qu_queue_id r), uint (qu_bytes r), uint (qu_packets r), uint (qu_qlen r),
                uint (qu_backlog r), uint (qu_drops r), uint (qu_requeues r),
                uint (qu_overlimits r)]) st))"

section \<open>Beacons\<close>

definition beacon_store :: "string \<Rightarrow> string \<Rightarrow> data_beacon \<Rightarrow> data_beacon_processed \<Rightarrow> data_beacon_processed" where
  "beacon_store mac_addr bssid r tmp = tmp\<lparr>
     bp_mac_addr := mac_addr, bp_bssid := bssid, bp_data_rate := be_data_rate r,
     bp_signal := be_signal r, bp_timein := be_timein r\<rparr>"

definition decode_beacon :: "bytes \<Rightarrow> receiver \<Rightarrow> receiver option" where
  "decode_beacon buf st =
    (if length buf < 6 + sizeof_data_beacon then None
     else let mac = field_bytes buf 0 6;
              r = reverse_data_beacon (data_beacon_of_bytes (field_bytes buf 6 sizeof_data_beacon));
              line = Log BEACON (timex_of (be_sec r) (be_usec r)) (mac_text mac)
                [mac_text (be_bssid r)]
                [uint (be_data_rate r), uint (be_freq r), sint (be_signal r)]
          in Some ((fprintf line st)
               \<lparr>beacon_ring := ring_push (beacon_store (mac_text mac) (mac_text (be_bssid r)) r) (beacon_ring st)\<rparr>))"

section \<open>Channel survey\<close>

definition survey_store :: "string \<Rightarrow> data_survey \<Rightarrow> data_survey_processed \<Rightarrow> data_survey_processed" where
  "survey_store mac_addr r tmp = tmp\<lparr>
     sp_mac_addr := mac_addr, sp_time := su_time r, sp_time_busy := su_time_busy r,
     sp_time_ext_busy := su_time_ext_busy r, sp_time_rx := su_time_rx r,
     sp_time_tx := su_time_tx r, sp_time_scan := su_time_scan r, sp_noise := su_noise r,
     sp_center_freq := su_center_freq r\<rparr>"

definition decode_survey :: "bytes \<Rightarrow> receiver \<Rightarrow> receiver option" where
  "decode_survey buf st =
    (if length buf < 6 + sizeof_data_survey then None
     else let mac = field_bytes buf 0 6;
              r = reverse_data_survey (data_survey_of_bytes (field_bytes buf 6 sizeof_data_survey));
              line = Log SURVEY (timex_of (su_sec r) (su_usec r)) (mac_text mac) []
                [uint (su_time r), uint (su_time_busy r), uint (su_time_ext_busy r),
                 uint (su_time_rx r), uint (su_time_tx r), uint (su_time_scan r),
                 uint (su_center_freq r), sint (su_noise r)]
          in Some ((fprintf line st)
               \<lparr>survey_ring := survey_push (survey_store (mac_text mac) r) (survey_ring st)\<rparr>))"

section \<open>The dispatcher\<close>

text \<open>
  One turn of the loop: the two bytes of the tag, then the decoder and the distance to the next
  message.  A tag without a case ends the loop.
\<close>

definition dispatch :: "u16 \<Rightarrow> ((bytes \<Rightarrow> receiver \<Rightarrow> receiver option) \<times> nat) option" where
  "dispatch value =
    (if value = 1 then Some (decode_winsize, sizeof_data_winsize + 6)
     else if value = 2 then Some (decode_drops, sizeof_dp_packet + 6)
     else if value = 3 then Some (decode_iw, sizeof_data_iw + 6)
     else if value = 4 then Some (decode_queue, sizeof_data_queue + 6)
     else if value = 5 then Some (decode_beacon, sizeof_data_beacon + 6)
     else if value = 6 then Some (decode_survey, sizeof_data_survey + 6)
     else None)"

lemma dispatch_pos: "dispatch v = Some (f, k) \<Longrightarrow> 0 < k"
  by (auto simp: dispatch_def split: if_splits)

function process_from :: "bytes \<Rightarrow> nat \<Rightarrow> nat \<Rightarrow> receiver \<Rightarrow> receiver option" where
  "process_from buffer offset len st =
    (if offset < len then
       (case read_block buffer offset 2 of
          None \<Rightarrow> None
        | Some tag \<Rightarrow>
            (case dispatch (reversebytes_uint16t (le_word tag)) of
               None \<Rightarrow> Some st
             | Some (decode, k) \<Rightarrow>
                 (case decode (drop (offset + 2) buffer) st of
                    None \<Rightarrow> None
                  | Some st' \<Rightarrow> process_from buffer (offset + 2 + k) len st')))
     else Some st)"
  by pat_completeness auto
termination
  by (relation "measure (\<lambda>(buffer, offset, len, st). len - offset)") auto

declare process_from.simps [simp del]

definition process :: "bytes \<Rightarrow> nat \<Rightarrow> receiver \<Rightarrow> receiver option" where
  "process buffer len st = process_from buffer 0 len st"

section \<open>Messages\<close>

text \<open>
  A message as the router means it: its own address and a record in host values.  The sender's
  image of it is the tag, the address and the struct in big-endian order.
\<close>

datatype message =
    MWinsize bytes data_winsize
  | MDrops bytes dp_packet
  | MIw bytes data_iw
  | MQueue bytes data_queue
  | MBeacon bytes data_beacon
  | MSurvey bytes data_survey

fun message_ok :: "message \<Rightarrow> bool" where
  "message_ok (MWinsize mac r) \<longleftrightarrow> length mac = 6 \<and> length (ws_wscale r) = 3"
| "message_ok (MDrops mac r) \<longleftrightarrow> length mac = 6"
| "message_ok (MIw mac r) \<longleftrightarrow> length mac = 6 \<and> length (iw_station r) = 6"
| "message_ok (MQueue mac r) \<longleftrightarrow> length mac = 6"
| "message_ok (MBeacon mac r) \<longleftrightarrow> length mac = 6 \<and> length (be_bssid r) = 6"
| "message_ok (MSurvey mac r) \<longleftrightarrow> length mac = 6"

fun encode_message :: "message \<Rightarrow> bytes" where
  "encode_message (MWinsize mac r) = be_bytes 2 (1 :: u16) @ mac @ data_winsize_to_bytes r"
| "encode_message (MDrops mac r) = be_bytes 2 (2 :: u16) @ mac @ dp_packet_to_bytes r"
| "encode_message (MIw mac r) = be_bytes 2 (3 :: u16) @ mac @ data_iw_to_bytes r"
| "encode_message (MQueue mac r) = be_bytes 2 (4 :: u16) @ mac @ data_queue_to_bytes r"
| "encode_message (MBeacon mac r) = be_bytes 2 (5 :: u16) @ mac @ data_beacon_to_bytes r"
| "encode_message (MSurvey mac r) = be_bytes 2 (6 :: u16) @ mac @ data_survey_to_bytes r"

text \<open>
  What the delivery of a message does to the receiver, stated on the values the router sent.
\<close>

fun deliver :: "message \<Rightarrow> receiver \<Rightarrow> receiver option" where
  "deliver (MWinsize mac r) st =
    (let r' = r\<lparr>ws_flags := ws_flags r AND 0x0017\<rparr>
     in case track_flow mac r' (scast (ws_wscale r ! 2)) (snd (read_clock st)) of
          None \<Rightarrow> None
        | Some (cal, st1) \<Rightarrow>
            Some ((fprintf (winsize_log mac r' cal) st1)
              \<lparr>winsize_ring := ring_push (winsize_store (mac_text mac) r') (winsize_ring st1)\<rparr>))"
| "deliver (MDrops mac r) st =
    Some ((fprintf (Log DROPS (timex_of (dp_sec r) (dp_usec r)) (mac_text mac)
        [ip_text (dp_ip_src r), ip_text (dp_ip_dst r)]
        [uint (dp_port_src r), uint (dp_port_dst r), uint (dp_sequence r), uint (dp_ack_sequence r),
         uint (dp_in_time r), uint (dp_dpl r), uint (dp_drop_count r)]) st)
      \<lparr>dropped_ring := ring_push (drops_store (mac_text mac) r) (dropped_ring st)\<rparr>)"
| "deliver (MIw mac r) st =
    Some ((fprintf (Log IW (timex_of (iw_sec r) (iw_usec r)) (mac_text mac) [mac_text (iw_station r)]
        [uint (iw_device r), uint (iw_inactive_time r), uint (iw_rx_bytes r), uint (iw_rx_packets r),
         uint (iw_tx_bytes r), uint (iw_tx_packets r), uint (iw_tx_retries r), uint (iw_tx_failed r),
         sint (iw_signal r), sint (iw_signal_avg r)]) st)
      \<lparr>iw_ring := ring_push (iw_store (mac_text mac) (mac_text (iw_station r)) r) (iw_ring st)\<rparr>)"
| "deliver (MQueue mac r) st =
    Some (fprintf (Log QUEUE (timex_of (qu_sec r) (qu_usec r)) (mac_text mac) []
        [uint (qu_queue_id r), uint (qu_bytes r), uint (qu_packets r), uint (qu_qlen r),
         uint (qu_backlog r), uint (qu_drops r), uint (qu_requeues r), uint (qu_overlimits r)]) st)"
| "deliver (MBeacon mac r) st =
    (let r' = r\<lparr>be_data_rate := reversebytes_uint16t (be_data_rate r),
                be_timein := reversebytes_uint32t (be_timein r)\<rparr>
     in Some ((fprintf (Log BEACON (timex_of (be_sec r) (be_usec r)) (mac_text mac)
        [mac_text (be_bssid r)]
        [uint (be_data_rate r'), uint (be_freq r), sint (be_signal r)]) st)
      \<lparr>beacon_ring := ring_push (beacon_store (mac_text mac) (mac_text (be_bssid r)) r') (beacon_ring st)\<rparr>))"
| "deliver (MSurvey mac r) st =
    Some ((fprintf (Log SURVEY (timex_of (su_sec r) (su_usec r)) (mac_text mac) []
        [uint (su_time r), uint (su_time_busy r), uint (su_time_ext_busy r), uint (su_time_rx r),
         uint (su_time_tx r), uint (su_time_scan r), uint (su_center_freq r), sint (su_noise r)]) st)
      \<lparr>survey_ring := survey_push (survey_store (mac_text mac) r) (survey_ring st)\<rparr>)"

fun deliver_all :: "message list \<Rightarrow> receiver \<Rightarrow> receiver option" where
  "deliver_all [] st = Some st"
| "deliver_all (m # ms) st = (case deliver m st of None \<Rightarrow> None | Some st' \<Rightarrow> deliver_all ms st')"

definition stream_of :: "message list \<Rightarrow> bytes" where
  "stream_of ms = concat (map encode_message ms)"

section \<open>Decoding what the sender encoded\<close>

lemma field_bytes_prefix [codec_simps]:
  "length xs = k \<Longrightarrow> field_bytes (xs @ ys) 0 k = xs"
  "length xs = i \<Longrightarrow> length ys = k \<Longrightarrow> field_bytes (xs @ ys @ zs) i k = ys"
  by (simp_all add: field_bytes_def)

lemma decode_winsize_encoded:
  "length mac = 6 \<Longrightarrow> length (ws_wscale r) = 3 \<Longrightarrow>
   decode_winsize (mac @ data_winsize_to_bytes r @ rest) st = deliver (MWinsize mac r) st"
  by (simp add: decode_winsize_def winsize_rdata_def field_bytes_prefix data_winsize_roundtrip Let_def)

lemma decode_drops_encoded:
  "length mac = 6 \<Longrightarrow> decode_drops (mac @ dp_packet_to_bytes r @ rest) st = deliver (MDrops mac r) st"
  by (simp add: decode_drops_def field_bytes_prefix dp_packet_roundtrip Let_def drops_store_def [abs_def])

lemma decode_iw_encoded:
  "length mac = 6 \<Longrightarrow> length (iw_station r) = 6 \<Longrightarrow>
   decode_iw (mac @ data_iw_to_bytes r @ rest) st = deliver (MIw mac r) st"
  by (simp add: decode_iw_def field_bytes_prefix data_iw_roundtrip Let_def iw_store_def [abs_def])

lemma decode_queue_encoded:
  "length mac = 6 \<Longrightarrow> decode_queue (mac @ data_queue_to_bytes r @ rest) st = deliver (MQueue mac r) st"
  by (simp add: decode_queue_def field_bytes_prefix data_queue_roundtrip Let_def)

lemma decode_beacon_encoded:
  "length mac = 6 \<Longrightarrow> length (be_bssid r) = 6 \<Longrightarrow>
   decode_beacon (mac @ data_beacon_to_bytes r @ rest) st = deliver (MBeacon mac r) st"
  by (simp add: decode_beacon_def field_bytes_prefix data_beacon_roundtrip Let_def beacon_store_def [abs_def])

lemma decode_survey_encoded:
  "length mac = 6 \<Longrightarrow> decode_survey (mac @ data_survey_to_bytes r @ rest) st = deliver (MSurvey mac r) st"
  by (simp add: decode_survey_def field_bytes_prefix data_survey_roundtrip Let_def)

lemmas decode_encoded =
  decode_winsize_encoded decode_drops_encoded decode_iw_encoded
  decode_queue_encoded decode_beacon_encoded decode_survey_encoded

lemma encode_message_shape:
  assumes "message_ok m"
  obtains v body f where
    "encode_message m = be_bytes 2 (v :: u16) @ body" "dispatch v = Some (f, length body)"
    "\<And>rest st. f (body @ rest) st = deliver m st" "even (length body)"
  using assms
proof (cases m)
  case (MWinsize mac r)
  with assms that [of 1 "mac @ data_winsize_to_bytes r" decode_winsize] show ?thesis
    by (simp add: dispatch_def decode_encoded)
next
  case (MDrops mac r)
  with assms that [of 2 "mac @ dp_packet_to_bytes r" decode_drops] show ?thesis
    by (simp add: dispatch_def decode_encoded)
next
  case (MIw mac r)
  with assms that [of 3 "mac @ data_iw_to_bytes r" decode_iw] show ?thesis
    by (simp add: dispatch_def decode_encoded)
next
  case (MQueue mac r)
  with assms that [of 4 "mac @ data_queue_to_bytes r" decode_queue] show ?thesis
    by (simp add: dispatch_def decode_encoded)
next
  case (MBeacon mac r)
  with assms that [of 5 "mac @ data_beacon_to_bytes r" decode_beacon] show ?thesis
    by (simp add: dispatch_def decode_encoded)
next
  case (MSurvey mac r)
  with assms that [of 6 "mac @ data_survey_to_bytes r" decode_survey] show ?thesis
    by (simp add: dispatch_def decode_encoded)
qed

lemma process_from_step:
  "offset < len \<Longrightarrow> read_block buffer offset 2 = Some tag \<Longrightarrow>
   process_from buffer offset len st =
    (case dispatch (reversebytes_uint16t (le_word tag)) of
       None \<Rightarrow> Some st
     | Some (decode, k) \<Rightarrow>
         (case decode (drop (offset + 2) buffer) st of
            None \<Rightarrow> None
          | Some st' \<Rightarrow> process_from buffer (offset + 2 + k) len st'))"
  by (subst process_from.simps) (simp del: read_block_Some_iff)

lemma process_from_message:
  assumes "message_ok m" and "length pre = n" and "length (encode_message m) + n \<le> len"
  shows "process_from (pre @ encode_message m @ rest) n len st =
    (case deliver m st of
       None \<Rightarrow> None
     | Some st' \<Rightarrow> process_from (pre @ encode_message m @ rest) (n + length (encode_message m)) len st')"
proof -
  from assms(1) obtain v body f where m: "encode_message m = be_bytes 2 (v :: u16) @ body"
    "dispatch v = Some (f, length body)" "\<And>rest st. f (body @ rest) st = deliver m st"
    by (rule encode_message_shape) metis
  have rb: "read_block (pre @ encode_message m @ rest) n 2 = Some (be_bytes 2 v)"
    using assms(2) m(1) by simp
  have d: "drop (n + 2) (pre @ encode_message m @ rest) = body @ rest"
    using assms(2) m(1) by simp
  have "length (encode_message m) = 2 + length body" using m(1) by simp
  then show ?thesis
    using assms(3) process_from_step [OF _ rb, of len st] d m(2,3)
    by (cases "deliver m st") (simp_all add: codec_simps add.assoc)
qed

lemma process_from_zeros:
  assumes "length pre = n" and "k \<noteq> 1"
  shows "process_from (pre @ replicate k 0) n (n + k) st = Some st"
proof (cases "k = 0")
  case True
  then show ?thesis by (simp add: process_from.simps)
next
  case False
  with assms(2) have "2 \<le> k" by simp
  then have rb: "read_block (pre @ replicate k 0) n 2 = Some [0, 0]"
    using assms(1) by (simp add: min_def numeral_2_eq_2)
  have "dispatch (reversebytes_uint16t (le_word [0, 0])) = None"
    by (simp add: dispatch_def reversebytes_uint16t_def)
  then show ?thesis using False process_from_step [OF _ rb, of "n + k" st] by simp
qed

lemma process_from_stream:
  "list_all message_ok ms \<Longrightarrow> length pre = n \<Longrightarrow> k \<noteq> 1 \<Longrightarrow>
   process_from (pre @ stream_of ms @ replicate k 0) n (n + length (stream_of ms) + k) st = deliver_all ms st"
proof (induction ms arbitrary: pre n st)
  case Nil
  then show ?case by (simp add: stream_of_def process_from_zeros)
next
  case (Cons m ms)
  have eq: "pre @ stream_of (m # ms) @ replicate k 0 = pre @ encode_message m @ (stream_of ms @ replicate k 0)"
    by (simp add: stream_of_def)
  have "process_from (pre @ stream_of (m # ms) @ replicate k 0) n (n + length (stream_of (m # ms)) + k) st =
    (case deliver m st of None \<Rightarrow> None
     | Some st' \<Rightarrow> process_from (pre @ stream_of (m # ms) @ replicate k 0) (n + length (encode_message m))
         (n + length (stream_of (m # ms)) + k) st')"
    unfolding eq using Cons.prems by (subst process_from_message) (simp_all add: stream_of_def)
  also have "\<dots> = deliver_all (m # ms) st"
    using Cons.IH [of "pre @ encode_message m" "n + length (encode_message m)"] Cons.prems
    by (simp add: stream_of_def add.assoc split: option.split)
  finally show ?case .
qed

lemma even_length_stream: "list_all message_ok ms \<Longrightarrow> even (length (stream_of ms))"
proof (induction ms)
  case Nil
  then show ?case by (simp add: stream_of_def)
next
  case (Cons m ms)
  then have "message_ok m" by simp
  then have "even (length (encode_message m))"
    by (rule encode_message_shape) auto
  with Cons show ?case by (simp add: stream_of_def)
qed



section \<open>The flow table under TCP traffic\<close>

text \<open>A segment for examples: two addresses, two ports, flags and a window.\<close>

definition segment :: "u32 \<Rightarrow> u32 \<Rightarrow> u16 \<Rightarrow> u16 \<Rightarrow> u16 \<Rightarrow> u16 \<Rightarrow> data_winsize" where
  "segment src dst sp dp flg win = \<lparr>ws_ip_src = src, ws_ip_dst = dst, ws_sourceaddr = sp,
     ws_destination = dp, ws_sequence = 0, ws_ack_sequence = 0, ws_flags = flg,
     ws_windowsize = win, ws_sec = 0, ws_usec = 0, ws_datalength = 0, ws_wscale = [0, 0, 0], ws_pad = 0\<rparr>"

lemma segment_key_ok:
  "key_ok (flow_key [4,161,81,163,87,26] 10 20 80 90)"
  "key_ok (flow_key [4,161,81,163,87,26] 20 10 90 80)"
  by (simp_all add: key_ok_def c_strlen_def flow_key_def le_bytes_def upt_rec)

text \<open>
  C16.  The window of an acknowledgement is scaled with the shift count that the other end
  announced: after a SYN from A to B with shift count s, an ACK from B to A is given its window
  shifted left by s.
\<close>

theorem track_flow_ack_uses_peer_scale:
  assumes wf: "hash_wf (flows st)" and room: "\<not> hash_full (flows st)"
    and ok: "key_ok (flow_key mac (ws_ip_src syn) (ws_ip_dst syn) (ws_sourceaddr syn) (ws_destination syn))"
    and syn: "ws_flags syn = 2"
    and ack: "ws_flags ack = 16" "ws_ip_src ack = ws_ip_dst syn" "ws_ip_dst ack = ws_ip_src syn"
      "ws_sourceaddr ack = ws_destination syn" "ws_destination ack = ws_sourceaddr syn"
    and shift: "0 \<le> sint s" "sint s < 32"
  shows "\<exists>c st1 st2. track_flow mac syn s st = Some (c, st1) \<and>
    track_flow mac ack s' st1 = Some (push_bit (nat (sint s)) (ucast (ws_windowsize ack)), st2)"
proof -
  let ?k = "flow_key mac (ws_ip_src syn) (ws_ip_dst syn) (ws_sourceaddr syn) (ws_destination syn)"
  obtain t st0 where clk: "read_clock st = (t, st0)" by (cases "read_clock st")
  then have same: "flows st0 = flows st" by (auto simp: read_clock_def)
  from hash_table_insert_content [OF wf ok, of s t] room obtain h where
    h: "hash_table_insert ?k s t (flows st) = Some h" "hash_wf h"
      "hash_content h = (hash_content (flows st))(key_class ?k \<mapsto> (s, t))" by auto
  let ?st1 = "st0\<lparr>flows := h\<rparr>"
  have t1: "track_flow mac syn s st = Some (ucast (ws_windowsize syn), ?st1)"
    using syn h clk same by (simp add: track_flow_def)
  from hash_table_lookup_content [OF h(2) ok] h(3) obtain n where
    n: "hash_table_lookup ?k h = Some (Some n)" "nValue n = s" by auto
  obtain t' st0' where clk': "read_clock ?st1 = (t', st0')" by (cases "read_clock ?st1")
  then have same': "flows st0' = h" by (auto simp: read_clock_def)
  from hash_table_set_time_content [OF h(2) ok, of s t t'] h(3) obtain h' where
    h': "hash_table_set_time ?k t' h = Some h'" by auto
  have "track_flow mac ack s' ?st1 =
    Some (push_bit (nat (sint s)) (ucast (ws_windowsize ack)), st0'\<lparr>flows := h'\<rparr>)"
    using ack clk' same' n h' shift by (simp add: track_flow_def shift_int_def)
  with t1 show ?thesis by blast
qed

theorem track_flow_ack_uses_peer_scale_witness:
  "\<exists>c st1 st2. track_flow [4,161,81,163,87,26] (segment 10 20 80 90 2 0) 3 cold_receiver = Some (c, st1) \<and>
    track_flow [4,161,81,163,87,26] (segment 20 10 90 80 16 100) 0 st1 =
      Some (push_bit (nat (sint (3 :: u32))) (ucast (ws_windowsize (segment 20 10 90 80 16 100))), st2)"
  by (rule track_flow_ack_uses_peer_scale)
    (simp_all add: hash_wf_init hash_not_full_init segment_def segment_key_ok)

text \<open>
  A segment with the RST flag alone leaves the flow table as it is: the test for the flag
  compares before it masks, and is never true.
\<close>

theorem track_flow_rst_keeps_flow:
  assumes "ws_flags r = 4"
  shows "track_flow mac r wscale st = Some (ucast (ws_windowsize r), st)"
  using assms by (simp add: track_flow_def)

theorem track_flow_rst_keeps_flow_witness:
  "track_flow [4,161,81,163,87,26] (segment 10 20 80 90 4 100) 0 cold_receiver =
    Some (ucast (ws_windowsize (segment 10 20 80 90 4 100)), cold_receiver)"
  by (rule track_flow_rst_keeps_flow) (simp add: segment_def)

text \<open>
  A FIN with ACK forgets the flow in both directions.
\<close>

theorem track_flow_fin_forgets_both:
  assumes wf: "hash_wf (flows st)" and flags: "ws_flags r = 17"
    and ok: "key_ok (flow_key mac (ws_ip_src r) (ws_ip_dst r) (ws_sourceaddr r) (ws_destination r))"
    and ok': "key_ok (flow_key mac (ws_ip_dst r) (ws_ip_src r) (ws_destination r) (ws_sourceaddr r))"
  shows "\<exists>st'. track_flow mac r w st = Some (ucast (ws_windowsize r), st') \<and> hash_wf (flows st') \<and>
    hash_content (flows st') = (hash_content (flows st))
      (key_class (flow_key mac (ws_ip_src r) (ws_ip_dst r) (ws_sourceaddr r) (ws_destination r)) := None,
       key_class (flow_key mac (ws_ip_dst r) (ws_ip_src r) (ws_destination r) (ws_sourceaddr r)) := None)"
proof -
  have rem: "\<exists>h'. remove_if_found k h = Some h' \<and> hash_wf h' \<and>
      hash_content h' = (hash_content h)(key_class k := None)"
    if "hash_wf h" "key_ok k" for k h
  proof -
    from hash_table_lookup_content [OF that] obtain x where
      x: "hash_table_lookup k h = Some x"
        "map_option (\<lambda>n. (nValue n, node_time n)) x = hash_content h (key_class k)" by blast
    show ?thesis
    proof (cases x)
      case None
      with x that show ?thesis by (auto simp: remove_if_found_def)
    next
      case (Some n)
      with x hash_table_remove_content [OF that] show ?thesis by (simp add: remove_if_found_def)
    qed
  qed
  from rem [OF wf ok] obtain h where h: "hash_wf h"
    "remove_if_found (flow_key mac (ws_ip_src r) (ws_ip_dst r) (ws_sourceaddr r) (ws_destination r)) (flows st) = Some h"
    "hash_content h = (hash_content (flows st))
      (key_class (flow_key mac (ws_ip_src r) (ws_ip_dst r) (ws_sourceaddr r) (ws_destination r)) := None)"
    by blast
  from rem [OF h(1) ok'] h(2,3) flags show ?thesis by (auto simp: track_flow_def)
qed

theorem track_flow_fin_forgets_both_witness:
  "\<exists>st'. track_flow [4,161,81,163,87,26] (segment 10 20 80 90 17 5) 0 cold_receiver =
      Some (ucast (ws_windowsize (segment 10 20 80 90 17 5)), st') \<and> hash_wf (flows st') \<and>
    hash_content (flows st') = (hash_content (flows cold_receiver))
      (key_class (flow_key [4,161,81,163,87,26] (ws_ip_src (segment 10 20 80 90 17 5))
          (ws_ip_dst (segment 10 20 80 90 17 5)) (ws_sourceaddr (segment 10 20 80 90 17 5))
          (ws_destination (segment 10 20 80 90 17 5))) := None,
       key_class (flow_key [4,161,81,163,87,26] (ws_ip_dst (segment 10 20 80 90 17 5))
          (ws_ip_src (segment 10 20 80 90 17 5)) (ws_destination (segment 10 20 80 90 17 5))
          (ws_sourceaddr (segment 10 20 80 90 17 5))) := None)"
  by (rule track_flow_fin_forgets_both)
    (simp_all add: hash_wf_init segment_def segment_key_ok)

end
