(* ===== verification/Receiver_Api.thy ===== *)
theory Receiver_Api
  imports Receiver
begin

text \<open>
  The API of \<^verbatim>\<open>new_receiver.c\<close>: what a controller script asks about access points, clients, flows
  and drops.  Each function reads a ring and moves its start index.  The fixed arrays of the C
  code (20 addresses, 40 flows) are bounds whose violation is None; an uninitialised local array
  is a parameter.
\<close>

section \<open>Result records\<close>

record aplist =
  aplists :: "string list"
  ap_length :: int

record flow =
  fl_ip_src :: u32
  fl_ip_dst :: u32
  fl_port_src :: u16
  fl_port_dst :: u16

record flowlist =
  fl_flows :: "flow list"
  fl_length :: int

record flow_and_dropped =
  fd_dataflow :: flow
  fd_drops :: int

record flow_drop_ap =
  fd_flowinfo :: "flow_and_dropped list"
  fd_drops_total :: int
  fd_length :: int

record wireless_information_ap =
  wi_noise :: u32
  wi_connected_time :: u32
  wi_active_time :: u64
  wi_busy_time :: u64
  wi_receive_time :: u64
  wi_transmit_time :: u64

section \<open>Comparison of addresses\<close>

fun strcmp_linger_loop :: "bytes \<Rightarrow> bytes \<Rightarrow> nat \<Rightarrow> nat \<Rightarrow> nat \<Rightarrow> nat option" where
  "strcmp_linger_loop s t i 0 condition = Some condition"
| "strcmp_linger_loop s t i (Suc k) condition =
     (case (read_at s i, read_at t i) of
        (Some a, Some b) \<Rightarrow>
          strcmp_linger_loop s t (Suc i) k
            (if sint a - sint b = 0 then condition + 1 else condition)
      | _ \<Rightarrow> None)"

definition strcmp_linger :: "bytes \<Rightarrow> bytes \<Rightarrow> int option" where
  "strcmp_linger s t = (case strcmp_linger_loop s t 0 6 0 of
     None \<Rightarrow> None
   | Some condition \<Rightarrow> Some (if condition = 6 then 0 else 1))"

section \<open>Consuming a ring\<close>

fun consume :: "nat \<Rightarrow> nat \<times> int \<Rightarrow> nat \<times> int" where
  "consume 0 sa = sa"
| "consume (Suc k) (s, a) =
     consume k ((s + 1) mod BUFFER_STORE, (if a - 1 < 0 then 0 else a - 1))"

lemma consume_start:
  "s < BUFFER_STORE \<Longrightarrow> fst (consume k (s, a)) = (s + k) mod BUFFER_STORE"
  by (induction k arbitrary: s a) (auto simp: mod_simps)

lemma consume_amount:
  "0 \<le> a \<Longrightarrow> snd (consume k (s, a)) = max 0 (a - int k)"
  by (induction k arbitrary: s a) (auto simp: max_def)

lemma window_length_consumed:
  "s < BUFFER_STORE \<Longrightarrow> e < BUFFER_STORE \<Longrightarrow> (s + window_length s e) mod BUFFER_STORE = e"
  by (auto simp: window_length_def)

section \<open>Collecting addresses\<close>

text \<open>
  The common loop of \<^verbatim>\<open>get_clients\<close>, \<^verbatim>\<open>get_neighbour\<close> and their Python variants.  The read index
  moves only when the record belongs to the access point that was asked for.
\<close>

fun collect_loop ::
  "('a \<Rightarrow> string) \<Rightarrow> ('a \<Rightarrow> string) \<Rightarrow> (nat \<Rightarrow> 'a) \<Rightarrow> string \<Rightarrow> nat \<Rightarrow> nat \<Rightarrow> string list \<Rightarrow> string list option"
where
  "collect_loop mac item tmp ap 0 j mac_list = Some mac_list"
| "collect_loop mac item tmp ap (Suc k) j mac_list =
     (if mac (tmp j) = ap then
        (if item (tmp j) \<in> set mac_list
         then collect_loop mac item tmp ap k ((j + 1) mod BUFFER_STORE) mac_list
         else if length mac_list < 20
           then collect_loop mac item tmp ap k ((j + 1) mod BUFFER_STORE) (mac_list @ [item (tmp j)])
           else None)
      else collect_loop mac item tmp ap k j mac_list)"

text \<open>\<^verbatim>\<open>memcpy (..., mac_list, sizeof (mac_list))\<close>: the tail of the local array comes along.\<close>

definition copy_mac_list :: "string list \<Rightarrow> string list \<Rightarrow> string list" where
  "copy_mac_list stack ml = ml @ drop (length ml) stack"

definition get_clients ::
  "string list \<Rightarrow> string \<Rightarrow> aplist \<Rightarrow> receiver \<Rightarrow> (aplist \<times> receiver) option"
where
  "get_clients stack ap clients st =
    (let r = iw_ring st;
         len = window_length (bstart r) (bend r);
         (s, a) = consume len (bstart r, bamount r)
     in case collect_loop ip_mac_addr ip_station (slots r) ap len (bstart r) [] of
          None \<Rightarrow> None
        | Some ml \<Rightarrow>
            Some (\<lparr>aplists = (if ml \<noteq> [] then copy_mac_list stack ml else aplists clients),
                   ap_length = int (length ml)\<rparr>,
                  st\<lparr>iw_ring := r\<lparr>bstart := s, bamount := a\<rparr>\<rparr>))"

text \<open>The Python variant copies the entries one by one into buffers the caller supplies.\<close>

definition get_clients_py ::
  "string \<Rightarrow> aplist \<Rightarrow> receiver \<Rightarrow> (aplist \<times> receiver) option"
where
  "get_clients_py ap clients st =
    (let r = iw_ring st;
         len = window_length (bstart r) (bend r);
         (s, a) = consume len (bstart r, bamount r)
     in case collect_loop ip_mac_addr ip_station (slots r) ap len (bstart r) [] of
          None \<Rightarrow> None
        | Some ml \<Rightarrow>
            if length (aplists clients) < length ml then None
            else Some (\<lparr>aplists = ml @ drop (length ml) (aplists clients),
                        ap_length = int (length ml)\<rparr>,
                       st\<lparr>iw_ring := r\<lparr>bstart := s, bamount := a\<rparr>\<rparr>))"

definition get_neighbour ::
  "string list \<Rightarrow> string \<Rightarrow> aplist \<Rightarrow> receiver \<Rightarrow> (aplist \<times> receiver) option"
where
  "get_neighbour stack ap neibours st =
    (let r = beacon_ring st;
         len = window_length (bstart1 r) (bend r);
         (s, a) = consume len (bstart1 r, bamount1 r)
     in case collect_loop bp_mac_addr bp_bssid (slots r) ap len (bstart1 r) [] of
          None \<Rightarrow> None
        | Some ml \<Rightarrow>
            let n1 = (if ml \<noteq> [] then neibours\<lparr>ap_length := int (length ml), aplists := copy_mac_list stack ml\<rparr>
                      else neibours)
            in Some (n1\<lparr>ap_length := 10\<rparr>,
                     st\<lparr>beacon_ring := r\<lparr>bstart1 := s, bamount1 := a\<rparr>\<rparr>))"

definition get_neighbour_py ::
  "string \<Rightarrow> aplist \<Rightarrow> receiver \<Rightarrow> (aplist \<times> receiver) option"
where
  "get_neighbour_py ap neibours st =
    (let r = beacon_ring st;
         len = window_length (bstart1 r) (bend r);
         (s, a) = consume len (bstart1 r, bamount1 r);
         st' = st\<lparr>beacon_ring := r\<lparr>bstart1 := s, bamount1 := a\<rparr>\<rparr>
     in case collect_loop bp_mac_addr bp_bssid (slots r) ap len (bstart1 r) [] of
          None \<Rightarrow> None
        | Some ml \<Rightarrow>
            if ml = [] then Some (neibours, st')
            else if length (aplists neibours) < length ml then None
            else Some (neibours\<lparr>ap_length := int (length ml),
                         aplists := ml @ drop (length ml) (aplists neibours)\<rparr>, st'))"

section \<open>Access points\<close>

text \<open>
  The inner loop of \<^verbatim>\<open>get_aps\<close> has a \<^verbatim>\<open>continue\<close> of its own as its only statement, so it has no
  effect; the start index is not reduced modulo the capacity.
\<close>

fun get_aps_loop ::
  "(nat \<Rightarrow> data_beacon_processed) \<Rightarrow> nat \<Rightarrow> nat \<Rightarrow> string list \<Rightarrow> nat \<Rightarrow> (string list \<times> nat \<times> nat) option"
where
  "get_aps_loop buf 0 s entries mac_list_last = Some (entries, s, mac_list_last)"
| "get_aps_loop buf (Suc amount) s entries mac_list_last =
     (if s < BUFFER_STORE \<and> mac_list_last < length entries
      then get_aps_loop buf amount (s + 1) (entries[mac_list_last := bp_mac_addr (buf s)]) (mac_list_last + 1)
      else None)"

definition get_aps :: "aplist option \<Rightarrow> receiver \<Rightarrow> (int \<times> aplist option \<times> receiver) option" where
  "get_aps apo st = (case apo of
     None \<Rightarrow> Some (0, None, st)
   | Some ap \<Rightarrow>
       (let r = beacon_ring st
        in case get_aps_loop (slots r) (nat (bamount r)) (bstart r) (aplists ap) 0 of
             None \<Rightarrow> None
           | Some (entries, s, mac_list_last) \<Rightarrow>
               Some (int mac_list_last, Some (ap\<lparr>aplists := entries\<rparr>),
                 st\<lparr>beacon_ring := r\<lparr>bstart := s, bamount := min 0 (bamount r)\<rparr>\<rparr>)))"

section \<open>Flows\<close>

definition flow_of :: "data_winsize_processed \<Rightarrow> flow" where
  "flow_of w = \<lparr>fl_ip_src = wp_ip_src w, fl_ip_dst = wp_ip_dst w,
     fl_port_src = wp_sourceaddr w, fl_port_dst = wp_destination w\<rparr>"

fun flows_loop :: "(nat \<Rightarrow> data_winsize_processed) \<Rightarrow> nat \<Rightarrow> nat \<Rightarrow> flow list \<Rightarrow> flow list option" where
  "flows_loop tmp 0 j fs = Some fs"
| "flows_loop tmp (Suc k) j fs =
     (if flow_of (tmp j) \<in> set fs
      then flows_loop tmp k ((j + 1) mod BUFFER_STORE) fs
      else if length fs < 40
        then flows_loop tmp k ((j + 1) mod BUFFER_STORE) (fs @ [flow_of (tmp j)])
        else None)"

definition get_flows :: "string \<Rightarrow> flowlist \<Rightarrow> receiver \<Rightarrow> (flowlist \<times> receiver) option" where
  "get_flows ap flowlists st =
    (let r = winsize_ring st;
         len = window_length (bstart r) (bend r);
         (s, a) = consume len (bstart r, bamount r)
     in case flows_loop (slots r) len (bstart r) [] of
          None \<Rightarrow> None
        | Some fs \<Rightarrow>
            Some (flowlists\<lparr>fl_length := int (length fs),
                    fl_flows := fs @ drop (length fs) (fl_flows flowlists)\<rparr>,
                  st\<lparr>winsize_ring := r\<lparr>bstart := s, bamount := a\<rparr>\<rparr>))"

section \<open>Drops per flow\<close>

definition drop_flow :: "data_dropped_processed \<Rightarrow> flow" where
  "drop_flow d = \<lparr>fl_ip_src = rp_ip_src d, fl_ip_dst = rp_ip_dst d,
     fl_port_src = rp_port_src d, fl_port_dst = rp_port_dst d\<rparr>"

fun count_drop :: "data_dropped_processed \<Rightarrow> flow_and_dropped list \<Rightarrow> int \<Rightarrow> flow_and_dropped list \<times> int" where
  "count_drop d [] total_drops = ([], total_drops)"
| "count_drop d (f # fs) total_drops =
     (let hit = (drop_flow d = fd_dataflow f);
          (fs', total_drops') = count_drop d fs (if hit then total_drops + 1 else total_drops)
      in ((if hit then f\<lparr>fd_drops := fd_drops f + 1\<rparr> else f) # fs', total_drops'))"

text \<open>
  The list that the inner loop searches is never given an entry.  The address is compared in
  the live buffer, the rest in the copy taken before.
\<close>

fun drops_loop ::
  "(nat \<Rightarrow> data_dropped_processed) \<Rightarrow> string \<Rightarrow> nat \<Rightarrow> nat \<Rightarrow> flow_and_dropped list \<Rightarrow> int \<Rightarrow> flow_and_dropped list \<times> int"
where
  "drops_loop tmp ap 0 j ml total_drops = (ml, total_drops)"
| "drops_loop tmp ap (Suc k) j ml total_drops =
     (if rp_mac_addr (tmp j) = ap
      then (let (ml', total_drops') = count_drop (tmp j) ml total_drops
            in drops_loop tmp ap k ((j + 1) mod BUFFER_STORE) ml' total_drops')
      else drops_loop tmp ap k ((j + 1) mod BUFFER_STORE) ml total_drops)"

definition get_flow_drops :: "string \<Rightarrow> flow_drop_ap \<Rightarrow> receiver \<Rightarrow> flow_drop_ap \<times> receiver" where
  "get_flow_drops ap flow_drops st =
    (let r = dropped_ring st;
         len = window_length (bstart r) (bend r);
         (s, a) = consume len (bstart r, bamount r);
         (ml, total_drops) = drops_loop (slots r) ap len (bstart r) [] 0
     in (\<lparr>fd_flowinfo = ml @ drop (length ml) (fd_flowinfo flow_drops),
          fd_drops_total = total_drops, fd_length = int (length ml)\<rparr>,
         st\<lparr>dropped_ring := r\<lparr>bstart := s, bamount := a\<rparr>\<rparr>))"

section \<open>Channel state of an access point\<close>

text \<open>
  The copies of the survey records are declared with the type of the station records, whose
  \<^verbatim>\<open>mac_addr\<close> lies 18 bytes into the object: the text that is compared starts in the padding of the
  survey record and runs over its first 64-bit member and the seconds.
\<close>

definition overlaid_mac :: "data_survey_processed \<Rightarrow> bytes" where
  "overlaid_mac s = takeWhile (\<lambda>b. b \<noteq> 0)
     (take 18 (sp_padding s @ le_bytes 8 (sp_time s) @ le_bytes 4 (sp_sec s)))"

definition text_bytes :: "string \<Rightarrow> bytes" where
  "text_bytes s = map (\<lambda>c. word_of_nat (of_char c)) s"

fun wireless_loop ::
  "(nat \<Rightarrow> data_survey_processed) \<Rightarrow> string \<Rightarrow> nat \<Rightarrow> nat \<Rightarrow> nat \<times> int \<Rightarrow> nat option \<times> nat \<times> int"
where
  "wireless_loop tmp ap 0 j (s, a) = (None, s, a)"
| "wireless_loop tmp ap (Suc k) j (s, a) =
     (let s' = (s + 1) mod BUFFER_STORE; a' = (if a - 1 < 0 then 0 else a - 1)
      in if overlaid_mac (tmp j) = text_bytes ap then (Some j, s', a')
         else wireless_loop tmp ap k ((j + 1) mod BUFFER_STORE) (s', a'))"

definition get_wireless_info ::
  "string \<Rightarrow> wireless_information_ap \<Rightarrow> receiver \<Rightarrow> bool \<times> wireless_information_ap \<times> receiver"
where
  "get_wireless_info ap clients st =
    (let r = survey_ring st;
         len = window_length (bstart r) (bend r);
         (hit, s, a) = wireless_loop (slots r) ap len (bstart r) (bstart r, bamount r);
         st' = st\<lparr>survey_ring := r\<lparr>bstart := s, bamount := a\<rparr>\<rparr>
     in case hit of
          None \<Rightarrow> (False, clients, st')
        | Some j \<Rightarrow>
            (True, clients\<lparr>wi_noise := scast (sp_noise (slots r j)),
               wi_active_time := sp_time (slots r j), wi_busy_time := sp_time_busy (slots r j),
               wi_transmit_time := sp_time_tx (slots r j),
               wi_receive_time := sp_time_rx (slots r j)\<rparr>, st'))"

section \<open>Collected lists\<close>

text \<open>A list without the repetitions, each element at its first occurrence.\<close>

definition add_new :: "'a \<Rightarrow> 'a list \<Rightarrow> 'a list" where
  "add_new x xs = (if x \<in> set xs then xs else xs @ [x])"

definition first_occurrences :: "'a list \<Rightarrow> 'a list" where
  "first_occurrences xs = fold add_new xs []"

lemma set_fold_add_new: "set (fold add_new ys xs) = set xs \<union> set ys"
  by (induction ys arbitrary: xs) (auto simp: add_new_def)

lemma distinct_fold_add_new: "distinct xs \<Longrightarrow> distinct (fold add_new ys xs)"
  by (induction ys arbitrary: xs) (auto simp: add_new_def)

lemma length_fold_add_new: "length xs \<le> length (fold add_new ys xs)"
proof (induction ys arbitrary: xs)
  case (Cons y ys)
  have "length xs \<le> length (add_new y xs)" by (simp add: add_new_def)
  also have "\<dots> \<le> length (fold add_new ys (add_new y xs))" by (rule Cons.IH)
  finally show ?case by simp
qed simp

lemma set_first_occurrences [simp]: "set (first_occurrences xs) = set xs"
  by (simp add: first_occurrences_def set_fold_add_new)

lemma distinct_first_occurrences [simp]: "distinct (first_occurrences xs)"
  by (simp add: first_occurrences_def distinct_fold_add_new)

definition slots_from :: "(nat \<Rightarrow> 'a) \<Rightarrow> nat \<Rightarrow> nat \<Rightarrow> 'a list" where
  "slots_from tmp j k = map (\<lambda>i. tmp ((j + i) mod BUFFER_STORE)) [0..<k]"

lemma slots_from_0 [simp]: "slots_from tmp j 0 = []"
  by (simp add: slots_from_def)

lemma slots_from_Suc [simp]:
  "j < BUFFER_STORE \<Longrightarrow> slots_from tmp j (Suc k) = tmp j # slots_from tmp ((j + 1) mod BUFFER_STORE) k"
  by (rule nth_equalityI) (auto simp: slots_from_def nth_Cons mod_simps simp del: upt_Suc split: nat.splits)

lemma ring_window_slots: "ring_window r = slots_from (slots r) (bstart r) (window_length (bstart r) (bend r))"
  by (simp add: ring_window_def slots_from_def)

lemma ring_window1_slots: "ring_window1 r = slots_from (slots r) (bstart1 r) (window_length (bstart1 r) (bend r))"
  by (simp add: ring_window1_def slots_from_def)

lemma collect_loop_stuck:
  "mac (tmp j) \<noteq> ap \<Longrightarrow> collect_loop mac item tmp ap k j ml = Some ml"
  by (induction k) auto

lemma collect_loop_eq:
  "j < BUFFER_STORE \<Longrightarrow> length ml \<le> 20 \<Longrightarrow>
   collect_loop mac item tmp ap k j ml =
     (let ml' = fold add_new (map item (takeWhile (\<lambda>x. mac x = ap) (slots_from tmp j k))) ml
      in if length ml' \<le> 20 then Some ml' else None)"
proof (induction k arbitrary: j ml)
  case 0
  then show ?case by simp
next
  case (Suc k)
  show ?case
  proof (cases "mac (tmp j) = ap")
    case False
    with Suc.prems show ?thesis by (simp add: collect_loop_stuck)
  next
    case True
    let ?ml = "add_new (item (tmp j)) ml"
    show ?thesis
    proof (cases "length ?ml \<le> 20")
      case True': True
      have "collect_loop mac item tmp ap (Suc k) j ml =
        collect_loop mac item tmp ap k ((j + 1) mod BUFFER_STORE) ?ml"
        using True True' by (auto simp: add_new_def)
      with Suc.IH [of "(j + 1) mod BUFFER_STORE" ?ml] True True' Suc.prems show ?thesis by simp
    next
      case False
      let ?r = "fold add_new (map item (takeWhile (\<lambda>x. mac x = ap)
        (slots_from tmp ((j + 1) mod BUFFER_STORE) k))) ?ml"
      have "\<not> length ?r \<le> 20"
        using False length_fold_add_new [of ?ml] by (meson order_trans)
      moreover have "collect_loop mac item tmp ap (Suc k) j ml = None"
        using False True Suc.prems by (auto simp: add_new_def split: if_splits)
      ultimately show ?thesis using True Suc.prems by (simp add: Let_def)
    qed
  qed
qed

definition ring_ok :: "'a api_ring \<Rightarrow> bool" where
  "ring_ok r \<longleftrightarrow> bstart r < BUFFER_STORE \<and> bstart1 r < BUFFER_STORE \<and> bend r < BUFFER_STORE \<and>
     0 \<le> bamount r \<and> 0 \<le> bamount1 r"

lemma ring_ok_push: "ring_ok r \<Longrightarrow> ring_ok (ring_push u r)"
  by (simp add: ring_ok_def ring_push_def Let_def)

lemma ring_ok_survey_push: "ring_ok r \<Longrightarrow> ring_ok (survey_push u r)"
  by (simp add: ring_ok_def survey_push_def Let_def)

lemma ring_ok_empty: "ring_ok (empty_ring mem)"
  by (simp add: ring_ok_def empty_ring_def)

lemma consume_window:
  assumes "ring_ok r"
  shows "fst (consume (window_length (bstart r) (bend r)) (bstart r, a)) = bend r"
    and "fst (consume (window_length (bstart1 r) (bend r)) (bstart1 r, a)) = bend r"
  using assms by (simp_all add: ring_ok_def consume_start window_length_consumed)

section \<open>Properties of the API\<close>

text \<open>
  A receiver for examples: one station record, one beacon and one TCP segment have arrived, and
  the survey records lie in cleared memory.
\<close>

definition demo_receiver :: receiver where
  "demo_receiver = cold_receiver\<lparr>
     iw_ring := ring_push (iw_store ''04:a1'' ''f4:8b'' (data_iw_of_bytes (replicate 64 1))) (empty_ring undefined),
     beacon_ring := ring_push (beacon_store ''04:a1'' ''c8:3a'' (data_beacon_of_bytes (replicate 32 1))) (empty_ring undefined),
     winsize_ring := ring_push (winsize_store ''04:a1'' (segment 1 2 3 4 16 9)) (empty_ring undefined),
     survey_ring := empty_ring (\<lambda>_. \<lparr>sp_mac_addr = ''04:a1'', sp_padding = [0, 0, 0, 0, 0, 0], sp_time = 1,
       sp_sec = 0, sp_usec = 0, sp_time_busy = 0, sp_time_ext_busy = 0, sp_time_rx = 0, sp_time_tx = 0,
       sp_time_scan = 0, sp_filled = 0, sp_noise = 0, sp_pad = 0, sp_center_freq = 0\<rparr>)\<rparr>"

lemma demo_receiver_ok:
  "ring_ok (iw_ring demo_receiver)" "ring_ok (beacon_ring demo_receiver)"
  "ring_ok (winsize_ring demo_receiver)" "ring_ok (survey_ring demo_receiver)"
  by (simp_all add: demo_receiver_def ring_ok_push ring_ok_empty)

text \<open>
  The clients that \<^verbatim>\<open>get_clients\<close> reports for an access point are the different stations of
  the records at the front of the unread window, up to the first record of another access point:
  the read index stays at that record while the rest of the window is counted as read.  With
  more than twenty of them the local array overflows.  The window is empty afterwards.
\<close>

theorem get_clients_reports_leading_block:
  fixes ap :: string
  assumes "ring_ok (iw_ring st)"
  defines "found \<equiv> first_occurrences (map ip_station
      (takeWhile (\<lambda>x. ip_mac_addr x = ap) (ring_window (iw_ring st))))"
  shows "if length found \<le> 20
    then \<exists>c st'. get_clients stack ap clients st = Some (c, st') \<and>
      ap_length c = int (length found) \<and> take (length found) (aplists c) = found \<and>
      ring_window (iw_ring st') = []
    else get_clients stack ap clients st = None"
proof -
  let ?r = "iw_ring st"
  have s: "bstart ?r < BUFFER_STORE" using assms(1) by (simp add: ring_ok_def)
  obtain s' a' where c: "consume (window_length (bstart ?r) (bend ?r)) (bstart ?r, bamount ?r) = (s', a')"
    by (cases "consume (window_length (bstart ?r) (bend ?r)) (bstart ?r, bamount ?r)")
  with consume_window(1) [OF assms(1)] have "s' = bend ?r" by (metis fst_conv)
  then have "ring_window (?r\<lparr>bstart := s', bamount := a'\<rparr>) = []"
    by (simp add: ring_window_def window_length_def)
  with c show ?thesis
    using collect_loop_eq [OF s, of "[]" ip_mac_addr ip_station "slots ?r" ap
        "window_length (bstart ?r) (bend ?r)"]
    by (auto simp: get_clients_def found_def ring_window_slots first_occurrences_def copy_mac_list_def Let_def)
qed

theorem get_clients_reports_leading_block_witness:
  "let found = first_occurrences (map ip_station
      (takeWhile (\<lambda>x. ip_mac_addr x = ''04:a1'') (ring_window (iw_ring demo_receiver))))
   in if length found \<le> 20
    then \<exists>c st'. get_clients (replicate 20 []) ''04:a1'' \<lparr>aplists = [], ap_length = 0\<rparr> demo_receiver = Some (c, st') \<and>
      ap_length c = int (length found) \<and> take (length found) (aplists c) = found \<and>
      ring_window (iw_ring st') = []
    else get_clients (replicate 20 []) ''04:a1'' \<lparr>aplists = [], ap_length = 0\<rparr> demo_receiver = None"
  unfolding Let_def by (rule get_clients_reports_leading_block [OF demo_receiver_ok(1)])

text \<open>
  \<^verbatim>\<open>get_neighbour\<close> reports a length of 10, whatever it found; the addresses it found are the
  first of the list, and with none found the list of the caller is untouched.
\<close>

theorem get_neighbour_always_ten:
  fixes ap :: string
  assumes "ring_ok (beacon_ring st)"
  defines "found \<equiv> first_occurrences (map bp_bssid
      (takeWhile (\<lambda>x. bp_mac_addr x = ap) (ring_window1 (beacon_ring st))))"
  shows "length found > 20 \<or>
    (\<exists>c st'. get_neighbour stack ap neibours st = Some (c, st') \<and> ap_length c = 10 \<and>
       (if found = [] then aplists c = aplists neibours else take (length found) (aplists c) = found))"
proof (cases "length found \<le> 20")
  case True
  let ?r = "beacon_ring st"
  have s: "bstart1 ?r < BUFFER_STORE" using assms(1) by (simp add: ring_ok_def)
  show ?thesis
    using True collect_loop_eq [OF s, of "[]" bp_mac_addr bp_bssid "slots ?r" ap
        "window_length (bstart1 ?r) (bend ?r)"]
    by (auto simp: get_neighbour_def found_def ring_window1_slots first_occurrences_def
        copy_mac_list_def Let_def split: prod.splits)
qed simp

theorem get_neighbour_always_ten_witness:
  "let found = first_occurrences (map bp_bssid
      (takeWhile (\<lambda>x. bp_mac_addr x = ''04:a1'') (ring_window1 (beacon_ring demo_receiver))))
   in length found > 20 \<or>
    (\<exists>c st'. get_neighbour [] ''04:a1'' \<lparr>aplists = [], ap_length = 0\<rparr> demo_receiver = Some (c, st') \<and>
       ap_length c = 10 \<and>
       (if found = [] then aplists c = aplists \<lparr>aplists = [], ap_length = 0\<rparr>
        else take (length found) (aplists c) = found))"
  unfolding Let_def by (rule get_neighbour_always_ten [OF demo_receiver_ok(2)])

lemma flows_loop_eq:
  "j < BUFFER_STORE \<Longrightarrow> length fs \<le> 40 \<Longrightarrow>
   flows_loop tmp k j fs =
     (let fs' = fold add_new (map flow_of (slots_from tmp j k)) fs
      in if length fs' \<le> 40 then Some fs' else None)"
proof (induction k arbitrary: j fs)
  case 0
  then show ?case by simp
next
  case (Suc k)
  let ?fs = "add_new (flow_of (tmp j)) fs"
  show ?case
  proof (cases "length ?fs \<le> 40")
    case True
    then have "flows_loop tmp (Suc k) j fs = flows_loop tmp k ((j + 1) mod BUFFER_STORE) ?fs"
      by (auto simp: add_new_def)
    with Suc.IH [of "(j + 1) mod BUFFER_STORE" ?fs] True Suc.prems show ?thesis by simp
  next
    case False
    let ?r = "fold add_new (map flow_of (slots_from tmp ((j + 1) mod BUFFER_STORE) k)) ?fs"
    have "\<not> length ?r \<le> 40"
      using False length_fold_add_new [of ?fs] by (meson order_trans)
    moreover have "flows_loop tmp (Suc k) j fs = None"
      using False Suc.prems by (auto simp: add_new_def split: if_splits)
    ultimately show ?thesis using Suc.prems by (simp add: Let_def)
  qed
qed

text \<open>
  \<^verbatim>\<open>get_flows\<close> reports the different flows of the unread window in the order in which they
  appear, for all access points together: the address it is given plays no part.  More than
  forty flows overflow the local array.
\<close>

theorem get_flows_reports_window:
  assumes "ring_ok (winsize_ring st)"
  defines "found \<equiv> first_occurrences (map flow_of (ring_window (winsize_ring st)))"
  shows "if length found \<le> 40
    then \<exists>c st'. get_flows ap out st = Some (c, st') \<and> fl_length c = int (length found) \<and>
      take (length found) (fl_flows c) = found \<and> ring_window (winsize_ring st') = []
    else get_flows ap out st = None"
proof -
  let ?r = "winsize_ring st"
  have s: "bstart ?r < BUFFER_STORE" using assms(1) by (simp add: ring_ok_def)
  obtain s' a' where c: "consume (window_length (bstart ?r) (bend ?r)) (bstart ?r, bamount ?r) = (s', a')"
    by (cases "consume (window_length (bstart ?r) (bend ?r)) (bstart ?r, bamount ?r)")
  with consume_window(1) [OF assms(1)] have "s' = bend ?r" by (metis fst_conv)
  then have "ring_window (?r\<lparr>bstart := s', bamount := a'\<rparr>) = []"
    by (simp add: ring_window_def window_length_def)
  with c show ?thesis
    using flows_loop_eq [OF s, of "[]" "slots ?r" "window_length (bstart ?r) (bend ?r)"]
    by (auto simp: get_flows_def found_def ring_window_slots first_occurrences_def Let_def)
qed

theorem get_flows_reports_window_witness:
  "let found = first_occurrences (map flow_of (ring_window (winsize_ring demo_receiver)))
   in if length found \<le> 40
    then \<exists>c st'. get_flows ''04:a1'' \<lparr>fl_flows = [], fl_length = 0\<rparr> demo_receiver = Some (c, st') \<and>
      fl_length c = int (length found) \<and> take (length found) (fl_flows c) = found \<and>
      ring_window (winsize_ring st') = []
    else get_flows ''04:a1'' \<lparr>fl_flows = [], fl_length = 0\<rparr> demo_receiver = None"
  unfolding Let_def by (rule get_flows_reports_window [OF demo_receiver_ok(3)])

lemma drops_loop_empty: "drops_loop tmp ap k j [] total_drops = ([], total_drops)"
  by (induction k arbitrary: j) auto

text \<open>
  \<^verbatim>\<open>get_flow_drops\<close> reports no flow and no drop, whatever packets were dropped: the list it
  counts in is never filled.
\<close>

theorem get_flow_drops_reports_nothing:
  "fd_length (fst (get_flow_drops ap out st)) = 0 \<and>
   fd_drops_total (fst (get_flow_drops ap out st)) = 0 \<and>
   fd_flowinfo (fst (get_flow_drops ap out st)) = fd_flowinfo out"
  by (simp add: get_flow_drops_def drops_loop_empty Let_def split: prod.splits)

lemma get_aps_loop_eq:
  "s + amount \<le> BUFFER_STORE \<Longrightarrow> n + amount \<le> length xs \<Longrightarrow>
   get_aps_loop buf amount s xs n =
     Some (take n xs @ map (\<lambda>i. bp_mac_addr (buf (s + i))) [0..<amount] @ drop (n + amount) xs,
           s + amount, n + amount)"
proof (induction amount arbitrary: s n xs)
  case 0
  then show ?case by simp
next
  case (Suc k)
  have "map (\<lambda>i. bp_mac_addr (buf (s + i))) [0..<Suc k] =
    bp_mac_addr (buf s) # map (\<lambda>i. bp_mac_addr (buf (Suc s + i))) [0..<k]"
    by (rule nth_equalityI) (auto simp: nth_Cons simp del: upt_Suc split: nat.splits)
  with Suc show ?case
    by (simp add: take_update_cancel upd_conv_take_nth_drop take_Suc_conv_app_nth add.commute [of n k] del: upt_Suc)
qed

text \<open>
  \<^verbatim>\<open>get_aps\<close> reports one entry per unread beacon, repetitions included, and writes past the
  caller's array of twenty addresses from the twenty-first on.
\<close>

theorem get_aps_repeats:
  assumes "bstart (beacon_ring st) + nat (bamount (beacon_ring st)) \<le> BUFFER_STORE"
    and "length (aplists ap) = 20"
  defines "n \<equiv> nat (bamount (beacon_ring st))"
  shows "if n \<le> 20
    then \<exists>c st'. get_aps (Some ap) st = Some (int n, Some c, st') \<and>
      take n (aplists c) = map (\<lambda>i. bp_mac_addr (slots (beacon_ring st) (bstart (beacon_ring st) + i))) [0..<n]
    else get_aps (Some ap) st = None"
proof -
  have over: "get_aps_loop buf k s xs m = None" if "m \<le> length xs" "length xs < m + k" for buf k s xs m
    using that by (induction k arbitrary: s xs m) auto
  show ?thesis
    using assms(1,2) over [of 0 "aplists ap" n]
      get_aps_loop_eq [of "bstart (beacon_ring st)" n 0 "aplists ap" "slots (beacon_ring st)"]
    by (auto simp: get_aps_def n_def Let_def)
qed

theorem get_aps_repeats_witness:
  "let n = nat (bamount (beacon_ring demo_receiver))
   in if n \<le> 20
    then \<exists>c st'. get_aps (Some \<lparr>aplists = replicate 20 [], ap_length = 0\<rparr>) demo_receiver = Some (int n, Some c, st') \<and>
      take n (aplists c) = map (\<lambda>i. bp_mac_addr (slots (beacon_ring demo_receiver) (bstart (beacon_ring demo_receiver) + i))) [0..<n]
    else get_aps (Some \<lparr>aplists = replicate 20 [], ap_length = 0\<rparr>) demo_receiver = None"
  unfolding Let_def
  by (rule get_aps_repeats) (simp_all add: demo_receiver_def ring_push_def empty_ring_def Let_def BUFFER_STORE_def)

lemma wireless_loop_miss:
  assumes "\<And>i. overlaid_mac (tmp i) \<noteq> text_bytes ap"
  shows "wireless_loop tmp ap k j sa = (None, consume k sa)"
  using assms by (induction k arbitrary: j sa) (auto split: prod.splits)

lemma length_mac_text [simp]: "length (mac_text a) = 17"
  by (simp add: mac_text_def)

lemma overlaid_mac_short:
  assumes "length (sp_padding s) = 6" "0 \<in> set (sp_padding s)"
  shows "length (overlaid_mac s) < 6"
proof -
  let ?p = "sp_padding s"
  have "takeWhile (\<lambda>b. b \<noteq> 0) (take 18 (?p @ le_bytes 8 (sp_time s) @ le_bytes 4 (sp_sec s)))
      = takeWhile (\<lambda>b. b \<noteq> 0) ?p"
    using assms by (simp add: takeWhile_append1)
  moreover have "length (takeWhile (\<lambda>b. b \<noteq> 0) ?p) < length ?p"
    using assms(2) by (metis (mono_tags) length_takeWhile_le le_neq_implies_less nat_less_le
        takeWhile_eq_all_conv takeWhile_eq_take take_all_iff order_refl)
  ultimately show ?thesis using assms(1) by (simp add: overlaid_mac_def)
qed

text \<open>
  \<^verbatim>\<open>get_wireless_info\<close> never finds an access point when the padding of the survey records
  holds a zero byte (memory that the allocator cleared): the text it compares is shorter than
  any printed address.  It consumes the whole window all the same.
\<close>

theorem get_wireless_info_never_finds:
  assumes "\<And>i. length (sp_padding (slots (survey_ring st) i)) = 6"
    and "\<And>i. 0 \<in> set (sp_padding (slots (survey_ring st) i))"
    and "ring_ok (survey_ring st)"
  shows "\<exists>st'. get_wireless_info (mac_text a) clients st = (False, clients, st') \<and>
    ring_window (survey_ring st') = []"
proof -
  let ?r = "survey_ring st"
  have "length (text_bytes (mac_text a)) = 17" by (simp add: text_bytes_def)
  then have "overlaid_mac (slots ?r i) \<noteq> text_bytes (mac_text a)" for i
    using overlaid_mac_short [OF assms(1,2), of i] by auto
  note miss = wireless_loop_miss [of "slots ?r" "mac_text a", OF this]
  obtain s' a' where c: "consume (window_length (bstart ?r) (bend ?r)) (bstart ?r, bamount ?r) = (s', a')"
    by (cases "consume (window_length (bstart ?r) (bend ?r)) (bstart ?r, bamount ?r)")
  with consume_window(1) [OF assms(3)] have "s' = bend ?r" by (metis fst_conv)
  then have "ring_window (?r\<lparr>bstart := s', bamount := a'\<rparr>) = []"
    by (simp add: ring_window_def window_length_def)
  with c show ?thesis by (simp add: get_wireless_info_def miss Let_def)
qed

theorem get_wireless_info_never_finds_witness:
  "\<exists>st'. get_wireless_info (mac_text [4,161,81,163,87,26])
      \<lparr>wi_noise = 0, wi_connected_time = 0, wi_active_time = 0, wi_busy_time = 0, wi_receive_time = 0,
       wi_transmit_time = 0\<rparr> demo_receiver =
    (False, \<lparr>wi_noise = 0, wi_connected_time = 0, wi_active_time = 0, wi_busy_time = 0, wi_receive_time = 0,
       wi_transmit_time = 0\<rparr>, st') \<and> ring_window (survey_ring st') = []"
  by (rule get_wireless_info_never_finds [OF _ _ demo_receiver_ok(4)])
    (simp_all add: demo_receiver_def empty_ring_def)

end
