(* ===== verification/Msg_Pool.thy ===== *)
theory Msg_Pool
  imports Receiver
begin

text \<open>
  The buffer between the two threads of the receiver: \<^verbatim>\<open>receive\<close> copies each datagram into the next
  1024 bytes of a ring and \<^verbatim>\<open>g_mes_tn_process\<close> copies them out.  The threads are a labelled step
  relation whose steps are the critical sections and the reads of the shared indices outside
  them; the consumer's register \<open>ulen\<close> may be stale when it is tested.

  A capacity check is missing: the ring carries messages in order as long as the producer is at
  most 9999 messages ahead, and forgets all of them when it gets 10000 ahead.
\<close>

section \<open>The ring\<close>

definition SEND_SIZE :: nat where "SEND_SIZE = 1024"
definition POOL_SIZE :: nat where "POOL_SIZE = 10240000"

record pool =
  buffer_pool :: "nat \<Rightarrow> u8"
  pool_tail :: nat
  pool_head :: nat

definition pool_init :: pool where
  "pool_init = \<lparr>buffer_pool = (\<lambda>_. 0), pool_tail = 0, pool_head = 0\<rparr>"

text \<open>The local array of \<^verbatim>\<open>receive\<close>: zeros, then the datagram over them.\<close>

definition pad_message :: "bytes \<Rightarrow> bytes" where
  "pad_message m = take SEND_SIZE m @ replicate (SEND_SIZE - length m) 0"

definition pool_store :: "bytes \<Rightarrow> pool \<Rightarrow> pool" where
  "pool_store message p = p\<lparr>
     buffer_pool := (\<lambda>i. if pool_tail p \<le> i \<and> i < pool_tail p + SEND_SIZE
                         then message ! (i - pool_tail p) else buffer_pool p i),
     pool_tail := (pool_tail p + SEND_SIZE) mod POOL_SIZE\<rparr>"

definition pool_fetch :: "pool \<Rightarrow> bytes \<times> pool" where
  "pool_fetch p =
    (map (buffer_pool p) [pool_head p..<pool_head p + SEND_SIZE],
     p\<lparr>pool_head := (pool_head p + SEND_SIZE) mod POOL_SIZE\<rparr>)"

definition pool_used :: "pool \<Rightarrow> nat" where
  "pool_used p = (pool_tail p + POOL_SIZE - pool_head p) mod POOL_SIZE"

section \<open>The interface of a bounded queue\<close>

locale bounded_fifo =
  fixes rep :: "'p \<Rightarrow> 'm list \<Rightarrow> bool"
    and ok :: "'m \<Rightarrow> bool"
    and cap :: nat
    and put :: "'m \<Rightarrow> 'p \<Rightarrow> 'p"
    and get :: "'p \<Rightarrow> 'm \<times> 'p"
  assumes rep_put: "rep p q \<Longrightarrow> ok m \<Longrightarrow> length q < cap \<Longrightarrow> rep (put m p) (q @ [m])"
    and rep_get: "rep p (m # q) \<Longrightarrow> fst (get p) = m \<and> rep (snd (get p)) q"
begin

lemma rep_fold_put:
  "rep p q \<Longrightarrow> list_all ok ms \<Longrightarrow> length q + length ms \<le> cap \<Longrightarrow> rep (fold put ms p) (q @ ms)"
proof (induction ms arbitrary: p q)
  case (Cons m ms)
  then have "rep (put m p) (q @ [m])" by (intro rep_put) simp_all
  with Cons.IH [of "put m p" "q @ [m]"] Cons.prems show ?case by simp
qed simp

lemma get_after_put:
  "rep p (m # q) \<Longrightarrow> ok m' \<Longrightarrow> length q + 1 < cap \<Longrightarrow>
   fst (get (put m' p)) = m \<and> rep (snd (get (put m' p))) (q @ [m'])"
  using rep_put [of p "m # q" m'] rep_get [of "put m' p" m "q @ [m']"] by simp

end

section \<open>The ring is a bounded queue\<close>

definition SLOTS :: nat where "SLOTS = 10000"

lemma POOL_SLOTS: "POOL_SIZE = SEND_SIZE * SLOTS"
  by (simp add: POOL_SIZE_def SEND_SIZE_def SLOTS_def)

lemma sizes_pos [simp]: "0 < SEND_SIZE" "0 < SLOTS" "0 < POOL_SIZE" "1 < SEND_SIZE"
  by (simp_all add: POOL_SIZE_def SEND_SIZE_def SLOTS_def)

definition pool_slot :: "pool \<Rightarrow> nat \<Rightarrow> bytes" where
  "pool_slot p k = map (buffer_pool p) [SEND_SIZE * k..<SEND_SIZE * k + SEND_SIZE]"

definition pool_rep :: "pool \<Rightarrow> bytes list \<Rightarrow> bool" where
  "pool_rep p q \<longleftrightarrow>
    (\<exists>h < SLOTS. pool_head p = SEND_SIZE * h \<and>
       pool_tail p = SEND_SIZE * ((h + length q) mod SLOTS) \<and>
       length q < SLOTS \<and>
       (\<forall>i < length q. pool_slot p ((h + i) mod SLOTS) = q ! i))"

lemma pool_advance: "(SEND_SIZE * k + SEND_SIZE) mod POOL_SIZE = SEND_SIZE * ((k + 1) mod SLOTS)"
  by (simp add: POOL_SLOTS mult_mod_right add.commute)

lemma pool_slot_store_same:
  "length m = SEND_SIZE \<Longrightarrow> pool_tail p = SEND_SIZE * k \<Longrightarrow> pool_slot (pool_store m p) k = m"
  by (rule nth_equalityI) (auto simp: pool_slot_def pool_store_def)

lemma pool_slot_store_other:
  assumes "pool_tail p = SEND_SIZE * k" "j \<noteq> k"
  shows "pool_slot (pool_store m p) j = pool_slot p j"
proof -
  have "\<not> (SEND_SIZE * k \<le> i \<and> i < SEND_SIZE * k + SEND_SIZE)"
    if "SEND_SIZE * j \<le> i" "i < SEND_SIZE * j + SEND_SIZE" for i
  proof
    assume i: "SEND_SIZE * k \<le> i \<and> i < SEND_SIZE * k + SEND_SIZE"
    then have "i div SEND_SIZE = k" by (intro div_nat_eqI) (simp_all add: algebra_simps)
    moreover have "i div SEND_SIZE = j" using that by (intro div_nat_eqI) (simp_all add: algebra_simps)
    ultimately show False using assms(2) by simp
  qed
  with assms(1) show ?thesis by (auto simp: pool_slot_def pool_store_def)
qed

lemma mod_add_neq:
  "a < b \<Longrightarrow> b < n \<Longrightarrow> (h + a) mod n \<noteq> (h + b) mod (n :: nat)"
proof
  assume "a < b" "b < n" and eq: "(h + a) mod n = (h + b) mod n"
  then have "n dvd (h + b) - (h + a)" by (metis mod_eq_dvd_iff_nat nat_add_left_cancel_le less_imp_le)
  with \<open>a < b\<close> have "n \<le> b - a" by (intro dvd_imp_le) auto
  with \<open>b < n\<close> show False by simp
qed

lemma pool_rep_put:
  assumes rep: "pool_rep p q" and m: "length m = SEND_SIZE" and room: "length q < SLOTS - 1"
  shows "pool_rep (pool_store m p) (q @ [m])"
proof -
  from rep obtain h where h: "h < SLOTS" "pool_head p = SEND_SIZE * h"
    "pool_tail p = SEND_SIZE * ((h + length q) mod SLOTS)"
    "\<forall>i < length q. pool_slot p ((h + i) mod SLOTS) = q ! i"
    by (auto simp: pool_rep_def)
  let ?p = "pool_store m p"
  have "pool_slot ?p ((h + i) mod SLOTS) = (q @ [m]) ! i" if "i < length (q @ [m])" for i
  proof (cases "i = length q")
    case True
    with pool_slot_store_same [OF m h(3)] show ?thesis by simp
  next
    case False
    with that have "i < length q" by simp
    then have "(h + i) mod SLOTS \<noteq> (h + length q) mod SLOTS"
      using mod_add_neq [of i "length q" SLOTS h] room by simp
    then show ?thesis
      using pool_slot_store_other [OF h(3), of "(h + i) mod SLOTS" m] h(4) \<open>i < length q\<close>
      by (simp add: nth_append)
  qed
  moreover have "pool_tail ?p = SEND_SIZE * ((h + length (q @ [m])) mod SLOTS)"
    using h(3) by (simp add: pool_store_def pool_advance mod_Suc_eq)
  moreover have "pool_head ?p = SEND_SIZE * h" using h(2) by (simp add: pool_store_def)
  ultimately show ?thesis using h(1) room unfolding pool_rep_def by (intro exI [of _ h]) auto
qed

lemma pool_rep_get:
  assumes "pool_rep p (m # q)"
  shows "fst (pool_fetch p) = m \<and> pool_rep (snd (pool_fetch p)) q"
proof -
  from assms obtain h where h: "h < SLOTS" "pool_head p = SEND_SIZE * h"
    "pool_tail p = SEND_SIZE * ((h + length (m # q)) mod SLOTS)" "length (m # q) < SLOTS"
    "\<forall>i < length (m # q). pool_slot p ((h + i) mod SLOTS) = (m # q) ! i"
    by (auto simp: pool_rep_def)
  let ?h = "(h + 1) mod SLOTS"
  have "fst (pool_fetch p) = m"
    using h(1,2) h(5) [rule_format, of 0] by (simp add: pool_fetch_def pool_slot_def)
  moreover have "pool_slot (snd (pool_fetch p)) ((?h + i) mod SLOTS) = q ! i" if "i < length q" for i
    using h(5) [rule_format, of "Suc i"] that
    by (simp add: pool_fetch_def pool_slot_def mod_simps)
  moreover have "pool_tail (snd (pool_fetch p)) = SEND_SIZE * ((?h + length q) mod SLOTS)"
    using h(3) by (simp add: pool_fetch_def mod_simps)
  ultimately show ?thesis
    using h(2,4) unfolding pool_rep_def
    by (intro conjI exI [of _ ?h]) (simp_all add: pool_fetch_def pool_advance)
qed

lemma pool_rep_init: "pool_rep pool_init []"
  unfolding pool_rep_def by (rule exI [of _ 0]) (simp add: pool_init_def)

interpretation ring: bounded_fifo pool_rep "\<lambda>m. length m = SEND_SIZE" "SLOTS - 1" pool_store pool_fetch
  by unfold_locales (use pool_rep_put pool_rep_get in blast)+

lemma pool_used_rep:
  assumes "pool_rep p q"
  shows "pool_used p = SEND_SIZE * length q"
proof -
  from assms obtain h where h: "h < SLOTS" "pool_head p = SEND_SIZE * h"
    "pool_tail p = SEND_SIZE * ((h + length q) mod SLOTS)" "length q < SLOTS"
    by (auto simp: pool_rep_def)
  have "pool_used p = SEND_SIZE * (((h + length q) mod SLOTS + SLOTS - h) mod SLOTS)"
    using h by (simp add: pool_used_def POOL_SLOTS mult_mod_right diff_mult_distrib2 distrib_left)
  also have "((h + length q) mod SLOTS + SLOTS - h) mod SLOTS = length q"
    using h(1,4) by (auto simp: mod_if)
  finally show ?thesis .
qed

section \<open>The two threads\<close>

datatype consumer_pc = Outer | Test | Body

record pool_sys =
  shared :: pool
  ulen :: nat
  cpc :: consumer_pc

definition pool_sys_init :: pool_sys where
  "pool_sys_init = \<lparr>shared = pool_init, ulen = 0, cpc = Outer\<rparr>"

datatype pool_event = Received bytes | Took bytes | Tau

text \<open>
  \<open>recv\<close> is the critical section of \<^verbatim>\<open>receive\<close>; the consumer reads the used length, tests it, and
  takes a message in its own critical section.
\<close>

inductive pool_step :: "pool_sys \<Rightarrow> pool_event \<Rightarrow> pool_sys \<Rightarrow> bool" where
  recv: "m \<noteq> [] \<Longrightarrow> length m \<le> SEND_SIZE \<Longrightarrow>
    pool_step s (Received m) (s\<lparr>shared := pool_store (pad_message m) (shared s)\<rparr>)"
| read_len: "cpc s = Outer \<Longrightarrow>
    pool_step s Tau (s\<lparr>ulen := pool_used (shared s), cpc := Test\<rparr>)"
| test: "cpc s = Test \<Longrightarrow>
    pool_step s Tau (s\<lparr>cpc := (if ulen s > 1 then Body else Outer)\<rparr>)"
| fetch: "cpc s = Body \<Longrightarrow> pool_fetch (shared s) = (m, p) \<Longrightarrow>
    pool_step s (Took m) (s\<lparr>shared := p, cpc := Outer\<rparr>)"

inductive_cases pool_stepE: "pool_step s e s'"

inductive pool_run :: "pool_sys \<Rightarrow> pool_event list \<Rightarrow> pool_sys \<Rightarrow> bool" where
  start: "pool_run s [] s"
| step: "pool_run s tr s' \<Longrightarrow> pool_step s' e s'' \<Longrightarrow> pool_run s (tr @ [e]) s''"

fun received :: "pool_event list \<Rightarrow> bytes list" where
  "received [] = []"
| "received (Received m # tr) = pad_message m # received tr"
| "received (_ # tr) = received tr"

fun taken :: "pool_event list \<Rightarrow> bytes list" where
  "taken [] = []"
| "taken (Took m # tr) = m # taken tr"
| "taken (_ # tr) = taken tr"

lemma received_append [simp]: "received (xs @ ys) = received xs @ received ys"
  by (induction xs rule: received.induct) auto

lemma taken_append [simp]: "taken (xs @ ys) = taken xs @ taken ys"
  by (induction xs rule: taken.induct) auto

text \<open>The producer is never more than 9999 messages ahead.\<close>

definition no_overrun :: "pool_event list \<Rightarrow> bool" where
  "no_overrun tr \<longleftrightarrow>
    (\<forall>k \<le> length tr. length (received (take k tr)) \<le> length (taken (take k tr)) + (SLOTS - 1))"

lemma no_overrun_snoc:
  "no_overrun (tr @ [e]) \<Longrightarrow>
   no_overrun tr \<and> length (received (tr @ [e])) \<le> length (taken (tr @ [e])) + (SLOTS - 1)"
  unfolding no_overrun_def
  by (metis append.right_neutral append_take_drop_id le_cases le_refl take_all_iff take_append
      length_append diff_is_0_eq' take0 trans_le_add1)

text \<open>
  The simulation: the ring holds the queue of outstanding messages, and a consumer that has
  seen messages finds one.
\<close>

definition pool_sim :: "pool_sys \<Rightarrow> bytes list \<Rightarrow> bool" where
  "pool_sim s q \<longleftrightarrow> pool_rep (shared s) q \<and>
     (cpc s = Body \<longrightarrow> q \<noteq> []) \<and> (cpc s = Test \<longrightarrow> 1 < ulen s \<longrightarrow> q \<noteq> [])"

lemma length_pad_message: "length m \<le> SEND_SIZE \<Longrightarrow> length (pad_message m) = SEND_SIZE"
  by (simp add: pad_message_def)

lemma pool_step_sim:
  assumes "pool_step s e s'" "pool_sim s q" "length (q @ received [e]) < SLOTS"
  shows "\<exists>q'. pool_sim s' q' \<and> taken [e] @ q' = q @ received [e]"
  using assms(1)
proof cases
  case (recv m)
  then have "pool_rep (shared s') (q @ [pad_message m])"
    using assms(2,3) pool_rep_put [of "shared s" q "pad_message m"]
    by (simp add: pool_sim_def length_pad_message)
  with recv assms(2) show ?thesis by (auto simp: pool_sim_def)
next
  case read_len
  with assms(2) have "pool_used (shared s) = SEND_SIZE * length q"
    by (simp add: pool_sim_def pool_used_rep)
  with read_len assms(2) show ?thesis by (auto simp: pool_sim_def)
next
  case test
  with assms(2) show ?thesis by (auto simp: pool_sim_def)
next
  case (fetch m p)
  with assms(2) obtain q0 qs where q: "q = q0 # qs" by (auto simp: pool_sim_def neq_Nil_conv)
  with fetch assms(2) pool_rep_get [of "shared s" q0 qs] show ?thesis by (auto simp: pool_sim_def)
qed

lemma pool_run_sim:
  "pool_run s0 tr s \<Longrightarrow> s0 = pool_sys_init \<Longrightarrow> no_overrun tr \<Longrightarrow>
   \<exists>q. pool_sim s q \<and> taken tr @ q = received tr"
proof (induction rule: pool_run.induct)
  case (start s)
  then show ?case by (auto simp: pool_sim_def pool_sys_init_def pool_rep_init)
next
  case (step s0 tr s e s')
  from no_overrun_snoc [OF step.prems(2)] have
    ok: "no_overrun tr" "length (received (tr @ [e])) \<le> length (taken (tr @ [e])) + (SLOTS - 1)" by auto
  from step.IH [OF step.prems(1) ok(1)] obtain q where
    q: "pool_sim s q" "taken tr @ q = received tr" by blast
  have len: "length (q @ received [e]) < SLOTS"
  proof -
    from q(2) have "length (received tr) = length (taken tr) + length q"
      by (metis length_append)
    moreover have "length q < SLOTS" using q(1) by (auto simp: pool_sim_def pool_rep_def)
    moreover have "0 < SLOTS" by simp
    ultimately show ?thesis using ok(2) by (cases e) auto
  qed
  from pool_step_sim [OF step.hyps(2) q(1) len] obtain q' where
    "pool_sim s' q'" "taken [e] @ q' = q @ received [e]" by blast
  then show ?case using q(2) by (intro exI [of _ q']) simp
qed

text \<open>
  C12.  In every interleaving of the two threads in which the producer never gets more than
  9999 messages ahead, the messages the consumer has taken are the first of the messages that
  were received, in order and unchanged.
\<close>

theorem pool_is_fifo:
  assumes "pool_run pool_sys_init tr s" and "no_overrun tr"
  shows "taken tr = take (length (taken tr)) (received tr)"
proof -
  from pool_run_sim [OF assms(1) refl assms(2)] obtain q where "taken tr @ q = received tr" by blast
  then show ?thesis by (metis append_eq_conv_conj)
qed

theorem pool_is_fifo_witness:
  "taken [Received [1, 2], Received [3], Tau, Tau] =
     take (length (taken [Received [1, 2], Received [3], Tau, Tau]))
       (received [Received [1, 2], Received [3], Tau, Tau])"
proof (rule pool_is_fifo)
  let ?s1 = "pool_sys_init\<lparr>shared := pool_store (pad_message [1, 2]) pool_init\<rparr>"
  let ?s2 = "?s1\<lparr>shared := pool_store (pad_message [3]) (shared ?s1)\<rparr>"
  let ?s3 = "?s2\<lparr>ulen := pool_used (shared ?s2), cpc := Test\<rparr>"
  have r0: "pool_run pool_sys_init [] pool_sys_init" by (rule pool_run.start)
  have e1: "pool_step pool_sys_init (Received [1, 2]) ?s1"
    using recv [of "[1, 2]" pool_sys_init] by (simp add: SEND_SIZE_def pool_sys_init_def)
  have e2: "pool_step ?s1 (Received [3]) ?s2" by (rule recv) (simp_all add: SEND_SIZE_def)
  have e3: "pool_step ?s2 Tau ?s3" by (rule read_len) (simp add: pool_sys_init_def)
  have e4: "pool_step ?s3 Tau (?s3\<lparr>cpc := (if ulen ?s3 > 1 then Body else Outer)\<rparr>)"
    by (rule pool_step.test) simp
  from pool_run.step [OF pool_run.step [OF pool_run.step [OF pool_run.step [OF r0 e1] e2] e3] e4]
  show "pool_run pool_sys_init [Received [1, 2], Received [3], Tau, Tau]
    (?s3\<lparr>cpc := (if ulen ?s3 > 1 then Body else Outer)\<rparr>)" by simp
  show "no_overrun [Received [1, 2], Received [3], Tau, Tau]"
    unfolding no_overrun_def by (auto simp: take_Cons' SLOTS_def)
qed

text \<open>
  Ten thousand messages stored without one being taken make the ring look empty: the
  used length that the consumer computes is zero and all of them are passed over.
\<close>

theorem pool_overrun_forgets_all:
  assumes "length ms = 10000" and "list_all (\<lambda>m. length m = SEND_SIZE) ms"
  shows "pool_used (fold pool_store ms pool_init) = 0"
proof -
  from assms obtain ms' m where ms: "ms = ms' @ [m]" "length ms' = SLOTS - 1"
    by (cases ms rule: rev_cases) (auto simp: SLOTS_def)
  have "pool_rep (fold pool_store ms' pool_init) ms'"
    using ring.rep_fold_put [OF pool_rep_init, of ms'] ms assms(2) by simp
  then obtain h where h: "h < SLOTS" "pool_head (fold pool_store ms' pool_init) = SEND_SIZE * h"
    "pool_tail (fold pool_store ms' pool_init) = SEND_SIZE * ((h + (SLOTS - 1)) mod SLOTS)"
    using ms(2) by (auto simp: pool_rep_def)
  have "((h + (SLOTS - 1)) mod SLOTS + 1) mod SLOTS = h"
    using h(1) by (simp add: mod_simps)
  then have "pool_tail (fold pool_store ms pool_init) = SEND_SIZE * h"
    using h(3) by (simp add: ms(1) pool_store_def pool_advance)
  moreover have "pool_head (fold pool_store ms pool_init) = SEND_SIZE * h"
    using h(2) by (simp add: ms(1) pool_store_def)
  ultimately show ?thesis by (simp add: pool_used_def)
qed

theorem pool_overrun_forgets_all_witness:
  "pool_used (fold pool_store (replicate 10000 (replicate SEND_SIZE 7)) pool_init) = 0"
  by (rule pool_overrun_forgets_all) (simp_all add: list_all_iff)

section \<open>Draining\<close>

text \<open>The inner loop of the consumer on its own; the fuel bounds the number of turns.\<close>

fun drain :: "nat \<Rightarrow> pool \<Rightarrow> bytes list \<Rightarrow> (bytes list \<times> pool) option" where
  "drain 0 p out = None"
| "drain (Suc fuel) p out =
     (if pool_used p > 1 then drain fuel (snd (pool_fetch p)) (out @ [fst (pool_fetch p)])
      else Some (out, p))"

text \<open>
  With no producer running, the consumer's loop ends after one turn per outstanding
  message, has taken exactly the outstanding messages in order, and leaves the ring empty.
\<close>

theorem drain_takes_all:
  assumes "pool_rep p q" and "length q < fuel"
  shows "\<exists>p'. drain fuel p out = Some (out @ q, p') \<and> pool_rep p' []"
  using assms
proof (induction fuel arbitrary: p q out)
  case 0
  then show ?case by simp
next
  case (Suc fuel)
  show ?case
  proof (cases q)
    case Nil
    with Suc.prems pool_used_rep [of p q] show ?thesis by simp
  next
    case (Cons m qs)
    with Suc.prems have "fst (pool_fetch p) = m" "pool_rep (snd (pool_fetch p)) qs"
      using pool_rep_get by blast+
    moreover have "pool_used p > 1"
      using pool_used_rep [OF Suc.prems(1)] Cons by (simp add: SEND_SIZE_def)
    ultimately show ?thesis
      using Suc.IH [of "snd (pool_fetch p)" qs "out @ [m]"] Suc.prems(2) Cons by simp
  qed
qed

theorem drain_takes_all_witness:
  "\<exists>p'. drain 2 (pool_store (replicate SEND_SIZE 7) pool_init) [] =
     Some ([] @ ([] @ [replicate SEND_SIZE 7]), p') \<and> pool_rep p' []"
  by (rule drain_takes_all, rule pool_rep_put [OF pool_rep_init]) (simp_all add: SLOTS_def)

end
