(* ===== verification/Public_Buffer.thy ===== *)
theory Public_Buffer
  imports Receiver Msg_Pool
begin

text \<open>
  The transmit buffer of the reporter of \<^verbatim>\<open>project/sendudp.c\<close>: messages are collected in
  \<open>public_buffer\<close> and handed to the socket as one datagram when the next message does not fit.
  The datagrams given to \<open>kernel_sendmsg\<close> are kept in the order of the calls; what the
  network does with them is not modelled (the code ignores the result of the call).  A copy that
  would leave the buffer is the value None.

  The main result composes this buffer with the receiver of \<^verbatim>\<open>new_receiver.c\<close>: the datagrams,
  received into zeroed buffers and processed in order, deliver exactly the messages written.
\<close>

section \<open>The buffer\<close>

definition B_S :: nat where
  "B_S = 1024"

record out_buffer =
  public_buffer :: bytes
  write_begin :: nat
  sent_datagrams :: "bytes list"

definition out_buffer_init :: out_buffer where
  "out_buffer_init = \<lparr>public_buffer = replicate B_S 0, write_begin = 0, sent_datagrams = []\<rparr>"

definition send_the_buffer :: "out_buffer \<Rightarrow> out_buffer" where
  "send_the_buffer b =
    (let datagram = take (write_begin b) (public_buffer b)
     in b\<lparr>sent_datagrams := sent_datagrams b @ [datagram],
          public_buffer := replicate B_S 0, write_begin := 0\<rparr>)"

definition copy_to_buffer :: "bytes \<Rightarrow> out_buffer \<Rightarrow> out_buffer option" where
  "copy_to_buffer data b =
    (if write_begin b + length data \<le> length (public_buffer b)
     then Some (b\<lparr>public_buffer := take (write_begin b) (public_buffer b) @ data @
                                    drop (write_begin b + length data) (public_buffer b),
                  write_begin := write_begin b + length data\<rparr>)
     else None)"

definition write_2_public_buffer :: "bytes \<Rightarrow> out_buffer \<Rightarrow> out_buffer option" where
  "write_2_public_buffer data b =
    (if write_begin b + length data \<le> B_S then copy_to_buffer data b
     else copy_to_buffer data (send_the_buffer b))"

fun write_messages :: "message list \<Rightarrow> out_buffer \<Rightarrow> out_buffer option" where
  "write_messages [] b = Some b"
| "write_messages (m # ms) b =
    (case write_2_public_buffer (encode_message m) b of
       None \<Rightarrow> None
     | Some b' \<Rightarrow> write_messages ms b')"

lemma write_messages_append:
  "write_messages (ms @ ms') b =
    (case write_messages ms b of None \<Rightarrow> None | Some b' \<Rightarrow> write_messages ms' b')"
  by (induction ms arbitrary: b) (auto split: option.splits)

section \<open>What the buffer holds\<close>

definition pending :: "out_buffer \<Rightarrow> bytes" where
  "pending b = take (write_begin b) (public_buffer b)"

definition out_ok :: "out_buffer \<Rightarrow> bool" where
  "out_ok b \<longleftrightarrow> length (public_buffer b) = B_S \<and> write_begin b \<le> B_S"

lemma out_ok_init [simp]: "out_ok out_buffer_init"
  by (simp add: out_ok_def out_buffer_init_def)

lemma pending_init [simp]: "pending out_buffer_init = []" "sent_datagrams out_buffer_init = []"
  by (simp_all add: pending_def out_buffer_init_def)

lemma length_pending: "out_ok b \<Longrightarrow> length (pending b) = write_begin b"
  by (simp add: pending_def out_ok_def)

lemma send_the_buffer_effect:
  assumes "out_ok b"
  shows "out_ok (send_the_buffer b)" "pending (send_the_buffer b) = []"
    "sent_datagrams (send_the_buffer b) = sent_datagrams b @ [pending b]"
    "write_begin (send_the_buffer b) = 0"
  using assms by (simp_all add: send_the_buffer_def out_ok_def pending_def)

lemma copy_to_buffer_effect:
  assumes "out_ok b" "write_begin b + length data \<le> B_S"
  shows "\<exists>b'. copy_to_buffer data b = Some b' \<and> out_ok b' \<and> pending b' = pending b @ data \<and>
    sent_datagrams b' = sent_datagrams b"
  using assms by (simp add: copy_to_buffer_def out_ok_def pending_def)

lemma write_effect:
  assumes "out_ok b" "length data \<le> B_S"
  obtains b' where "write_2_public_buffer data b = Some b'" "out_ok b'"
    "(sent_datagrams b', pending b') =
      (if write_begin b + length data \<le> B_S then (sent_datagrams b, pending b @ data)
       else (sent_datagrams b @ [pending b], data))"
proof (cases "write_begin b + length data \<le> B_S")
  case True
  with copy_to_buffer_effect [OF assms(1) True] that show ?thesis
    by (auto simp: write_2_public_buffer_def)
next
  case False
  have "write_begin (send_the_buffer b) + length data \<le> B_S"
    using assms send_the_buffer_effect(4) by simp
  from copy_to_buffer_effect [OF send_the_buffer_effect(1) [OF assms(1)] this] obtain b' where
    "copy_to_buffer data (send_the_buffer b) = Some b'" "out_ok b'"
    "pending b' = pending (send_the_buffer b) @ data"
    "sent_datagrams b' = sent_datagrams (send_the_buffer b)" by blast
  with False that [of b'] send_the_buffer_effect [OF assms(1)] show ?thesis
    by (simp add: write_2_public_buffer_def)
qed

section \<open>The messages in the datagrams\<close>

lemma length_encode_message:
  "message_ok m \<Longrightarrow> length (encode_message m) \<le> 72 \<and> encode_message m \<noteq> []"
  by (cases m) (simp_all, simp_all add: be_bytes_def le_bytes_def upt_rec)

definition holds_messages :: "message list \<Rightarrow> out_buffer \<Rightarrow> bool" where
  "holds_messages ms b \<longleftrightarrow> out_ok b \<and>
    (\<exists>groups rest. ms = concat groups @ rest \<and> sent_datagrams b = map stream_of groups \<and>
       pending b = stream_of rest)"

lemma stream_of_append: "stream_of (ms @ ms') = stream_of ms @ stream_of ms'"
  by (simp add: stream_of_def)

lemma holds_messages_init: "holds_messages [] out_buffer_init"
  unfolding holds_messages_def
  by (intro conjI exI [where x = "[]"]) (simp_all add: stream_of_def)

lemma holds_messages_write:
  assumes h: "holds_messages ms b" and m: "message_ok m"
  shows "\<exists>b'. write_2_public_buffer (encode_message m) b = Some b' \<and> holds_messages (ms @ [m]) b'"
proof -
  from h obtain groups rest where g: "out_ok b" "ms = concat groups @ rest"
    "sent_datagrams b = map stream_of groups" "pending b = stream_of rest"
    by (auto simp: holds_messages_def)
  have "length (encode_message m) \<le> B_S"
    using length_encode_message [OF m] by (simp add: B_S_def)
  from write_effect [OF g(1) this] obtain b' where
    b': "write_2_public_buffer (encode_message m) b = Some b'" "out_ok b'"
      "(sent_datagrams b', pending b') =
        (if write_begin b + length (encode_message m) \<le> B_S
         then (sent_datagrams b, pending b @ encode_message m)
         else (sent_datagrams b @ [pending b], encode_message m))" by blast
  have enc: "encode_message m = stream_of [m]" by (simp add: stream_of_def)
  have "holds_messages (ms @ [m]) b'"
  proof (cases "write_begin b + length (encode_message m) \<le> B_S")
    case True
    with b'(3) g enc have "ms @ [m] = concat groups @ (rest @ [m])"
      "sent_datagrams b' = map stream_of groups" "pending b' = stream_of (rest @ [m])"
      by (simp_all add: stream_of_append)
    with b'(2) show ?thesis unfolding holds_messages_def by blast
  next
    case False
    with b'(3) g enc have "ms @ [m] = concat (groups @ [rest]) @ [m]"
      "sent_datagrams b' = map stream_of (groups @ [rest])" "pending b' = stream_of [m]"
      by simp_all
    with b'(2) show ?thesis unfolding holds_messages_def by blast
  qed
  with b'(1) show ?thesis by blast
qed

lemma holds_messages_write_all:
  "holds_messages ms b \<Longrightarrow> list_all message_ok new \<Longrightarrow>
   \<exists>b'. write_messages new b = Some b' \<and> holds_messages (ms @ new) b'"
proof (induction new arbitrary: ms b)
  case Nil
  then show ?case by simp
next
  case (Cons m new)
  from Cons.prems holds_messages_write obtain b' where
    b': "write_2_public_buffer (encode_message m) b = Some b'" "holds_messages (ms @ [m]) b'"
    by fastforce
  with Cons.IH [OF b'(2)] Cons.prems show ?case by simp
qed

lemma holds_messages_flush:
  assumes "holds_messages ms b"
  obtains groups where "ms = concat groups" "sent_datagrams (send_the_buffer b) = map stream_of groups"
proof -
  from assms obtain groups rest where g: "out_ok b" "ms = concat groups @ rest"
    "sent_datagrams b = map stream_of groups" "pending b = stream_of rest"
    by (auto simp: holds_messages_def)
  with that [of "groups @ [rest]"] send_the_buffer_effect [OF g(1)] show ?thesis by simp
qed

text \<open>Datagrams stay within the buffer, so nothing of them is cut off by the receiver.\<close>

definition small_datagrams :: "out_buffer \<Rightarrow> bool" where
  "small_datagrams b \<longleftrightarrow> list_all (\<lambda>d. length d \<le> B_S) (sent_datagrams b)"

lemma small_write:
  assumes "out_ok b" "small_datagrams b" "length data \<le> B_S"
    "write_2_public_buffer data b = Some b'"
  shows "out_ok b' \<and> small_datagrams b'"
proof -
  from write_effect [OF assms(1,3)] assms(4) have
    "out_ok b'" "(sent_datagrams b', pending b') =
      (if write_begin b + length data \<le> B_S then (sent_datagrams b, pending b @ data)
       else (sent_datagrams b @ [pending b], data))" by force+
  with assms(1,2) show ?thesis
    by (auto simp: small_datagrams_def length_pending [OF assms(1)] out_ok_def split: if_splits)
qed

lemma small_write_messages:
  "out_ok b \<Longrightarrow> small_datagrams b \<Longrightarrow> list_all message_ok ms \<Longrightarrow> write_messages ms b = Some b' \<Longrightarrow>
   out_ok b' \<and> small_datagrams b'"
proof (induction ms arbitrary: b)
  case Nil
  then show ?case by simp
next
  case (Cons m ms)
  then obtain b1 where b1: "write_2_public_buffer (encode_message m) b = Some b1"
    "write_messages ms b1 = Some b'" by (auto split: option.splits)
  have "length (encode_message m) \<le> B_S"
    using length_encode_message [of m] Cons.prems(3) by (simp add: B_S_def)
  from small_write [OF Cons.prems(1,2) this b1(1)] Cons.IH [of b1] b1(2) Cons.prems(3) show ?case by simp
qed

section \<open>From the reporter to the receiver\<close>

text \<open>The receiver's thread processes one buffer of 1024 bytes after the other.\<close>

fun process_all :: "bytes list \<Rightarrow> receiver \<Rightarrow> receiver option" where
  "process_all [] st = Some st"
| "process_all (d # ds) st =
    (case process d 1024 st of None \<Rightarrow> None | Some st' \<Rightarrow> process_all ds st')"

lemma deliver_all_append:
  "deliver_all (ms @ ms') st =
    (case deliver_all ms st of None \<Rightarrow> None | Some st' \<Rightarrow> deliver_all ms' st')"
  by (induction ms arbitrary: st) (auto split: option.splits)

lemma process_padded_stream:
  assumes "list_all message_ok ms" "length (stream_of ms) \<le> B_S"
  shows "process (pad_message (stream_of ms)) 1024 st = deliver_all ms st"
proof -
  let ?k = "1024 - length (stream_of ms)"
  from assms(2) have len: "length (stream_of ms) + ?k = 1024" by (simp add: B_S_def)
  then have "?k \<noteq> 1" using even_length_stream [OF assms(1)] by presburger
  from process_from_stream [OF assms(1) _ this, of "[]" 0 st] len assms(2) show ?thesis
    by (simp add: process_def pad_message_def SEND_SIZE_def B_S_def)
qed

lemma process_all_groups:
  "list_all message_ok (concat groups) \<Longrightarrow> list_all (\<lambda>d. length d \<le> B_S) (map stream_of groups) \<Longrightarrow>
   process_all (map pad_message (map stream_of groups)) st = deliver_all (concat groups) st"
  by (induction groups arbitrary: st)
    (auto simp: process_padded_stream deliver_all_append split: option.split)

lemma sent_delivers:
  assumes "holds_messages ms b" "list_all message_ok ms" "small_datagrams b" "out_ok b"
  shows "process_all (map pad_message (sent_datagrams (send_the_buffer b))) st = deliver_all ms st"
proof -
  from assms(1) obtain groups where g: "ms = concat groups"
    "sent_datagrams (send_the_buffer b) = map stream_of groups" by (rule holds_messages_flush)
  moreover have "small_datagrams (send_the_buffer b)"
    using assms(3) send_the_buffer_effect [OF assms(4)] length_pending [OF assms(4)] assms(4)
    by (simp add: small_datagrams_def out_ok_def)
  ultimately show ?thesis
    using process_all_groups [of groups st] assms(2) by (simp add: small_datagrams_def)
qed

text \<open>
  Any well-formed messages can be written one after the other without a copy outside the
  buffer, and the datagrams sent, the last one forced out, received into zeroed buffers of 1024
  bytes and processed in order, deliver exactly these messages in the order in which they were
  written: a message is never split over two datagrams and none is lost or repeated by buffering.
\<close>

theorem reporter_to_receiver:
  assumes "list_all message_ok ms"
  shows "\<exists>b. write_messages ms out_buffer_init = Some b \<and>
    process_all (map pad_message (sent_datagrams (send_the_buffer b))) st = deliver_all ms st"
proof -
  from holds_messages_write_all [OF holds_messages_init assms] obtain b where
    b: "write_messages ms out_buffer_init = Some b" "holds_messages ms b" by auto
  have "small_datagrams out_buffer_init" by (simp add: small_datagrams_def)
  from small_write_messages [OF out_ok_init this assms b(1)] sent_delivers [OF b(2) assms] b(1)
  show ?thesis by blast
qed

theorem reporter_to_receiver_witness:
  "\<exists>b. write_messages (replicate 20 (MSurvey [1,2,3,4,5,6] (data_survey_of_bytes (replicate 64 7)))) out_buffer_init = Some b \<and>
    process_all (map pad_message (sent_datagrams (send_the_buffer b))) cold_receiver =
      deliver_all (replicate 20 (MSurvey [1,2,3,4,5,6] (data_survey_of_bytes (replicate 64 7)))) cold_receiver"
  by (rule reporter_to_receiver) (simp add: list_all_iff)

end
