(* ===== verification/Sendudp.thy ===== *)
theory Sendudp
  imports Public_Buffer "HOL-Library.Signed_Division"
begin

text \<open>
  The reporter module of the routers, \<^verbatim>\<open>project/sendudp.c\<close>: once per tick it collects what the
  drivers measured (survey, stations, beacons, queues, dropped packets), sends what is newer than
  the last record of its kind, keeps a ring of samples per station from which it derives rates,
  and a ring of 250 states of the access point that a user process reads over netlink.

  The routers are 32-bit machines, so \<open>long\<close> and pointers have 32 bits and the comparisons of
  a \<open>__u32\<close> with a \<open>long\<close> are unsigned; products of \<open>int\<close> wrap.  The results of the driver
  functions are the arguments of a tick (the logs of dropped packets among them are modelled in
  Drop_Log).  An access outside an array is the value None.
\<close>

section \<open>Data\<close>

abbreviation (input) IWAMOUNT :: nat where "IWAMOUNT \<equiv> 100"
abbreviation (input) TEN :: nat where "TEN \<equiv> 10"
abbreviation (input) APSL :: nat where "APSL \<equiv> 250"

record apstates =
  ap_neibours :: u8
  ap_noise :: u8
  ap_pad :: u16
  ap_sec :: u32
  ap_usec :: u32
  ap_congestion :: u32
  ap_noncongestion :: u32
  ap_q3packets :: u32
  ap_q3qlen :: u32
  ap_q3backlog :: u32
  ap_q3drops :: u32
  ap_q3requeues :: u32
  ap_qfpackets :: u32
  ap_qfqlen :: u32
  ap_qfbacklog :: u32
  ap_qfdrops :: u32
  ap_qfrequeues :: u32
  ap_station_count :: u32
  ap_time :: u64
  ap_time_busy :: u64
  ap_time_rx :: u64
  ap_time_tx :: u64
  ap_q3bytes :: u64
  ap_qfbytes :: u64

record linkstates =
  lk_station :: bytes
  lk_signal :: u8
  lk_signal_avg :: u8
  lk_inactive_time :: u32
  lk_rx_bytes :: u32
  lk_rx_packets :: u32
  lk_tx_bytes :: u32
  lk_tx_packets :: u32
  lk_tx_retries :: u32
  lk_tx_failed :: u32
  lk_expected_throughput :: u32
  lk_sec :: u32
  lk_usec :: u32

record links =
  ls_station :: bytes
  ls_link :: "linkstates list"
  ls_head :: nat
  ls_tail :: nat
  ls_sec :: u32

record iw_processed =
  iwp_count :: u32
  iwp_link :: "data_iw list"

record ivlinger =
  iv_name :: bytes
  iv_sec :: u32

record sta_list =
  sl_count :: u8
  sl_lists :: "ivlinger list"

record stamp =
  last_sec :: u32
  last_usec :: u32

record sender =
  outbuf :: out_buffer
  mac_global :: bytes
  control_beacon :: nat
  last_survey :: stamp
  last_iw :: stamp
  last_beacon :: stamp
  last_drop_mac :: stamp
  last_drop_queue :: stamp
  linkinfo :: "links list"
  iwp :: iw_processed
  neibour_lists :: sta_list
  apstates_global :: "apstates list"
  aps_head :: nat
  aps_tail :: nat
  queue_previous :: "data_queue list"
  beacon_last :: "data_beacon list"

section \<open>Initial values\<close>

text \<open>The globals of a module are zero.\<close>

definition zero_mac :: bytes where
  "zero_mac = [0, 0, 0, 0, 0, 0]"

definition zero_iw :: data_iw where
  "zero_iw = \<lparr>iw_station = zero_mac, iw_device = 0, iw_sec = 0, iw_usec = 0, iw_inactive_time = 0,
     iw_rx_bytes = 0, iw_rx_packets = 0, iw_tx_bytes = 0, iw_tx_packets = 0, iw_tx_retries = 0,
     iw_tx_failed = 0, iw_signal = 0, iw_signal_avg = 0, iw_expected_throughput = 0, iw_pad2 = 0,
     iw_pad = 0\<rparr>"

definition zero_link :: linkstates where
  "zero_link = \<lparr>lk_station = zero_mac, lk_signal = 0, lk_signal_avg = 0, lk_inactive_time = 0,
     lk_rx_bytes = 0, lk_rx_packets = 0, lk_tx_bytes = 0, lk_tx_packets = 0, lk_tx_retries = 0,
     lk_tx_failed = 0, lk_expected_throughput = 0, lk_sec = 0, lk_usec = 0\<rparr>"

definition zero_apstates :: apstates where
  "zero_apstates = \<lparr>ap_neibours = 0, ap_noise = 0, ap_pad = 0, ap_sec = 0, ap_usec = 0,
     ap_congestion = 0, ap_noncongestion = 0, ap_q3packets = 0, ap_q3qlen = 0, ap_q3backlog = 0,
     ap_q3drops = 0, ap_q3requeues = 0, ap_qfpackets = 0, ap_qfqlen = 0, ap_qfbacklog = 0,
     ap_qfdrops = 0, ap_qfrequeues = 0, ap_station_count = 0, ap_time = 0, ap_time_busy = 0,
     ap_time_rx = 0, ap_time_tx = 0, ap_q3bytes = 0, ap_qfbytes = 0\<rparr>"

definition zero_queue :: data_queue where
  "zero_queue = \<lparr>qu_queue_id = 0, qu_packets = 0, qu_bytes = 0, qu_sec = 0, qu_usec = 0, qu_qlen = 0,
     qu_backlog = 0, qu_drops = 0, qu_requeues = 0, qu_overlimits = 0, qu_pad = 0\<rparr>"

definition zero_links :: links where
  "zero_links = \<lparr>ls_station = zero_mac, ls_link = replicate IWAMOUNT zero_link, ls_head = 0,
     ls_tail = 0, ls_sec = 0\<rparr>"

definition iwp_init :: iw_processed where
  "iwp_init = \<lparr>iwp_count = 0, iwp_link = replicate TEN zero_iw\<rparr>"

definition zero_stamp :: stamp where
  "zero_stamp = \<lparr>last_sec = 0, last_usec = 0\<rparr>"

definition hello_init :: "bytes \<Rightarrow> sender" where
  "hello_init dev_addr = \<lparr>outbuf = out_buffer_init, mac_global = dev_addr, control_beacon = 0,
     last_survey = zero_stamp, last_iw = zero_stamp, last_beacon = zero_stamp,
     last_drop_mac = zero_stamp, last_drop_queue = zero_stamp,
     linkinfo = replicate TEN zero_links, iwp = iwp_init,
     neibour_lists = \<lparr>sl_count = 0, sl_lists = replicate 100 \<lparr>iv_name = zero_mac, iv_sec = 0\<rparr>\<rparr>,
     apstates_global = replicate APSL zero_apstates, aps_head = 0, aps_tail = 0,
     queue_previous = replicate 6 zero_queue, beacon_last = []\<rparr>"

section \<open>Helpers\<close>

text \<open>The number of equal bytes among the first n; the result is 0 when all are equal.\<close>

definition strcmp_n :: "bytes \<Rightarrow> bytes \<Rightarrow> nat \<Rightarrow> nat" where
  "strcmp_n s t n =
    (if length (filter (\<lambda>(a, b). a = b) (zip (take n s) (take n t))) = n then 0 else 1)"

definition strcmp_linger :: "bytes \<Rightarrow> bytes \<Rightarrow> nat" where
  "strcmp_linger s t = strcmp_n s t 6"

text \<open>Division of two values of type \<open>int\<close>.\<close>

definition c_div :: "u32 \<Rightarrow> u32 \<Rightarrow> u32" where
  "c_div a b = word_of_int (sint a sdiv sint b)"

definition iw2linkstates :: "data_iw \<Rightarrow> linkstates" where
  "iw2linkstates s = \<lparr>lk_station = iw_station s, lk_signal = ucast (iw_signal s),
     lk_signal_avg = ucast (iw_signal_avg s), lk_inactive_time = iw_inactive_time s,
     lk_rx_bytes = iw_rx_bytes s, lk_rx_packets = iw_rx_packets s,
     lk_tx_bytes = iw_tx_bytes s, lk_tx_packets = iw_tx_packets s,
     lk_tx_retries = iw_tx_retries s, lk_tx_failed = iw_tx_failed s,
     lk_expected_throughput = iw_expected_throughput s, lk_sec = iw_sec s, lk_usec = iw_usec s\<rparr>"

text \<open>Send a message whose stamp is newer than the last one of its kind.\<close>

definition report_newer :: "u32 \<Rightarrow> u32 \<Rightarrow> message \<Rightarrow> stamp \<Rightarrow> out_buffer \<Rightarrow> (stamp \<times> out_buffer) option" where
  "report_newer sec usec m l b =
    (if last_sec l < sec then
       map_option (\<lambda>b'. (l\<lparr>last_sec := sec, last_usec := usec\<rparr>, b'))
         (write_2_public_buffer (encode_message m) b)
     else if sec = last_sec l \<and> last_usec l < usec then
       map_option (\<lambda>b'. (l\<lparr>last_usec := usec\<rparr>, b')) (write_2_public_buffer (encode_message m) b)
     else Some (l, b))"

section \<open>Stations\<close>

text \<open>A rate per second, in thousandths, over a duration in milliseconds.\<close>

definition rate :: "u32 \<Rightarrow> u32 \<Rightarrow> u32 \<Rightarrow> u32" where
  "rate new old duration = c_div (1000000 * (new - old)) duration"

definition link_duration :: "data_iw \<Rightarrow> linkstates \<Rightarrow> u32" where
  "link_duration r l = (iw_sec r - lk_sec l) * 1000 + c_div (iw_usec r - lk_usec l) 1000"

definition link_result :: "data_iw \<Rightarrow> linkstates \<Rightarrow> u32 \<Rightarrow> data_iw" where
  "link_result r l duration = zero_iw\<lparr>
     iw_station := iw_station r,
     iw_signal := iw_signal r,
     iw_signal_avg := iw_signal_avg r,
     iw_inactive_time := iw_inactive_time r,
     iw_expected_throughput := iw_expected_throughput r,
     iw_rx_bytes := rate (iw_rx_bytes r) (lk_rx_bytes l) duration,
     iw_rx_packets := rate (iw_rx_packets r) (lk_rx_packets l) duration,
     iw_tx_bytes := rate (iw_tx_bytes r) (lk_tx_bytes l) duration,
     iw_tx_packets := rate (iw_tx_packets r) (lk_tx_packets l) duration,
     iw_tx_retries := rate (iw_tx_retries r) (lk_tx_retries l) duration,
     iw_tx_failed := rate (iw_tx_failed r) (lk_tx_failed l) duration,
     iw_sec := iw_sec r\<rparr>"

text \<open>The table of results: find the station and replace it.\<close>

fun replace_result :: "data_iw \<Rightarrow> data_iw list \<Rightarrow> data_iw list option" where
  "replace_result t [] = None"
| "replace_result t (x # xs) =
    (if strcmp_linger (iw_station t) (iw_station x) = 0 then Some (t # xs)
     else map_option ((#) x) (replace_result t xs))"

text \<open>Otherwise the loop over the slots writes the result into every free one.\<close>

definition insert_result :: "data_iw \<Rightarrow> iw_processed \<Rightarrow> iw_processed" where
  "insert_result t p = \<lparr>
     iwp_count = iwp_count p + of_nat (length (filter (\<lambda>x. iw_sec x = 0) (iwp_link p))),
     iwp_link = map (\<lambda>x. if iw_sec x = 0 then t else x) (iwp_link p)\<rparr>"

definition expire_results :: "data_iw \<Rightarrow> iw_processed \<Rightarrow> iw_processed" where
  "expire_results t p = \<lparr>
     iwp_count = iwp_count p - of_nat (length (filter (\<lambda>x. 2 < iw_sec t - iw_sec x) (iwp_link p))),
     iwp_link = map (\<lambda>x. if 2 < iw_sec t - iw_sec x then zero_iw else x) (iwp_link p)\<rparr>"

definition store_result :: "data_iw \<Rightarrow> iw_processed \<Rightarrow> iw_processed" where
  "store_result t p =
    expire_results t
      (case replace_result t (iwp_link p) of
         Some xs \<Rightarrow> p\<lparr>iwp_link := xs\<rparr>
       | None \<Rightarrow> insert_result t p)"

text \<open>A sample of a known station: the ring, and the oldest sample left in it.\<close>

definition link_sample :: "data_iw \<Rightarrow> links \<Rightarrow> (links \<times> linkstates) option" where
  "link_sample r l =
    (if ls_head l < length (ls_link l) then
       let l1 = l\<lparr>ls_link := (ls_link l)[ls_head l := iw2linkstates r], ls_sec := iw_sec r,
                  ls_head := (ls_head l + 1) mod IWAMOUNT\<rparr>;
           l2 = (if ls_head l1 = ls_tail l1
                 then l1\<lparr>ls_link := (ls_link l1)[ls_tail l1 := zero_link],
                         ls_tail := (ls_tail l1 + 1) mod IWAMOUNT\<rparr>
                 else l1)
       in map_option (Pair l2) (read_at (ls_link l2) (ls_tail l2))
     else None)"

text \<open>
  The loop over the ten links.  The nested loops over the results use the same counter, so the
  loop ends with the first link for which a result is computed.
\<close>

fun link_loop :: "data_iw \<Rightarrow> links list \<Rightarrow> iw_processed \<Rightarrow> bool \<Rightarrow> (links list \<times> iw_processed \<times> bool) option" where
  "link_loop r [] p found1 = Some ([], p, found1)"
| "link_loop r (l # ls) p found1 =
    (if strcmp_linger (iw_station r) (ls_station l) = 0 then
       (case link_sample r l of
          None \<Rightarrow> None
        | Some (l', oldest) \<Rightarrow>
            (let duration = link_duration r oldest in
             if 100 \<le>s duration then Some (l' # ls, store_result (link_result r oldest duration) p, True)
             else map_option (\<lambda>(ls', p', f). (l' # ls', p', f)) (link_loop r ls p True)))
     else map_option (\<lambda>(ls', p', f). (l # ls', p', f)) (link_loop r ls p found1))"

definition age_links :: "data_iw \<Rightarrow> links list \<Rightarrow> links list" where
  "age_links r ls = map (\<lambda>l. if 2 <s iw_sec r - ls_sec l then l\<lparr>ls_sec := 0\<rparr> else l) ls"

text \<open>A link for a new station; the tail is advanced without the modulus.\<close>

definition link_start :: "data_iw \<Rightarrow> links \<Rightarrow> links option" where
  "link_start r l =
    (if ls_head l < length (ls_link l) then
       let h = (ls_head l + 1) mod IWAMOUNT
       in Some (l\<lparr>ls_link := (ls_link l)[ls_head l := iw2linkstates r], ls_head := h,
                  ls_tail := (if ls_tail l = h then ls_tail l + 1 else ls_tail l),
                  ls_station := iw_station r, ls_sec := iw_sec r\<rparr>)
     else None)"

fun insert_link :: "data_iw \<Rightarrow> links list \<Rightarrow> links list option" where
  "insert_link r [] = Some []"
| "insert_link r (l # ls) =
    (if ls_sec l = 0 then map_option (\<lambda>l'. l' # ls) (link_start r l)
     else map_option ((#) l) (insert_link r ls))"

text \<open>The loop over the stations; found1 is set once and never reset.\<close>

fun iw_loop :: "data_iw list \<Rightarrow> bool \<Rightarrow> sender \<Rightarrow> sender option" where
  "iw_loop [] found1 st = Some st"
| "iw_loop (r # rs) found1 st =
    (case report_newer (iw_sec r) (iw_usec r) (MIw (mac_global st) (r\<lparr>iw_pad2 := 0\<rparr>)) (last_iw st) (outbuf st) of
       None \<Rightarrow> None
     | Some (l, b) \<Rightarrow>
        (case link_loop r (linkinfo st) (iwp st) found1 of
           None \<Rightarrow> None
         | Some (ls, p, found1') \<Rightarrow>
            (case (if found1' then Some (age_links r ls) else insert_link r (age_links r ls)) of
               None \<Rightarrow> None
             | Some ls' \<Rightarrow>
                 iw_loop rs found1' (st\<lparr>last_iw := l, outbuf := b, linkinfo := ls', iwp := p\<rparr>))))"

definition report_survey :: "data_survey \<Rightarrow> sender \<Rightarrow> sender option" where
  "report_survey sur st =
    map_option (\<lambda>(l, b). st\<lparr>last_survey := l, outbuf := b\<rparr>)
      (report_newer (su_sec sur) (su_usec sur) (MSurvey (mac_global st) sur) (last_survey st) (outbuf st))"

definition compare_and_iwlist :: "data_iw list \<Rightarrow> data_survey \<Rightarrow> sender \<Rightarrow> sender option" where
  "compare_and_iwlist rs sur st =
    (case report_survey sur st of None \<Rightarrow> None | Some st' \<Rightarrow> iw_loop rs False st')"

section \<open>Queues\<close>

definition ap_update :: "(apstates \<Rightarrow> apstates) \<Rightarrow> sender \<Rightarrow> sender" where
  "ap_update f st =
    st\<lparr>apstates_global := (apstates_global st)[aps_head st := f (apstates_global st ! aps_head st)]\<rparr>"

definition ap_queue :: "data_queue \<Rightarrow> apstates \<Rightarrow> apstates" where
  "ap_queue q x =
    (if qu_queue_id q = 4294967295 then
       x\<lparr>ap_qfpackets := qu_packets q, ap_qfbytes := qu_bytes q, ap_qfqlen := qu_qlen q,
         ap_qfbacklog := qu_backlog q, ap_qfdrops := qu_drops q, ap_qfrequeues := qu_requeues q\<rparr>
     else if qu_queue_id q = 3 then
       x\<lparr>ap_q3packets := qu_packets q, ap_q3bytes := qu_bytes q, ap_q3qlen := qu_qlen q,
         ap_q3backlog := qu_backlog q, ap_q3drops := qu_drops q, ap_q3requeues := qu_requeues q\<rparr>
     else x)"

fun queue_loop :: "nat list \<Rightarrow> data_queue list \<Rightarrow> sender \<Rightarrow> sender option" where
  "queue_loop [] global st = Some st"
| "queue_loop (i # is) global st =
    (let q = global ! i in
     if qu_bytes q = qu_bytes (queue_previous st ! i) then queue_loop is global st
     else
       let st1 = ap_update (ap_queue q) (st\<lparr>queue_previous := (queue_previous st)[i := q]\<rparr>) in
       case write_2_public_buffer (encode_message (MQueue (mac_global st) (q\<lparr>qu_pad := 0\<rparr>))) (outbuf st1) of
         None \<Rightarrow> None
       | Some b \<Rightarrow> queue_loop is global (st1\<lparr>outbuf := b\<rparr>))"

definition compare_and_queue :: "data_queue list \<Rightarrow> sender \<Rightarrow> sender option" where
  "compare_and_queue global st = queue_loop [0..<6] global st"

section \<open>Neighbours\<close>

text \<open>The three loops over the list of neighbours, whose bound is read again in every turn.\<close>

function neighbour_seen :: "data_beacon \<Rightarrow> nat \<Rightarrow> bool \<Rightarrow> sta_list \<Rightarrow> (bool \<times> sta_list) option" where
  "neighbour_seen r i found1 nl =
    (if unat (sl_count nl) \<le> i then Some (found1, nl)
     else if length (sl_lists nl) \<le> i then None
     else if strcmp_linger (iv_name (sl_lists nl ! i)) (be_bssid r) = 0 then
       neighbour_seen r (i + 1) True
         (nl\<lparr>sl_lists := (sl_lists nl)[i := (sl_lists nl ! i)\<lparr>iv_sec := be_sec r\<rparr>]\<rparr>)
     else neighbour_seen r (i + 1) found1 nl)"
  by auto
termination
  by (relation "measure (\<lambda>(r, i, f, nl). length (sl_lists nl) - i)") auto

function neighbour_insert :: "data_beacon \<Rightarrow> nat \<Rightarrow> sta_list \<Rightarrow> sta_list option" where
  "neighbour_insert r i nl =
    (if unat (sl_count nl) \<le> i then Some nl
     else if length (sl_lists nl) \<le> i then None
     else neighbour_insert r (i + 1)
       (if iv_sec (sl_lists nl ! i) = 0
        then nl\<lparr>sl_lists := (sl_lists nl)[i := \<lparr>iv_name = be_bssid r, iv_sec = be_sec r\<rparr>],
                sl_count := sl_count nl + 1\<rparr>
        else nl))"
  by auto
termination
  by (relation "measure (\<lambda>(r, i, nl). length (sl_lists nl) - i)") auto

function neighbour_expire :: "data_beacon \<Rightarrow> nat \<Rightarrow> sta_list \<Rightarrow> sta_list option" where
  "neighbour_expire r i nl =
    (if unat (sl_count nl) \<le> i then Some nl
     else if length (sl_lists nl) \<le> i then None
     else neighbour_expire r (i + 1)
       (if 2 < be_sec r - iv_sec (sl_lists nl ! i)
        then nl\<lparr>sl_lists := (sl_lists nl)[i := \<lparr>iv_name = zero_mac, iv_sec = 0\<rparr>],
                sl_count := sl_count nl + 1\<rparr>
        else nl))"
  by auto
termination
  by (relation "measure (\<lambda>(r, i, nl). length (sl_lists nl) - i)") auto

declare neighbour_seen.simps [simp del] neighbour_insert.simps [simp del] neighbour_expire.simps [simp del]

definition note_neighbour :: "data_beacon \<Rightarrow> sta_list \<Rightarrow> sta_list option" where
  "note_neighbour r nl =
    (case neighbour_seen r 0 False nl of
       None \<Rightarrow> None
     | Some (found1, nl1) \<Rightarrow>
        (case (if found1 then Some nl1 else neighbour_insert r 0 nl1) of
           None \<Rightarrow> None
         | Some nl2 \<Rightarrow> neighbour_expire r 0 nl2))"

fun beacon_loop :: "data_beacon list \<Rightarrow> sender \<Rightarrow> sender option" where
  "beacon_loop [] st = Some st"
| "beacon_loop (r # rs) st =
    (case report_newer (be_sec r) (be_usec r) (MBeacon (mac_global st) (r\<lparr>be_pad2 := 0\<rparr>)) (last_beacon st) (outbuf st) of
       None \<Rightarrow> None
     | Some (l, b) \<Rightarrow>
        (case note_neighbour r (neibour_lists st) of
           None \<Rightarrow> None
         | Some nl \<Rightarrow> beacon_loop rs (st\<lparr>last_beacon := l, outbuf := b, neibour_lists := nl\<rparr>)))"

text \<open>The copy keeps four fields of each beacon.\<close>

definition copy_beacon :: "data_beacon \<Rightarrow> data_beacon" where
  "copy_beacon r = \<lparr>be_sec = 0, be_usec = 0, be_data_rate = be_data_rate r, be_freq = be_freq r,
     be_timein = 0, be_signal = be_signal r, be_pad = 0, be_bssid = be_bssid r, be_pad2 = 0, be_pad1 = 0\<rparr>"

definition compare_and_beacon :: "data_beacon list \<Rightarrow> sender \<Rightarrow> sender option" where
  "compare_and_beacon rs st =
    map_option (\<lambda>st'. (ap_update (\<lambda>x. x\<lparr>ap_neibours := sl_count (neibour_lists st')\<rparr>) st')
                       \<lparr>beacon_last := map copy_beacon rs\<rparr>)
      (beacon_loop rs st)"

section \<open>Dropped packets\<close>

fun report_drops :: "bytes \<Rightarrow> dp_packet list \<Rightarrow> stamp \<Rightarrow> out_buffer \<Rightarrow> (stamp \<times> out_buffer) option" where
  "report_drops mac [] l b = Some (l, b)"
| "report_drops mac (r # rs) l b =
    (case report_newer (dp_sec r) (dp_usec r) (MDrops mac (r\<lparr>dp_pad2 := 0\<rparr>)) l b of
       None \<Rightarrow> None
     | Some (l', b') \<Rightarrow> report_drops mac rs l' b')"

section \<open>A tick\<close>

text \<open>What the driver functions return in a tick.\<close>

record reports =
  rp_survey :: data_survey
  rp_iwlist :: "data_iw list"
  rp_beacons :: "data_beacon list"
  rp_drop_queue :: "dp_packet list"
  rp_drop_mac :: "dp_packet list"
  rp_queues :: "data_queue list"

definition ap_survey :: "data_survey \<Rightarrow> apstates \<Rightarrow> apstates" where
  "ap_survey sur x = x\<lparr>ap_time := su_time sur, ap_time_busy := su_time_busy sur,
     ap_time_rx := su_time_rx sur, ap_time_tx := su_time_tx sur, ap_noise := su_noise sur,
     ap_sec := su_sec sur, ap_usec := su_usec sur\<rparr>"

definition aps_advance :: "sender \<Rightarrow> sender" where
  "aps_advance st =
    (let h = (aps_head st + 1) mod APSL
     in st\<lparr>aps_head := h, aps_tail := (if h = aps_tail st then (aps_tail st + 1) mod APSL else aps_tail st)\<rparr>)"

definition report_stations :: "reports \<Rightarrow> sender \<Rightarrow> sender option" where
  "report_stations rp st =
    (if rp_iwlist rp = [] then Some st
     else compare_and_iwlist (rp_iwlist rp) (rp_survey rp) (ap_update (ap_survey (rp_survey rp)) st))"

definition report_mac_drops :: "reports \<Rightarrow> sender \<Rightarrow> sender option" where
  "report_mac_drops rp st =
    map_option (\<lambda>(l, b). st\<lparr>last_drop_mac := l, outbuf := b\<rparr>)
      (report_drops (mac_global st) (rp_drop_mac rp) (last_drop_mac st) (outbuf st))"

definition report_queue_drops :: "reports \<Rightarrow> sender \<Rightarrow> sender option" where
  "report_queue_drops rp st =
    map_option (\<lambda>(l, b). st\<lparr>last_drop_queue := l, outbuf := b\<rparr>)
      (report_drops (mac_global st) (rp_drop_queue rp) (last_drop_queue st) (outbuf st))"

definition report_beacons :: "reports \<Rightarrow> sender \<Rightarrow> sender option" where
  "report_beacons rp st =
    (let beacon = (if control_beacon st mod 10 = 0 then rp_beacons rp else [])
     in if beacon = [] then Some st else compare_and_beacon beacon st)"

definition get_information :: "reports \<Rightarrow> sender \<Rightarrow> sender option" where
  "get_information rp st =
    Option.bind (report_stations rp (st\<lparr>control_beacon := (control_beacon st + 1) mod 10000000\<rparr>)) (\<lambda>st1.
    Option.bind (report_mac_drops rp st1) (\<lambda>st2.
    Option.bind (report_beacons rp st2) (\<lambda>st3.
    Option.bind (compare_and_queue (rp_queues rp) st3) (\<lambda>st4.
    Option.bind (report_queue_drops rp st4) (\<lambda>st5.
    Some (aps_advance st5))))))"

fun run_timer :: "reports list \<Rightarrow> sender \<Rightarrow> sender option" where
  "run_timer [] st = Some st"
| "run_timer (rp # rps) st =
    (case get_information rp st of None \<Rightarrow> None | Some st' \<Rightarrow> run_timer rps st')"

section \<open>The request of a user process\<close>

text \<open>The length of the queue at the largest backlog; the loop indexes from slot 0, not from the tail.\<close>

definition largest_backlog :: "(apstates \<Rightarrow> u32) \<Rightarrow> (apstates \<Rightarrow> u32) \<Rightarrow> sender \<Rightarrow> u32 \<times> u32" where
  "largest_backlog qlen backlog st =
    fold (\<lambda>k (q, m). let x = apstates_global st ! (k mod APSL)
                     in if m < backlog x then (qlen x, backlog x) else (q, m))
      [0..<(aps_head st + APSL - aps_tail st) mod APSL] (0, 0)"

text \<open>The quotient of a 64-bit value that an \<open>int\<close> was assigned to, by a 32-bit base.\<close>

definition do_div :: "u64 \<Rightarrow> u32 \<Rightarrow> u64" where
  "do_div n base = n div ucast base"

definition rate64 :: "u64 \<Rightarrow> u64 \<Rightarrow> u32 \<Rightarrow> u64" where
  "rate64 new old duration = do_div (scast (1000000 * (ucast new - ucast old :: u32))) duration"

definition newest_state :: "sender \<Rightarrow> apstates" where
  "newest_state st = apstates_global st ! ((aps_head st + APSL - 1) mod APSL)"

definition oldest_state :: "sender \<Rightarrow> apstates" where
  "oldest_state st = apstates_global st ! aps_tail st"

definition window_duration :: "sender \<Rightarrow> u32" where
  "window_duration st =
    (ap_sec (newest_state st) - ap_sec (oldest_state st)) * 1000 +
    c_div (ap_usec (newest_state st) - ap_usec (oldest_state st)) 1000"

definition survey_duration :: "sender \<Rightarrow> u32" where
  "survey_duration st = ucast (ap_time (newest_state st)) - ucast (ap_time (oldest_state st))"

text \<open>The summary; three of its fields keep what was on the stack.\<close>

definition window_summary :: "apstates \<Rightarrow> sender \<Rightarrow> apstates" where
  "window_summary stack st =
    (let tmp2 = newest_state st; tmp1 = oldest_state st;
         duration = window_duration st; dur_sur = survey_duration st;
         (q3maxqlen, q3maxbacklog) = largest_backlog ap_q3qlen ap_q3backlog st;
         (qfmaxqlen, qfmaxbacklog) = largest_backlog ap_qfqlen ap_qfbacklog st
     in stack\<lparr>
       ap_time_busy := rate64 (ap_time_busy tmp2) (ap_time_busy tmp1) dur_sur,
       ap_time_rx := rate64 (ap_time_rx tmp2) (ap_time_rx tmp1) dur_sur,
       ap_time_tx := rate64 (ap_time_tx tmp2) (ap_time_tx tmp1) dur_sur,
       ap_noise := ap_noise tmp2,
       ap_q3packets := rate (ap_q3packets tmp2) (ap_q3packets tmp1) duration,
       ap_q3bytes := rate64 (ap_q3bytes tmp2) (ap_q3bytes tmp1) duration,
       ap_q3qlen := q3maxqlen,
       ap_q3backlog := q3maxbacklog,
       ap_q3drops := rate (ap_q3drops tmp2) (ap_q3drops tmp1) duration,
       ap_q3requeues := rate (ap_q3requeues tmp2) (ap_q3requeues tmp1) duration,
       ap_qfpackets := rate (ap_qfpackets tmp2) (ap_qfpackets tmp1) duration,
       ap_qfbytes := rate64 (ap_qfbytes tmp2) (ap_qfbytes tmp1) duration,
       ap_qfqlen := qfmaxqlen,
       ap_qfbacklog := qfmaxbacklog,
       ap_qfdrops := rate (ap_qfdrops tmp2) (ap_qfdrops tmp1) duration,
       ap_qfrequeues := rate (ap_qfrequeues tmp2) (ap_qfrequeues tmp1) duration,
       ap_congestion := rate (ap_congestion tmp2) (ap_congestion tmp1) duration,
       ap_noncongestion := rate (ap_noncongestion tmp2) (ap_noncongestion tmp1) duration,
       ap_sec := ap_sec tmp2,
       ap_usec := ap_usec tmp2,
       ap_station_count := of_nat (length (filter (\<lambda>x. 0 < iw_sec x) (iwp_link (iwp st))))\<rparr>)"

datatype 'f netlink_reply = NoneData | ApState apstates | LinkState linkstates | FlowState 'f

definition states_reply :: "apstates \<Rightarrow> sender \<Rightarrow> 'f netlink_reply list" where
  "states_reply stack st =
    (if window_duration st = 0 \<or> survey_duration st = 0 then [NoneData]
     else ApState (window_summary stack st) #
       map (LinkState \<circ> iw2linkstates) (filter (\<lambda>x. 0 < iw_sec x) (iwp_link (iwp st))))"

text \<open>The requests are the words \<open>states\<close> and \<open>flowss\<close>.\<close>

definition recv_cb :: "apstates \<Rightarrow> bytes \<Rightarrow> 'f list \<Rightarrow> sender \<Rightarrow> 'f netlink_reply list" where
  "recv_cb stack data flow_linger st =
    (if strcmp_n data [115, 116, 97, 116, 101, 115] 6 = 0 then states_reply stack st
     else if strcmp_n data [102, 108, 111, 119, 115, 115] 6 = 0 then map FlowState flow_linger
     else [])"

section \<open>Lemmas\<close>

lemma strcmp_n_eq: "length s = n \<Longrightarrow> length t = n \<Longrightarrow> strcmp_n s t n = 0 \<longleftrightarrow> s = t"
proof -
  assume l: "length s = n" "length t = n"
  have "length (filter (\<lambda>(a, b). a = b) (zip s t)) = length (zip s t) \<longleftrightarrow> (\<forall>x\<in>set (zip s t). case x of (a, b) \<Rightarrow> a = b)"
    by (metis (no_types, lifting) filter_id_conv length_filter_less nat_neq_iff)
  also have "\<dots> \<longleftrightarrow> s = t"
    using l by (auto simp: list_eq_iff_nth_eq set_zip)
  finally show ?thesis using l by (simp add: strcmp_n_def)
qed

lemma strcmp_linger_eq: "length s = 6 \<Longrightarrow> length t = 6 \<Longrightarrow> strcmp_linger s t = 0 \<longleftrightarrow> s = t"
  by (simp add: strcmp_linger_def strcmp_n_eq)

lemma strcmp_n_refl [simp]: "length s = n \<Longrightarrow> strcmp_n s s n = 0"
  by (simp add: strcmp_n_eq)

end
