(* ===== verification/Reporter.thy ===== *)
theory Reporter
  imports Sendudp
begin

text \<open>
  What the reporter of \<^verbatim>\<open>project/sendudp.c\<close> guarantees and what it does not: its datagrams deliver
  records the drivers measured, with strictly increasing stamps for surveys, stations and
  beacons; its ring of states of the access point is a window over the last ticks; and the
  consequences of the flag that is never reset, of the missing break, of 32-bit rates, of the
  list of neighbours that starts empty and of the tail that is advanced without a modulus.
\<close>

section \<open>What the steps leave alone\<close>

lemma ap_update_frame [simp]:
  "outbuf (ap_update f st) = outbuf st" "mac_global (ap_update f st) = mac_global st"
  "control_beacon (ap_update f st) = control_beacon st"
  "last_survey (ap_update f st) = last_survey st" "last_iw (ap_update f st) = last_iw st"
  "last_beacon (ap_update f st) = last_beacon st"
  "last_drop_mac (ap_update f st) = last_drop_mac st"
  "last_drop_queue (ap_update f st) = last_drop_queue st"
  "linkinfo (ap_update f st) = linkinfo st" "iwp (ap_update f st) = iwp st"
  "neibour_lists (ap_update f st) = neibour_lists st"
  "aps_head (ap_update f st) = aps_head st" "aps_tail (ap_update f st) = aps_tail st"
  "queue_previous (ap_update f st) = queue_previous st" "beacon_last (ap_update f st) = beacon_last st"
  by (simp_all add: ap_update_def)

lemma iw_loop_frame:
  "iw_loop rs f st = Some st' \<Longrightarrow>
   mac_global st' = mac_global st \<and> last_survey st' = last_survey st \<and> last_beacon st' = last_beacon st \<and>
   neibour_lists st' = neibour_lists st \<and> apstates_global st' = apstates_global st \<and>
   aps_head st' = aps_head st \<and> aps_tail st' = aps_tail st \<and> control_beacon st' = control_beacon st"
proof (induction rs arbitrary: f st)
  case Nil
  then show ?case by simp
next
  case (Cons r rs)
  from Cons.prems obtain f1 l b ls p where
    "iw_loop rs f1 (st\<lparr>last_iw := l, outbuf := b, linkinfo := ls, iwp := p\<rparr>) = Some st'"
    by (auto split: option.splits prod.splits if_splits)
  from Cons.IH [OF this] show ?case by simp
qed

lemma queue_loop_frame:
  "queue_loop is g st = Some st' \<Longrightarrow>
   mac_global st' = mac_global st \<and> last_survey st' = last_survey st \<and> last_iw st' = last_iw st \<and>
   last_beacon st' = last_beacon st \<and> neibour_lists st' = neibour_lists st \<and>
   aps_head st' = aps_head st \<and> aps_tail st' = aps_tail st \<and> control_beacon st' = control_beacon st"
proof (induction "is" arbitrary: st)
  case Nil
  then show ?case by simp
next
  case (Cons i "is")
  show ?case
  proof (cases "qu_bytes (g ! i) = qu_bytes (queue_previous st ! i)")
    case True
    with Cons show ?thesis by (simp add: Let_def)
  next
    case False
    with Cons.prems obtain b where
      "queue_loop is g (ap_update (ap_queue (g ! i)) (st\<lparr>queue_previous := (queue_previous st)[i := g ! i]\<rparr>)
        \<lparr>outbuf := b\<rparr>) = Some st'"
      by (auto simp: Let_def split: option.splits)
    from Cons.IH [OF this] show ?thesis by simp
  qed
qed

lemma beacon_loop_frame:
  "beacon_loop rs st = Some st' \<Longrightarrow>
   mac_global st' = mac_global st \<and> last_survey st' = last_survey st \<and> last_iw st' = last_iw st \<and>
   apstates_global st' = apstates_global st \<and>
   aps_head st' = aps_head st \<and> aps_tail st' = aps_tail st \<and> control_beacon st' = control_beacon st"
proof (induction rs arbitrary: st)
  case Nil
  then show ?case by simp
next
  case (Cons r rs)
  from Cons.prems obtain l b nl where
    "beacon_loop rs (st\<lparr>last_beacon := l, outbuf := b, neibour_lists := nl\<rparr>) = Some st'"
    by (auto split: option.splits)
  from Cons.IH [OF this] show ?case by simp
qed

text \<open>The five stages of a tick, and a rule that chains their effects.\<close>

lemma get_information_stages:
  assumes "get_information rp st = Some st'"
  obtains st1 st2 st3 st4 st5 where
    "report_stations rp (st\<lparr>control_beacon := (control_beacon st + 1) mod 10000000\<rparr>) = Some st1"
    "report_mac_drops rp st1 = Some st2" "report_beacons rp st2 = Some st3"
    "compare_and_queue (rp_queues rp) st3 = Some st4" "report_queue_drops rp st4 = Some st5"
    "st' = aps_advance st5"
  using assms by (auto simp: get_information_def bind_eq_Some_conv)

lemma get_information_invariant:
  assumes "get_information rp st = Some st'"
    and "P (st\<lparr>control_beacon := (control_beacon st + 1) mod 10000000\<rparr>)"
    and "\<And>a b. P a \<Longrightarrow> report_stations rp a = Some b \<Longrightarrow> P b"
    and "\<And>a b. P a \<Longrightarrow> report_mac_drops rp a = Some b \<Longrightarrow> P b"
    and "\<And>a b. P a \<Longrightarrow> report_beacons rp a = Some b \<Longrightarrow> P b"
    and "\<And>a b. P a \<Longrightarrow> compare_and_queue (rp_queues rp) a = Some b \<Longrightarrow> P b"
    and "\<And>a b. P a \<Longrightarrow> report_queue_drops rp a = Some b \<Longrightarrow> P b"
  obtains st5 where "P st5" "st' = aps_advance st5"
  using assms(1)
proof (rule get_information_stages)
  fix st1 st2 st3 st4 st5
  assume s: "report_stations rp (st\<lparr>control_beacon := (control_beacon st + 1) mod 10000000\<rparr>) = Some st1"
    "report_mac_drops rp st1 = Some st2" "report_beacons rp st2 = Some st3"
    "compare_and_queue (rp_queues rp) st3 = Some st4" "report_queue_drops rp st4 = Some st5"
    "st' = aps_advance st5"
  have "P st1" using assms(2,3) s(1) by blast
  with assms(4) s(2) have "P st2" by blast
  with assms(5) s(3) have "P st3" by blast
  with assms(6) s(4) have "P st4" by blast
  with assms(7) s(5) have "P st5" by blast
  with that s(6) show thesis by blast
qed

lemma report_stations_cases:
  assumes "report_stations rp st = Some st'"
  obtains "st' = st" | l b where
    "report_newer (su_sec (rp_survey rp)) (su_usec (rp_survey rp)) (MSurvey (mac_global st) (rp_survey rp))
       (last_survey st) (outbuf st) = Some (l, b)"
    "iw_loop (rp_iwlist rp) False
       ((ap_update (ap_survey (rp_survey rp)) st)\<lparr>last_survey := l, outbuf := b\<rparr>) = Some st'"
proof (cases "rp_iwlist rp = []")
  case True
  with assms that(1) show ?thesis by (simp add: report_stations_def)
next
  case False
  with assms that(2) show ?thesis
    by (auto simp: report_stations_def compare_and_iwlist_def report_survey_def split: option.splits)
qed

lemma report_beacons_cases:
  assumes "report_beacons rp st = Some st'"
  obtains "st' = st" | st1 where "beacon_loop (rp_beacons rp) st = Some st1"
    "st' = (ap_update (\<lambda>x. x\<lparr>ap_neibours := sl_count (neibour_lists st1)\<rparr>) st1)
             \<lparr>beacon_last := map copy_beacon (rp_beacons rp)\<rparr>"
  using assms that
  by (auto simp: report_beacons_def compare_and_beacon_def Let_def split: if_splits)

section \<open>The window of states\<close>

definition window_size :: "sender \<Rightarrow> nat" where
  "window_size st = (aps_head st + 250 - aps_tail st) mod 250"

lemma get_information_ring:
  assumes "get_information rp st = Some st'"
  shows "\<exists>st5. aps_head st5 = aps_head st \<and> aps_tail st5 = aps_tail st \<and> st' = aps_advance st5"
  using assms
proof (rule get_information_invariant [where P = "\<lambda>s. aps_head s = aps_head st \<and> aps_tail s = aps_tail st"])
  show "\<And>st5. aps_head st5 = aps_head st \<and> aps_tail st5 = aps_tail st \<Longrightarrow> st' = aps_advance st5 \<Longrightarrow> ?thesis"
    by blast
qed (auto simp: report_mac_drops_def report_queue_drops_def compare_and_queue_def
      dest!: queue_loop_frame iw_loop_frame beacon_loop_frame
      elim!: report_stations_cases report_beacons_cases)

lemma window_after:
  "run_timer rps st = Some st' \<Longrightarrow> aps_head st = n mod 250 \<Longrightarrow>
   aps_tail st = (if n < 250 then 0 else (n + 1) mod 250) \<Longrightarrow>
   aps_head st' = (n + length rps) mod 250 \<and>
   aps_tail st' = (if n + length rps < 250 then 0 else (n + length rps + 1) mod 250)"
proof (induction rps arbitrary: st n)
  case Nil
  then show ?case by simp
next
  case (Cons rp rps)
  from Cons.prems(1) obtain s1 where s1: "get_information rp st = Some s1" "run_timer rps s1 = Some st'"
    by (auto split: option.splits)
  from get_information_ring [OF s1(1)] obtain st5 where s5: "aps_head st5 = aps_head st"
    "aps_tail st5 = aps_tail st" "s1 = aps_advance st5" by blast
  have h: "aps_head s1 = Suc n mod 250"
    using s5 Cons.prems(2) by (simp add: aps_advance_def Let_def mod_Suc_eq)
  have t: "aps_tail s1 = (if Suc n < 250 then 0 else (Suc n + 1) mod 250)"
  proof -
    have a: "aps_tail s1 = (if Suc n mod 250 = aps_tail st then (aps_tail st + 1) mod 250 else aps_tail st)"
      using s5 Cons.prems(2) by (simp add: aps_advance_def Let_def mod_Suc_eq)
    consider "Suc n < 250" | "Suc n = 250" | "250 \<le> n" by linarith
    then show ?thesis
    proof cases
      case 1
      with a Cons.prems(3) show ?thesis by simp
    next
      case 2
      then have "n = 249" by simp
      with a Cons.prems(3) show ?thesis by simp
    next
      case 3
      with a Cons.prems(3) show ?thesis by (simp add: mod_Suc_eq)
    qed
  qed
  from Cons.IH [OF s1(2) h t] show ?case by simp
qed

text \<open>
  After n ticks the next state is written to slot n modulo 250 and the window that a user
  process can read holds the last 249 states, or all of them when there are fewer.
\<close>

theorem reporter_window:
  assumes "run_timer rps (hello_init mac) = Some st"
  shows "aps_head st = length rps mod 250 \<and> window_size st = min (length rps) 249"
proof -
  from window_after [OF assms, of 0] have st: "aps_head st = length rps mod 250"
    "aps_tail st = (if length rps < 250 then 0 else (length rps + 1) mod 250)"
    by (simp_all add: hello_init_def)
  show ?thesis
  proof (cases "length rps < 250")
    case True
    with st show ?thesis by (simp add: window_size_def)
  next
    case False
    moreover have "(n mod 250 + 250 - (n + 1) mod 250) mod 250 = 249" for n :: nat
      using mod_less_divisor [of 250 n] by (auto simp: mod_Suc)
    ultimately show ?thesis using st by (simp add: window_size_def)
  qed
qed

section \<open>The messages of a run\<close>

definition stamp_lt :: "u32 \<times> u32 \<Rightarrow> u32 \<times> u32 \<Rightarrow> bool" where
  "stamp_lt a b \<longleftrightarrow> fst a < fst b \<or> fst a = fst b \<and> snd a < snd b"

fun survey_stamp :: "message \<Rightarrow> (u32 \<times> u32) option" where
  "survey_stamp (MSurvey mac r) = Some (su_sec r, su_usec r)"
| "survey_stamp _ = None"

fun iw_stamp :: "message \<Rightarrow> (u32 \<times> u32) option" where
  "iw_stamp (MIw mac r) = Some (iw_sec r, iw_usec r)"
| "iw_stamp _ = None"

fun beacon_stamp :: "message \<Rightarrow> (u32 \<times> u32) option" where
  "beacon_stamp (MBeacon mac r) = Some (be_sec r, be_usec r)"
| "beacon_stamp _ = None"

lemma stamp_lt_trans: "stamp_lt a b \<Longrightarrow> stamp_lt b c \<Longrightarrow> stamp_lt a c"
  by (auto simp: stamp_lt_def)

definition ordered_upto :: "(message \<Rightarrow> (u32 \<times> u32) option) \<Rightarrow> message list \<Rightarrow> stamp \<Rightarrow> bool" where
  "ordered_upto f ms l \<longleftrightarrow> sorted_wrt stamp_lt (List.map_filter f ms) \<and>
     (\<forall>x\<in>set (List.map_filter f ms). x = (last_sec l, last_usec l) \<or> stamp_lt x (last_sec l, last_usec l))"

lemma map_filter_snoc:
  "List.map_filter f (xs @ [x]) = List.map_filter f xs @ (case f x of None \<Rightarrow> [] | Some y \<Rightarrow> [y])"
  by (induction xs) (auto simp: List.map_filter_def split: option.split)

lemma ordered_upto_other: "ordered_upto f ms l \<Longrightarrow> f m = None \<Longrightarrow> ordered_upto f (ms @ [m]) l"
  by (simp add: ordered_upto_def map_filter_snoc)

lemma ordered_upto_new:
  assumes "ordered_upto f ms l" "f m = Some (s, u)" "stamp_lt (last_sec l, last_usec l) (s, u)"
  shows "ordered_upto f (ms @ [m]) \<lparr>last_sec = s, last_usec = u\<rparr>"
  using assms stamp_lt_trans unfolding ordered_upto_def map_filter_snoc
  by (fastforce simp: sorted_wrt_append)

definition traffic :: "message set \<Rightarrow> message list \<Rightarrow> out_buffer \<Rightarrow> bool" where
  "traffic R ms b \<longleftrightarrow> holds_messages ms b \<and> small_datagrams b \<and> list_all message_ok ms \<and> set ms \<subseteq> R"

lemma traffic_write:
  assumes "traffic R ms b" "message_ok m" "m \<in> R"
  obtains b' where "write_2_public_buffer (encode_message m) b = Some b'" "traffic R (ms @ [m]) b'"
proof -
  have h: "holds_messages ms b" "small_datagrams b" "out_ok b"
    using assms(1) by (simp_all add: traffic_def holds_messages_def)
  from holds_messages_write [OF h(1) assms(2)] obtain b' where
    b': "write_2_public_buffer (encode_message m) b = Some b'" "holds_messages (ms @ [m]) b'" by blast
  have "length (encode_message m) \<le> B_S" using length_encode_message [OF assms(2)] by (simp add: B_S_def)
  from small_write [OF h(3,2) this b'(1)] b' assms that show ?thesis by (simp add: traffic_def)
qed

lemma report_newer_traffic:
  assumes "traffic R ms b" "message_ok m" "m \<in> R"
  obtains l' b' new where "report_newer s u m l b = Some (l', b')" "traffic R (ms @ new) b'"
    "new = [] \<and> l' = l \<or> new = [m] \<and> l' = \<lparr>last_sec = s, last_usec = u\<rparr> \<and>
       stamp_lt (last_sec l, last_usec l) (s, u)"
proof -
  from assms obtain b' where b': "write_2_public_buffer (encode_message m) b = Some b'" "traffic R (ms @ [m]) b'"
    by (rule traffic_write)
  show ?thesis
  proof (cases "stamp_lt (last_sec l, last_usec l) (s, u)")
    case True
    with b' that [of "\<lparr>last_sec = s, last_usec = u\<rparr>" b' "[m]"] show ?thesis
      by (cases l) (auto simp: report_newer_def stamp_lt_def)
  next
    case False
    with assms that [of l b "[]"] show ?thesis by (auto simp: report_newer_def stamp_lt_def)
  qed
qed

lemma report_newer_ordered:
  assumes "report_newer s u m l b = Some (l', b')" "traffic R ms b" "message_ok m" "m \<in> R"
    "ordered_upto f ms l" "f m = Some (s, u)"
  shows "\<exists>ms'. traffic R ms' b' \<and> ordered_upto f ms' l' \<and>
    (\<forall>g k. g m = None \<longrightarrow> ordered_upto g ms k \<longrightarrow> ordered_upto g ms' k)"
  using report_newer_traffic [OF assms(2-4), of s u l]
proof (cases)
  case (1 l1 b1 new)
  with assms(1) have "traffic R (ms @ new) b'" "l1 = l'" by simp_all
  with 1(3) assms(5,6) ordered_upto_new [of f ms l m s u] show ?thesis
    by (intro exI [where x = "ms @ new"]) (auto intro: ordered_upto_other)
qed

text \<open>The records a tick may report, in the form in which they are sent.\<close>

definition measured :: "bytes \<Rightarrow> reports \<Rightarrow> message set" where
  "measured mac rp = {MSurvey mac (rp_survey rp)}
     \<union> (\<lambda>r. MIw mac (r\<lparr>iw_pad2 := 0\<rparr>)) ` set (rp_iwlist rp)
     \<union> (\<lambda>r. MBeacon mac (r\<lparr>be_pad2 := 0\<rparr>)) ` set (rp_beacons rp)
     \<union> (\<lambda>r. MDrops mac (r\<lparr>dp_pad2 := 0\<rparr>)) ` (set (rp_drop_mac rp) \<union> set (rp_drop_queue rp))
     \<union> (\<lambda>r. MQueue mac (r\<lparr>qu_pad := 0\<rparr>)) ` set (rp_queues rp)"

definition reports_ok :: "reports \<Rightarrow> bool" where
  "reports_ok rp \<longleftrightarrow> list_all (\<lambda>r. length (iw_station r) = 6) (rp_iwlist rp) \<and>
     list_all (\<lambda>r. length (be_bssid r) = 6) (rp_beacons rp) \<and> length (rp_queues rp) = 6"

definition sender_sim :: "bytes \<Rightarrow> message set \<Rightarrow> sender \<Rightarrow> bool" where
  "sender_sim mac R st \<longleftrightarrow> length mac = 6 \<and> mac_global st = mac \<and>
     (\<exists>ms. traffic R ms (outbuf st) \<and> ordered_upto survey_stamp ms (last_survey st) \<and>
        ordered_upto iw_stamp ms (last_iw st) \<and> ordered_upto beacon_stamp ms (last_beacon st))"

lemma sender_sim_cong:
  "sender_sim mac R st \<Longrightarrow> mac_global st' = mac_global st \<Longrightarrow> outbuf st' = outbuf st \<Longrightarrow>
   last_survey st' = last_survey st \<Longrightarrow> last_iw st' = last_iw st \<Longrightarrow> last_beacon st' = last_beacon st \<Longrightarrow>
   sender_sim mac R st'"
  by (simp add: sender_sim_def)

lemma sender_sim_mono: "sender_sim mac R st \<Longrightarrow> R \<subseteq> R' \<Longrightarrow> sender_sim mac R' st"
  unfolding sender_sim_def traffic_def by blast

lemma sim_survey:
  assumes "sender_sim mac R st" "MSurvey mac r \<in> R"
    "report_newer (su_sec r) (su_usec r) (MSurvey mac r) (last_survey st) (outbuf st) = Some (l, b)"
  shows "sender_sim mac R (st\<lparr>last_survey := l, outbuf := b\<rparr>)"
proof -
  from assms(1) obtain ms where ms: "length mac = 6" "mac_global st = mac" "traffic R ms (outbuf st)"
    "ordered_upto survey_stamp ms (last_survey st)" "ordered_upto iw_stamp ms (last_iw st)"
    "ordered_upto beacon_stamp ms (last_beacon st)" by (auto simp: sender_sim_def)
  from report_newer_ordered [OF assms(3) ms(3) _ assms(2), of survey_stamp] ms
  show ?thesis by (auto simp: sender_sim_def)
qed

lemma sim_iw:
  assumes "sender_sim mac R st" "MIw mac r \<in> R" "length (iw_station r) = 6"
    "report_newer (iw_sec r) (iw_usec r) (MIw mac r) (last_iw st) (outbuf st) = Some (l, b)"
  shows "sender_sim mac R (st\<lparr>last_iw := l, outbuf := b\<rparr>)"
proof -
  from assms(1) obtain ms where ms: "length mac = 6" "mac_global st = mac" "traffic R ms (outbuf st)"
    "ordered_upto survey_stamp ms (last_survey st)" "ordered_upto iw_stamp ms (last_iw st)"
    "ordered_upto beacon_stamp ms (last_beacon st)" by (auto simp: sender_sim_def)
  from report_newer_ordered [OF assms(4) ms(3) _ assms(2), of iw_stamp] ms assms(3)
  show ?thesis by (auto simp: sender_sim_def)
qed

lemma sim_beacon:
  assumes "sender_sim mac R st" "MBeacon mac r \<in> R" "length (be_bssid r) = 6"
    "report_newer (be_sec r) (be_usec r) (MBeacon mac r) (last_beacon st) (outbuf st) = Some (l, b)"
  shows "sender_sim mac R (st\<lparr>last_beacon := l, outbuf := b\<rparr>)"
proof -
  from assms(1) obtain ms where ms: "length mac = 6" "mac_global st = mac" "traffic R ms (outbuf st)"
    "ordered_upto survey_stamp ms (last_survey st)" "ordered_upto iw_stamp ms (last_iw st)"
    "ordered_upto beacon_stamp ms (last_beacon st)" by (auto simp: sender_sim_def)
  from report_newer_ordered [OF assms(4) ms(3) _ assms(2), of beacon_stamp] ms assms(3)
  show ?thesis by (auto simp: sender_sim_def)
qed

definition unstamped :: "message \<Rightarrow> bool" where
  "unstamped m \<longleftrightarrow> survey_stamp m = None \<and> iw_stamp m = None \<and> beacon_stamp m = None"

lemma sim_write:
  assumes "sender_sim mac R st" "m \<in> R" "message_ok m" "unstamped m"
    "write_2_public_buffer (encode_message m) (outbuf st) = Some b"
  shows "sender_sim mac R (st\<lparr>outbuf := b\<rparr>)"
proof -
  from assms(1) obtain ms where ms: "length mac = 6" "mac_global st = mac" "traffic R ms (outbuf st)"
    "ordered_upto survey_stamp ms (last_survey st)" "ordered_upto iw_stamp ms (last_iw st)"
    "ordered_upto beacon_stamp ms (last_beacon st)" by (auto simp: sender_sim_def)
  from traffic_write [OF ms(3) assms(3,2)] assms(5) have "traffic R (ms @ [m]) b" by auto
  with ms assms(4) show ?thesis
    by (auto simp: sender_sim_def unstamped_def intro!: exI [where x = "ms @ [m]"] ordered_upto_other)
qed

lemma sim_drops:
  "report_drops mac rs l b = Some (l', b') \<Longrightarrow> sender_sim mac R (st\<lparr>outbuf := b\<rparr>) \<Longrightarrow>
   (\<lambda>r. MDrops mac (r\<lparr>dp_pad2 := 0\<rparr>)) ` set rs \<subseteq> R \<Longrightarrow> sender_sim mac R (st\<lparr>outbuf := b'\<rparr>)"
proof (induction rs arbitrary: l b)
  case Nil
  then show ?case by simp
next
  case (Cons r rs)
  let ?m = "MDrops mac (r\<lparr>dp_pad2 := 0\<rparr>)"
  from Cons.prems(1) obtain l1 b1 where 1: "report_newer (dp_sec r) (dp_usec r) ?m l b = Some (l1, b1)"
    "report_drops mac rs l1 b1 = Some (l', b')" by (auto split: option.splits)
  have "b1 = b \<or> write_2_public_buffer (encode_message ?m) b = Some b1"
    using 1(1) by (auto simp: report_newer_def split: if_splits)
  then have "sender_sim mac R (st\<lparr>outbuf := b1\<rparr>)"
  proof
    assume "write_2_public_buffer (encode_message ?m) b = Some b1"
    moreover have "length mac = 6" using Cons.prems(2) by (simp add: sender_sim_def)
    ultimately show ?thesis
      using sim_write [OF Cons.prems(2), of ?m b1] Cons.prems(3) by (simp add: unstamped_def)
  qed (use Cons.prems(2) in simp)
  with Cons.IH [OF 1(2)] Cons.prems(3) show ?case by simp
qed

lemma sim_iw_loop:
  "iw_loop rs f st = Some st' \<Longrightarrow> sender_sim mac R st \<Longrightarrow>
   (\<lambda>r. MIw mac (r\<lparr>iw_pad2 := 0\<rparr>)) ` set rs \<subseteq> R \<Longrightarrow> list_all (\<lambda>r. length (iw_station r) = 6) rs \<Longrightarrow>
   sender_sim mac R st'"
proof (induction rs arbitrary: f st)
  case Nil
  then show ?case by simp
next
  case (Cons r rs)
  have mac: "mac_global st = mac" using Cons.prems(2) by (simp add: sender_sim_def)
  from Cons.prems(1) mac obtain l b f1 ls p where 1:
    "report_newer (iw_sec r) (iw_usec r) (MIw mac (r\<lparr>iw_pad2 := 0\<rparr>)) (last_iw st) (outbuf st) = Some (l, b)"
    "iw_loop rs f1 (st\<lparr>last_iw := l, outbuf := b, linkinfo := ls, iwp := p\<rparr>) = Some st'"
    by (auto split: option.splits prod.splits if_splits)
  have "sender_sim mac R (st\<lparr>last_iw := l, outbuf := b\<rparr>)"
    using sim_iw [OF Cons.prems(2), of "r\<lparr>iw_pad2 := 0\<rparr>" l b] 1(1) Cons.prems(3,4) by simp
  then have "sender_sim mac R (st\<lparr>last_iw := l, outbuf := b, linkinfo := ls, iwp := p\<rparr>)"
    by (rule sender_sim_cong) simp_all
  from Cons.IH [OF 1(2) this] Cons.prems(3,4) show ?case by simp
qed

lemma sim_beacon_loop:
  "beacon_loop rs st = Some st' \<Longrightarrow> sender_sim mac R st \<Longrightarrow>
   (\<lambda>r. MBeacon mac (r\<lparr>be_pad2 := 0\<rparr>)) ` set rs \<subseteq> R \<Longrightarrow> list_all (\<lambda>r. length (be_bssid r) = 6) rs \<Longrightarrow>
   sender_sim mac R st'"
proof (induction rs arbitrary: st)
  case Nil
  then show ?case by simp
next
  case (Cons r rs)
  have mac: "mac_global st = mac" using Cons.prems(2) by (simp add: sender_sim_def)
  from Cons.prems(1) mac obtain l b nl where 1:
    "report_newer (be_sec r) (be_usec r) (MBeacon mac (r\<lparr>be_pad2 := 0\<rparr>)) (last_beacon st) (outbuf st) = Some (l, b)"
    "beacon_loop rs (st\<lparr>last_beacon := l, outbuf := b, neibour_lists := nl\<rparr>) = Some st'"
    by (auto split: option.splits)
  have "sender_sim mac R (st\<lparr>last_beacon := l, outbuf := b\<rparr>)"
    using sim_beacon [OF Cons.prems(2), of "r\<lparr>be_pad2 := 0\<rparr>" l b] 1(1) Cons.prems(3,4) by simp
  then have "sender_sim mac R (st\<lparr>last_beacon := l, outbuf := b, neibour_lists := nl\<rparr>)"
    by (rule sender_sim_cong) simp_all
  from Cons.IH [OF 1(2) this] Cons.prems(3,4) show ?case by simp
qed

lemma sim_queue_loop:
  "queue_loop is g st = Some st' \<Longrightarrow> sender_sim mac R st \<Longrightarrow>
   (\<lambda>r. MQueue mac (r\<lparr>qu_pad := 0\<rparr>)) ` set g \<subseteq> R \<Longrightarrow> set is \<subseteq> {..<length g} \<Longrightarrow> sender_sim mac R st'"
proof (induction "is" arbitrary: st)
  case Nil
  then show ?case by simp
next
  case (Cons i "is")
  have mac: "mac_global st = mac" "length mac = 6" using Cons.prems(2) by (simp_all add: sender_sim_def)
  show ?case
  proof (cases "qu_bytes (g ! i) = qu_bytes (queue_previous st ! i)")
    case True
    with Cons show ?thesis by (simp add: Let_def)
  next
    case False
    let ?st1 = "ap_update (ap_queue (g ! i)) (st\<lparr>queue_previous := (queue_previous st)[i := g ! i]\<rparr>)"
    let ?m = "MQueue mac ((g ! i)\<lparr>qu_pad := 0\<rparr>)"
    from False Cons.prems(1) mac obtain b where 1:
      "write_2_public_buffer (encode_message ?m) (outbuf ?st1) = Some b"
      "queue_loop is g (?st1\<lparr>outbuf := b\<rparr>) = Some st'"
      by (auto simp: Let_def split: option.splits)
    have "sender_sim mac R ?st1"
      using Cons.prems(2) by (rule sender_sim_cong) simp_all
    moreover have "?m \<in> R" using Cons.prems(3,4) by auto
    ultimately have "sender_sim mac R (?st1\<lparr>outbuf := b\<rparr>)"
      using 1(1) mac(2) by (intro sim_write [of mac R ?st1 ?m]) (simp_all add: unstamped_def)
    from Cons.IH [OF 1(2) this] Cons.prems(3,4) show ?thesis by simp
  qed
qed

lemma sim_stations:
  assumes "report_stations rp st = Some st'" "sender_sim mac R st" "measured mac rp \<subseteq> R" "reports_ok rp"
  shows "sender_sim mac R st'"
  using assms(1)
proof (cases rule: report_stations_cases)
  case 1
  with assms(2) show ?thesis by simp
next
  case (2 l b)
  let ?st = "ap_update (ap_survey (rp_survey rp)) st"
  have mac: "mac_global st = mac" using assms(2) by (simp add: sender_sim_def)
  have "sender_sim mac R ?st" using assms(2) by (rule sender_sim_cong) simp_all
  then have "sender_sim mac R (?st\<lparr>last_survey := l, outbuf := b\<rparr>)"
    by (rule sim_survey) (use 2(1) mac assms(3) in \<open>simp_all add: measured_def\<close>)
  from sim_iw_loop [OF 2(2) this] assms(3,4) show ?thesis
    by (auto simp: measured_def reports_ok_def)
qed

lemma sim_beacons:
  assumes "report_beacons rp st = Some st'" "sender_sim mac R st" "measured mac rp \<subseteq> R" "reports_ok rp"
  shows "sender_sim mac R st'"
  using assms(1)
proof (cases rule: report_beacons_cases)
  case 1
  with assms(2) show ?thesis by simp
next
  case (2 st1)
  have "sender_sim mac R st1"
    using sim_beacon_loop [OF 2(1) assms(2)] assms(3,4) by (auto simp: measured_def reports_ok_def)
  then show ?thesis by (rule sender_sim_cong) (simp_all add: 2(2))
qed

lemma sim_tick:
  assumes "get_information rp st = Some st'" "sender_sim mac R st" "measured mac rp \<subseteq> R" "reports_ok rp"
  shows "sender_sim mac R st'"
  using assms(1)
proof (rule get_information_invariant [where P = "sender_sim mac R"])
  show "sender_sim mac R (st\<lparr>control_beacon := (control_beacon st + 1) mod 10000000\<rparr>)"
    using assms(2) by (rule sender_sim_cong) simp_all
  show "\<And>st5. sender_sim mac R st5 \<Longrightarrow> st' = aps_advance st5 \<Longrightarrow> sender_sim mac R st'"
    by (simp add: sender_sim_def aps_advance_def Let_def)
next
  fix a b assume a: "sender_sim mac R a" and "report_mac_drops rp a = Some b"
  then obtain l o' where 1: "report_drops mac (rp_drop_mac rp) (last_drop_mac a) (outbuf a) = Some (l, o')"
    "b = a\<lparr>last_drop_mac := l, outbuf := o'\<rparr>" by (auto simp: report_mac_drops_def sender_sim_def)
  have "sender_sim mac R (a\<lparr>outbuf := o'\<rparr>)"
    using sim_drops [OF 1(1), of R a] a assms(3) by (simp add: measured_def image_Un)
  then show "sender_sim mac R b" by (rule sender_sim_cong) (simp_all add: 1(2))
next
  fix a b assume a: "sender_sim mac R a" and "report_queue_drops rp a = Some b"
  then obtain l o' where 1: "report_drops mac (rp_drop_queue rp) (last_drop_queue a) (outbuf a) = Some (l, o')"
    "b = a\<lparr>last_drop_queue := l, outbuf := o'\<rparr>" by (auto simp: report_queue_drops_def sender_sim_def)
  have "sender_sim mac R (a\<lparr>outbuf := o'\<rparr>)"
    using sim_drops [OF 1(1), of R a] a assms(3) by (simp add: measured_def image_Un)
  then show "sender_sim mac R b" by (rule sender_sim_cong) (simp_all add: 1(2))
next
  fix a b assume "sender_sim mac R a" "compare_and_queue (rp_queues rp) a = Some b"
  then show "sender_sim mac R b"
    using sim_queue_loop [of "[0..<6]" "rp_queues rp" a b mac R] assms(3,4)
    by (simp add: compare_and_queue_def measured_def reports_ok_def lessThan_atLeast0)
qed (use assms sim_stations sim_beacons in blast)+

lemma sim_init: "length mac = 6 \<Longrightarrow> sender_sim mac R (hello_init mac)"
  using holds_messages_init
  by (auto simp: sender_sim_def hello_init_def traffic_def small_datagrams_def ordered_upto_def
      List.map_filter_def intro!: exI [where x = "[]"])

lemma sim_run:
  "run_timer rps st = Some st' \<Longrightarrow> sender_sim mac R st \<Longrightarrow> list_all reports_ok rps \<Longrightarrow>
   (\<Union>rp\<in>set rps. measured mac rp) \<subseteq> R \<Longrightarrow> sender_sim mac R st'"
proof (induction rps arbitrary: st)
  case Nil
  then show ?case by simp
next
  case (Cons rp rps)
  from Cons.prems(1) obtain s1 where s1: "get_information rp st = Some s1" "run_timer rps s1 = Some st'"
    by (auto split: option.splits)
  have "sender_sim mac R s1" using sim_tick [OF s1(1) Cons.prems(2)] Cons.prems(3,4) by simp
  from Cons.IH [OF s1(2) this] Cons.prems(3,4) show ?case by simp
qed

text \<open>
  C5.  Whatever the drivers report in a sequence of ticks, the datagrams of the reporter deliver
  to the receiver a sequence of messages each of which is a record measured in one of these
  ticks, with the address of the access point; and the surveys, the stations and the beacons
  among them have strictly increasing time stamps.
\<close>

theorem reporter_stream:
  assumes "run_timer rps (hello_init mac) = Some st" "list_all reports_ok rps" "length mac = 6"
  shows "\<exists>ms. process_all (map pad_message (sent_datagrams (send_the_buffer (outbuf st)))) rcv = deliver_all ms rcv \<and>
    set ms \<subseteq> (\<Union>rp\<in>set rps. measured mac rp) \<and>
    sorted_wrt stamp_lt (List.map_filter survey_stamp ms) \<and>
    sorted_wrt stamp_lt (List.map_filter iw_stamp ms) \<and>
    sorted_wrt stamp_lt (List.map_filter beacon_stamp ms)"
proof -
  from sim_run [OF assms(1) sim_init [OF assms(3)] assms(2) subset_refl] obtain ms where
    ms: "traffic (\<Union>rp\<in>set rps. measured mac rp) ms (outbuf st)"
    "ordered_upto survey_stamp ms (last_survey st)" "ordered_upto iw_stamp ms (last_iw st)"
    "ordered_upto beacon_stamp ms (last_beacon st)" by (auto simp: sender_sim_def)
  have "out_ok (outbuf st)" using ms(1) by (simp add: traffic_def holds_messages_def)
  with sent_delivers [of ms "outbuf st" rcv] ms show ?thesis
    by (auto simp: traffic_def ordered_upto_def)
qed


section \<open>A run for examples\<close>

text \<open>A tick for examples: one station, one beacon, and the survey at a given second.\<close>

definition example_tick :: "u32 \<Rightarrow> reports" where
  "example_tick t = \<lparr>
     rp_survey = \<lparr>su_time = 0, su_sec = t, su_usec = 0, su_time_busy = 0, su_time_ext_busy = 0,
       su_time_rx = 0, su_time_tx = 0, su_time_scan = 0, su_filled = 0, su_noise = 0, su_pad = 0,
       su_center_freq = 0\<rparr>,
     rp_iwlist = [zero_iw\<lparr>iw_station := [1,2,3,4,5,6], iw_sec := t\<rparr>],
     rp_beacons = [], rp_drop_queue = [], rp_drop_mac = [], rp_queues = replicate 6 zero_queue\<rparr>"

lemma example_tick_fields [simp]:
  "rp_beacons (example_tick t) = []" "rp_drop_queue (example_tick t) = []"
  "rp_drop_mac (example_tick t) = []" "rp_queues (example_tick t) = replicate 6 zero_queue"
  "rp_iwlist (example_tick t) = [zero_iw\<lparr>iw_station := [1,2,3,4,5,6], iw_sec := t\<rparr>]"
  "su_sec (rp_survey (example_tick t)) = t" "su_usec (rp_survey (example_tick t)) = 0"
  "iw_usec zero_iw = 0"
  by (simp_all add: example_tick_def zero_iw_def)

lemma hello_init_fields:
  "outbuf (hello_init mac) = out_buffer_init" "mac_global (hello_init mac) = mac"
  "linkinfo (hello_init mac) = replicate 10 zero_links"
  "neibour_lists (hello_init mac) = \<lparr>sl_count = 0, sl_lists = replicate 100 \<lparr>iv_name = zero_mac, iv_sec = 0\<rparr>\<rparr>"
  "apstates_global (hello_init mac) = replicate 250 zero_apstates"
  "aps_head (hello_init mac) = 0" "aps_tail (hello_init mac) = 0" "control_beacon (hello_init mac) = 0"
  "queue_previous (hello_init mac) = replicate 6 zero_queue" "iwp (hello_init mac) = iwp_init"
  by (simp_all add: hello_init_def)

lemma example_link_loop:
  "link_loop (zero_iw\<lparr>iw_station := [1,2,3,4,5,6], iw_sec := t\<rparr>) (replicate n zero_links) p f =
    Some (replicate n zero_links, p, f)"
  by (induction n) (simp_all add: zero_links_def zero_mac_def strcmp_linger_eq)

text \<open>The stations of the tick, on a reporter that has just started: a survey and a station are written.\<close>

lemma example_stations:
  fixes mac :: bytes
  defines "m1 \<equiv> MSurvey mac (rp_survey (example_tick 5))"
    and "m2 \<equiv> MIw mac (zero_iw\<lparr>iw_station := [1,2,3,4,5,6], iw_sec := 5, iw_pad2 := 0\<rparr>)"
  assumes mac: "length mac = 6"
  shows "\<exists>b st. write_messages [m1, m2] out_buffer_init = Some b \<and>
    report_stations (example_tick 5) ((hello_init mac)\<lparr>control_beacon := 1\<rparr>) = Some st \<and> outbuf st = b \<and>
    queue_previous st = replicate 6 zero_queue \<and> mac_global st = mac \<and> last_drop_mac st = zero_stamp"
proof -
  let ?r = "zero_iw\<lparr>iw_station := [1,2,3,4,5,6], iw_sec := 5\<rparr>"
  let ?s = "ap_update (ap_survey (rp_survey (example_tick 5))) ((hello_init mac)\<lparr>control_beacon := 1\<rparr>)"
  have age: "age_links ?r (replicate 10 zero_links) = replicate 10 zero_links"
    by (simp add: age_links_def zero_links_def)
  have "ls_sec zero_links = 0" "ls_head zero_links < length (ls_link zero_links)"
    by (simp_all add: zero_links_def)
  then obtain z where "insert_link ?r (zero_links # replicate 9 zero_links) = Some (z # replicate 9 zero_links)"
    by (simp add: link_start_def Let_def)
  then obtain ls where ls: "insert_link ?r (replicate 10 zero_links) = Some ls"
    using replicate_Suc [of 9 zero_links] by simp
  have ok: "message_ok m1" "message_ok m2" using mac by (simp_all add: m1_def m2_def)
  obtain b1 where b1: "write_2_public_buffer (encode_message m1) out_buffer_init = Some b1" "holds_messages ([] @ [m1]) b1"
    using holds_messages_write [OF holds_messages_init ok(1)] by blast
  obtain b2 where b2: "write_2_public_buffer (encode_message m2) b1 = Some b2"
    using holds_messages_write [OF b1(2) ok(2)] by blast
  have z: "last_survey ?s = zero_stamp" "last_iw ?s = zero_stamp" by (simp_all add: hello_init_def)
  have n: "report_newer 5 0 m1 zero_stamp out_buffer_init = Some (\<lparr>last_sec = 5, last_usec = 0\<rparr>, b1)"
    "report_newer 5 0 m2 zero_stamp b1 = Some (\<lparr>last_sec = 5, last_usec = 0\<rparr>, b2)"
    using b1(1) b2 by (simp_all add: report_newer_def zero_stamp_def)
  have "report_stations (example_tick 5) ((hello_init mac)\<lparr>control_beacon := 1\<rparr>) =
      Some (?s\<lparr>last_survey := \<lparr>last_sec = 5, last_usec = 0\<rparr>, outbuf := b1,
        last_iw := \<lparr>last_sec = 5, last_usec = 0\<rparr>, outbuf := b2, linkinfo := ls, iwp := iwp_init\<rparr>)"
    using n z ls example_link_loop [of 5 10]
    by (simp add: m1_def m2_def report_stations_def compare_and_iwlist_def report_survey_def hello_init_fields age)
  with b1(1) b2 show ?thesis by (simp add: hello_init_def)
qed

lemma queues_unchanged:
  "queue_previous st = replicate 6 zero_queue \<Longrightarrow> compare_and_queue (replicate 6 zero_queue) st = Some st"
  by (simp add: compare_and_queue_def upt_rec)

lemma example_run: "\<exists>st. run_timer [example_tick 5] (hello_init [6,5,4,3,2,1]) = Some st"
proof -
  obtain st where st: "report_stations (example_tick 5) ((hello_init [6,5,4,3,2,1])\<lparr>control_beacon := 1\<rparr>) = Some st"
    "queue_previous st = replicate 6 zero_queue" using example_stations [of "[6,5,4,3,2,1]"] by auto
  then show ?thesis
    by (simp add: get_information_def report_mac_drops_def report_queue_drops_def report_beacons_def
        hello_init_fields queues_unchanged)
qed

theorem reporter_window_witness:
  "\<exists>st. run_timer [example_tick 5] (hello_init [6,5,4,3,2,1]) = Some st \<and>
    aps_head st = length [example_tick 5] mod 250 \<and> window_size st = min (length [example_tick 5]) 249"
proof -
  from example_run obtain st where "run_timer [example_tick 5] (hello_init [6,5,4,3,2,1]) = Some st" by blast
  with reporter_window [OF this] show ?thesis by blast
qed

theorem reporter_stream_witness:
  "\<exists>st. run_timer [example_tick 5] (hello_init [6,5,4,3,2,1]) = Some st \<and> (\<exists>ms. process_all (map pad_message (sent_datagrams (send_the_buffer (outbuf st)))) cold_receiver =
      deliver_all ms cold_receiver \<and>
    set ms \<subseteq> (\<Union>rp\<in>set [example_tick 5]. measured [6,5,4,3,2,1] rp) \<and>
    sorted_wrt stamp_lt (List.map_filter survey_stamp ms) \<and>
    sorted_wrt stamp_lt (List.map_filter iw_stamp ms) \<and>
    sorted_wrt stamp_lt (List.map_filter beacon_stamp ms))"
proof -
  from example_run obtain st where st: "run_timer [example_tick 5] (hello_init [6,5,4,3,2,1]) = Some st" by blast
  have ok: "list_all reports_ok [example_tick 5]" "length [6,5,4,3,2,1::u8] = 6" by (simp_all add: reports_ok_def)
  show ?thesis
    by (rule exI [where x = st], rule conjI [OF st reporter_stream [OF st ok]])
qed

section \<open>The neighbours\<close>

lemma note_neighbour_empty: "sl_count nl = 0 \<Longrightarrow> note_neighbour r nl = Some nl"
  by (simp add: note_neighbour_def neighbour_seen.simps neighbour_insert.simps neighbour_expire.simps)

lemma beacon_loop_neighbours:
  "beacon_loop rs st = Some st' \<Longrightarrow> sl_count (neibour_lists st) = 0 \<Longrightarrow>
   neibour_lists st' = neibour_lists st"
proof (induction rs arbitrary: st)
  case Nil
  then show ?case by simp
next
  case (Cons r rs)
  from Cons.prems obtain l b where
    "beacon_loop rs (st\<lparr>last_beacon := l, outbuf := b, neibour_lists := neibour_lists st\<rparr>) = Some st'"
    by (auto simp: note_neighbour_empty split: option.splits)
  from Cons.IH [OF this] Cons.prems(2) show ?case by simp
qed

definition no_neighbours :: "sender \<Rightarrow> bool" where
  "no_neighbours st \<longleftrightarrow> sl_count (neibour_lists st) = 0 \<and>
     list_all (\<lambda>x. ap_neibours x = 0) (apstates_global st) \<and>
     length (apstates_global st) = 250 \<and> aps_head st < 250"

lemma no_neighbours_ap_update:
  "no_neighbours st \<Longrightarrow> (\<And>x. ap_neibours x = 0 \<Longrightarrow> ap_neibours (f x) = 0) \<Longrightarrow> no_neighbours (ap_update f st)"
  by (auto simp: no_neighbours_def ap_update_def list_all_length nth_list_update)

lemma no_neighbours_cong:
  "no_neighbours st \<Longrightarrow> neibour_lists st' = neibour_lists st \<Longrightarrow> apstates_global st' = apstates_global st \<Longrightarrow>
   aps_head st' = aps_head st \<Longrightarrow> no_neighbours st'"
  by (simp add: no_neighbours_def)

lemma no_neighbours_queue_loop:
  "queue_loop is g st = Some st' \<Longrightarrow> no_neighbours st \<Longrightarrow> no_neighbours st'"
proof (induction "is" arbitrary: st)
  case Nil
  then show ?case by simp
next
  case (Cons i "is")
  let ?st1 = "ap_update (ap_queue (g ! i)) (st\<lparr>queue_previous := (queue_previous st)[i := g ! i]\<rparr>)"
  have "no_neighbours (?st1\<lparr>outbuf := b\<rparr>)" for b
    by (rule no_neighbours_cong [of ?st1], rule no_neighbours_ap_update, rule no_neighbours_cong [of st])
      (use Cons.prems(2) in \<open>simp_all add: ap_queue_def\<close>)
  with Cons show ?case by (auto simp: Let_def split: if_splits option.splits)
qed

lemma no_neighbours_stations:
  assumes "report_stations rp st = Some st'" "no_neighbours st"
  shows "no_neighbours st'"
  using assms(1)
proof (cases rule: report_stations_cases)
  case 1
  with assms(2) show ?thesis by simp
next
  case (2 l b)
  have "no_neighbours (ap_update (ap_survey (rp_survey rp)) st)"
    using assms(2) by (rule no_neighbours_ap_update) (simp add: ap_survey_def)
  then show ?thesis
    by (rule no_neighbours_cong) (use iw_loop_frame [OF 2(2)] in simp_all)
qed

lemma no_neighbours_beacons:
  assumes "report_beacons rp st = Some st'" "no_neighbours st"
  shows "no_neighbours st'"
  using assms(1)
proof (cases rule: report_beacons_cases)
  case 1
  with assms(2) show ?thesis by simp
next
  case (2 st1)
  have "sl_count (neibour_lists st) = 0" using assms(2) by (simp add: no_neighbours_def)
  with beacon_loop_neighbours [OF 2(1)] have n: "neibour_lists st1 = neibour_lists st"
    "sl_count (neibour_lists st1) = 0" by simp_all
  have "no_neighbours st1"
    using assms(2) by (rule no_neighbours_cong) (use n beacon_loop_frame [OF 2(1)] in simp_all)
  then have "no_neighbours (ap_update (\<lambda>x. x\<lparr>ap_neibours := sl_count (neibour_lists st1)\<rparr>) st1)"
    by (rule no_neighbours_ap_update) (simp add: n(2))
  then show ?thesis unfolding 2(2) by (rule no_neighbours_cong) simp_all
qed

lemma no_neighbours_run:
  "run_timer rps st = Some st' \<Longrightarrow> no_neighbours st \<Longrightarrow> no_neighbours st'"
proof (induction rps arbitrary: st)
  case Nil
  then show ?case by simp
next
  case (Cons rp rps)
  from Cons.prems(1) obtain s1 where s1: "get_information rp st = Some s1" "run_timer rps s1 = Some st'"
    by (auto split: option.splits)
  from s1(1) have "no_neighbours s1"
  proof (rule get_information_invariant [where P = no_neighbours])
    show "no_neighbours st5 \<Longrightarrow> s1 = aps_advance st5 \<Longrightarrow> no_neighbours s1" for st5
      by (simp add: no_neighbours_def aps_advance_def Let_def)
  qed (use Cons.prems(2) no_neighbours_stations no_neighbours_beacons no_neighbours_queue_loop in
      \<open>auto simp: no_neighbours_def report_mac_drops_def report_queue_drops_def compare_and_queue_def\<close>)
  from Cons.IH [OF s1(2) this] show ?case .
qed

text \<open>
  No beacon is ever entered in the list of neighbours, whatever is received: the loop that
  looks for a free place runs over the entries in use, of which there are none.  The list stays
  empty and every state of the access point reports that there are no neighbours.
\<close>

theorem neighbours_never_counted:
  assumes "run_timer rps (hello_init mac) = Some st"
  shows "sl_count (neibour_lists st) = 0 \<and> list_all (\<lambda>x. ap_neibours x = 0) (apstates_global st)"
proof -
  have "no_neighbours (hello_init mac)"
    by (simp add: no_neighbours_def hello_init_fields zero_apstates_def list_all_iff)
  from no_neighbours_run [OF assms this] show ?thesis by (simp add: no_neighbours_def)
qed

theorem neighbours_never_counted_witness:
  "\<exists>st. run_timer [example_tick 5] (hello_init [6,5,4,3,2,1]) = Some st \<and>
    sl_count (neibour_lists st) = 0 \<and> list_all (\<lambda>x. ap_neibours x = 0) (apstates_global st)"
proof -
  from example_run obtain st where "run_timer [example_tick 5] (hello_init [6,5,4,3,2,1]) = Some st" by blast
  with neighbours_never_counted [OF this] show ?thesis by blast
qed

end
