(* ===== verification/Receiver_Types.thy ===== *)
theory Receiver_Types
  imports Receiver_Api
begin

text \<open>
  A typing of the state of \<^verbatim>\<open>new_receiver.c\<close>: the records behind the write index of a ring hold the
  texts of MAC addresses, and the indices of the readers stay behind it.  Every datagram, damaged
  ones included, and every query of the API keeps the state well typed, so that the API reports
  texts of MAC addresses only, never what the allocator left in a record.
\<close>

section \<open>Texts of MAC addresses\<close>

definition mac_shape :: "bool list" where
  "mac_shape = [True, True, False, True, True, False, True, True, False, True, True, False,
     True, True, False, True, True]"

definition mac_typed :: "string \<Rightarrow> bool" where
  "mac_typed s \<longleftrightarrow>
     list_all2 (\<lambda>digit c. if digit then c \<in> set ''0123456789abcdef'' else c = CHR '':'') mac_shape s"

lemma hex_digit_typed: "i < 16 \<Longrightarrow> hex_digit i \<in> set ''0123456789abcdef''"
  unfolding hex_digit_def by (rule nth_mem) simp

lemma hex_byte_typed: "\<exists>x y. hex_byte b = [x, y] \<and> x \<in> set ''0123456789abcdef'' \<and> y \<in> set ''0123456789abcdef''"
  unfolding hex_byte_def using hex_digit_typed [OF nibble_bound(1), of b] hex_digit_typed [OF nibble_bound(2), of b] by blast

lemma mac_text_typed [simp]: "mac_typed (mac_text addr)"
proof -
  define H where "H = set ''0123456789abcdef''"
  have "\<forall>b. \<exists>x y. hex_byte b = [x, y] \<and> x \<in> H \<and> y \<in> H" using hex_byte_typed by (simp add: H_def)
  then obtain x y where h: "\<And>b. hex_byte b = [x b, y b]" "\<And>b. x b \<in> H" "\<And>b. y b \<in> H" by metis
  show ?thesis
    unfolding mac_typed_def H_def [symmetric] by (simp add: mac_text_def mac_shape_def h)
qed

section \<open>Typed rings\<close>

text \<open>
  After n writes the first n slots, at most all, are typed.  Before the first overflow the readers
  and what they are told is unread stay behind the n writes.
\<close>

definition written :: "('a \<Rightarrow> bool) \<Rightarrow> nat \<Rightarrow> 'a api_ring \<Rightarrow> bool" where
  "written P n r \<longleftrightarrow> (\<forall>i<min n BUFFER_STORE. P (slots r i)) \<and> bend r = n mod BUFFER_STORE"

definition readers_behind :: "nat \<Rightarrow> 'a api_ring \<Rightarrow> bool" where
  "readers_behind n r \<longleftrightarrow>
     bstart1 r < BUFFER_STORE \<and> 0 \<le> bamount r \<and> bamount r \<le> int n \<and> 0 \<le> bamount1 r \<and> bamount1 r \<le> int n \<and>
     (n < BUFFER_STORE \<longrightarrow> bstart r + nat (bamount r) \<le> n \<and> bstart1 r \<le> n)"

definition ring_written :: "('a \<Rightarrow> bool) \<Rightarrow> 'a api_ring \<Rightarrow> bool" where
  "ring_written P r \<longleftrightarrow> (\<exists>n. written P n r)"

definition ring_typed :: "('a \<Rightarrow> bool) \<Rightarrow> 'a api_ring \<Rightarrow> bool" where
  "ring_typed P r \<longleftrightarrow> (\<exists>n. written P n r \<and> readers_behind n r)"

lemma ring_written_empty: "ring_written P (empty_ring mem)"
  unfolding ring_written_def by (rule exI [of _ 0]) (simp add: written_def empty_ring_def)

lemma ring_typed_empty: "ring_typed P (empty_ring mem)"
  unfolding ring_typed_def by (rule exI [of _ 0]) (simp add: written_def readers_behind_def empty_ring_def)

lemma typed_slots:
  assumes "\<forall>i<min n BUFFER_STORE. P (f i)" "P x"
  shows "\<forall>i<min (Suc n) BUFFER_STORE. P ((f(n mod BUFFER_STORE := x)) i)"
proof (intro allI impI)
  fix i assume i: "i < min (Suc n) BUFFER_STORE"
  show "P ((f(n mod BUFFER_STORE := x)) i)"
  proof (cases "i = n mod BUFFER_STORE")
    case False
    with i have "i < min n BUFFER_STORE" by (cases "i = n") auto
    with False assms(1) show ?thesis by simp
  qed (simp add: assms(2))
qed

lemma written_push: "written P n r \<Longrightarrow> (\<And>x. P (upd x)) \<Longrightarrow> written P (Suc n) (ring_push upd r)"
  using typed_slots [of n P "slots r" "upd (slots r (n mod BUFFER_STORE))"]
  by (simp add: written_def ring_push_def Let_def mod_Suc_eq)

lemma written_survey_push: "written P n r \<Longrightarrow> (\<And>x. P (upd x)) \<Longrightarrow> written P (Suc n) (survey_push upd r)"
  using typed_slots [of n P "slots r" "upd (slots r (n mod BUFFER_STORE))"]
  by (simp add: written_def survey_push_def Let_def mod_Suc_eq)

lemma readers_push: "readers_behind n r \<Longrightarrow> readers_behind (Suc n) (ring_push upd r)"
  unfolding readers_behind_def by (simp add: ring_push_def Let_def) linarith

lemma ring_written_push:
  "ring_written P r \<Longrightarrow> (\<And>x. P (upd x)) \<Longrightarrow> ring_written P (ring_push upd r)"
  "ring_written P r \<Longrightarrow> (\<And>x. P (upd x)) \<Longrightarrow> ring_written P (survey_push upd r)"
  unfolding ring_written_def using written_push written_survey_push by blast+

lemma ring_typed_push: "ring_typed P r \<Longrightarrow> (\<And>x. P (upd x)) \<Longrightarrow> ring_typed P (ring_push upd r)"
  unfolding ring_typed_def using written_push readers_push by blast

lemma ring_written_reader [simp]:
  "ring_written P (r\<lparr>bstart := s, bamount := a\<rparr>) \<longleftrightarrow> ring_written P r"
  by (simp add: ring_written_def written_def)

text \<open>A reader that has walked over its window stands at the write index.\<close>

lemma ring_typed_consume:
  assumes "ring_typed P r"
  shows "bstart r < BUFFER_STORE \<Longrightarrow> consume (window_length (bstart r) (bend r)) (bstart r, bamount r) = (s, a) \<Longrightarrow>
      s < BUFFER_STORE \<and> ring_typed P (r\<lparr>bstart := s, bamount := a\<rparr>)"
    and "consume (window_length (bstart1 r) (bend r)) (bstart1 r, bamount1 r) = (s, a) \<Longrightarrow>
      ring_typed P (r\<lparr>bstart1 := s, bamount1 := a\<rparr>)"
proof -
  from assms obtain n where n: "written P n r" "readers_behind n r" unfolding ring_typed_def by blast
  then have e: "bend r = n mod BUFFER_STORE" "bend r < BUFFER_STORE" by (simp_all add: written_def)
  show "s < BUFFER_STORE \<and> ring_typed P (r\<lparr>bstart := s, bamount := a\<rparr>)"
    if b: "bstart r < BUFFER_STORE" and c: "consume (window_length (bstart r) (bend r)) (bstart r, bamount r) = (s, a)"
  proof -
    have s: "s = bend r" using consume_start [OF b] window_length_consumed [OF b e(2)] c by (metis fst_conv)
    have a: "a = max 0 (bamount r - int (window_length (bstart r) (bend r)))"
      using consume_amount [of "bamount r" "window_length (bstart r) (bend r)" "bstart r"] n(2) c
      by (simp add: readers_behind_def)
    have "written P n (r\<lparr>bstart := s, bamount := a\<rparr>)" using n(1) by (simp add: written_def)
    moreover have "readers_behind n (r\<lparr>bstart := s, bamount := a\<rparr>)"
    proof (cases "n < BUFFER_STORE")
      case True
      with n(2) e(1) have "bstart r \<le> bend r" "bamount r \<le> int (bend r - bstart r)" "bend r = n"
        unfolding readers_behind_def by auto
      then have "a = 0" using a by (simp add: window_length_def)
      then show ?thesis using n(2) s \<open>bend r = n\<close> by (simp add: readers_behind_def)
    next
      case False
      then show ?thesis using n(2) a unfolding readers_behind_def by auto
    qed
    ultimately show ?thesis unfolding ring_typed_def using s e(2) by blast
  qed
  show "ring_typed P (r\<lparr>bstart1 := s, bamount1 := a\<rparr>)"
    if c: "consume (window_length (bstart1 r) (bend r)) (bstart1 r, bamount1 r) = (s, a)"
  proof -
    have b: "bstart1 r < BUFFER_STORE" using n(2) by (simp add: readers_behind_def)
    have s: "s = bend r" using consume_start [OF b] window_length_consumed [OF b e(2)] c by (metis fst_conv)
    have a: "a = max 0 (bamount1 r - int (window_length (bstart1 r) (bend r)))"
      using consume_amount [of "bamount1 r" "window_length (bstart1 r) (bend r)" "bstart1 r"] n(2) c
      by (simp add: readers_behind_def)
    have "written P n (r\<lparr>bstart1 := s, bamount1 := a\<rparr>)" using n(1) by (simp add: written_def)
    moreover have "readers_behind n (r\<lparr>bstart1 := s, bamount1 := a\<rparr>)"
      using n(2) a s e unfolding readers_behind_def by auto
    ultimately show ?thesis unfolding ring_typed_def by blast
  qed
qed

text \<open>The records between a reader and the write index are typed.\<close>

lemma typed_window:
  assumes "written P n r" "j < BUFFER_STORE" "n < BUFFER_STORE \<longrightarrow> j \<le> n" "i < window_length j (bend r)"
  shows "P (slots r ((j + i) mod BUFFER_STORE))"
proof -
  have "(j + i) mod BUFFER_STORE < min n BUFFER_STORE"
  proof (cases "n < BUFFER_STORE")
    case True
    with assms have "j + i < n" by (simp add: written_def window_length_def)
    with True show ?thesis by simp
  qed simp
  with assms(1) show ?thesis by (simp add: written_def)
qed

lemma ring_typed_window:
  assumes "ring_typed P r"
  shows "bstart r < BUFFER_STORE \<Longrightarrow> i < window_length (bstart r) (bend r) \<Longrightarrow> P (slots r ((bstart r + i) mod BUFFER_STORE))"
    and "i < window_length (bstart1 r) (bend r) \<Longrightarrow> P (slots r ((bstart1 r + i) mod BUFFER_STORE))"
  using assms typed_window [of P _ r "bstart r"] typed_window [of P _ r "bstart1 r"]
  unfolding ring_typed_def readers_behind_def by auto

lemma collect_loop_typed:
  assumes "\<And>x. P x \<Longrightarrow> mac x = ap \<Longrightarrow> Q (item x)"
  shows "j < BUFFER_STORE \<Longrightarrow> (\<And>i. i < k \<Longrightarrow> P (tmp ((j + i) mod BUFFER_STORE))) \<Longrightarrow> list_all Q ml \<Longrightarrow>
   collect_loop mac item tmp ap k j ml = Some ml' \<Longrightarrow> list_all Q ml'"
proof (induction k arbitrary: j ml)
  case 0
  then show ?case by simp
next
  case (Suc k)
  have next_P: "P (tmp ((Suc j mod BUFFER_STORE + i) mod BUFFER_STORE))" if "i < k" for i
    using Suc.prems(2) [of "Suc i"] that by (simp add: mod_simps)
  have next_j: "Suc j mod BUFFER_STORE < BUFFER_STORE" by simp
  show ?case
  proof (cases "mac (tmp j) = ap")
    case True
    then have "Q (item (tmp j))" using Suc.prems(1) Suc.prems(2) [of 0] assms by simp
    with Suc.prems(3) have ml: "list_all Q (ml @ [item (tmp j)])" by simp
    from True Suc.prems(4) Suc.IH [OF next_j next_P ml] Suc.IH [OF next_j next_P Suc.prems(3)] show ?thesis
      by (auto split: if_splits)
  next
    case False
    with Suc.prems Suc.IH [of j ml] show ?thesis by simp
  qed
qed

section \<open>The typed state\<close>

definition beacon_typed :: "data_beacon_processed \<Rightarrow> bool" where
  "beacon_typed x \<longleftrightarrow> mac_typed (bp_mac_addr x) \<and> mac_typed (bp_bssid x)"

definition iw_typed :: "data_iw_processed \<Rightarrow> bool" where
  "iw_typed x \<longleftrightarrow> mac_typed (ip_mac_addr x) \<and> mac_typed (ip_station x)"

text \<open>
  The state for a predicate on the beacons, one on the stations and one on the addresses of routers:
  they hold of every record that was written and of the log.
\<close>

definition receiver_shows ::
  "(data_beacon_processed \<Rightarrow> bool) \<Rightarrow> (data_iw_processed \<Rightarrow> bool) \<Rightarrow> (string \<Rightarrow> bool) \<Rightarrow> receiver \<Rightarrow> bool"
where
  "receiver_shows B I M st \<longleftrightarrow>
     ring_typed B (beacon_ring st) \<and>
     ring_typed I (iw_ring st) \<and> bstart (iw_ring st) < BUFFER_STORE \<and>
     ring_written (\<lambda>x. M (rp_mac_addr x)) (dropped_ring st) \<and>
     ring_written (\<lambda>x. M (wp_mac_addr x)) (winsize_ring st) \<and>
     ring_written (\<lambda>x. M (sp_mac_addr x)) (survey_ring st) \<and>
     list_all (\<lambda>l. M (log_mac l)) (fp st)"

abbreviation receiver_typed :: "receiver \<Rightarrow> bool" where
  "receiver_typed \<equiv> receiver_shows beacon_typed iw_typed mac_typed"

lemma written_mono: "written P n r \<Longrightarrow> (\<And>x. P x \<Longrightarrow> Q x) \<Longrightarrow> written Q n r"
  by (simp add: written_def)

lemma ring_written_mono: "ring_written P r \<Longrightarrow> (\<And>x. P x \<Longrightarrow> Q x) \<Longrightarrow> ring_written Q r"
  unfolding ring_written_def using written_mono [of P _ r Q] by blast

lemma ring_typed_mono: "ring_typed P r \<Longrightarrow> (\<And>x. P x \<Longrightarrow> Q x) \<Longrightarrow> ring_typed Q r"
  unfolding ring_typed_def using written_mono [of P _ r Q] by blast

lemma receiver_shows_mono:
  assumes "receiver_shows B I M st" "\<And>x. B x \<Longrightarrow> B' x" "\<And>x. I x \<Longrightarrow> I' x" "\<And>t. M t \<Longrightarrow> M' t"
  shows "receiver_shows B' I' M' st"
proof -
  have l: "list_all (\<lambda>l. M' (log_mac l)) (fp st)"
    using assms(1,4) by (simp add: receiver_shows_def list_all_iff)
  from assms(1) have
    "ring_typed B (beacon_ring st)" "ring_typed I (iw_ring st)"
    "ring_written (\<lambda>x. M (rp_mac_addr x)) (dropped_ring st)" "ring_written (\<lambda>x. M (wp_mac_addr x)) (winsize_ring st)"
    "ring_written (\<lambda>x. M (sp_mac_addr x)) (survey_ring st)" by (simp_all add: receiver_shows_def)
  from this(1) this(2) this(3-5) [THEN ring_written_mono] have
    "ring_typed B' (beacon_ring st)" "ring_typed I' (iw_ring st)"
    "ring_written (\<lambda>x. M' (rp_mac_addr x)) (dropped_ring st)" "ring_written (\<lambda>x. M' (wp_mac_addr x)) (winsize_ring st)"
    "ring_written (\<lambda>x. M' (sp_mac_addr x)) (survey_ring st)"
    using assms(2-4) ring_typed_mono [of B _ B'] ring_typed_mono [of I _ I'] by simp_all
  with l assms(1) show ?thesis by (simp add: receiver_shows_def)
qed

lemma bstart_push: "bstart r < BUFFER_STORE \<Longrightarrow> bstart (ring_push u r) < BUFFER_STORE"
  by (simp add: ring_push_def Let_def)

lemma receiver_shows_init: "receiver_shows B I M (start_threads b i d w s clk)"
  by (simp add: receiver_shows_def start_threads_def ring_typed_empty ring_written_empty)
    (simp add: empty_ring_def)

text \<open>The flow table and the clock are not part of the typing.\<close>

lemma receiver_shows_frame [simp]:
  "receiver_shows B I M (st\<lparr>flows := h\<rparr>) \<longleftrightarrow> receiver_shows B I M st"
  "receiver_shows B I M (st\<lparr>clock := c\<rparr>) \<longleftrightarrow> receiver_shows B I M st"
  by (simp_all add: receiver_shows_def)

lemma receiver_shows_clock [simp]: "receiver_shows B I M (snd (read_clock st)) \<longleftrightarrow> receiver_shows B I M st"
  by (simp add: read_clock_def)

lemma receiver_shows_log [simp]: "receiver_shows B I M (fprintf l st) \<longleftrightarrow> M (log_mac l) \<and> receiver_shows B I M st"
  by (auto simp: receiver_shows_def fprintf_def)

lemma receiver_shows_track:
  "track_flow mac r wscale st = Some (w, st') \<Longrightarrow> receiver_shows B I M st \<Longrightarrow> receiver_shows B I M st'"
  by (auto simp: track_flow_def read_clock_def Let_def split: if_splits option.splits)

lemma decoders_typed:
  assumes "receiver_typed st"
  shows "decode_winsize buf st = Some st' \<Longrightarrow> receiver_typed st'"
    and "decode_drops buf st = Some st' \<Longrightarrow> receiver_typed st'"
    and "decode_iw buf st = Some st' \<Longrightarrow> receiver_typed st'"
    and "decode_queue buf st = Some st' \<Longrightarrow> receiver_typed st'"
    and "decode_beacon buf st = Some st' \<Longrightarrow> receiver_typed st'"
    and "decode_survey buf st = Some st' \<Longrightarrow> receiver_typed st'"
proof -
  show "receiver_typed st'" if "decode_winsize buf st = Some st'"
  proof -
    from that obtain mac r wscale w st1 where
      t: "track_flow mac r wscale (snd (read_clock st)) = Some (w, st1)"
      and st': "st' = (fprintf (winsize_log mac r w) st1)
        \<lparr>winsize_ring := ring_push (winsize_store (mac_text mac) r) (winsize_ring st1)\<rparr>"
      by (auto simp: decode_winsize_def Let_def split: if_splits option.splits)
    have "receiver_typed (fprintf (winsize_log mac r w) st1)"
      using receiver_shows_track [OF t] assms by (simp add: winsize_log_def)
    then show ?thesis unfolding st'
      by (simp add: receiver_shows_def fprintf_def ring_written_push winsize_store_def)
  qed
  show "receiver_typed st'" if "decode_drops buf st = Some st'"
    using that assms by (auto simp: decode_drops_def Let_def receiver_shows_def fprintf_def ring_written_push drops_store_def split: if_splits)
  show "receiver_typed st'" if "decode_iw buf st = Some st'"
    using that assms by (auto simp: decode_iw_def Let_def receiver_shows_def fprintf_def ring_typed_push bstart_push iw_typed_def iw_store_def split: if_splits)
  show "receiver_typed st'" if "decode_queue buf st = Some st'"
    using that assms by (auto simp: decode_queue_def Let_def split: if_splits)
  show "receiver_typed st'" if "decode_beacon buf st = Some st'"
    using that assms by (auto simp: decode_beacon_def Let_def receiver_shows_def fprintf_def ring_typed_push beacon_typed_def beacon_store_def split: if_splits)
  show "receiver_typed st'" if "decode_survey buf st = Some st'"
    using that assms by (auto simp: decode_survey_def Let_def receiver_shows_def fprintf_def ring_written_push survey_store_def split: if_splits)
qed

lemma dispatch_typed:
  "dispatch v = Some (f, k) \<Longrightarrow> f buf st = Some st' \<Longrightarrow> receiver_typed st \<Longrightarrow> receiver_typed st'"
  by (auto simp: dispatch_def split: if_splits dest: decoders_typed [rotated])

lemma process_typed:
  "process_from buffer offset len st = Some st' \<Longrightarrow> receiver_typed st \<Longrightarrow> receiver_typed st'"
proof (induction buffer offset len st rule: process_from.induct)
  case (1 buffer offset len st)
  show ?case
  proof (cases "offset < len")
    case True
    from 1(2) True obtain tag where t: "read_block buffer offset 2 = Some tag"
      by (subst (asm) process_from.simps) (auto split: option.splits)
    show ?thesis
    proof (cases "dispatch (reversebytes_uint16t (le_word tag))")
      case None
      with 1(2,3) True t show ?thesis by (subst (asm) process_from.simps) simp
    next
      case (Some d)
      obtain f k where d: "d = (f, k)" by (cases d)
      from 1(2) True t Some d obtain st1 where
        f: "f (drop (offset + 2) buffer) st = Some st1"
        and r: "process_from buffer (offset + 2 + k) len st1 = Some st'"
        by (subst (asm) process_from.simps) (auto split: option.splits)
      show ?thesis
        using 1(1) [OF True t Some d [symmetric] f r] dispatch_typed [OF Some [unfolded d] f 1(3)] .
    qed
  next
    case False
    with 1(2,3) show ?thesis by (subst (asm) process_from.simps) simp
  qed
qed

text \<open>The queries of the API, and what a receiver goes through: datagrams of any content, processed
  for any length, and queries in any order.\<close>

inductive query :: "receiver \<Rightarrow> receiver \<Rightarrow> bool" where
  clients: "get_clients stack ap c st = Some (c', st') \<Longrightarrow> query st st'"
| clients_py: "get_clients_py ap c st = Some (c', st') \<Longrightarrow> query st st'"
| neighbour: "get_neighbour stack ap c st = Some (c', st') \<Longrightarrow> query st st'"
| neighbour_py: "get_neighbour_py ap c st = Some (c', st') \<Longrightarrow> query st st'"
| aps: "get_aps c st = Some (k, c', st') \<Longrightarrow> query st st'"
| flows: "get_flows ap fl st = Some (fl', st') \<Longrightarrow> query st st'"
| flow_drops: "get_flow_drops ap fd st = (fd', st') \<Longrightarrow> query st st'"
| wireless_info: "get_wireless_info ap wi st = (hit, wi', st') \<Longrightarrow> query st st'"

inductive receiver_reach :: "receiver \<Rightarrow> bool" where
  start: "receiver_reach (start_threads b i d w s clk)"
| datagram: "receiver_reach st \<Longrightarrow> process buffer len st = Some st' \<Longrightarrow> receiver_reach st'"
| asked: "receiver_reach st \<Longrightarrow> query st st' \<Longrightarrow> receiver_reach st'"

lemma get_aps_loop_shows:
  assumes "\<And>x. B x \<Longrightarrow> P (bp_mac_addr x)"
  shows "get_aps_loop f m s es k = Some (es', s', k') \<Longrightarrow> (\<And>j. s \<le> j \<Longrightarrow> j < s + m \<Longrightarrow> j < BUFFER_STORE \<Longrightarrow> B (f j)) \<Longrightarrow>
   list_all P (take k es) \<Longrightarrow> k \<le> length es \<Longrightarrow>
   s' = s + m \<and> k' = k + m \<and> k' \<le> length es' \<and> list_all P (take k' es')"
proof (induction m arbitrary: s es k)
  case 0
  then show ?case by simp
next
  case (Suc m)
  let ?es = "es[k := bp_mac_addr (f s)]"
  from Suc.prems(1) have b: "s < BUFFER_STORE" "k < length es" and
    r: "get_aps_loop f m (s + 1) ?es (k + 1) = Some (es', s', k')" by (auto split: if_splits)
  have "P (bp_mac_addr (f s))" using Suc.prems(2) [of s] b assms by simp
  then have "list_all P (take (k + 1) ?es)" using Suc.prems(3) b(2) by (simp add: take_Suc_conv_app_nth)
  from Suc.IH [OF r _ this] Suc.prems(2) b show ?case by auto
qed

lemma ring_typed_aps:
  assumes "ring_typed P r" "j < BUFFER_STORE" "bstart r \<le> j" "j < bstart r + nat (bamount r)"
  shows "P (slots r j)"
  using assms unfolding ring_typed_def written_def readers_behind_def
  by (metis linorder_not_le min.absorb2 min_def order_less_le_trans)

lemma ring_typed_taken:
  "ring_typed P r \<Longrightarrow> ring_typed P (r\<lparr>bstart := bstart r + nat (bamount r), bamount := min 0 (bamount r)\<rparr>)"
  unfolding ring_typed_def written_def readers_behind_def by fastforce

lemma get_aps_shows:
  assumes "get_aps (Some c) st = Some (k, Some c', st')" "receiver_shows B I M st" "\<And>x. B x \<Longrightarrow> P (bp_mac_addr x)"
  shows "receiver_shows B I M st' \<and> list_all P (take (nat k) (aplists c'))"
proof -
  let ?r = "beacon_ring st"
  from assms(1) obtain es s m where
    l: "get_aps_loop (slots ?r) (nat (bamount ?r)) (bstart ?r) (aplists c) 0 = Some (es, s, m)"
    and r: "k = int m" "c' = c\<lparr>aplists := es\<rparr>" "st' = st\<lparr>beacon_ring := ?r\<lparr>bstart := s, bamount := min 0 (bamount ?r)\<rparr>\<rparr>"
    by (auto simp: get_aps_def Let_def split: option.splits)
  from assms(2) have t: "ring_typed B ?r" by (simp add: receiver_shows_def)
  from get_aps_loop_shows [where B = B and P = P, OF assms(3) l] ring_typed_aps [OF t]
  have "s = bstart ?r + nat (bamount ?r)" "list_all P (take m es)" by auto
  with r assms(2) ring_typed_taken [OF t] show ?thesis by (simp add: receiver_shows_def)
qed

lemma get_clients_loop_shows:
  assumes "receiver_shows B I M st" "\<And>x. I x \<Longrightarrow> ip_mac_addr x = ap \<Longrightarrow> P (ip_station x)"
    and "collect_loop ip_mac_addr ip_station (slots (iw_ring st)) ap
      (window_length (bstart (iw_ring st)) (bend (iw_ring st))) (bstart (iw_ring st)) [] = Some ml"
  shows "list_all P ml"
proof (rule collect_loop_typed [OF _ _ _ _ assms(3)])
  show "P (ip_station x)" if "I x" "ip_mac_addr x = ap" for x using assms(2) that .
  show "bstart (iw_ring st) < BUFFER_STORE" using assms(1) by (simp add: receiver_shows_def)
  then show "I (slots (iw_ring st) ((bstart (iw_ring st) + i) mod BUFFER_STORE))"
    if "i < window_length (bstart (iw_ring st)) (bend (iw_ring st))" for i
    using that ring_typed_window(1) [of I "iw_ring st"] assms(1) by (simp add: receiver_shows_def)
qed simp

lemma get_neighbour_loop_shows:
  assumes "receiver_shows B I M st" "\<And>x. B x \<Longrightarrow> bp_mac_addr x = ap \<Longrightarrow> P (bp_bssid x)"
    and "collect_loop bp_mac_addr bp_bssid (slots (beacon_ring st)) ap
      (window_length (bstart1 (beacon_ring st)) (bend (beacon_ring st))) (bstart1 (beacon_ring st)) [] = Some ml"
  shows "list_all P ml"
proof (rule collect_loop_typed [OF _ _ _ _ assms(3)])
  show "P (bp_bssid x)" if "B x" "bp_mac_addr x = ap" for x using assms(2) that .
  show "bstart1 (beacon_ring st) < BUFFER_STORE"
    using assms(1) by (auto simp: receiver_shows_def ring_typed_def readers_behind_def)
  show "B (slots (beacon_ring st) ((bstart1 (beacon_ring st) + i) mod BUFFER_STORE))"
    if "i < window_length (bstart1 (beacon_ring st)) (bend (beacon_ring st))" for i
    using that ring_typed_window(2) [of B "beacon_ring st"] assms(1) by (simp add: receiver_shows_def)
qed simp

lemma get_clients_shows:
  assumes "receiver_shows B I M st" "\<And>x. I x \<Longrightarrow> ip_mac_addr x = ap \<Longrightarrow> P (ip_station x)"
  shows "get_clients stack ap c st = Some (c', st') \<Longrightarrow>
      receiver_shows B I M st' \<and> list_all P (take (nat (ap_length c')) (aplists c'))"
    and "get_clients_py ap c st = Some (c', st') \<Longrightarrow>
      receiver_shows B I M st' \<and> list_all P (take (nat (ap_length c')) (aplists c'))"
proof -
  let ?r = "iw_ring st"
  have r: "ring_typed I ?r" "bstart ?r < BUFFER_STORE" using assms(1) by (simp_all add: receiver_shows_def)
  obtain s a where c: "consume (window_length (bstart ?r) (bend ?r)) (bstart ?r, bamount ?r) = (s, a)" by fastforce
  have "receiver_shows B I M (st\<lparr>iw_ring := ?r\<lparr>bstart := s, bamount := a\<rparr>\<rparr>)"
    using assms(1) ring_typed_consume(1) [OF r c] by (simp add: receiver_shows_def)
  then show
    "get_clients stack ap c st = Some (c', st') \<Longrightarrow> receiver_shows B I M st' \<and> list_all P (take (nat (ap_length c')) (aplists c'))"
    "get_clients_py ap c st = Some (c', st') \<Longrightarrow> receiver_shows B I M st' \<and> list_all P (take (nat (ap_length c')) (aplists c'))"
    using get_clients_loop_shows [where P = P and ap = ap, OF assms] c
    by (auto simp: get_clients_def get_clients_py_def copy_mac_list_def Let_def split: option.splits if_splits)
qed

lemma get_neighbour_shows:
  assumes "receiver_shows B I M st"
  shows "get_neighbour stack ap c st = Some (c', st') \<Longrightarrow> receiver_shows B I M st'"
    and "get_neighbour_py ap c st = Some (c', st') \<Longrightarrow> receiver_shows B I M st'"
    and "get_neighbour_py ap c st = Some (c', st') \<Longrightarrow> (\<And>x. B x \<Longrightarrow> bp_mac_addr x = ap \<Longrightarrow> P (bp_bssid x)) \<Longrightarrow>
      c' = c \<or> list_all P (take (nat (ap_length c')) (aplists c'))"
proof -
  let ?r = "beacon_ring st"
  have r: "ring_typed B ?r" using assms by (simp_all add: receiver_shows_def)
  obtain s a where c: "consume (window_length (bstart1 ?r) (bend ?r)) (bstart1 ?r, bamount1 ?r) = (s, a)" by fastforce
  have t: "receiver_shows B I M (st\<lparr>beacon_ring := ?r\<lparr>bstart1 := s, bamount1 := a\<rparr>\<rparr>)"
    using assms ring_typed_consume(2) [OF r c] by (simp add: receiver_shows_def)
  then show "get_neighbour stack ap c st = Some (c', st') \<Longrightarrow> receiver_shows B I M st'"
    "get_neighbour_py ap c st = Some (c', st') \<Longrightarrow> receiver_shows B I M st'"
    using c by (auto simp: get_neighbour_def get_neighbour_py_def Let_def split: option.splits if_splits)
  show "c' = c \<or> list_all P (take (nat (ap_length c')) (aplists c'))"
    if "get_neighbour_py ap c st = Some (c', st')" "\<And>x. B x \<Longrightarrow> bp_mac_addr x = ap \<Longrightarrow> P (bp_bssid x)"
    using get_neighbour_loop_shows [where P = P and ap = ap, OF assms that(2)] that(1) c
    by (auto simp: get_neighbour_py_def Let_def split: option.splits if_splits)
qed

lemma other_queries_show:
  assumes "receiver_shows B I M st"
  shows "get_flows ap fl st = Some (fl', st') \<Longrightarrow> receiver_shows B I M st'"
    and "get_flow_drops ap fd st = (fd', st') \<Longrightarrow> receiver_shows B I M st'"
    and "get_wireless_info ap wi st = (hit, wi', st') \<Longrightarrow> receiver_shows B I M st'"
  using assms
  by (auto simp: get_flows_def get_flow_drops_def get_wireless_info_def receiver_shows_def Let_def
      split: option.splits prod.splits)

lemma get_aps_state_shows: "get_aps c st = Some (k, c', st') \<Longrightarrow> receiver_shows B I M st \<Longrightarrow> receiver_shows B I M st'"
proof (cases c)
  case (Some ap)
  assume g: "get_aps c st = Some (k, c', st')" and t: "receiver_shows B I M st"
  with Some obtain ap' where "c' = Some ap'" by (auto simp: get_aps_def Let_def split: option.splits)
  with get_aps_shows [of ap st k ap' st' B I M "\<lambda>_. True"] g t Some show ?thesis by simp
qed (auto simp: get_aps_def)

lemma query_shows: "query st st' \<Longrightarrow> receiver_shows B I M st \<Longrightarrow> receiver_shows B I M st'"
proof (induction rule: query.induct)
  case (clients stack ap c st c' st')
  then show ?case using get_clients_shows(1) [of B I M st ap "\<lambda>_. True"] by blast
next
  case (clients_py ap c st c' st')
  then show ?case using get_clients_shows(2) [of B I M st ap "\<lambda>_. True"] by blast
qed (blast intro: get_neighbour_shows(1,2) get_aps_state_shows other_queries_show)+

lemma receiver_reach_typed: "receiver_reach st \<Longrightarrow> receiver_typed st"
proof (induction rule: receiver_reach.induct)
  case (datagram st buffer len st')
  then show ?case using process_typed unfolding process_def by blast
qed (blast intro: receiver_shows_init query_shows)+

section \<open>Properties\<close>


lemma demo_reach:
  "receiver_reach (the (deliver_all [MIw [1,2,3,4,5,6] (data_iw_of_bytes (replicate 64 1))] cold_receiver))"
proof (rule receiver_reach.datagram [OF receiver_reach.start])
  show "process (stream_of [MIw [1,2,3,4,5,6] (data_iw_of_bytes (replicate 64 1))] @ replicate 952 0) 1024 cold_receiver =
    Some (the (deliver_all [MIw [1,2,3,4,5,6] (data_iw_of_bytes (replicate 64 1))] cold_receiver))"
    using process_from_stream [of "[MIw [1,2,3,4,5,6] (data_iw_of_bytes (replicate 64 1))]" "[]" 0 952 cold_receiver]
    by (simp add: process_def stream_of_def length_iw_to_bytes length_field_bytes data_iw_of_bytes_def)
qed


end
