(* ===== verification/Deployment.thy ===== *)
theory Deployment
  imports Reporter Receiver_Types
begin

text \<open>
  The parts put together as they are deployed: routers that run the reporter of
  \<^verbatim>\<open>project/sendudp.c\<close>, a network that may lose, duplicate and reorder the datagrams they sent, the
  two threads of \<^verbatim>\<open>new_receiver.c\<close> around the message pool, the decoders, and the queries of the API.
  Every interleaving is a run.  What the receiver writes to its log and answers to queries is traced
  back to the records that the drivers of the routers measured.
\<close>

section \<open>The interface of a router\<close>

text \<open>
  What the receiver relies on: ticks only add to the messages a router may send, and each of its
  datagrams is the image of some of them and fits into the buffer of the receiver.
\<close>

locale message_source =
  fixes tick :: "'r \<Rightarrow> 's \<Rightarrow> 's option"
    and sent :: "'s \<Rightarrow> bytes list"
    and reported :: "'r \<Rightarrow> message set"
    and ok :: "'r \<Rightarrow> bool"
    and sound :: "message set \<Rightarrow> 's \<Rightarrow> bool"
  assumes sound_tick: "tick r s = Some s' \<Longrightarrow> ok r \<Longrightarrow> sound R s \<Longrightarrow> reported r \<subseteq> R \<Longrightarrow> sound R s'"
    and sound_mono: "sound R s \<Longrightarrow> R \<subseteq> R' \<Longrightarrow> sound R' s"
    and sent_stream: "sound R s \<Longrightarrow> d \<in> set (sent s) \<Longrightarrow>
      \<exists>ms. d = stream_of ms \<and> length d \<le> B_S \<and> list_all message_ok ms \<and> set ms \<subseteq> R"
begin

lemma tick_adds: "tick r s = Some s' \<Longrightarrow> ok r \<Longrightarrow> sound R s \<Longrightarrow> sound (R \<union> reported r) s'"
  using sound_tick [of r s s' "R \<union> reported r"] sound_mono [of R s "R \<union> reported r"] by blast

end

lemma traffic_sent:
  assumes "traffic R ms b" "d \<in> set (sent_datagrams b)"
  shows "\<exists>ms'. d = stream_of ms' \<and> length d \<le> B_S \<and> list_all message_ok ms' \<and> set ms' \<subseteq> R"
proof -
  from assms(1) obtain groups rest where g: "ms = concat groups @ rest" "sent_datagrams b = map stream_of groups"
    and t: "small_datagrams b" "list_all message_ok ms" "set ms \<subseteq> R"
    by (auto simp: traffic_def holds_messages_def)
  from assms(2) g(2) obtain ms' where ms': "ms' \<in> set groups" "d = stream_of ms'" by auto
  then have "set ms' \<subseteq> set ms" using g(1) by auto
  with t assms(2) ms' show ?thesis by (intro exI [of _ ms']) (auto simp: small_datagrams_def list_all_iff)
qed

interpretation router: message_source get_information "\<lambda>st. sent_datagrams (outbuf st)" "measured mac"
    reports_ok "sender_sim mac" for mac
proof unfold_locales
  show "sender_sim mac R s'"
    if "get_information r s = Some s'" "reports_ok r" "sender_sim mac R s" "measured mac r \<subseteq> R" for r s s' R
    using sim_tick [OF that(1,3,4,2)] .
  show "sender_sim mac R' s" if "sender_sim mac R s" "R \<subseteq> R'" for R s R'
    using sender_sim_mono [OF that] .
  show "\<exists>ms. d = stream_of ms \<and> length d \<le> B_S \<and> list_all message_ok ms \<and> set ms \<subseteq> R"
    if "sender_sim mac R s" "d \<in> set (sent_datagrams (outbuf s))" for R s d
    using that traffic_sent unfolding sender_sim_def by blast
qed

section \<open>The deployment\<close>

record deployment =
  routers :: "sender list"
  threads :: pool_sys
  local_buffer :: "bytes option"
  decoder :: receiver

datatype event = Tick nat reports | Arrive nat bytes | Look | Fetch bytes | Decode | Ask

text \<open>
  Any datagram that a router has sent so far may arrive at any time, any number of times or never.
  The consumer measures the used length again after a fetch and before it processes; a query is one
  step.
\<close>

inductive deployment_step :: "deployment \<Rightarrow> event \<Rightarrow> deployment \<Rightarrow> bool" where
  tick: "i < length (routers s) \<Longrightarrow> get_information rp (routers s ! i) = Some r \<Longrightarrow> reports_ok rp \<Longrightarrow>
    deployment_step s (Tick i rp) (s\<lparr>routers := (routers s)[i := r]\<rparr>)"
| arrive: "i < length (routers s) \<Longrightarrow> d \<in> set (sent_datagrams (outbuf (routers s ! i))) \<Longrightarrow>
    pool_step (threads s) (Received d) t \<Longrightarrow> deployment_step s (Arrive i d) (s\<lparr>threads := t\<rparr>)"
| look: "pool_step (threads s) Tau t \<Longrightarrow> local_buffer s = None \<or> cpc (threads s) = Outer \<Longrightarrow>
    deployment_step s Look (s\<lparr>threads := t\<rparr>)"
| fetch: "pool_step (threads s) (Took m) t \<Longrightarrow> local_buffer s = None \<Longrightarrow>
    deployment_step s (Fetch m) (s\<lparr>threads := t, local_buffer := Some m\<rparr>)"
| decode: "local_buffer s = Some m \<Longrightarrow> cpc (threads s) = Test \<Longrightarrow> process m 1024 (decoder s) = Some r \<Longrightarrow>
    deployment_step s Decode (s\<lparr>local_buffer := None, decoder := r\<rparr>)"
| ask: "query (decoder s) r \<Longrightarrow> deployment_step s Ask (s\<lparr>decoder := r\<rparr>)"

definition deployment_init :: "bytes list \<Rightarrow> receiver \<Rightarrow> deployment" where
  "deployment_init macs rcv =
     \<lparr>routers = map hello_init macs, threads = pool_sys_init, local_buffer = None, decoder = rcv\<rparr>"

inductive deployed :: "bytes list \<Rightarrow> receiver \<Rightarrow> event list \<Rightarrow> deployment \<Rightarrow> bool"
  for macs :: "bytes list" and rcv :: receiver
where
  deployed_start: "deployed macs rcv [] (deployment_init macs rcv)"
| deployed_step: "deployed macs rcv tr s \<Longrightarrow> deployment_step s e s' \<Longrightarrow> deployed macs rcv (tr @ [e]) s'"

section \<open>What happened in a run\<close>

fun pool_event_of :: "event \<Rightarrow> pool_event list" where
  "pool_event_of (Arrive i d) = [Received d]"
| "pool_event_of Look = [Tau]"
| "pool_event_of (Fetch m) = [Took m]"
| "pool_event_of _ = []"

definition pool_events :: "event list \<Rightarrow> pool_event list" where
  "pool_events tr = concat (map pool_event_of tr)"

definition arrived :: "event list \<Rightarrow> (nat \<times> bytes) list" where
  "arrived tr = concat (map (\<lambda>e. case e of Arrive i d \<Rightarrow> [(i, d)] | _ \<Rightarrow> []) tr)"

definition decodes :: "event list \<Rightarrow> nat" where
  "decodes tr = length (filter (\<lambda>e. e = Decode) tr)"

text \<open>The messages that the ticks of a router may have sent.\<close>

definition source :: "bytes list \<Rightarrow> event list \<Rightarrow> nat \<Rightarrow> message set" where
  "source macs tr i = (\<Union>rp\<in>{rp. Tick i rp \<in> set tr}. measured (macs ! i) rp)"

text \<open>The line that a message leaves in the log; the reporter sends no window sizes.\<close>

fun line_of :: "message \<Rightarrow> log_line" where
  "line_of (MWinsize mac r) = winsize_log mac r (ucast (ws_windowsize r))"
| "line_of (MDrops mac r) = Log DROPS (timex_of (dp_sec r) (dp_usec r)) (mac_text mac)
     [ip_text (dp_ip_src r), ip_text (dp_ip_dst r)]
     [uint (dp_port_src r), uint (dp_port_dst r), uint (dp_sequence r), uint (dp_ack_sequence r),
      uint (dp_in_time r), uint (dp_dpl r), uint (dp_drop_count r)]"
| "line_of (MIw mac r) = Log IW (timex_of (iw_sec r) (iw_usec r)) (mac_text mac) [mac_text (iw_station r)]
     [uint (iw_device r), uint (iw_inactive_time r), uint (iw_rx_bytes r), uint (iw_rx_packets r),
      uint (iw_tx_bytes r), uint (iw_tx_packets r), uint (iw_tx_retries r), uint (iw_tx_failed r),
      sint (iw_signal r), sint (iw_signal_avg r)]"
| "line_of (MQueue mac r) = Log QUEUE (timex_of (qu_sec r) (qu_usec r)) (mac_text mac) []
     [uint (qu_queue_id r), uint (qu_bytes r), uint (qu_packets r), uint (qu_qlen r),
      uint (qu_backlog r), uint (qu_drops r), uint (qu_requeues r), uint (qu_overlimits r)]"
| "line_of (MBeacon mac r) = Log BEACON (timex_of (be_sec r) (be_usec r)) (mac_text mac)
     [mac_text (be_bssid r)]
     [uint (reversebytes_uint16t (be_data_rate r)), uint (be_freq r), sint (be_signal r)]"
| "line_of (MSurvey mac r) = Log SURVEY (timex_of (su_sec r) (su_usec r)) (mac_text mac) []
     [uint (su_time r), uint (su_time_busy r), uint (su_time_ext_busy r), uint (su_time_rx r),
      uint (su_time_tx r), uint (su_time_scan r), uint (su_center_freq r), sint (su_noise r)]"

text \<open>The records of the receiver that a run explains.\<close>

definition beacon_known :: "bytes list \<Rightarrow> event list \<Rightarrow> data_beacon_processed \<Rightarrow> bool" where
  "beacon_known macs tr x \<longleftrightarrow> (\<exists>i rp b. i < length macs \<and> Tick i rp \<in> set tr \<and> b \<in> set (rp_beacons rp) \<and>
     bp_mac_addr x = mac_text (macs ! i) \<and> bp_bssid x = mac_text (be_bssid b))"

definition station_known :: "bytes list \<Rightarrow> event list \<Rightarrow> data_iw_processed \<Rightarrow> bool" where
  "station_known macs tr x \<longleftrightarrow> (\<exists>i rp r. i < length macs \<and> Tick i rp \<in> set tr \<and> r \<in> set (rp_iwlist rp) \<and>
     ip_mac_addr x = mac_text (macs ! i) \<and> ip_station x = mac_text (iw_station r))"

definition router_known :: "bytes list \<Rightarrow> event list \<Rightarrow> string \<Rightarrow> bool" where
  "router_known macs tr t \<longleftrightarrow> (\<exists>i rp. i < length macs \<and> Tick i rp \<in> set tr \<and> t = mac_text (macs ! i))"

abbreviation explained :: "bytes list \<Rightarrow> event list \<Rightarrow> receiver \<Rightarrow> bool" where
  "explained macs tr \<equiv> receiver_shows (beacon_known macs tr) (station_known macs tr) (router_known macs tr)"

lemma trace_append [simp]:
  "pool_events (xs @ ys) = pool_events xs @ pool_events ys"
  "arrived (xs @ ys) = arrived xs @ arrived ys"
  "decodes (xs @ ys) = decodes xs + decodes ys"
  by (simp_all add: pool_events_def arrived_def decodes_def)

lemma trace_one [simp]:
  "pool_events [e] = pool_event_of e"
  "arrived [e] = (case e of Arrive i d \<Rightarrow> [(i, d)] | _ \<Rightarrow> [])"
  "decodes [e] = (if e = Decode then 1 else 0)"
  by (simp_all add: pool_events_def arrived_def decodes_def)

lemma trace_nil [simp]: "pool_events [] = []" "arrived [] = []" "decodes [] = 0"
  by (simp_all add: pool_events_def arrived_def decodes_def)

lemma received_arrived: "received (pool_events tr) = map (\<lambda>(i, d). pad_message d) (arrived tr)"
proof (induction tr rule: rev_induct)
  case (snoc e tr)
  then show ?case by (cases e) simp_all
qed simp

lemma known_mono:
  "beacon_known macs tr x \<Longrightarrow> beacon_known macs (tr @ es) x"
  "station_known macs tr y \<Longrightarrow> station_known macs (tr @ es) y"
  "router_known macs tr t \<Longrightarrow> router_known macs (tr @ es) t"
  unfolding beacon_known_def station_known_def router_known_def by fastforce+

lemma source_mono: "source macs tr i \<subseteq> source macs (tr @ es) i"
  by (auto simp: source_def)

lemma explained_mono: "explained macs tr st \<Longrightarrow> explained macs (tr @ es) st"
  by (rule receiver_shows_mono) (use known_mono in blast)+

section \<open>One datagram\<close>

lemma deliver_source:
  assumes m: "m \<in> source macs tr i" and i: "i < length macs" and st: "explained macs tr st"
  shows "\<exists>st'. deliver m st = Some st' \<and> fp st' = fp st @ [line_of m] \<and> explained macs tr st'"
proof -
  from m obtain rp where rp: "Tick i rp \<in> set tr" "m \<in> measured (macs ! i) rp" by (auto simp: source_def)
  have M: "router_known macs tr (mac_text (macs ! i))" using i rp(1) by (auto simp: router_known_def)
  have B: "beacon_known macs tr (beacon_store (mac_text (macs ! i)) (mac_text (be_bssid b)) b' x)"
    if "b \<in> set (rp_beacons rp)" for b b' x
    using that i rp(1) by (auto simp: beacon_known_def beacon_store_def)
  have I: "station_known macs tr (iw_store (mac_text (macs ! i)) (mac_text (iw_station r)) r' x)"
    if "r \<in> set (rp_iwlist rp)" for r r' x
    using that i rp(1) by (auto simp: station_known_def iw_store_def)
  have S: "sp_mac_addr (survey_store t r x) = t" "rp_mac_addr (drops_store t r' y) = t" for t r r' x y
    by (simp_all add: survey_store_def drops_store_def)
  from rp(2) consider (survey) "m = MSurvey (macs ! i) (rp_survey rp)"
    | (iw) r where "r \<in> set (rp_iwlist rp)" "m = MIw (macs ! i) (r\<lparr>iw_pad2 := 0\<rparr>)"
    | (beacon) b where "b \<in> set (rp_beacons rp)" "m = MBeacon (macs ! i) (b\<lparr>be_pad2 := 0\<rparr>)"
    | (drops) r where "m = MDrops (macs ! i) r"
    | (queue) r where "m = MQueue (macs ! i) r"
    by (auto simp: measured_def)
  then show ?thesis
  proof cases
    case survey
    with st M show ?thesis by (simp add: receiver_shows_def fprintf_def ring_written_push S)
  next
    case iw
    with st M I show ?thesis by (simp add: receiver_shows_def fprintf_def ring_typed_push bstart_push)
  next
    case beacon
    with st M B show ?thesis by (simp add: receiver_shows_def fprintf_def ring_typed_push Let_def)
  next
    case drops
    with st M show ?thesis by (simp add: receiver_shows_def fprintf_def ring_written_push S)
  next
    case queue
    with st M show ?thesis by (simp add: receiver_shows_def fprintf_def)
  qed
qed

lemma deliver_all_source:
  "set ms \<subseteq> source macs tr i \<Longrightarrow> i < length macs \<Longrightarrow> explained macs tr st \<Longrightarrow>
   \<exists>st'. deliver_all ms st = Some st' \<and> fp st' = fp st @ map line_of ms \<and> explained macs tr st'"
proof (induction ms arbitrary: st)
  case (Cons m ms)
  then obtain st1 where st1: "deliver m st = Some st1" "fp st1 = fp st @ [line_of m]" "explained macs tr st1"
    using deliver_source [of m macs tr i st] by auto
  with Cons.IH [of st1] Cons.prems show ?case by auto
qed simp

lemma process_source:
  assumes "list_all message_ok ms" "length (stream_of ms) \<le> B_S" "set ms \<subseteq> source macs tr i" "i < length macs"
    and "explained macs tr st"
  shows "\<exists>st'. process (pad_message (stream_of ms)) 1024 st = Some st' \<and> fp st' = fp st @ map line_of ms \<and>
    explained macs tr st'"
  using process_padded_stream [OF assms(1,2), of st] deliver_all_source [OF assms(3-5)] by simp

lemma query_log: "query st st' \<Longrightarrow> fp st' = fp st"
  by (induction rule: query.induct)
    (auto simp: get_clients_def get_clients_py_def get_neighbour_def get_neighbour_py_def get_aps_def
      get_flows_def get_flow_drops_def get_wireless_info_def Let_def split: option.splits prod.splits if_splits)

section \<open>The invariants of a run\<close>

definition arrivals_sound :: "bytes list \<Rightarrow> event list \<Rightarrow> bool" where
  "arrivals_sound macs tr \<longleftrightarrow> (\<forall>(i, d)\<in>set (arrived tr). i < length macs \<and>
     (\<exists>ms. d = stream_of ms \<and> length d \<le> B_S \<and> list_all message_ok ms \<and> set ms \<subseteq> source macs tr i))"

definition routers_sound :: "bytes list \<Rightarrow> event list \<Rightarrow> deployment \<Rightarrow> bool" where
  "routers_sound macs tr s \<longleftrightarrow> length (routers s) = length macs \<and>
     (\<forall>i<length macs. sender_sim (macs ! i) (source macs tr i) (routers s ! i))"

lemma arrivals_sound_mono: "arrivals_sound macs tr \<Longrightarrow> arrived es = [] \<Longrightarrow> arrivals_sound macs (tr @ es)"
  unfolding arrivals_sound_def using source_mono by fastforce

lemma routers_sound_mono: "routers_sound macs tr s \<Longrightarrow> routers s' = routers s \<Longrightarrow> routers_sound macs (tr @ es) s'"
  unfolding routers_sound_def using sender_sim_mono source_mono by metis

lemma routers_sound_tick:
  assumes "routers_sound macs tr s" "i < length (routers s)" "get_information rp (routers s ! i) = Some r" "reports_ok rp"
  shows "routers_sound macs (tr @ [Tick i rp]) (s\<lparr>routers := (routers s)[i := r]\<rparr>)"
proof -
  have "source macs (tr @ [Tick i rp]) i = source macs tr i \<union> measured (macs ! i) rp" by (auto simp: source_def)
  moreover have "sender_sim (macs ! i) (source macs tr i \<union> measured (macs ! i) rp) r"
    using router.tick_adds [OF assms(3,4)] assms(1,2) by (simp add: routers_sound_def)
  ultimately show ?thesis
    using assms(1,2) sender_sim_mono source_mono unfolding routers_sound_def
    by (auto simp: nth_list_update)
qed

lemma arrivals_sound_arrive:
  assumes "arrivals_sound macs tr" "routers_sound macs tr s" "i < length (routers s)"
    "d \<in> set (sent_datagrams (outbuf (routers s ! i)))"
  shows "arrivals_sound macs (tr @ [Arrive i d])"
proof -
  have "source macs (tr @ [Arrive i d]) j = source macs tr j" for j by (auto simp: source_def)
  moreover have "\<exists>ms. d = stream_of ms \<and> length d \<le> B_S \<and> list_all message_ok ms \<and> set ms \<subseteq> source macs tr i"
    using assms(2-4) router.sent_stream [of "macs ! i" "source macs tr i" "routers s ! i"]
    by (simp add: routers_sound_def)
  ultimately show ?thesis using assms(1-3) by (simp add: arrivals_sound_def routers_sound_def)
qed

lemma run_sound:
  "deployed macs rcv tr s \<Longrightarrow> list_all (\<lambda>m. length m = 6) macs \<Longrightarrow> routers_sound macs tr s \<and> arrivals_sound macs tr"
proof (induction rule: deployed.induct)
  case deployed_start
  then show ?case by (simp add: routers_sound_def arrivals_sound_def deployment_init_def sim_init list_all_length)
next
  case (deployed_step tr s e s')
  then have IH: "routers_sound macs tr s" "arrivals_sound macs tr" by simp_all
  from deployed_step.hyps(2) show ?case
  proof cases
    case (tick i rp r)
    with IH routers_sound_tick arrivals_sound_mono [of macs tr "[e]"] show ?thesis by simp
  next
    case (arrive i d t)
    with IH arrivals_sound_arrive routers_sound_mono show ?thesis by simp
  qed (use IH routers_sound_mono arrivals_sound_mono [of macs tr "[e]"] in simp_all)
qed

lemma run_pool: "deployed macs rcv tr s \<Longrightarrow> pool_run pool_sys_init (pool_events tr) (threads s)"
proof (induction rule: deployed.induct)
  case deployed_start
  then show ?case by (simp add: deployment_init_def pool_run.start)
next
  case (deployed_step tr s e s')
  from deployed_step.hyps(2) show ?case
    by cases (use deployed_step.IH pool_run.step in fastforce)+
qed

text \<open>What was taken from the pool has been processed, but for the message in the local buffer.\<close>

lemma run_buffer:
  "deployed macs rcv tr s \<Longrightarrow>
   \<exists>xs. length xs = decodes tr \<and> taken (pool_events tr) = xs @ (case local_buffer s of None \<Rightarrow> [] | Some m \<Rightarrow> [m])"
proof (induction rule: deployed.induct)
  case deployed_start
  then show ?case by (simp add: deployment_init_def)
next
  case (deployed_step tr s e s')
  from deployed_step.hyps(2) deployed_step.IH show ?case by cases auto
qed

lemma no_overrun_prefix: "no_overrun (xs @ ys) \<Longrightarrow> no_overrun xs"
proof (induction ys rule: rev_induct)
  case (snoc y ys)
  then show ?case using no_overrun_snoc [of "xs @ ys" y] by simp
qed simp

lemma run_taken:
  assumes "deployed macs rcv tr s" "no_overrun (pool_events tr)"
  shows "decodes tr \<le> length (arrived tr)"
    and "local_buffer s = Some m \<Longrightarrow> decodes tr < length (arrived tr) \<and> m = pad_message (snd (arrived tr ! decodes tr))"
proof -
  from pool_run_sim [OF run_pool [OF assms(1)] refl assms(2)] obtain q where
    q: "taken (pool_events tr) @ q = map (\<lambda>(i, d). pad_message d) (arrived tr)" by (auto simp: received_arrived)
  from run_buffer [OF assms(1)] obtain xs where
    xs: "length xs = decodes tr" "taken (pool_events tr) = xs @ (case local_buffer s of None \<Rightarrow> [] | Some m \<Rightarrow> [m])" by blast
  from arg_cong [OF q, of length] xs show "decodes tr \<le> length (arrived tr)" by simp
  show "decodes tr < length (arrived tr) \<and> m = pad_message (snd (arrived tr ! decodes tr))" if "local_buffer s = Some m"
  proof -
    have l: "decodes tr < length (arrived tr)" using arg_cong [OF q, of length] xs that by simp
    moreover have "map (\<lambda>(i, d). pad_message d) (arrived tr) ! decodes tr = m"
      using xs that by (simp add: q [symmetric] nth_append)
    ultimately show ?thesis by (simp add: split_beta)
  qed
qed

text \<open>One list of messages for each datagram that was processed, in the order of arrival.\<close>

definition explains :: "bytes list \<Rightarrow> event list \<Rightarrow> message list list \<Rightarrow> bool" where
  "explains macs tr mss \<longleftrightarrow>
     list_all2 (\<lambda>(i, d) ms. i < length macs \<and> d = stream_of ms \<and> set ms \<subseteq> source macs tr i)
       (take (decodes tr) (arrived tr)) mss"

definition log_sound :: "bytes list \<Rightarrow> event list \<Rightarrow> deployment \<Rightarrow> bool" where
  "log_sound macs tr s \<longleftrightarrow>
     (\<exists>mss. explains macs tr mss \<and> fp (decoder s) = map line_of (concat mss)) \<and> explained macs tr (decoder s)"

lemma explains_mono:
  assumes "explains macs tr mss" "decodes tr \<le> length (arrived tr)" "decodes es = 0"
  shows "explains macs (tr @ es) mss"
proof -
  have "take (decodes (tr @ es)) (arrived (tr @ es)) = take (decodes tr) (arrived tr)" using assms(2,3) by simp
  with assms(1) show ?thesis
    unfolding explains_def by (auto elim!: list_all2_mono dest: subsetD [OF source_mono])
qed

lemma log_sound_mono:
  "log_sound macs tr s \<Longrightarrow> decodes tr \<le> length (arrived tr) \<Longrightarrow> e \<noteq> Decode \<Longrightarrow>
   fp (decoder s') = fp (decoder s) \<Longrightarrow> explained macs tr (decoder s') \<Longrightarrow> log_sound macs (tr @ [e]) s'"
  unfolding log_sound_def using explains_mono [of macs tr _ "[e]"] explained_mono by auto

lemma decode_next:
  assumes "arrivals_sound macs tr" "log_sound macs tr s" "decodes tr < length (arrived tr)"
  shows "\<exists>ms r. process (pad_message (snd (arrived tr ! decodes tr))) 1024 (decoder s) = Some r \<and>
    fp r = fp (decoder s) @ map line_of ms \<and> explained macs tr r \<and>
    fst (arrived tr ! decodes tr) < length macs \<and> snd (arrived tr ! decodes tr) = stream_of ms \<and>
    set ms \<subseteq> source macs tr (fst (arrived tr ! decodes tr))"
proof -
  obtain i d where id: "arrived tr ! decodes tr = (i, d)" by fastforce
  with assms(3) have "(i, d) \<in> set (arrived tr)" by (metis nth_mem)
  with assms(1) obtain ms where ms: "i < length macs" "d = stream_of ms" "length (stream_of ms) \<le> B_S"
    "list_all message_ok ms" "set ms \<subseteq> source macs tr i" unfolding arrivals_sound_def by auto
  have "explained macs tr (decoder s)" using assms(2) by (simp add: log_sound_def)
  from process_source [OF ms(4,3,5,1) this] id ms show ?thesis by auto
qed

lemma log_sound_decode:
  assumes "arrivals_sound macs tr" "log_sound macs tr s" "decodes tr < length (arrived tr)"
    "process (pad_message (snd (arrived tr ! decodes tr))) 1024 (decoder s) = Some r"
  shows "log_sound macs (tr @ [Decode]) (s\<lparr>local_buffer := None, decoder := r\<rparr>)"
proof -
  from decode_next [OF assms(1-3)] assms(4) obtain ms where
    ms: "fp r = fp (decoder s) @ map line_of ms" "explained macs tr r"
      "(\<lambda>(i, d) ms. i < length macs \<and> d = stream_of ms \<and> set ms \<subseteq> source macs tr i) (arrived tr ! decodes tr) ms"
    by (auto simp: split_beta)
  from assms(2) obtain mss where mss: "explains macs tr mss" "fp (decoder s) = map line_of (concat mss)"
    by (auto simp: log_sound_def)
  have src: "source macs (tr @ [Decode]) j = source macs tr j" for j by (auto simp: source_def)
  have "take (decodes (tr @ [Decode])) (arrived (tr @ [Decode])) =
      take (decodes tr) (arrived tr) @ [arrived tr ! decodes tr]"
    using assms(3) by (simp add: take_Suc_conv_app_nth)
  with mss(1) ms(3) have "explains macs (tr @ [Decode]) (mss @ [ms])"
    unfolding explains_def src by (simp add: list_all2_appendI)
  moreover have "explained macs (tr @ [Decode]) r" using ms(2) by (rule explained_mono)
  ultimately show ?thesis unfolding log_sound_def using mss(2) ms(1) by auto
qed

lemma run_log:
  "deployed macs (start_threads b i d w sv clk) tr s \<Longrightarrow> list_all (\<lambda>m. length m = 6) macs \<Longrightarrow>
   no_overrun (pool_events tr) \<Longrightarrow> log_sound macs tr s"
proof (induction rule: deployed.induct)
  case deployed_start
  show ?case unfolding log_sound_def explains_def
    by (simp add: deployment_init_def receiver_shows_init) (simp add: start_threads_def)
next
  case (deployed_step tr s e s')
  have no: "no_overrun (pool_events tr)" using deployed_step.prems(2) no_overrun_prefix by (auto simp: trace_append(1))
  with deployed_step have IH: "log_sound macs tr s" by blast
  note t = run_taken [OF deployed_step.hyps(1) no]
  from deployed_step.hyps(2) show ?case
  proof cases
    case (decode m r)
    with t(2) [OF decode(3)] log_sound_decode [of macs tr s r] IH run_sound [OF deployed_step.hyps(1) deployed_step.prems(1)]
    show ?thesis by simp
  next
    case (ask r)
    have "explained macs tr r" using query_shows [OF ask(3)] IH by (simp add: log_sound_def)
    with ask(1,2) query_log [OF ask(3)] log_sound_mono [OF IH t(1), of e s'] show ?thesis by simp
  qed (use IH log_sound_mono t(1) in \<open>simp_all add: log_sound_def\<close>)
qed

section \<open>Properties\<close>



section \<open>A run for examples\<close>

text \<open>A tick with a station and 25 dropped packets: the first datagram leaves.\<close>

definition example_drop :: "nat \<Rightarrow> dp_packet" where
  "example_drop k = (dp_packet_of_bytes (replicate 48 0))\<lparr>dp_sec := word_of_nat (Suc k), dp_pad2 := 0\<rparr>"

definition example_burst :: reports where
  "example_burst = (example_tick 5)\<lparr>rp_drop_mac := map example_drop [0..<25]\<rparr>"

definition example_messages :: "bytes \<Rightarrow> message list" where
  "example_messages mac = [MSurvey mac (rp_survey (example_tick 5)),
     MIw mac (zero_iw\<lparr>iw_station := [1,2,3,4,5,6], iw_sec := 5, iw_pad2 := 0\<rparr>)]"

lemma newer_drops_written:
  "n \<le> 100 \<Longrightarrow> last_sec l \<le> word_of_nat k \<Longrightarrow> k + n \<le> 100 \<Longrightarrow>
   map_option snd (report_drops mac (map example_drop [k..<k + n]) l b) =
     write_messages (map (MDrops mac \<circ> example_drop) [k..<k + n]) b"
proof (induction n arbitrary: k l b)
  case (Suc n)
  let ?w = "\<lambda>j. word_of_nat j :: u32"
  have "?w k < ?w (Suc k)" using Suc.prems(3) by (simp add: word_less_nat_alt unat_of_nat del: of_nat_Suc)
  with Suc.prems(2) have lt: "last_sec l < ?w (Suc k)" by (rule order.strict_trans1)
  have up: "[k..<Suc (k + n)] = k # [Suc k..<Suc (k + n)]" by (simp add: upt_conv_Cons del: upt_Suc)
  have sec: "dp_sec (example_drop k) = ?w (Suc k)" "(example_drop k)\<lparr>dp_pad2 := 0\<rparr> = example_drop k"
    by (simp_all add: example_drop_def del: of_nat_Suc)
  show ?case
  proof (cases "write_2_public_buffer (encode_message (MDrops mac (example_drop k))) b")
    case None
    with lt show ?thesis by (simp add: up sec report_newer_def del: of_nat_Suc upt_Suc encode_message.simps)
  next
    case (Some b1)
    with lt Suc.IH [of "l\<lparr>last_sec := ?w (Suc k), last_usec := dp_usec (example_drop k)\<rparr>" "Suc k" b1] Suc.prems show ?thesis
      by (simp add: up sec report_newer_def del: of_nat_Suc upt_Suc encode_message.simps)
  qed
qed simp

text \<open>The first datagram holds the first messages, and it leaves when they exceed the buffer.\<close>

definition first_datagram :: "message list \<Rightarrow> out_buffer \<Rightarrow> bool" where
  "first_datagram ms b \<longleftrightarrow> out_ok b \<and> (if sent_datagrams b = [] then pending b = stream_of ms
     else \<exists>k\<le>length ms. hd (sent_datagrams b) = stream_of (take k ms) \<and> 952 < length (hd (sent_datagrams b)))"

lemma first_datagram_write:
  assumes "first_datagram ms b" "message_ok m" "write_2_public_buffer (encode_message m) b = Some b'"
  shows "first_datagram (ms @ [m]) b'"
proof -
  have ok: "out_ok b" using assms(1) by (simp add: first_datagram_def)
  have "length (encode_message m) \<le> B_S" using length_encode_message [OF assms(2)] by (simp add: B_S_def)
  with write_effect [OF ok this] assms(3) have b': "out_ok b'" "(sent_datagrams b', pending b') =
      (if write_begin b + length (encode_message m) \<le> B_S then (sent_datagrams b, pending b @ encode_message m)
       else (sent_datagrams b @ [pending b], encode_message m))" by force+
  show ?thesis
  proof (cases "sent_datagrams b = []")
    case True
    then have p: "pending b = stream_of ms" using assms(1) by (simp add: first_datagram_def)
    have "952 < write_begin b" if "\<not> write_begin b + length (encode_message m) \<le> B_S"
      using that length_encode_message [OF assms(2)] by (simp add: B_S_def)
    with True p b' length_pending [OF ok] show ?thesis
      by (auto simp: first_datagram_def stream_of_append stream_of_def split: if_splits intro!: exI [of _ "length ms"])
  next
    case False
    with assms(1) obtain k where "k \<le> length ms" "hd (sent_datagrams b) = stream_of (take k ms)"
      "952 < length (hd (sent_datagrams b))" by (auto simp: first_datagram_def)
    with False b' show ?thesis
      by (auto simp: first_datagram_def split: if_splits intro!: exI [of _ k])
  qed
qed

lemma first_datagram_messages:
  "first_datagram ms b \<Longrightarrow> list_all message_ok new \<Longrightarrow> write_messages new b = Some b' \<Longrightarrow> first_datagram (ms @ new) b'"
proof (induction new arbitrary: ms b)
  case (Cons m new)
  then obtain b1 where "write_2_public_buffer (encode_message m) b = Some b1" "write_messages new b1 = Some b'"
    by (auto split: option.splits)
  with Cons.IH [of "ms @ [m]" b1] first_datagram_write [of ms b m b1] Cons.prems show ?case by simp
qed simp

lemma length_stream_le: "list_all message_ok ms \<Longrightarrow> length (stream_of ms) \<le> 72 * length ms"
proof (induction ms)
  case (Cons m ms)
  then show ?case using length_encode_message [of m] by (simp add: stream_of_def)
qed (simp add: stream_of_def)

lemma example_burst_sent:
  fixes mac :: bytes
  assumes mac: "length mac = 6"
  shows "\<exists>st d rs. get_information example_burst (hello_init mac) = Some st \<and> d \<in> set (sent_datagrams (outbuf st)) \<and>
    d = stream_of (example_messages mac @ map (MDrops mac) rs) \<and> list_all message_ok (example_messages mac @ map (MDrops mac) rs) \<and>
    length d \<le> B_S"
proof -
  let ?drops = "map (MDrops mac \<circ> example_drop) [0..<25]"
  let ?ms = "example_messages mac @ ?drops"
  have ok: "list_all message_ok ?ms" using mac by (simp add: list_all_iff example_messages_def)
  obtain b st where b: "write_messages (example_messages mac) out_buffer_init = Some b"
    and st: "report_stations (example_tick 5) ((hello_init mac)\<lparr>control_beacon := 1\<rparr>) = Some st" "outbuf st = b"
      "queue_previous st = replicate 6 zero_queue" "mac_global st = mac" "last_drop_mac st = zero_stamp"
    using example_stations [OF mac] unfolding example_messages_def by blast
  obtain b' where b': "write_messages ?ms out_buffer_init = Some b'" "holds_messages ?ms b'"
    using holds_messages_write_all [OF holds_messages_init ok] by auto
  then have "map_option snd (report_drops mac (map example_drop [0..<25]) zero_stamp b) = Some b'"
    using newer_drops_written [of 25 zero_stamp 0 mac b] b by (simp add: write_messages_append zero_stamp_def)
  then obtain l where l: "report_drops mac (map example_drop [0..<25]) zero_stamp b = Some (l, b')" by auto
  have "\<exists>st'. get_information example_burst (hello_init mac) = Some st' \<and> outbuf st' = b'"
    using st l by (simp add: get_information_def example_burst_def report_mac_drops_def report_queue_drops_def report_beacons_def
        report_stations_def hello_init_fields queues_unchanged aps_advance_def Let_def)
  then obtain st' where st': "get_information example_burst (hello_init mac) = Some st'" "outbuf st' = b'" by blast
  have "first_datagram [] out_buffer_init" by (simp add: first_datagram_def stream_of_def)
  from first_datagram_messages [OF this ok b'(1)] have f: "first_datagram ?ms b'" by simp
  have "1024 < length (stream_of ?ms)"
    using mac by (simp add: stream_of_def example_messages_def upt_rec)
  then have ne: "sent_datagrams b' \<noteq> []"
    using f length_pending [of b'] by (auto simp: first_datagram_def out_ok_def B_S_def)
  with f obtain k where k: "hd (sent_datagrams b') = stream_of (take k ?ms)" "952 < length (stream_of (take k ?ms))"
    by (auto simp: first_datagram_def)
  have okk: "list_all message_ok (take k ?ms)" using ok by (meson list_all_iff in_set_takeD)
  from length_stream_le [OF okk] k(2) have "2 \<le> k" by (cases "k \<le> length ?ms") auto
  then have t: "take k ?ms = example_messages mac @ map (MDrops mac) (take (k - 2) (map example_drop [0..<25]))"
    by (auto simp: example_messages_def take_map dest!: le_Suc_ex)
  have "small_datagrams b'" using small_write_messages [OF out_ok_init _ ok b'(1)] by (simp add: small_datagrams_def)
  then have "length (hd (sent_datagrams b')) \<le> B_S" using ne by (simp add: small_datagrams_def list_all_iff)
  with k(1) okk st' ne show ?thesis unfolding t by (metis hd_in_set)
qed

lemma example_delivered:
  fixes rs :: "dp_packet list"
  assumes "deliver_all (example_messages mac @ map (MDrops mac) rs) cold_receiver = Some r"
  shows "\<exists>c st'. get_clients [] (mac_text mac) \<lparr>aplists = [], ap_length = 0\<rparr> r = Some (c, st') \<and> ap_length c = 1"
proof -
  have drops: "deliver_all (map (MDrops mac) rs) st = Some st' \<Longrightarrow> iw_ring st' = iw_ring st" for st st'
    by (induction rs arbitrary: st) (fastforce simp: fprintf_def)+
  from assms obtain st where st: "deliver_all (example_messages mac) cold_receiver = Some st"
    "deliver_all (map (MDrops mac) rs) st = Some r" by (auto simp: deliver_all_append split: option.splits)
  from st(1) have "iw_ring st = ring_push (iw_store (mac_text mac) (mac_text [1,2,3,4,5,6])
      (zero_iw\<lparr>iw_station := [1,2,3,4,5,6], iw_sec := 5, iw_pad2 := 0\<rparr>)) (empty_ring undefined)"
    by (auto simp: example_messages_def fprintf_def start_threads_def)
  with drops [OF st(2)] show ?thesis
    by (simp add: get_clients_def empty_ring_def ring_push_def window_length_def iw_store_def copy_mac_list_def
        Let_def BUFFER_STORE_def)
qed

text \<open>The tick, one datagram, and the turn of the consumer that takes it; then it is processed.\<close>

definition example_trace :: "bytes \<Rightarrow> event list" where
  "example_trace d = [Tick 0 example_burst, Arrive 0 d, Look, Look, Fetch (pad_message d), Look]"

lemma example_overrun: "no_overrun (pool_events (example_trace d))" "no_overrun (pool_events (example_trace d @ [Decode]))"
  unfolding no_overrun_def by (auto simp: example_trace_def pool_events_def take_Cons' SLOTS_def)

lemma example_deployed:
  assumes "get_information example_burst (hello_init mac) = Some st" "d \<in> set (sent_datagrams (outbuf st))"
    "d \<noteq> []" "length d \<le> B_S"
  shows "\<exists>s. deployed [mac] rcv (example_trace d) s \<and> local_buffer s = Some (pad_message d) \<and> cpc (threads s) = Test \<and> decoder s = rcv"
proof -
  let ?s1 = "(deployment_init [mac] rcv)\<lparr>routers := [st]\<rparr>"
  let ?p = "pool_store (pad_message d) pool_init"
  let ?t2 = "pool_sys_init\<lparr>shared := ?p\<rparr>"
  let ?t3 = "?t2\<lparr>ulen := pool_used ?p, cpc := Test\<rparr>"
  let ?t4 = "?t3\<lparr>cpc := Body\<rparr>"
  let ?t5 = "?t4\<lparr>shared := snd (pool_fetch ?p), cpc := Outer\<rparr>"
  let ?t6 = "?t5\<lparr>ulen := pool_used (shared ?t5), cpc := Test\<rparr>"
  let ?s5 = "?s1\<lparr>threads := ?t5, local_buffer := Some (pad_message d)\<rparr>"
  have len: "length d \<le> SEND_SIZE" using assms(4) by (simp add: B_S_def SEND_SIZE_def)
  have r: "pool_rep ?p ([] @ [pad_message d])"
    by (rule pool_rep_put [OF pool_rep_init]) (simp_all add: length_pad_message [OF len] SLOTS_def)
  then have f: "pool_fetch ?p = (pad_message d, snd (pool_fetch ?p))"
    using pool_rep_get [of ?p "pad_message d" "[]"] by (simp add: prod_eq_iff)
  have u: "1 < pool_used ?p" using pool_used_rep [OF r] by (simp add: SEND_SIZE_def)
  have i: "threads (deployment_init [mac] rcv) = pool_sys_init" "routers (deployment_init [mac] rcv) = [hello_init mac]"
    "local_buffer (deployment_init [mac] rcv) = None" "decoder (deployment_init [mac] rcv) = rcv"
    by (simp_all add: deployment_init_def)
  have q: "shared pool_sys_init = pool_init" "cpc pool_sys_init = Outer" by (simp_all add: pool_sys_init_def)
  have "reports_ok example_burst" by (simp add: reports_ok_def example_burst_def)
  then have e1: "deployment_step (deployment_init [mac] rcv) (Tick 0 example_burst) ?s1"
    using tick [of 0 "deployment_init [mac] rcv" example_burst st] assms(1) i by simp
  have e2: "deployment_step ?s1 (Arrive 0 d) (?s1\<lparr>threads := ?t2\<rparr>)"
    using recv [OF assms(3) len, of pool_sys_init] assms(2) i q by (intro arrive) simp_all
  have e3: "deployment_step (?s1\<lparr>threads := ?t2\<rparr>) Look (?s1\<lparr>threads := ?t3\<rparr>)"
    using look [of "?s1\<lparr>threads := ?t2\<rparr>" ?t3] read_len [of ?t2] i q by simp
  have e4: "deployment_step (?s1\<lparr>threads := ?t3\<rparr>) Look (?s1\<lparr>threads := ?t4\<rparr>)"
    using look [of "?s1\<lparr>threads := ?t3\<rparr>" ?t4] pool_step.test [of ?t3] u i by simp
  have e5: "deployment_step (?s1\<lparr>threads := ?t4\<rparr>) (Fetch (pad_message d)) ?s5"
    using Deployment.fetch [of "?s1\<lparr>threads := ?t4\<rparr>" "pad_message d" ?t5] pool_step.fetch [of ?t4 "pad_message d" "snd (pool_fetch ?p)"] f i by simp
  have "pool_step ?t5 Tau ?t6" by (rule read_len) simp
  then have e6: "deployment_step ?s5 Look (?s5\<lparr>threads := ?t6\<rparr>)" by (intro look) simp_all
  note run = deployed_step [OF deployed_step [OF deployed_step [OF deployed_step [OF deployed_step [OF deployed_step
    [OF deployed_start [of "[mac]" rcv] e1] e2] e3] e4] e5] e6]
  show ?thesis
    by (rule exI [of _ "?s5\<lparr>threads := ?t6\<rparr>"])
      (use run i in \<open>simp add: example_trace_def\<close>)
qed

lemma example_decoded:
  "\<exists>d s s'. deployed [[6,5,4,3,2,1]] cold_receiver (example_trace d) s \<and> local_buffer s = Some (pad_message d) \<and>
     deployed [[6,5,4,3,2,1]] cold_receiver (example_trace d @ [Decode]) s' \<and>
     (\<exists>c st'. get_clients [] (mac_text [6,5,4,3,2,1]) \<lparr>aplists = [], ap_length = 0\<rparr> (decoder s') = Some (c, st') \<and> ap_length c = 1)"
proof -
  obtain st d rs where e: "get_information example_burst (hello_init [6,5,4,3,2,1]) = Some st"
    "d \<in> set (sent_datagrams (outbuf st))" "length d \<le> B_S"
    and d: "d = stream_of (example_messages [6,5,4,3,2,1] @ map (MDrops [6,5,4,3,2,1]) rs)"
      "list_all message_ok (example_messages [6,5,4,3,2,1] @ map (MDrops [6,5,4,3,2,1]) rs)"
    using example_burst_sent [of "[6,5,4,3,2,1]"] by auto
  have "d \<noteq> []" using d(1) by (simp add: stream_of_def example_messages_def)
  from example_deployed [OF e(1,2) this e(3), of cold_receiver] obtain s where
    s: "deployed [[6,5,4,3,2,1]] cold_receiver (example_trace d) s" "local_buffer s = Some (pad_message d)"
      "cpc (threads s) = Test" "decoder s = cold_receiver" by blast
  have "process (pad_message d) 1024 cold_receiver = deliver_all (example_messages [6,5,4,3,2,1] @ map (MDrops [6,5,4,3,2,1]) rs) cold_receiver"
    using process_padded_stream [OF d(2)] d(1) e(3) by simp
  moreover have "\<exists>r. deliver_all (map (MDrops mac) rs) st = Some r" for mac st by (induction rs arbitrary: st) simp_all
  ultimately obtain r where r: "process (pad_message d) 1024 cold_receiver = Some r"
    "deliver_all (example_messages [6,5,4,3,2,1] @ map (MDrops [6,5,4,3,2,1]) rs) cold_receiver = Some r"
    by (fastforce simp: deliver_all_append example_messages_def)
  from decode [of s "pad_message d" r] s r(1) have "deployment_step s Decode (s\<lparr>local_buffer := None, decoder := r\<rparr>)" by simp
  from deployed_step [OF s(1) this] s(1,2) example_delivered [OF r(2)] show ?thesis
    by (intro exI [of _ d] exI [of _ s] exI [of _ "s\<lparr>local_buffer := None, decoder := r\<rparr>"]) simp
qed



end
