(* ===== verification/Drop_Log.thy ===== *)
theory Drop_Log
  imports Wire
begin

text \<open>
  The logs of dropped packets that the kernel keeps for the reporting module: one in
  \<^verbatim>\<open>project/status.c\<close> (frames that the WiFi peer did not acknowledge) and one in \<^verbatim>\<open>codel.h\<close> (packets
  that CoDel drops).  Each is a linked list in the kernel heap with a pointer to its end, a pointer
  to the last node that the reporter has seen, and a flag that the reporter is done with it; the
  nodes are freed by the next drop.

  The heap is a partial map from addresses to nodes.  Freeing removes the node, and an access to
  an address that is not in the heap, or to null, is None.  Both logs are shown to implement the
  same abstract log under the protocol that the reporter follows.
\<close>

section \<open>Heap lists\<close>

record 'v node =
  nval :: 'v
  nnext :: "nat option"

type_synonym 'v heap = "nat \<rightharpoonup> 'v node"

fun lseg :: "'v heap \<Rightarrow> nat option \<Rightarrow> (nat \<times> 'v) list \<Rightarrow> bool" where
  "lseg h p [] \<longleftrightarrow> p = None"
| "lseg h p ((a, v) # xs) \<longleftrightarrow> p = Some a \<and> (\<exists>q. h a = Some \<lparr>nval = v, nnext = q\<rparr> \<and> lseg h q xs)"

lemma lseg_upd_other [simp]: "a \<notin> fst ` set xs \<Longrightarrow> lseg (h(a := n)) p xs = lseg h p xs"
  by (induction xs arbitrary: p) auto

lemma lseg_dom: "lseg h p xs \<Longrightarrow> x \<in> set xs \<Longrightarrow> fst x \<in> dom h"
  by (induction xs arbitrary: p) (force simp: dom_def)+

lemma lseg_None: "lseg h None xs \<longleftrightarrow> xs = []"
  by (cases xs) auto

lemma lseg_nth:
  "lseg h p xs \<Longrightarrow> i < length xs \<Longrightarrow>
   \<exists>q. h (fst (xs ! i)) = Some \<lparr>nval = snd (xs ! i), nnext = q\<rparr> \<and> lseg h q (drop (Suc i) xs)"
proof (induction xs arbitrary: p i)
  case Nil
  then show ?case by simp
next
  case (Cons x xs)
  then show ?case by (cases x; cases i) auto
qed

text \<open>Linking a new last node.\<close>

lemma lseg_append:
  assumes "lseg h p (xs @ [(l, w)])" and "distinct (map fst (xs @ [(l, w)]))" and "b \<notin> fst ` set (xs @ [(l, w)])"
  shows "lseg (h(b \<mapsto> \<lparr>nval = v, nnext = None\<rparr>, l \<mapsto> \<lparr>nval = w, nnext = Some b\<rparr>)) p
    (xs @ [(l, w), (b, v)])"
  using assms
proof (induction xs arbitrary: p)
  case Nil
  then show ?case by auto
next
  case (Cons x xs)
  obtain a u where x: "x = (a, u)" by (cases x)
  from Cons.prems x obtain q where "p = Some a" "h a = Some \<lparr>nval = u, nnext = q\<rparr>"
    "lseg h q (xs @ [(l, w)])" by auto
  with Cons.IH [of q] Cons.prems x show ?case by auto
qed

text \<open>The loop that frees the nodes from a pointer up to a given node or to the end.\<close>

partial_function (option) free_until ::
  "'v heap \<Rightarrow> nat option \<Rightarrow> nat option \<Rightarrow> ('v heap \<times> nat option) option"
where
  "free_until h p stop =
    (case p of
       None \<Rightarrow> Some (h, p)
     | Some a \<Rightarrow>
         if p = stop then Some (h, p)
         else (case h a of None \<Rightarrow> None | Some n \<Rightarrow> free_until (h(a := None)) (nnext n) stop))"

lemma free_until_prefix:
  "lseg h p (xs @ (b, v) # ys) \<Longrightarrow> distinct (map fst (xs @ (b, v) # ys)) \<Longrightarrow>
   \<exists>h'. free_until h p (Some b) = Some (h', Some b) \<and> lseg h' (Some b) ((b, v) # ys) \<and> dom h' \<subseteq> dom h"
proof (induction xs arbitrary: h p)
  case Nil
  then show ?case by (subst free_until.simps) auto
next
  case (Cons x xs)
  obtain a u where x: "x = (a, u)" by (cases x)
  from Cons.prems(1) x obtain q where q: "p = Some a" "h a = Some \<lparr>nval = u, nnext = q\<rparr>"
    "lseg h q (xs @ (b, v) # ys)" by auto
  have "a \<notin> fst ` set (xs @ (b, v) # ys)" "a \<noteq> b" using Cons.prems(2) x by auto
  then have "lseg (h(a := None)) q (xs @ (b, v) # ys)" using q(3) by simp
  moreover have "distinct (map fst (xs @ (b, v) # ys))" using Cons.prems(2) by simp
  ultimately obtain h' where
    "free_until (h(a := None)) q (Some b) = Some (h', Some b)" "lseg h' (Some b) ((b, v) # ys)"
    "dom h' \<subseteq> dom (h(a := None))" using Cons.IH by meson
  moreover have "free_until h p (Some b) = free_until (h(a := None)) q (Some b)"
    using q \<open>a \<noteq> b\<close> by (subst free_until.simps) simp
  moreover have "dom (h(a := None)) \<subseteq> dom h" by auto
  ultimately show ?case by (metis order_trans)
qed

section \<open>The log of status.c\<close>

record 'v drop_log =
  heap :: "'v heap"
  p_linger :: "nat option"
  pkt_linger_last :: "nat option"
  last_call :: "nat option"
  readed_linger :: bool

definition log_init :: "'v drop_log" where
  "log_init = \<lparr>heap = Map.empty, p_linger = None, pkt_linger_last = None, last_call = None,
     readed_linger = False\<rparr>"

text \<open>
  After the loop the pointer is the last node seen, or null; null also equals a last node that is
  null, and its \<open>next\<close> is then read.
\<close>

definition delete_before_last_call :: "'v drop_log \<Rightarrow> 'v drop_log option" where
  "delete_before_last_call lg =
    (case free_until (heap lg) (p_linger lg) (last_call lg) of
       None \<Rightarrow> None
     | Some (h, ptr) \<Rightarrow>
         if ptr = last_call lg then
           (case last_call lg of
              None \<Rightarrow> None
            | Some a \<Rightarrow>
                (case h a of
                   None \<Rightarrow> None
                 | Some n \<Rightarrow>
                     (case nnext n of
                        Some b \<Rightarrow> Some (lg\<lparr>heap := h(a := None), p_linger := Some b,
                          last_call := None, readed_linger := False\<rparr>)
                      | None \<Rightarrow> Some (lg\<lparr>heap := h, p_linger := None, pkt_linger_last := None,
                          readed_linger := False\<rparr>))))
         else Some (lg\<lparr>heap := h, readed_linger := False\<rparr>))"

text \<open>Appending a node at the address that the allocator picks for the heap as it is then.\<close>

definition log_link :: "('v heap \<Rightarrow> nat) \<Rightarrow> 'v \<Rightarrow> 'v drop_log \<Rightarrow> 'v drop_log option" where
  "log_link alloc v lg =
    (let a = alloc (heap lg);
         h = (heap lg)(a \<mapsto> \<lparr>nval = v, nnext = None\<rparr>)
     in case p_linger lg of
          None \<Rightarrow> Some (lg\<lparr>heap := h, p_linger := Some a, pkt_linger_last := Some a\<rparr>)
        | Some _ \<Rightarrow>
            (case pkt_linger_last lg of
               None \<Rightarrow> Some (lg\<lparr>heap := h\<rparr>)
             | Some l \<Rightarrow>
                 (case h l of
                    None \<Rightarrow> None
                  | Some n \<Rightarrow> Some (lg\<lparr>heap := h(l \<mapsto> n\<lparr>nnext := Some a\<rparr>), pkt_linger_last := Some a\<rparr>))))"

definition log_drop :: "('v heap \<Rightarrow> nat) \<Rightarrow> 'v \<Rightarrow> 'v drop_log \<Rightarrow> 'v drop_log option" where
  "log_drop alloc v lg =
    (if readed_linger lg
     then (case delete_before_last_call lg of None \<Rightarrow> None | Some lg' \<Rightarrow> log_link alloc v lg')
     else log_link alloc v lg)"

definition dpt_mac_linger :: "'v drop_log \<Rightarrow> nat option \<times> 'v drop_log" where
  "dpt_mac_linger lg = (p_linger lg, lg\<lparr>last_call := pkt_linger_last lg\<rparr>)"

definition destroy_after_transmitted_mac80211 :: "'v drop_log \<Rightarrow> 'v drop_log" where
  "destroy_after_transmitted_mac80211 lg = lg\<lparr>readed_linger := True\<rparr>"

section \<open>The log of codel.h\<close>

text \<open>
  The variant of CoDel reads the last node seen without comparing, and does not free it.
\<close>

definition delete_before_last_call_codel :: "'v drop_log \<Rightarrow> 'v drop_log option" where
  "delete_before_last_call_codel lg =
    (case free_until (heap lg) (p_linger lg) (last_call lg) of
       None \<Rightarrow> None
     | Some (h, ptr) \<Rightarrow>
         (case last_call lg of
            None \<Rightarrow> None
          | Some a \<Rightarrow>
              (case h a of
                 None \<Rightarrow> None
               | Some n \<Rightarrow>
                   (case nnext n of
                      Some b \<Rightarrow> Some (lg\<lparr>heap := h, p_linger := Some b, readed_linger := False\<rparr>)
                    | None \<Rightarrow> Some (lg\<lparr>heap := h, p_linger := None, pkt_linger_last := None,
                        readed_linger := False\<rparr>)))))"

definition codel_log_drop :: "('v heap \<Rightarrow> nat) \<Rightarrow> 'v \<Rightarrow> 'v drop_log \<Rightarrow> 'v drop_log option" where
  "codel_log_drop alloc v lg =
    (if readed_linger lg
     then (case delete_before_last_call_codel lg of None \<Rightarrow> None | Some lg' \<Rightarrow> log_link alloc v lg')
     else log_link alloc v lg)"

definition dpt_queue_linger :: "'v drop_log \<Rightarrow> nat option \<times> 'v drop_log" where
  "dpt_queue_linger lg = (p_linger lg, lg\<lparr>last_call := pkt_linger_last lg\<rparr>)"

definition destroy_after_transmitted_codel :: "'v drop_log \<Rightarrow> 'v drop_log" where
  "destroy_after_transmitted_codel lg = lg\<lparr>readed_linger := True\<rparr>"

section \<open>The reporter\<close>

text \<open>
  \<^verbatim>\<open>get_information\<close> takes the head of a log, walks to the end, and marks the log as read if there
  was anything in it.
\<close>

partial_function (option) walk :: "'v heap \<Rightarrow> nat option \<Rightarrow> 'v list \<Rightarrow> 'v list option" where
  "walk h p out =
    (case p of
       None \<Rightarrow> Some out
     | Some a \<Rightarrow> (case h a of None \<Rightarrow> None | Some n \<Rightarrow> walk h (nnext n) (out @ [nval n])))"

definition collect_mac :: "'v drop_log \<Rightarrow> ('v list \<times> 'v drop_log) option" where
  "collect_mac lg =
    (let (dp_mac, lg') = dpt_mac_linger lg
     in if dp_mac = None then Some ([], lg')
        else (case walk (heap lg') dp_mac [] of
                None \<Rightarrow> None
              | Some out \<Rightarrow> Some (out, destroy_after_transmitted_mac80211 lg')))"

definition collect_queue :: "'v drop_log \<Rightarrow> ('v list \<times> 'v drop_log) option" where
  "collect_queue lg =
    (let (dp_que, lg') = dpt_queue_linger lg
     in if dp_que = None then Some ([], lg')
        else (case walk (heap lg') dp_que [] of
                None \<Rightarrow> None
              | Some out \<Rightarrow> Some (out, destroy_after_transmitted_codel lg')))"

lemma walk_lseg: "lseg h p xs \<Longrightarrow> walk h p out = Some (out @ map snd xs)"
proof (induction xs arbitrary: p out)
  case Nil
  then show ?case by (subst walk.simps) simp
next
  case (Cons x xs)
  then show ?case by (cases x) (subst walk.simps, auto)
qed

section \<open>The abstract log\<close>

text \<open>
  A log is a list of entries of which a prefix has been acknowledged.  A new entry removes the
  acknowledged ones; collecting returns all entries and acknowledges them.
\<close>

locale report_log =
  fixes rep :: "'l \<Rightarrow> 'v list \<Rightarrow> nat \<Rightarrow> bool"
    and put :: "'v \<Rightarrow> 'l \<Rightarrow> 'l option"
    and collect :: "'l \<Rightarrow> ('v list \<times> 'l) option"
  assumes rep_put: "rep l es k \<Longrightarrow> \<exists>l'. put v l = Some l' \<and> rep l' (drop k es @ [v]) 0"
    and rep_collect: "rep l es k \<Longrightarrow> \<exists>l'. collect l = Some (es, l') \<and> rep l' es (length es)"

datatype 'v log_event = Dropped 'v | Collect

fun log_run ::
  "('v \<Rightarrow> 'l \<Rightarrow> 'l option) \<Rightarrow> ('l \<Rightarrow> ('v list \<times> 'l) option) \<Rightarrow>
   'v log_event list \<Rightarrow> 'l \<Rightarrow> ('v list list \<times> 'l) option"
where
  "log_run put collect [] l = Some ([], l)"
| "log_run put collect (Dropped v # evs) l =
     (case put v l of None \<Rightarrow> None | Some l' \<Rightarrow> log_run put collect evs l')"
| "log_run put collect (Collect # evs) l =
     (case collect l of
        None \<Rightarrow> None
      | Some (out, l') \<Rightarrow>
          (case log_run put collect evs l' of
             None \<Rightarrow> None
           | Some (outs, l'') \<Rightarrow> Some (out # outs, l'')))"

fun dropped :: "'v log_event list \<Rightarrow> 'v list" where
  "dropped [] = []"
| "dropped (Dropped v # evs) = v # dropped evs"
| "dropped (Collect # evs) = dropped evs"

text \<open>The reports of a log that never forgets an entry before it has been collected.\<close>

fun reports :: "'v list \<Rightarrow> nat \<Rightarrow> 'v log_event list \<Rightarrow> 'v list list" where
  "reports es k [] = []"
| "reports es k (Dropped v # evs) = reports (drop k es @ [v]) 0 evs"
| "reports es k (Collect # evs) = es # reports es (length es) evs"

lemma reports_complete:
  "set (drop k es) \<union> set (dropped evs) \<subseteq> set (concat (reports es k (evs @ [Collect])))"
proof (induction evs arbitrary: es k)
  case Nil
  then show ?case using set_drop_subset by fastforce
next
  case (Cons e evs)
  show ?case
  proof (cases e)
    case (Dropped v)
    have "set (drop k es) \<union> set (dropped (e # evs)) = set (drop 0 (drop k es @ [v])) \<union> set (dropped evs)"
      using Dropped by auto
    also have "\<dots> \<subseteq> set (concat (reports (drop k es @ [v]) 0 (evs @ [Collect])))"
      by (rule Cons.IH)
    finally show ?thesis using Dropped by simp
  next
    case Collect
    with Cons.IH [of "length es" es] show ?thesis using set_drop_subset [of k es] by auto
  qed
qed

context report_log
begin

lemma log_run_reports:
  "rep l es k \<Longrightarrow> \<exists>l'. log_run put collect evs l = Some (reports es k evs, l')"
proof (induction evs arbitrary: l es k)
  case Nil
  then show ?case by simp
next
  case (Cons e evs)
  show ?case
  proof (cases e)
    case (Dropped v)
    from rep_put [OF Cons.prems] obtain l' where
      "put v l = Some l'" "rep l' (drop k es @ [v]) 0" by blast
    with Cons.IH [OF this(2)] Dropped show ?thesis by simp
  next
    case Collect
    from rep_collect [OF Cons.prems] obtain l' where
      "collect l = Some (es, l')" "rep l' es (length es)" by blast
    with Cons.IH [OF this(2)] Collect show ?thesis by auto
  qed
qed

lemma nothing_lost:
  assumes "rep l [] 0"
  shows "\<exists>outs l'. log_run put collect (evs @ [Collect]) l = Some (outs, l') \<and>
    set (dropped evs) \<subseteq> set (concat outs)"
  using log_run_reports [OF assms, of "evs @ [Collect]"] reports_complete [of 0 "[]" evs] by auto

end

section \<open>Both logs implement it\<close>

definition log_rep :: "'v drop_log \<Rightarrow> 'v list \<Rightarrow> nat \<Rightarrow> bool" where
  "log_rep lg es k \<longleftrightarrow>
    finite (dom (heap lg)) \<and>
    (\<exists>as. length as = length es \<and> distinct as \<and>
       lseg (heap lg) (p_linger lg) (zip as es) \<and>
       pkt_linger_last lg = (if as = [] then None else Some (last as)) \<and>
       (if readed_linger lg then 0 < k \<and> k \<le> length es \<and> last_call lg = Some (as ! (k - 1))
        else k = 0))"

lemma log_rep_init: "log_rep log_init [] 0"
  by (auto simp: log_rep_def log_init_def)

lemma log_link_rep:
  assumes rep: "log_rep lg es 0" and nr: "\<not> readed_linger lg" and free: "heap lg (alloc (heap lg)) = None"
  shows "\<exists>lg'. log_link alloc v lg = Some lg' \<and> log_rep lg' (es @ [v]) 0"
proof -
  from rep nr obtain as where as: "length as = length es" "distinct as"
    "lseg (heap lg) (p_linger lg) (zip as es)"
    "pkt_linger_last lg = (if as = [] then None else Some (last as))" "finite (dom (heap lg))"
    by (auto simp: log_rep_def)
  define a where "a = alloc (heap lg)"
  have fresh: "a \<notin> set as"
  proof
    assume "a \<in> set as"
    then obtain x where "x \<in> set (zip as es)" "fst x = a"
      using as(1) by (metis in_set_conv_nth length_zip min.idem nth_mem nth_zip fst_conv)
    with lseg_dom [OF as(3), of x] free a_def show False by (auto simp: domIff)
  qed
  show ?thesis
  proof (cases "as = []")
    case True
    with as nr show ?thesis
      by (auto simp: log_link_def log_rep_def Let_def intro!: exI [of _ "[a]"] simp flip: a_def)
  next
    case False
    then obtain bs l where bs: "as = bs @ [l]" by (cases as rule: rev_cases) auto
    from False as(1) obtain fs w where fs: "es = fs @ [w]" "length fs = length bs"
      using bs by (cases es rule: rev_cases) auto
    have seg: "lseg (heap lg) (p_linger lg) (zip bs fs @ [(l, w)])"
      using as(3) bs fs by simp
    then obtain q where "heap lg l = Some \<lparr>nval = w, nnext = q\<rparr>" "lseg (heap lg) q []"
      using lseg_nth [OF seg, of "length bs"] fs by (auto simp: nth_append)
    then have l: "heap lg l = Some \<lparr>nval = w, nnext = None\<rparr>" by simp
    have ne: "p_linger lg \<noteq> None" using seg by (cases "zip bs fs") auto
    have "a \<noteq> l" using fresh bs by simp
    let ?h = "(heap lg)(a \<mapsto> \<lparr>nval = v, nnext = None\<rparr>, l \<mapsto> \<lparr>nval = w, nnext = Some a\<rparr>)"
    have "log_link alloc v lg = Some (lg\<lparr>heap := ?h, pkt_linger_last := Some a\<rparr>)"
      using ne as(4) bs l \<open>a \<noteq> l\<close> by (auto simp: log_link_def Let_def simp flip: a_def)
    moreover have "a \<notin> fst ` set (zip bs fs)" using fresh bs by (auto dest: set_zip_leftD)
    then have "lseg ?h (p_linger lg) (zip bs fs @ [(l, w), (a, v)])"
      using lseg_append [OF seg, of a v] as(2) bs fs fresh
      by (auto simp: map_fst_zip)
    then have "lseg ?h (p_linger lg) (zip (as @ [a]) (es @ [v]))"
      using bs fs by simp
    ultimately show ?thesis
      using as nr fresh by (auto simp: log_rep_def intro!: exI [of _ "as @ [a]"])
  qed
qed

text \<open>Where the freeing loop stops when the log has been read.\<close>

lemma free_until_log:
  assumes rep: "log_rep lg es k" and rd: "readed_linger lg"
  shows "\<exists>as h' b. length as = length es \<and> distinct as \<and>
    pkt_linger_last lg = Some (last as) \<and> 0 < k \<and> k \<le> length es \<and>
    b = as ! (k - 1) \<and> last_call lg = Some b \<and>
    free_until (heap lg) (p_linger lg) (last_call lg) = Some (h', Some b) \<and>
    dom h' \<subseteq> dom (heap lg) \<and> lseg h' (Some b) (drop (k - 1) (zip as es))"
proof -
  from rep rd obtain as where as: "length as = length es" "distinct as"
    "lseg (heap lg) (p_linger lg) (zip as es)"
    "pkt_linger_last lg = (if as = [] then None else Some (last as))"
    "0 < k" "k \<le> length es" "last_call lg = Some (as ! (k - 1))"
    by (auto simp: log_rep_def)
  let ?b = "as ! (k - 1)"
  have split: "zip as es = take (k - 1) (zip as es) @ (?b, es ! (k - 1)) # drop k (zip as es)"
    using as(1,5,6) id_take_nth_drop [of "k - 1" "zip as es"] by simp
  have "distinct (map fst (zip as es))" using as(1,2) by simp
  with free_until_prefix [of "heap lg" "p_linger lg" "take (k - 1) (zip as es)" ?b "es ! (k - 1)" "drop k (zip as es)"]
    as(3) split
  obtain h' where h: "free_until (heap lg) (p_linger lg) (Some ?b) = Some (h', Some ?b)"
    "lseg h' (Some ?b) ((?b, es ! (k - 1)) # drop k (zip as es))" "dom h' \<subseteq> dom (heap lg)" by metis
  have "drop (k - 1) (zip as es) = (?b, es ! (k - 1)) # drop k (zip as es)"
    using as(1,5,6) Cons_nth_drop_Suc [of "k - 1" "zip as es"] by simp
  with h as show ?thesis by (intro exI [of _ as] exI [of _ h'] exI [of _ ?b]) auto
qed

text \<open>What is left once the acknowledged nodes are unlinked; the last of them may stay in the heap.\<close>

lemma log_rep_rest:
  assumes as: "length as = length es" "distinct as" "0 < k" "k \<le> length es"
    and seg: "lseg h (Some (as ! (k - 1))) (drop (k - 1) (zip as es))"
    and fin: "finite (dom h)"
  obtains q where "h (as ! (k - 1)) = Some \<lparr>nval = es ! (k - 1), nnext = q\<rparr>"
    "lseg h q (zip (drop k as) (drop k es))" "as ! (k - 1) \<notin> set (drop k as)"
    "q = None \<longleftrightarrow> k = length es"
proof -
  have d: "drop (k - 1) (zip as es) = (as ! (k - 1), es ! (k - 1)) # zip (drop k as) (drop k es)"
    using as Cons_nth_drop_Suc [of "k - 1" "zip as es"] by (simp add: drop_zip)
  with seg obtain q where q: "h (as ! (k - 1)) = Some \<lparr>nval = es ! (k - 1), nnext = q\<rparr>"
    "lseg h q (zip (drop k as) (drop k es))" by auto
  have "as ! (k - 1) \<notin> set (drop k as)"
    using as id_take_nth_drop [of "k - 1" as] by (auto simp: distinct_conv_nth in_set_conv_nth)
  moreover have "q = None \<longleftrightarrow> k = length es"
    using q(2) as by (cases "zip (drop k as) (drop k es)") (auto simp: zip_eq_Nil_iff)
  ultimately show ?thesis using q that by blast
qed

lemma delete_before_last_call_rep:
  assumes rep: "log_rep lg es k" and rd: "readed_linger lg"
  shows "\<exists>lg'. delete_before_last_call lg = Some lg' \<and> log_rep lg' (drop k es) 0 \<and>
    \<not> readed_linger lg' \<and> dom (heap lg') \<subseteq> dom (heap lg)"
proof -
  from free_until_log [OF rep rd] obtain as h' where f: "length as = length es" "distinct as"
    "pkt_linger_last lg = Some (last as)" "0 < k" "k \<le> length es" "last_call lg = Some (as ! (k - 1))"
    "free_until (heap lg) (p_linger lg) (last_call lg) = Some (h', Some (as ! (k - 1)))"
    "dom h' \<subseteq> dom (heap lg)" "lseg h' (Some (as ! (k - 1))) (drop (k - 1) (zip as es))"
    by blast
  have fin: "finite (dom h')" using f(8) rep finite_subset by (auto simp: log_rep_def)
  from log_rep_rest [OF f(1,2,4,5,9) fin] obtain q where
    q: "h' (as ! (k - 1)) = Some \<lparr>nval = es ! (k - 1), nnext = q\<rparr>"
      "lseg h' q (zip (drop k as) (drop k es))" "as ! (k - 1) \<notin> set (drop k as)"
      "q = None \<longleftrightarrow> k = length es" by blast
  show ?thesis
  proof (cases q)
    case None
    then show ?thesis
      using f q fin by (auto simp: delete_before_last_call_def log_rep_def)
  next
    case (Some b)
    have "as ! (k - 1) \<notin> fst ` set (zip (drop k as) (drop k es))"
      using q(3) by (auto dest: set_zip_leftD)
    then have "lseg (h'(as ! (k - 1) := None)) (Some b) (zip (drop k as) (drop k es))"
      using q(2) Some by simp
    moreover have "drop k as \<noteq> []" using f(1,5) q(4) Some by auto
    ultimately show ?thesis
      using f q(1) Some fin
      by (auto simp: delete_before_last_call_def log_rep_def intro!: exI [of _ "drop k as"])
  qed
qed

lemma delete_before_last_call_codel_rep:
  assumes rep: "log_rep lg es k" and rd: "readed_linger lg"
  shows "\<exists>lg'. delete_before_last_call_codel lg = Some lg' \<and> log_rep lg' (drop k es) 0 \<and>
    \<not> readed_linger lg' \<and> dom (heap lg') \<subseteq> dom (heap lg)"
proof -
  from free_until_log [OF rep rd] obtain as h' where f: "length as = length es" "distinct as"
    "pkt_linger_last lg = Some (last as)" "0 < k" "k \<le> length es" "last_call lg = Some (as ! (k - 1))"
    "free_until (heap lg) (p_linger lg) (last_call lg) = Some (h', Some (as ! (k - 1)))"
    "dom h' \<subseteq> dom (heap lg)" "lseg h' (Some (as ! (k - 1))) (drop (k - 1) (zip as es))"
    by blast
  have fin: "finite (dom h')" using f(8) rep finite_subset by (auto simp: log_rep_def)
  from log_rep_rest [OF f(1,2,4,5,9) fin] obtain q where
    q: "h' (as ! (k - 1)) = Some \<lparr>nval = es ! (k - 1), nnext = q\<rparr>"
      "lseg h' q (zip (drop k as) (drop k es))" "as ! (k - 1) \<notin> set (drop k as)"
      "q = None \<longleftrightarrow> k = length es" by blast
  show ?thesis
  proof (cases q)
    case None
    then show ?thesis
      using f q fin by (auto simp: delete_before_last_call_codel_def log_rep_def)
  next
    case (Some b)
    moreover have "drop k as \<noteq> []" using f(1,5) q(4) Some by auto
    ultimately show ?thesis
      using f q(1,2) fin
      by (auto simp: delete_before_last_call_codel_def log_rep_def intro!: exI [of _ "drop k as"])
  qed
qed

lemma collect_rep:
  assumes "log_rep lg es k"
  shows "\<exists>lg'. collect_mac lg = Some (es, lg') \<and> log_rep lg' es (length es)"
    and "\<exists>lg'. collect_queue lg = Some (es, lg') \<and> log_rep lg' es (length es)"
proof -
  from assms obtain as where as: "length as = length es" "distinct as"
    "lseg (heap lg) (p_linger lg) (zip as es)"
    "pkt_linger_last lg = (if as = [] then None else Some (last as))"
    "if readed_linger lg then 0 < k \<and> k \<le> length es \<and> last_call lg = Some (as ! (k - 1)) else k = 0"
    "finite (dom (heap lg))"
    by (auto simp: log_rep_def)
  have walked: "walk (heap lg) (p_linger lg) [] = Some es"
    using walk_lseg [OF as(3), of "[]"] as(1) by simp
  have empty: "p_linger lg = None \<longleftrightarrow> es = []"
    using as(1,3) by (cases "zip as es") (auto simp: zip_eq_Nil_iff)
  have rep': "log_rep (lg\<lparr>last_call := pkt_linger_last lg, readed_linger := (es \<noteq> [] \<or> readed_linger lg)\<rparr>) es (length es)"
    using as by (auto simp: log_rep_def last_conv_nth intro!: exI [of _ as])
  then show "\<exists>lg'. collect_mac lg = Some (es, lg') \<and> log_rep lg' es (length es)"
    using walked empty
    by (auto simp: collect_mac_def dpt_mac_linger_def destroy_after_transmitted_mac80211_def)
  from rep' show "\<exists>lg'. collect_queue lg = Some (es, lg') \<and> log_rep lg' es (length es)"
    using walked empty
    by (auto simp: collect_queue_def dpt_queue_linger_def destroy_after_transmitted_codel_def)
qed

text \<open>The allocator: an address that is not in use, as long as the heap is finite.\<close>

locale kmalloc =
  fixes alloc :: "'v heap \<Rightarrow> nat"
  assumes fresh: "finite (dom h) \<Longrightarrow> h (alloc h) = None"
begin

lemma log_drop_rep:
  assumes "log_rep lg es k"
  shows "\<exists>lg'. log_drop alloc v lg = Some lg' \<and> log_rep lg' (drop k es @ [v]) 0"
proof (cases "readed_linger lg")
  case True
  from delete_before_last_call_rep [OF assms True] obtain lg1 where
    d: "delete_before_last_call lg = Some lg1" "log_rep lg1 (drop k es) 0" "\<not> readed_linger lg1" by blast
  from d(2) have "heap lg1 (alloc (heap lg1)) = None" by (intro fresh) (simp add: log_rep_def)
  from log_link_rep [of lg1 "drop k es" alloc v, OF d(2,3) this] d(1) True
  show ?thesis by (simp add: log_drop_def)
next
  case False
  with assms have "k = 0" by (auto simp: log_rep_def)
  moreover have "heap lg (alloc (heap lg)) = None"
    using assms by (intro fresh) (simp add: log_rep_def)
  ultimately show ?thesis
    using log_link_rep [of lg es alloc v] assms False by (simp add: log_drop_def)
qed

lemma codel_log_drop_rep:
  assumes "log_rep lg es k"
  shows "\<exists>lg'. codel_log_drop alloc v lg = Some lg' \<and> log_rep lg' (drop k es @ [v]) 0"
proof (cases "readed_linger lg")
  case True
  from delete_before_last_call_codel_rep [OF assms True] obtain lg1 where
    d: "delete_before_last_call_codel lg = Some lg1" "log_rep lg1 (drop k es) 0" "\<not> readed_linger lg1" by blast
  from d(2) have "heap lg1 (alloc (heap lg1)) = None" by (intro fresh) (simp add: log_rep_def)
  from log_link_rep [of lg1 "drop k es" alloc v, OF d(2,3) this] d(1) True
  show ?thesis by (simp add: codel_log_drop_def)
next
  case False
  with assms have "k = 0" by (auto simp: log_rep_def)
  moreover have "heap lg (alloc (heap lg)) = None"
    using assms by (intro fresh) (simp add: log_rep_def)
  ultimately show ?thesis
    using log_link_rep [of lg es alloc v] assms False by (simp add: codel_log_drop_def)
qed

end

sublocale kmalloc \<subseteq> mac: report_log log_rep "log_drop alloc" collect_mac
  by unfold_locales (use log_drop_rep collect_rep(1) in blast)+

sublocale kmalloc \<subseteq> codel: report_log log_rep "codel_log_drop alloc" collect_queue
  by unfold_locales (use codel_log_drop_rep collect_rep(2) in blast)+

context kmalloc
begin

lemma mac_log_run:
  "log_rep l es k \<Longrightarrow>
   \<exists>l'. log_run (log_drop alloc) collect_mac evs l = Some (reports es k evs, l')"
  by (rule mac.log_run_reports)

lemma codel_log_run:
  "log_rep l es k \<Longrightarrow>
   \<exists>l'. log_run (codel_log_drop alloc) collect_queue evs l = Some (reports es k evs, l')"
  by (rule codel.log_run_reports)

end

text \<open>An allocator: the address after the greatest one in use.\<close>

definition bump_alloc :: "'v heap \<Rightarrow> nat" where
  "bump_alloc h = (if dom h = {} then 0 else Suc (Max (dom h)))"

lemma bump_alloc_fresh: "finite (dom h) \<Longrightarrow> h (bump_alloc h) = None"
proof (cases "dom h = {}")
  case False
  assume fin: "finite (dom h)"
  show ?thesis
  proof (rule ccontr)
    assume "h (bump_alloc h) \<noteq> None"
    then have "bump_alloc h \<in> dom h" by auto
    with fin have "bump_alloc h \<le> Max (dom h)" by (rule Max_ge)
    with False show False by (simp add: bump_alloc_def)
  qed
qed (simp add: bump_alloc_def)

interpretation bump: kmalloc bump_alloc
  by unfold_locales (rule bump_alloc_fresh)

section \<open>Properties\<close>

text \<open>
  C13.  Log of unacknowledged frames: with any allocator, in any sequence of drops and complete
  reports no freed or null node is accessed, each report holds exactly the drops since the last
  report that was followed by a drop, and after a final report every drop has been reported.
\<close>

theorem mac_log_reports_every_drop:
  assumes "\<And>h :: 'v heap. finite (dom h) \<Longrightarrow> h (alloc h) = None"
  shows "\<exists>lg'. log_run (log_drop alloc) collect_mac (evs @ [Collect]) log_init =
      Some (reports [] 0 (evs @ [Collect]), lg') \<and>
    set (dropped evs) \<subseteq> set (concat (reports [] 0 (evs @ [Collect])))"
proof -
  have k: "kmalloc alloc" using assms by (rule kmalloc.intro)
  from kmalloc.mac_log_run [OF k log_rep_init] show ?thesis
    using reports_complete [of 0 "[]" evs] by simp
qed

theorem mac_log_reports_every_drop_witness:
  "\<exists>lg'. log_run (log_drop bump_alloc) collect_mac
      ([Dropped 1, Dropped 2, Collect, Dropped 3] @ [Collect]) log_init =
      Some (reports [] 0 ([Dropped 1, Dropped 2, Collect, Dropped (3 :: nat)] @ [Collect]), lg') \<and>
    set (dropped [Dropped 1, Dropped 2, Collect, Dropped (3 :: nat)]) \<subseteq>
      set (concat (reports [] 0 ([Dropped 1, Dropped 2, Collect, Dropped 3] @ [Collect])))"
  by (rule mac_log_reports_every_drop [OF bump_alloc_fresh])

text \<open>
  The log of CoDel satisfies the same contract, although it leaves one node per report in
  the heap.
\<close>

theorem codel_log_reports_every_drop:
  assumes "\<And>h :: 'v heap. finite (dom h) \<Longrightarrow> h (alloc h) = None"
  shows "\<exists>lg'. log_run (codel_log_drop alloc) collect_queue (evs @ [Collect]) log_init =
      Some (reports [] 0 (evs @ [Collect]), lg') \<and>
    set (dropped evs) \<subseteq> set (concat (reports [] 0 (evs @ [Collect])))"
proof -
  have k: "kmalloc alloc" using assms by (rule kmalloc.intro)
  from kmalloc.codel_log_run [OF k log_rep_init] show ?thesis
    using reports_complete [of 0 "[]" evs] by simp
qed

theorem codel_log_reports_every_drop_witness:
  "\<exists>lg'. log_run (codel_log_drop bump_alloc) collect_queue
      ([Dropped 1, Collect, Dropped 2] @ [Collect]) log_init =
      Some (reports [] 0 ([Dropped 1, Collect, Dropped (2 :: nat)] @ [Collect]), lg') \<and>
    set (dropped [Dropped 1, Collect, Dropped (2 :: nat)]) \<subseteq>
      set (concat (reports [] 0 ([Dropped 1, Collect, Dropped 2] @ [Collect])))"
  by (rule codel_log_reports_every_drop [OF bump_alloc_fresh])

text \<open>
  The reporter takes no lock: if a frame is dropped after the reporter has fetched the head
  of a log that it had already read once, and before it has walked the list, the head is freed
  under it (for a log of two entries or more).
\<close>

theorem mac_log_race:
  assumes rep: "log_rep lg es k" and rd: "readed_linger lg" and two: "2 \<le> length es"
    and alloc: "\<And>h :: 'v heap. finite (dom h) \<Longrightarrow> h (alloc h) = None \<and> Some (alloc h) \<noteq> p_linger lg"
  shows "\<exists>p lg1 lg2. dpt_mac_linger lg = (p, lg1) \<and> log_drop alloc (v :: 'v) lg1 = Some lg2 \<and>
    walk (heap lg2) p [] = None"
proof -
  obtain as where as0: "length as = length es" "distinct as"
    "lseg (heap lg) (p_linger lg) (zip as es)"
    "pkt_linger_last lg = (if as = [] then None else Some (last as))" "finite (dom (heap lg))"
    using rep by (auto simp: log_rep_def)
  with two have as: "length as = length es" "distinct as"
    "lseg (heap lg) (p_linger lg) (zip as es)" "pkt_linger_last lg = Some (last as)"
    "finite (dom (heap lg))" by auto
  define lg1 where "lg1 = lg\<lparr>last_call := pkt_linger_last lg\<rparr>"
  have rep1: "log_rep lg1 es (length es)"
    using as rd two by (auto simp: log_rep_def lg1_def last_conv_nth intro!: exI [of _ as])
  have rd1: "readed_linger lg1" using rd by (simp add: lg1_def)
  from as(1) two obtain a bs where a: "as = a # bs" "bs \<noteq> []" by (cases as; cases "tl as") auto
  from as(1) a obtain e fs where e: "es = e # fs" "length fs = length bs" by (cases es) auto
  obtain q where q: "p_linger lg = Some a" "heap lg a = Some \<lparr>nval = e, nnext = q\<rparr>"
    "lseg (heap lg) q (zip bs fs)"
    using as(3) a e by auto
  obtain cs l where cs: "bs = cs @ [l]" using a(2) by (cases bs rule: rev_cases) auto
  obtain gs w where gs: "fs = gs @ [w]" "length gs = length cs" using e(2) cs by (cases fs rule: rev_cases) auto
  have "a \<noteq> l" using as(2) a cs by auto
  let ?h = "(heap lg)(a := None)"
  have "a \<notin> fst ` set (zip bs fs)" using as(2) a by (auto dest: set_zip_leftD)
  then have seg: "lseg ?h q (zip cs gs @ (l, w) # [])" using q(3) cs gs by simp
  have "distinct (map fst (zip cs gs @ (l, w) # []))" using as(2) a cs gs by simp
  from free_until_prefix [OF seg this] obtain h' where
    h': "free_until ?h q (Some l) = Some (h', Some l)" "lseg h' (Some l) [(l, w)]" "dom h' \<subseteq> dom ?h" by auto
  have "free_until (heap lg) (Some a) (Some l) = Some (h', Some l)"
    using h'(1) q(2) \<open>a \<noteq> l\<close> by (subst free_until.simps) simp
  then have del: "delete_before_last_call lg1 =
      Some (lg1\<lparr>heap := h', p_linger := None, pkt_linger_last := None, readed_linger := False\<rparr>)"
    using h'(2) q(1) as(4) a cs by (auto simp: delete_before_last_call_def lg1_def)
  have fin: "finite (dom h')" using h'(3) as(5) by (auto intro: finite_subset)
  have "h' a = None" using h'(3) by (auto simp: dom_def)
  moreover have "alloc h' \<noteq> a" using alloc [OF fin] q(1) by auto
  ultimately have "walk (h'(alloc h' \<mapsto> \<lparr>nval = v, nnext = None\<rparr>)) (Some a) [] = None"
    by (subst walk.simps) simp
  then show ?thesis
    using del rd1 q(1)
    by (auto simp: dpt_mac_linger_def log_drop_def log_link_def Let_def simp flip: lg1_def)
qed

definition demo_log :: "nat drop_log" where
  "demo_log = \<lparr>heap = [0 \<mapsto> \<lparr>nval = 10, nnext = Some 1\<rparr>, 1 \<mapsto> \<lparr>nval = 20, nnext = None\<rparr>],
     p_linger = Some 0, pkt_linger_last = Some 1, last_call = Some 1, readed_linger = True\<rparr>"

theorem mac_log_race_witness:
  "\<exists>p lg1 lg2. dpt_mac_linger demo_log = (p, lg1) \<and>
     log_drop (\<lambda>h. if dom h = {} then 1 else Suc (Max (dom h))) 30 lg1 = Some lg2 \<and>
     walk (heap lg2) p [] = None"
proof (rule mac_log_race)
  show "log_rep demo_log [10, 20] 2"
    unfolding log_rep_def by (intro conjI exI [of _ "[0, 1]"]) (auto simp: demo_log_def)
  show "h (if dom h = {} then 1 else Suc (Max (dom h))) = None \<and>
      Some (if dom h = {} then 1 else Suc (Max (dom h))) \<noteq> p_linger demo_log"
    if "finite (dom h)" for h :: "nat heap"
    using bump_alloc_fresh [OF that] by (cases "dom h = {}") (auto simp: bump_alloc_def demo_log_def)
qed (simp_all add: demo_log_def)

end
