(* ===== verification/Beacon_List.thy ===== *)
theory Beacon_List
  imports Drop_Log
begin

text \<open>
  The list of access points heard, which \<^verbatim>\<open>project/scan.c\<close> keeps in the kernel heap for the reporter:
  every beacon or probe response updates the entry of its sender or appends one, and then the
  entries that were not heard for a thousand jiffies are removed.

  The list is a heap list as in Drop_Log; an access to freed memory is the value None.  The clock
  and the allocator are arguments.
\<close>

section \<open>Operations\<close>

record beacon_list =
  bl_heap :: "data_beacon heap"
  beacon_global :: "nat option"
  beacon_last :: "nat option"

definition beacon_list_init :: beacon_list where
  "beacon_list_init = \<lparr>bl_heap = Map.empty, beacon_global = None, beacon_last = None\<rparr>"

text \<open>The node before a node, or the last one.\<close>

partial_function (option) find_before :: "data_beacon heap \<Rightarrow> nat \<Rightarrow> nat \<Rightarrow> nat option" where
  "find_before h beacon tmp =
    (case h tmp of
       None \<Rightarrow> None
     | Some n \<Rightarrow>
        (case nnext n of
           None \<Rightarrow> Some tmp
         | Some b \<Rightarrow> if b = beacon then Some tmp else find_before h beacon b))"

definition del_node :: "nat \<Rightarrow> beacon_list \<Rightarrow> beacon_list option" where
  "del_node beacon bl =
    (if Some beacon = beacon_global bl then
       map_option (\<lambda>n. bl\<lparr>bl_heap := (bl_heap bl)(beacon := None), beacon_global := nnext n\<rparr>)
         (bl_heap bl beacon)
     else
       Option.bind (beacon_global bl) (\<lambda>first.
       Option.bind (find_before (bl_heap bl) beacon first) (\<lambda>tmp.
       Option.bind (bl_heap bl beacon) (\<lambda>b.
       Option.bind (bl_heap bl tmp) (\<lambda>t.
       Some (bl\<lparr>bl_heap := (bl_heap bl)(tmp \<mapsto> t\<lparr>nnext := nnext b\<rparr>, beacon := None)\<rparr>))))))"

definition timed_out :: "u32 \<Rightarrow> data_beacon \<Rightarrow> bool" where
  "timed_out jiffies r \<longleftrightarrow> 1000 <s jiffies - be_timein r"

text \<open>The loop over the list goes on from the node that it may have freed.\<close>

partial_function (option) time_out_from :: "u32 \<Rightarrow> nat option \<Rightarrow> beacon_list \<Rightarrow> beacon_list option" where
  "time_out_from jiffies beacon bl =
    (case beacon of
       None \<Rightarrow> Some bl
     | Some a \<Rightarrow>
        (case bl_heap bl a of
           None \<Rightarrow> None
         | Some n \<Rightarrow>
            (case (if timed_out jiffies (nval n) then del_node a bl else Some bl) of
               None \<Rightarrow> None
             | Some bl' \<Rightarrow>
                (case bl_heap bl' a of
                   None \<Rightarrow> None
                 | Some n' \<Rightarrow> time_out_from jiffies (nnext n') bl'))))"

definition beacon_time_out :: "u32 \<Rightarrow> beacon_list \<Rightarrow> beacon_list option" where
  "beacon_time_out jiffies bl = time_out_from jiffies (beacon_global bl) bl"

text \<open>The six bytes of two addresses are equal.\<close>

definition strcmp_linger :: "bytes \<Rightarrow> bytes \<Rightarrow> nat" where
  "strcmp_linger s t =
    (if length (filter (\<lambda>(a, b). a = b) (zip (take 6 s) (take 6 t))) = 6 then 0 else 1)"

partial_function (option) find_from :: "data_beacon heap \<Rightarrow> nat option \<Rightarrow> bytes \<Rightarrow> nat option option" where
  "find_from h beacon bssid =
    (case beacon of
       None \<Rightarrow> Some None
     | Some a \<Rightarrow>
        (case h a of
           None \<Rightarrow> None
         | Some n \<Rightarrow>
            if strcmp_linger (be_bssid (nval n)) bssid = 0 then Some (Some a)
            else find_from h (nnext n) bssid))"

definition find_beacon :: "bytes \<Rightarrow> beacon_list \<Rightarrow> nat option option" where
  "find_beacon bssid bl = find_from (bl_heap bl) (beacon_global bl) bssid"

text \<open>What is known of a frame when it is received.\<close>

record frame =
  fr_sec :: u32
  fr_usec :: u32
  fr_freq :: u16
  fr_signal :: u8
  fr_bssid :: bytes
  fr_jiffies :: u32

definition new_beacon :: "frame \<Rightarrow> data_beacon" where
  "new_beacon f = \<lparr>be_sec = fr_sec f, be_usec = fr_usec f, be_data_rate = 0, be_freq = fr_freq f,
     be_timein = fr_jiffies f, be_signal = fr_signal f, be_pad = 0, be_bssid = fr_bssid f,
     be_pad2 = 0, be_pad1 = 0\<rparr>"

definition refresh_beacon :: "frame \<Rightarrow> data_beacon \<Rightarrow> data_beacon" where
  "refresh_beacon f r = r\<lparr>be_freq := fr_freq f, be_signal := fr_signal f, be_bssid := fr_bssid f,
     be_timein := fr_jiffies f\<rparr>"

definition note_beacon :: "(data_beacon heap \<Rightarrow> nat) \<Rightarrow> frame \<Rightarrow> beacon_list \<Rightarrow> beacon_list option" where
  "note_beacon alloc f bl =
    (let a = alloc (bl_heap bl);
         h = (bl_heap bl)(a \<mapsto> \<lparr>nval = new_beacon f, nnext = None\<rparr>)
     in if beacon_global bl = None then
          Some \<lparr>bl_heap = h, beacon_global = Some a, beacon_last = Some a\<rparr>
        else
          (case find_beacon (fr_bssid f) bl of
             None \<Rightarrow> None
           | Some None \<Rightarrow>
              (case beacon_last bl of
                 None \<Rightarrow> Some (bl\<lparr>bl_heap := h, beacon_last := Some a\<rparr>)
               | Some l \<Rightarrow>
                  map_option (\<lambda>n. bl\<lparr>bl_heap := h(l \<mapsto> n\<lparr>nnext := Some a\<rparr>), beacon_last := Some a\<rparr>)
                    (h l))
           | Some (Some b) \<Rightarrow>
              map_option (\<lambda>n. bl\<lparr>bl_heap := (bl_heap bl)(b \<mapsto> n\<lparr>nval := refresh_beacon f (nval n)\<rparr>)\<rparr>)
                (bl_heap bl b)))"

definition ieee80211_scan_rx :: "(data_beacon heap \<Rightarrow> nat) \<Rightarrow> frame \<Rightarrow> beacon_list \<Rightarrow> beacon_list option" where
  "ieee80211_scan_rx alloc f bl =
    (case note_beacon alloc f bl of None \<Rightarrow> None | Some bl' \<Rightarrow> beacon_time_out (fr_jiffies f) bl')"

section \<open>The abstract list\<close>

definition hear :: "frame \<Rightarrow> data_beacon list \<Rightarrow> data_beacon list" where
  "hear f rs =
    (if fr_bssid f \<in> be_bssid ` set rs
     then map (\<lambda>r. if be_bssid r = fr_bssid f then refresh_beacon f r else r) rs
     else rs @ [new_beacon f])"

definition beacon_rep :: "beacon_list \<Rightarrow> (nat \<times> data_beacon) list \<Rightarrow> bool" where
  "beacon_rep bl xs \<longleftrightarrow> lseg (bl_heap bl) (beacon_global bl) xs \<and> distinct (map fst xs) \<and>
     distinct (map (be_bssid \<circ> snd) xs) \<and> list_all (\<lambda>x. length (be_bssid (snd x)) = 6) xs \<and>
     beacon_last bl = (if xs = [] then None else Some (fst (last xs)))"

lemma bssid_compare_eq:
  assumes "length s = 6" "length t = 6"
  shows "strcmp_linger s t = 0 \<longleftrightarrow> s = t"
proof -
  have "length (filter (\<lambda>(a, b). a = b) (zip s t)) = length (zip s t) \<longleftrightarrow>
      (\<forall>x\<in>set (zip s t). case x of (a, b) \<Rightarrow> a = b)"
    by (metis (no_types, lifting) filter_id_conv length_filter_less nat_neq_iff)
  also have "\<dots> \<longleftrightarrow> s = t" using assms by (auto simp: list_eq_iff_nth_eq set_zip)
  finally show ?thesis using assms by (simp add: strcmp_linger_def)
qed

lemma lseg_change:
  "lseg h p (xs @ (a, v) # ys) \<Longrightarrow> distinct (map fst (xs @ (a, v) # ys)) \<Longrightarrow>
   \<exists>q. h a = Some \<lparr>nval = v, nnext = q\<rparr> \<and> lseg (h(a \<mapsto> \<lparr>nval = w, nnext = q\<rparr>)) p (xs @ (a, w) # ys)"
proof (induction xs arbitrary: p)
  case Nil
  then have "a \<notin> fst ` set ys" by simp
  from lseg_upd_other [OF this] Nil show ?case by (auto simp del: fun_upd_apply simp: fun_upd_same)
next
  case (Cons x xs)
  obtain b u where x: "x = (b, u)" by (cases x)
  with Cons.prems obtain q where q: "p = Some b" "h b = Some \<lparr>nval = u, nnext = q\<rparr>"
    "lseg h q (xs @ (a, v) # ys)" "b \<noteq> a" by auto
  with Cons.IH [of q] Cons.prems x show ?case by auto
qed

lemma find_from_list:
  "lseg h p xs \<Longrightarrow> length bssid = 6 \<Longrightarrow> list_all (\<lambda>x. length (be_bssid (snd x)) = 6) xs \<Longrightarrow>
   find_from h p bssid = Some (map_option fst (find (\<lambda>x. be_bssid (snd x) = bssid) xs))"
proof (induction xs arbitrary: p)
  case Nil
  then show ?case by (subst find_from.simps) simp
next
  case (Cons x xs)
  obtain a r where x: "x = (a, r)" by (cases x)
  from Cons.prems(1) x obtain q where q: "p = Some a" "h a = Some \<lparr>nval = r, nnext = q\<rparr>" "lseg h q xs" by auto
  with Cons.IH [of q] Cons.prems x show ?case
    by (subst find_from.simps) (simp add: bssid_compare_eq)
qed

lemma del_node_frees: "del_node a bl = Some bl' \<Longrightarrow> bl_heap bl' a = None"
  by (auto simp: del_node_def bind_eq_Some_conv split: if_splits)

lemma time_out_from_list:
  "lseg (bl_heap bl) p xs \<Longrightarrow>
   time_out_from j p bl = (if list_all (\<lambda>x. \<not> timed_out j (snd x)) xs then Some bl else None)"
proof (induction xs arbitrary: p)
  case Nil
  then show ?case by (subst time_out_from.simps) simp
next
  case (Cons x xs)
  obtain a r where x: "x = (a, r)" by (cases x)
  from Cons.prems(1) x obtain q where q: "p = Some a" "bl_heap bl a = Some \<lparr>nval = r, nnext = q\<rparr>"
    "lseg (bl_heap bl) q xs" by auto
  show ?case
  proof (cases "timed_out j r")
    case True
    with q x show ?thesis
      by (subst time_out_from.simps) (auto simp: del_node_frees split: option.split)
  next
    case False
    with q x Cons.IH [OF q(3)] show ?thesis by (subst time_out_from.simps) simp
  qed
qed

lemma note_beacon_rep:
  assumes rep: "beacon_rep bl xs" and len: "length (fr_bssid f) = 6"
    and alloc: "alloc (bl_heap bl) \<notin> dom (bl_heap bl)"
  shows "\<exists>bl' ys. note_beacon alloc f bl = Some bl' \<and> beacon_rep bl' ys \<and> map snd ys = hear f (map snd xs)"
proof -
  let ?a = "alloc (bl_heap bl)"
  from rep have l: "lseg (bl_heap bl) (beacon_global bl) xs" "distinct (map fst xs)"
    "distinct (map (be_bssid \<circ> snd) xs)" "list_all (\<lambda>x. length (be_bssid (snd x)) = 6) xs"
    "beacon_last bl = (if xs = [] then None else Some (fst (last xs)))" by (simp_all add: beacon_rep_def)
  have fresh: "?a \<notin> fst ` set xs"
  proof
    assume "?a \<in> fst ` set xs"
    with lseg_dom [OF l(1)] have "?a \<in> dom (bl_heap bl)" by fastforce
    with alloc show False by contradiction
  qed
  have find: "find_beacon (fr_bssid f) bl = Some (map_option fst (find (\<lambda>x. be_bssid (snd x) = fr_bssid f) xs))"
    using find_from_list [OF l(1) len l(4)] by (simp add: find_beacon_def)
  consider "xs = []" | "xs \<noteq> []" "fr_bssid f \<notin> be_bssid ` snd ` set xs" | "fr_bssid f \<in> be_bssid ` snd ` set xs"
    by blast
  then show ?thesis
  proof cases
    case 1
    with l(1) have g: "beacon_global bl = None" by simp
    show ?thesis
      by (rule exI [where x = "\<lparr>bl_heap = (bl_heap bl)(?a \<mapsto> \<lparr>nval = new_beacon f, nnext = None\<rparr>),
            beacon_global = Some ?a, beacon_last = Some ?a\<rparr>"],
          rule exI [where x = "[(?a, new_beacon f)]"])
        (use g 1 len in \<open>simp add: note_beacon_def Let_def beacon_rep_def hear_def new_beacon_def\<close>)
  next
    case 2
    then obtain zs b w where xs: "xs = zs @ [(b, w)]" by (metis rev_exhaust surj_pair)
    obtain first where g: "beacon_global bl = Some first" using l(1) 2(1) by (cases xs) auto
    have none: "find (\<lambda>x. be_bssid (snd x) = fr_bssid f) xs = None"
      using 2(2) by (force simp: find_None_iff)
    let ?h = "(bl_heap bl)(?a \<mapsto> \<lparr>nval = new_beacon f, nnext = None\<rparr>)"
    have hb: "?h b = Some \<lparr>nval = w, nnext = None\<rparr>"
    proof -
      have "\<exists>q. bl_heap bl b = Some \<lparr>nval = w, nnext = q\<rparr> \<and> lseg (bl_heap bl) q []"
        using lseg_nth [OF l(1), of "length zs"] xs by simp
      with fresh xs show ?thesis by auto
    qed
    let ?bl = "bl\<lparr>bl_heap := ?h(b \<mapsto> \<lparr>nval = w, nnext = Some ?a\<rparr>), beacon_last := Some ?a\<rparr>"
    have "note_beacon alloc f bl = Some ?bl"
      using g find none hb l(5) xs by (simp add: note_beacon_def Let_def)
    moreover have "beacon_rep ?bl (xs @ [(?a, new_beacon f)])"
      using lseg_append [of "bl_heap bl" "beacon_global bl" zs b w ?a "new_beacon f"] l fresh xs 2(2) len
      by (auto simp: beacon_rep_def new_beacon_def)
    moreover have "map snd (xs @ [(?a, new_beacon f)]) = hear f (map snd xs)"
      using 2(2) by (simp add: hear_def)
    ultimately show ?thesis by blast
  next
    case 3
    then obtain b r where br: "(b, r) \<in> set xs" "be_bssid r = fr_bssid f" by auto
    then obtain us vs where xs: "xs = us @ (b, r) # vs" by (meson split_list)
    have others: "fr_bssid f \<notin> be_bssid ` snd ` set us" "fr_bssid f \<notin> be_bssid ` snd ` set vs"
      using l(3) xs br(2) by (auto simp: image_comp)
    obtain first where g: "beacon_global bl = Some first" using l(1) xs by (cases us) auto
    have some: "find (\<lambda>x. be_bssid (snd x) = fr_bssid f) xs = Some (b, r)"
      using xs others br(2) by (induction us arbitrary: xs) auto
    let ?r = "refresh_beacon f r"
    from lseg_change [of "bl_heap bl" "beacon_global bl" us b r vs ?r] l xs obtain q where
      q: "bl_heap bl b = Some \<lparr>nval = r, nnext = q\<rparr>"
        "lseg ((bl_heap bl)(b \<mapsto> \<lparr>nval = ?r, nnext = q\<rparr>)) (beacon_global bl) (us @ (b, ?r) # vs)" by auto
    let ?bl = "bl\<lparr>bl_heap := (bl_heap bl)(b \<mapsto> \<lparr>nval = ?r, nnext = q\<rparr>)\<rparr>"
    have "note_beacon alloc f bl = Some ?bl"
      using g find some q by (simp add: note_beacon_def Let_def)
    moreover have "beacon_rep ?bl (us @ (b, ?r) # vs)"
      using q(2) l xs br(2) len by (auto simp: beacon_rep_def refresh_beacon_def)
    moreover have "map snd (us @ (b, ?r) # vs) = hear f (map snd xs)"
    proof -
      have "\<forall>x\<in>set us. be_bssid (snd x) \<noteq> fr_bssid f" "\<forall>x\<in>set vs. be_bssid (snd x) \<noteq> fr_bssid f"
        using others by force+
      with br(2) xs show ?thesis by (simp add: hear_def)
    qed
    ultimately show ?thesis by blast
  qed
qed

text \<open>
  C8.  Receiving a frame keeps the list well formed and has the effect of the abstract list as
  long as no entry is out of date; the first entry that is, makes the function read a freed node.
\<close>

theorem scan_rx_refines:
  assumes "beacon_rep bl xs" "length (fr_bssid f) = 6" "alloc (bl_heap bl) \<notin> dom (bl_heap bl)"
  shows "if list_all (\<lambda>r. \<not> timed_out (fr_jiffies f) r) (hear f (map snd xs))
    then \<exists>bl' ys. ieee80211_scan_rx alloc f bl = Some bl' \<and> beacon_rep bl' ys \<and> map snd ys = hear f (map snd xs)
    else ieee80211_scan_rx alloc f bl = None"
proof -
  from note_beacon_rep [of bl xs f alloc, OF assms] obtain bl' ys where n: "note_beacon alloc f bl = Some bl'"
    "beacon_rep bl' ys" "map snd ys = hear f (map snd xs)" by blast
  have "time_out_from (fr_jiffies f) (beacon_global bl') bl' =
      (if list_all (\<lambda>x. \<not> timed_out (fr_jiffies f) (snd x)) ys then Some bl' else None)"
    by (rule time_out_from_list) (use n(2) in \<open>simp add: beacon_rep_def\<close>)
  moreover have "list_all (\<lambda>x. \<not> timed_out (fr_jiffies f) (snd x)) ys \<longleftrightarrow>
      list_all (\<lambda>r. \<not> timed_out (fr_jiffies f) r) (hear f (map snd xs))"
    unfolding n(3) [symmetric] by (simp add: list.pred_map comp_def)
  ultimately show ?thesis using n by (auto simp: ieee80211_scan_rx_def beacon_time_out_def)
qed

text \<open>
  An access point that is heard again keeps the time stamp of the first frame, so the list
  shows the reporter no newer stamp for it.
\<close>

lemma hear_stamps: "fr_bssid f \<in> be_bssid ` set rs \<Longrightarrow>
   map (\<lambda>r. (be_sec r, be_usec r)) (hear f rs) = map (\<lambda>r. (be_sec r, be_usec r)) rs"
  by (simp add: hear_def refresh_beacon_def)

definition example_frame :: "u32 \<Rightarrow> frame" where
  "example_frame j = \<lparr>fr_sec = 9, fr_usec = 0, fr_freq = 2412, fr_signal = 200,
     fr_bssid = [1,2,3,4,5,6], fr_jiffies = j\<rparr>"

theorem scan_rx_refines_witness:
  "if list_all (\<lambda>r. \<not> timed_out (fr_jiffies (example_frame 5)) r) (hear (example_frame 5) (map snd ([] :: (nat \<times> data_beacon) list)))
   then \<exists>bl' ys. ieee80211_scan_rx (\<lambda>h. 1) (example_frame 5) beacon_list_init = Some bl' \<and>
     beacon_rep bl' ys \<and> map snd ys = hear (example_frame 5) (map snd ([] :: (nat \<times> data_beacon) list))
   else ieee80211_scan_rx (\<lambda>h. 1) (example_frame 5) beacon_list_init = None"
  by (rule scan_rx_refines [where alloc = "\<lambda>h. 1"]) (simp_all add: beacon_rep_def beacon_list_init_def example_frame_def)

end
