(* ===== verification/Neighbour_List.thy ===== *)
theory Neighbour_List
  imports Receiver Beacon_List
begin

text \<open>
  The lists that the decoders of the experimental receiver, \<^verbatim>\<open>EXP/receive.c\<close>, keep for its statistics
  thread, in an explicit heap as in Drop_Log: chains with a head and a tail, to which measurements
  are appended, and the list of neighbours, from which the entries older than ten seconds are
  removed.  The allocator is an argument; an access to null or freed memory is the value None.
\<close>

section \<open>Chains\<close>

record 'v chain =
  ch_heap :: "'v heap"
  ch_head :: "nat option"
  ch_tail :: "nat option"

definition chain_init :: "'v chain" where
  "chain_init = \<lparr>ch_heap = Map.empty, ch_head = None, ch_tail = None\<rparr>"

definition chain_append :: "('v heap \<Rightarrow> nat) \<Rightarrow> 'v \<Rightarrow> 'v chain \<Rightarrow> 'v chain option" where
  "chain_append alloc v c =
    (let a = alloc (ch_heap c);
         h = (ch_heap c)(a \<mapsto> \<lparr>nval = v, nnext = None\<rparr>)
     in if ch_head c = None then Some \<lparr>ch_heap = h, ch_head = Some a, ch_tail = Some a\<rparr>
        else
          (case ch_tail c of
             None \<Rightarrow> None
           | Some l \<Rightarrow>
              map_option (\<lambda>n. c\<lparr>ch_heap := h(l \<mapsto> n\<lparr>nnext := Some a\<rparr>), ch_tail := Some a\<rparr>) (h l)))"

definition first_ptr :: "(nat \<times> 'v) list \<Rightarrow> nat option" where
  "first_ptr xs = (case xs of [] \<Rightarrow> None | x # _ \<Rightarrow> Some (fst x))"

definition last_ptr :: "(nat \<times> 'v) list \<Rightarrow> nat option" where
  "last_ptr xs = (if xs = [] then None else Some (fst (last xs)))"

definition chain_rep :: "'v chain \<Rightarrow> (nat \<times> 'v) list \<Rightarrow> bool" where
  "chain_rep c xs \<longleftrightarrow> lseg (ch_heap c) (ch_head c) xs \<and> distinct (map fst xs) \<and> ch_tail c = last_ptr xs \<and>
     finite (dom (ch_heap c))"

lemma first_ptr_simps [simp]: "first_ptr [] = None" "first_ptr (x # xs) = Some (fst x)"
  by (simp_all add: first_ptr_def)

lemma last_ptr_simps [simp]:
  "last_ptr [] = None" "last_ptr [x] = Some (fst x)" "last_ptr (xs @ [x]) = Some (fst x)"
  "ys \<noteq> [] \<Longrightarrow> last_ptr (xs @ ys) = last_ptr ys" "last_ptr (x # y # zs) = last_ptr (y # zs)"
  by (simp_all add: last_ptr_def)

lemma last_ptr_Cons: "last_ptr (x # xs) = Some (fst (last (x # xs)))"
  by (simp add: last_ptr_def)

lemma lseg_first: "lseg h p xs \<Longrightarrow> p = first_ptr xs"
  by (cases xs) auto

lemma lseg_read:
  "lseg h p (us @ (a, v) # xs) \<Longrightarrow> h a = Some \<lparr>nval = v, nnext = first_ptr xs\<rparr>"
  by (induction us arbitrary: p) (auto simp: lseg_first)

lemma lseg_write:
  assumes "lseg h p (us @ (a, v) # xs)" "distinct (map fst (us @ (a, v) # xs))"
  shows "lseg (h(a \<mapsto> \<lparr>nval = w, nnext = first_ptr xs\<rparr>)) p (us @ (a, w) # xs)"
  using lseg_change [OF assms, of w] lseg_read [OF assms(1)] by auto

text \<open>Taking a node out of the list.\<close>

lemma lseg_unlink:
  "lseg h p (us @ (l, w) # (a, v) # xs) \<Longrightarrow> distinct (map fst (us @ (l, w) # (a, v) # xs)) \<Longrightarrow>
   lseg (h(l \<mapsto> \<lparr>nval = w, nnext = first_ptr xs\<rparr>, a := None)) p (us @ (l, w) # xs)"
proof (induction us arbitrary: p)
  case Nil
  then obtain q where q: "p = Some l" "lseg h q xs" "l \<noteq> a" "l \<notin> fst ` set xs" "a \<notin> fst ` set xs" by auto
  then have "lseg (h(l \<mapsto> \<lparr>nval = w, nnext = first_ptr xs\<rparr>, a := None)) (first_ptr xs) xs"
    using lseg_first [OF q(2)] by (simp del: fun_upd_apply)
  with q show ?case by (simp del: fun_upd_apply add: fun_upd_same fun_upd_other)
next
  case (Cons u us)
  obtain b z where u: "u = (b, z)" by (cases u)
  with Cons.prems obtain q where "p = Some b" "h b = Some \<lparr>nval = z, nnext = q\<rparr>"
    "lseg h q (us @ (l, w) # (a, v) # xs)" by auto
  with Cons.IH [of q] Cons.prems u show ?case by auto
qed

lemma chain_rep_init [simp]: "chain_rep chain_init []"
  by (simp add: chain_rep_def chain_init_def)

lemma chain_append_rep:
  assumes rep: "chain_rep c xs" and alloc: "alloc (ch_heap c) \<notin> dom (ch_heap c)"
  shows "\<exists>c'. chain_append alloc v c = Some c' \<and> chain_rep c' (xs @ [(alloc (ch_heap c), v)])"
proof (cases xs rule: rev_cases)
  case Nil
  with rep show ?thesis by (simp add: chain_append_def chain_rep_def Let_def)
next
  case (snoc us x)
  let ?a = "alloc (ch_heap c)"
  obtain l w where x: "x = (l, w)" by (cases x)
  from rep snoc x have l: "lseg (ch_heap c) (ch_head c) (us @ [(l, w)])" "distinct (map fst (us @ [(l, w)]))"
    "ch_tail c = Some l" "finite (dom (ch_heap c))" by (simp_all add: chain_rep_def)
  have fresh: "?a \<notin> fst ` set (us @ [(l, w)])" using lseg_dom [OF l(1)] alloc by fastforce
  have "ch_heap c l = Some \<lparr>nval = w, nnext = None\<rparr>" using lseg_read [OF l(1)] by simp
  moreover have "ch_head c \<noteq> None" using l(1) by (cases us) auto
  ultimately show ?thesis
    using lseg_append [OF l(1,2) fresh, of v] l fresh snoc x
    by (auto simp: chain_append_def chain_rep_def Let_def)
qed

section \<open>Neighbours\<close>

record station =
  sn_station :: bytes
  sn_sec :: u32
  sn_count :: u32

type_synonym station_list = "station chain"

definition stale :: "u32 \<Rightarrow> station \<Rightarrow> bool" where
  "stale sec s \<longleftrightarrow> 10 < sec - sn_sec s"

text \<open>The node before the tail.\<close>

partial_function (option) find_pre :: "'v heap \<Rightarrow> nat option \<Rightarrow> nat option \<Rightarrow> nat option \<Rightarrow> nat option option" where
  "find_pre h stop pre tmp1 =
    (if tmp1 = stop then Some pre
     else
       (case tmp1 of
          None \<Rightarrow> None
        | Some a \<Rightarrow> (case h a of None \<Rightarrow> None | Some n \<Rightarrow> find_pre h stop (Some a) (nnext n))))"

definition remove_tail :: "nat \<Rightarrow> 'v chain \<Rightarrow> 'v chain option" where
  "remove_tail a c =
    (case find_pre (ch_heap c) (ch_tail c) None (ch_head c) of
       Some (Some pre) \<Rightarrow>
         map_option (\<lambda>n. c\<lparr>ch_heap := (ch_heap c)(pre \<mapsto> n\<lparr>nnext := None\<rparr>, a := None), ch_tail := Some pre\<rparr>)
           (ch_heap c pre)
     | _ \<Rightarrow> None)"

text \<open>
  The loop over the list; \<open>prev\<close> is the node before \<open>tlist\<close>.  After the removal of a middle node
  the loop goes on behind the node that follows it.
\<close>

partial_function (option) expire_from :: "u32 \<Rightarrow> nat option \<Rightarrow> nat option \<Rightarrow> station_list \<Rightarrow> station_list option" where
  "expire_from sec prev tlist c =
    (case tlist of
       None \<Rightarrow> Some c
     | Some a \<Rightarrow>
        (case ch_heap c a of
           None \<Rightarrow> None
         | Some n \<Rightarrow>
            if stale sec (nval n) then
              if tlist = ch_head c then
                if ch_head c = ch_tail c then
                  Some (c\<lparr>ch_heap := (ch_heap c)(a := None), ch_head := None, ch_tail := None\<rparr>)
                else
                  expire_from sec prev (nnext n) (c\<lparr>ch_heap := (ch_heap c)(a := None), ch_head := nnext n\<rparr>)
              else if tlist = ch_tail c then remove_tail a c
              else
                Option.bind prev (\<lambda>l.
                Option.bind (ch_heap c l) (\<lambda>ln.
                Option.bind (nnext n) (\<lambda>b.
                let h = (ch_heap c)(l \<mapsto> ln\<lparr>nnext := Some b\<rparr>, a := None) in
                Option.bind (h b) (\<lambda>bn.
                expire_from sec (Some b) (nnext bn) (c\<lparr>ch_heap := h\<rparr>)))))
            else expire_from sec tlist (nnext n) c))"

text \<open>The first node with an address; \<open>key\<close> selects the address of an entry.\<close>

partial_function (option) find_node :: "('v \<Rightarrow> bytes) \<Rightarrow> 'v heap \<Rightarrow> nat option \<Rightarrow> bytes \<Rightarrow> nat option option" where
  "find_node key h tlist mac =
    (case tlist of
       None \<Rightarrow> Some None
     | Some a \<Rightarrow>
        (case h a of
           None \<Rightarrow> None
         | Some n \<Rightarrow>
            if strcmp_linger (key (nval n)) mac = 0 then Some (Some a)
            else find_node key h (nnext n) mac))"

definition find_station :: "station_list \<Rightarrow> bytes \<Rightarrow> nat option option" where
  "find_station c bssid = find_node sn_station (ch_heap c) (ch_head c) bssid"

text \<open>The count is kept in the first node only.\<close>

definition count_head :: "station_list \<Rightarrow> station_list option" where
  "count_head c =
    Option.bind (ch_head c) (\<lambda>a.
      map_option (\<lambda>n. c\<lparr>ch_heap := (ch_heap c)(a \<mapsto> n\<lparr>nval := (nval n)\<lparr>sn_count := sn_count (nval n) + 1\<rparr>\<rparr>)\<rparr>)
        (ch_heap c a))"

definition insert_station :: "(station heap \<Rightarrow> nat) \<Rightarrow> bytes \<Rightarrow> u32 \<Rightarrow> station_list \<Rightarrow> station_list option" where
  "insert_station alloc bssid sec c =
    (if ch_head c = None
     then chain_append alloc \<lparr>sn_station = bssid, sn_sec = sec, sn_count = 1\<rparr> c
     else Option.bind (chain_append alloc \<lparr>sn_station = bssid, sn_sec = sec, sn_count = 0\<rparr> c) count_head)"

definition note_neighbour :: "(station heap \<Rightarrow> nat) \<Rightarrow> bytes \<Rightarrow> bytes \<Rightarrow> u32 \<Rightarrow> station_list \<Rightarrow> station_list option" where
  "note_neighbour alloc mac bssid sec c =
    (if ch_head c = None
     then chain_append alloc \<lparr>sn_station = mac, sn_sec = sec, sn_count = 1\<rparr> c
     else
       Option.bind (expire_from sec None (ch_head c) c) (\<lambda>c1.
       Option.bind (find_station c1 bssid) (\<lambda>found.
       case found of
         Some a \<Rightarrow>
           map_option (\<lambda>n. c1\<lparr>ch_heap := (ch_heap c1)(a \<mapsto> n\<lparr>nval := (nval n)\<lparr>sn_sec := sec\<rparr>\<rparr>)\<rparr>) (ch_heap c1 a)
       | None \<Rightarrow> insert_station alloc bssid sec c1)))"

section \<open>The abstract list\<close>

text \<open>
  What remains of the entries: at the front all stale ones go, behind an entry that stays one
  stale entry goes and its successor stays unseen.
\<close>

fun expire_rest :: "('a \<Rightarrow> bool) \<Rightarrow> 'a list \<Rightarrow> 'a list" where
  "expire_rest P [] = []"
| "expire_rest P [x] = (if P x then [] else [x])"
| "expire_rest P (x # y # zs) =
    (if P x then y # expire_rest P zs else x # expire_rest P (y # zs))"

fun expire_list :: "('a \<Rightarrow> bool) \<Rightarrow> 'a list \<Rightarrow> 'a list" where
  "expire_list P [] = []"
| "expire_list P (x # xs) = (if P x then expire_list P xs else x # expire_rest P xs)"

fun update_first :: "('a \<Rightarrow> bool) \<Rightarrow> ('a \<Rightarrow> 'a) \<Rightarrow> 'a list \<Rightarrow> 'a list" where
  "update_first P f [] = []"
| "update_first P f (x # xs) = (if P x then f x # xs else x # update_first P f xs)"

definition add_station :: "bytes \<Rightarrow> u32 \<Rightarrow> station list \<Rightarrow> station list" where
  "add_station bssid sec xs =
    (case xs of
       [] \<Rightarrow> [\<lparr>sn_station = bssid, sn_sec = sec, sn_count = 1\<rparr>]
     | x # ys \<Rightarrow> x\<lparr>sn_count := sn_count x + 1\<rparr> # ys @ [\<lparr>sn_station = bssid, sn_sec = sec, sn_count = 0\<rparr>])"

definition hear_neighbour :: "bytes \<Rightarrow> bytes \<Rightarrow> u32 \<Rightarrow> station list \<Rightarrow> station list" where
  "hear_neighbour mac bssid sec xs =
    (if xs = [] then [\<lparr>sn_station = mac, sn_sec = sec, sn_count = 1\<rparr>]
     else
       let ys = expire_list (stale sec) xs
       in if bssid \<in> sn_station ` set ys
          then update_first (\<lambda>s. sn_station s = bssid) (\<lambda>s. s\<lparr>sn_sec := sec\<rparr>) ys
          else add_station bssid sec ys)"

lemma find_pre_tail:
  "lseg h p (us @ [(l, w), (a, v)]) \<Longrightarrow> distinct (map fst (us @ [(l, w), (a, v)])) \<Longrightarrow>
   find_pre h (Some a) q p = Some (Some l)"
proof (induction us arbitrary: p q)
  case Nil
  then show ?case by (subst find_pre.simps, simp, subst find_pre.simps) auto
next
  case (Cons u us)
  obtain b z where u: "u = (b, z)" by (cases u)
  with Cons.prems obtain r where r: "p = Some b" "h b = Some \<lparr>nval = z, nnext = r\<rparr>"
    "lseg h r (us @ [(l, w), (a, v)])" "b \<noteq> a" by auto
  with Cons.IH [of r "Some b"] Cons.prems show ?case by (subst find_pre.simps) simp
qed

lemma remove_tail_rep:
  assumes "chain_rep c (us @ [(l, w), (a, v)])"
  shows "\<exists>c'. remove_tail a c = Some c' \<and> chain_rep c' (us @ [(l, w)])"
proof -
  from assms have l: "lseg (ch_heap c) (ch_head c) (us @ [(l, w), (a, v)])"
    "distinct (map fst (us @ [(l, w), (a, v)]))" "ch_tail c = Some a" "finite (dom (ch_heap c))"
    by (simp_all add: chain_rep_def)
  moreover have "ch_heap c l = Some \<lparr>nval = w, nnext = Some a\<rparr>" using lseg_read [of "ch_heap c" "ch_head c" us l w "[(a, v)]"] l(1) by simp
  ultimately show ?thesis
    using find_pre_tail [OF l(1,2)] lseg_unlink [of "ch_heap c" "ch_head c" us l w a v "[]"]
    by (auto simp: remove_tail_def chain_rep_def)
qed

lemma expire_rest_rep:
  "chain_rep c (us @ (l, w) # xs) \<Longrightarrow>
   \<exists>c'. expire_from sec (Some l) (first_ptr xs) c = Some c' \<and>
     chain_rep c' (us @ (l, w) # expire_rest (\<lambda>x. stale sec (snd x)) xs)"
proof (induction "\<lambda>x :: nat \<times> station. stale sec (snd x)" xs arbitrary: us l w c rule: expire_rest.induct)
  case 1
  then show ?case by (subst expire_from.simps) auto
next
  case (2 x)
  obtain a v where x: "x = (a, v)" by (cases x)
  from 2 x have l: "lseg (ch_heap c) (ch_head c) (us @ [(l, w), (a, v)])"
    "distinct (map fst (us @ [(l, w), (a, v)]))" "ch_tail c = Some a" by (simp_all add: chain_rep_def)
  have a: "ch_heap c a = Some \<lparr>nval = v, nnext = None\<rparr>"
    using lseg_read [of "ch_heap c" "ch_head c" "us @ [(l, w)]" a v "[]"] l(1) by simp
  have "Some a \<noteq> ch_head c" using l(1,2) lseg_first [OF l(1)] by (cases us) auto
  with a l(3) x remove_tail_rep [of c us l w a v] 2 show ?case
    by (subst expire_from.simps) (auto simp: expire_from.simps [of _ _ None])
next
  case (3 x y zs)
  obtain a v where x: "x = (a, v)" by (cases x)
  obtain b u where y: "y = (b, u)" by (cases y)
  from "3.prems" x y have l: "lseg (ch_heap c) (ch_head c) (us @ (l, w) # (a, v) # (b, u) # zs)"
    "distinct (map fst (us @ (l, w) # (a, v) # (b, u) # zs))" "ch_tail c = last_ptr (y # zs)" "finite (dom (ch_heap c))"
    by (simp_all add: chain_rep_def)
  have reads: "ch_heap c a = Some \<lparr>nval = v, nnext = Some b\<rparr>" "ch_heap c l = Some \<lparr>nval = w, nnext = Some a\<rparr>"
    "ch_heap c b = Some \<lparr>nval = u, nnext = first_ptr zs\<rparr>"
    using lseg_read [of "ch_heap c" "ch_head c" "us @ [(l, w)]" a v "(b, u) # zs"]
      lseg_read [of "ch_heap c" "ch_head c" us l w "(a, v) # (b, u) # zs"]
      lseg_read [of "ch_heap c" "ch_head c" "us @ [(l, w), (a, v)]" b u zs] l(1) by simp_all
  show ?case
  proof (cases "stale sec v")
    case False
    with "3.hyps"(2) [of c "us @ [(l, w)]" a v] "3.prems" x y reads show ?thesis
      by (subst expire_from.simps) simp
  next
    case True
    have head: "Some a \<noteq> ch_head c" using l(2) lseg_first [OF l(1)] by (cases us) auto
    have tail: "Some a \<noteq> ch_tail c" using l(2,3) y by (auto simp: last_ptr_def)
    let ?h = "(ch_heap c)(l \<mapsto> \<lparr>nval = w, nnext = Some b\<rparr>, a := None)"
    have "chain_rep (c\<lparr>ch_heap := ?h\<rparr>) ((us @ [(l, w)]) @ (b, u) # zs)"
      using lseg_unlink [OF l(1,2)] l(2,3,4) y by (auto simp: chain_rep_def)
    from "3.hyps"(1) [OF _ this] True x obtain c' where c':
      "expire_from sec (Some b) (first_ptr zs) (c\<lparr>ch_heap := ?h\<rparr>) = Some c'"
      "chain_rep c' ((us @ [(l, w)]) @ (b, u) # expire_rest (\<lambda>x. stale sec (snd x)) zs)" by auto
    have "b \<noteq> a" "b \<noteq> l" "l \<noteq> a" using l(2) by auto
    with True x y reads head tail c' show ?thesis
      by (subst expire_from.simps) (simp add: Let_def)
  qed
qed

lemma expire_from_rep:
  "chain_rep c xs \<Longrightarrow>
   \<exists>c'. expire_from sec None (ch_head c) c = Some c' \<and>
     chain_rep c' (expire_list (\<lambda>x. stale sec (snd x)) xs)"
proof (induction xs arbitrary: c)
  case Nil
  then have "ch_head c = None" by (simp add: chain_rep_def)
  with Nil show ?case by (subst expire_from.simps) auto
next
  case (Cons x xs)
  obtain a v where x: "x = (a, v)" by (cases x)
  from Cons.prems x have l: "lseg (ch_heap c) (Some a) ((a, v) # xs)" "distinct (map fst ((a, v) # xs))"
    "ch_tail c = last_ptr ((a, v) # xs)" "ch_head c = Some a" "finite (dom (ch_heap c))"
    by (auto simp: chain_rep_def)
  have read: "ch_heap c a = Some \<lparr>nval = v, nnext = first_ptr xs\<rparr>"
    using lseg_read [of "ch_heap c" _ "[]" a v xs] l(1) by simp
  show ?case
  proof (cases "stale sec v")
    case False
    with expire_rest_rep [of c "[]" a v xs sec] Cons.prems x read l(4) show ?thesis
      by (subst expire_from.simps) simp
  next
    case True
    show ?thesis
    proof (cases xs)
      case Nil
      with True x read l show ?thesis by (subst expire_from.simps) (simp add: chain_rep_def)
    next
      case (Cons y ys)
      have tail: "ch_tail c \<noteq> Some a" using l(2,3) Cons by (auto simp: last_ptr_def)
      let ?c = "c\<lparr>ch_heap := (ch_heap c)(a := None), ch_head := first_ptr xs\<rparr>"
      have "lseg (ch_heap c) (first_ptr xs) xs" using l(1) lseg_first by (auto dest: lseg_first)
      then have "chain_rep ?c xs" using l(2,3,5) Cons by (simp add: chain_rep_def del: fun_upd_apply)
      from Cons.IH [OF this] True x read l(4) tail show ?thesis
        by (subst expire_from.simps) simp
    qed
  qed
qed

lemma expire_list_map: "expire_list P (map f xs) = map f (expire_list (P \<circ> f) xs)"
proof -
  have "expire_rest P (map f ys) = map f (expire_rest (P \<circ> f) ys)" for ys
    by (induction "P \<circ> f" ys rule: expire_rest.induct) auto
  then show ?thesis by (induction xs) auto
qed

lemma set_expire_list: "set (expire_list P xs) \<subseteq> set xs"
proof -
  have "set (expire_rest P ys) \<subseteq> set ys" for ys
    by (induction P ys rule: expire_rest.induct) auto
  then show ?thesis by (induction xs) (auto dest: subsetD)
qed

lemma find_node_list:
  "lseg h p xs \<Longrightarrow> length mac = 6 \<Longrightarrow> list_all (\<lambda>x. length (key (snd x)) = 6) xs \<Longrightarrow>
   find_node key h p mac = Some (map_option fst (find (\<lambda>x. key (snd x) = mac) xs))"
proof (induction xs arbitrary: p)
  case Nil
  then show ?case by (subst find_node.simps) simp
next
  case (Cons x xs)
  obtain a r where x: "x = (a, r)" by (cases x)
  from Cons.prems(1) x obtain q where q: "p = Some a" "h a = Some \<lparr>nval = r, nnext = q\<rparr>" "lseg h q xs" by auto
  with Cons.IH [of q] Cons.prems x show ?case
    by (subst find_node.simps) (simp add: bssid_compare_eq)
qed

lemma chain_write:
  assumes "chain_rep c (us @ (a, v) # xs)"
  shows "ch_heap c a = Some \<lparr>nval = v, nnext = first_ptr xs\<rparr> \<and>
    chain_rep (c\<lparr>ch_heap := (ch_heap c)(a \<mapsto> \<lparr>nval = w, nnext = first_ptr xs\<rparr>)\<rparr>) (us @ (a, w) # xs)"
  using assms lseg_read [of "ch_heap c" "ch_head c" us a v xs] lseg_write [of "ch_heap c" "ch_head c" us a v xs w]
  by (auto simp: chain_rep_def last_ptr_def)

lemma count_head_rep:
  "chain_rep c ((a, v) # xs) \<Longrightarrow>
   \<exists>c'. count_head c = Some c' \<and> chain_rep c' ((a, v\<lparr>sn_count := sn_count v + 1\<rparr>) # xs)"
  using chain_write [of c "[]" a v xs "v\<lparr>sn_count := sn_count v + 1\<rparr>"]
  by (auto simp: count_head_def chain_rep_def)

lemma insert_station_rep:
  assumes rep: "chain_rep c xs" and alloc: "alloc (ch_heap c) \<notin> dom (ch_heap c)"
  shows "\<exists>c' ys. insert_station alloc bssid sec c = Some c' \<and> chain_rep c' ys \<and>
    map snd ys = add_station bssid sec (map snd xs)"
proof (cases xs)
  case Nil
  then have "ch_head c = None" using rep by (simp add: chain_rep_def)
  with chain_append_rep [OF rep, of alloc "\<lparr>sn_station = bssid, sn_sec = sec, sn_count = 1\<rparr>"] alloc Nil
  obtain c' where "chain_append alloc \<lparr>sn_station = bssid, sn_sec = sec, sn_count = 1\<rparr> c = Some c'"
    "chain_rep c' [(alloc (ch_heap c), \<lparr>sn_station = bssid, sn_sec = sec, sn_count = 1\<rparr>)]" by auto
  moreover from this have "insert_station alloc bssid sec c = Some c'"
    using \<open>ch_head c = None\<close> by (simp add: insert_station_def)
  ultimately show ?thesis using Nil by (intro exI conjI) (auto simp: add_station_def)
next
  case (Cons x zs)
  obtain a v where x: "x = (a, v)" by (cases x)
  have head: "ch_head c \<noteq> None" using rep Cons x by (auto simp: chain_rep_def)
  obtain c1 where c1: "chain_append alloc \<lparr>sn_station = bssid, sn_sec = sec, sn_count = 0\<rparr> c = Some c1"
    "chain_rep c1 (xs @ [(alloc (ch_heap c), \<lparr>sn_station = bssid, sn_sec = sec, sn_count = 0\<rparr>)])"
    using chain_append_rep [of c xs alloc, OF rep alloc] by blast
  with count_head_rep [of c1 a v] Cons x head show ?thesis
    by (fastforce simp: insert_station_def add_station_def)
qed

lemma find_split:
  "find P xs = Some x \<Longrightarrow> \<exists>us vs. xs = us @ x # vs \<and> P x \<and> (\<forall>u\<in>set us. \<not> P u)"
proof (induction xs)
  case Nil
  then show ?case by simp
next
  case (Cons y ys)
  then show ?case
    by (cases "P y") (force intro: exI [of _ "[]"], metis append_Cons find.simps(2) set_ConsD)
qed

lemma update_first_skip:
  "\<forall>u\<in>set us. \<not> P u \<Longrightarrow> update_first P f (us @ xs) = us @ update_first P f xs"
  by (induction us) auto

lemma note_neighbour_rep:
  assumes rep: "chain_rep c xs" and len: "length bssid = 6" "list_all (\<lambda>s. length (sn_station s) = 6) (map snd xs)"
    and fresh: "\<And>h. finite (dom h) \<Longrightarrow> alloc h \<notin> dom h"
  shows "\<exists>c' ys. note_neighbour alloc mac bssid sec c = Some c' \<and> chain_rep c' ys \<and>
    map snd ys = hear_neighbour mac bssid sec (map snd xs)"
proof -
  have fin: "finite (dom (ch_heap c))" using rep by (simp add: chain_rep_def)
  show ?thesis
proof (cases xs)
  case Nil
  then have "ch_head c = None" using rep by (simp add: chain_rep_def)
  with chain_append_rep [OF rep, of alloc "\<lparr>sn_station = mac, sn_sec = sec, sn_count = 1\<rparr>"] fresh [OF fin] Nil
  obtain c' where "note_neighbour alloc mac bssid sec c = Some c'"
    "chain_rep c' [(alloc (ch_heap c), \<lparr>sn_station = mac, sn_sec = sec, sn_count = 1\<rparr>)]"
    by (auto simp: note_neighbour_def)
  with Nil show ?thesis by (intro exI conjI) (auto simp: hear_neighbour_def)
next
  case (Cons x zs)
  then have head: "ch_head c \<noteq> None" using rep by (cases x) (auto simp: chain_rep_def)
  let ?ys = "expire_list (\<lambda>x. stale sec (snd x)) xs"
  have ys: "expire_list (stale sec) (map snd xs) = map snd ?ys"
    by (simp add: expire_list_map comp_def)
  have ne: "map snd xs \<noteq> []" using Cons by simp
  have hear: "hear_neighbour mac bssid sec (map snd xs) =
      (if bssid \<in> sn_station ` set (map snd ?ys)
       then update_first (\<lambda>s. sn_station s = bssid) (\<lambda>s. s\<lparr>sn_sec := sec\<rparr>) (map snd ?ys)
       else add_station bssid sec (map snd ?ys))"
    unfolding hear_neighbour_def if_not_P [OF ne] Let_def ys ..
  obtain c1 where c1: "expire_from sec None (ch_head c) c = Some c1" "chain_rep c1 ?ys"
    using expire_from_rep [OF rep] by blast
  have six: "list_all (\<lambda>x. length (sn_station (snd x)) = 6) ?ys"
    using len(2) set_expire_list [of _ xs] by (auto simp: list_all_iff)
  have find: "find_station c1 bssid =
      Some (map_option fst (find (\<lambda>x. sn_station (snd x) = bssid) ?ys))"
    using find_node_list [OF _ len(1) six] c1(2) by (simp add: chain_rep_def find_station_def)
  have step: "note_neighbour alloc mac bssid sec c =
      (case map_option fst (find (\<lambda>x. sn_station (snd x) = bssid) ?ys) of
         Some a \<Rightarrow>
           map_option (\<lambda>n. c1\<lparr>ch_heap := (ch_heap c1)(a \<mapsto> n\<lparr>nval := (nval n)\<lparr>sn_sec := sec\<rparr>\<rparr>)\<rparr>) (ch_heap c1 a)
       | None \<Rightarrow> insert_station alloc bssid sec c1)"
    unfolding note_neighbour_def if_not_P [OF head] c1(1) bind.bind_lunit find ..
  show ?thesis
  proof (cases "find (\<lambda>x. sn_station (snd x) = bssid) ?ys")
    case None
    then have new: "bssid \<notin> sn_station ` set (map snd ?ys)" by (force simp: find_None_iff)
    have "finite (dom (ch_heap c1))" using c1(2) by (simp add: chain_rep_def)
    from insert_station_rep [OF c1(2), of alloc bssid sec, OF fresh [OF this]] step None
    obtain c' ys where "note_neighbour alloc mac bssid sec c = Some c'" "chain_rep c' ys"
      "map snd ys = add_station bssid sec (map snd ?ys)" by auto
    then show ?thesis unfolding hear if_not_P [OF new] by blast
  next
    case (Some z)
    from find_split [OF this] obtain us vs where z: "?ys = us @ z # vs" "sn_station (snd z) = bssid"
      "\<forall>u\<in>set us. sn_station (snd u) \<noteq> bssid" by blast
    obtain a v where av: "z = (a, v)" by (cases z)
    let ?w = "v\<lparr>sn_sec := sec\<rparr>"
    from chain_write [of c1 us a v vs ?w] c1(2) z(1) av step Some
    obtain c' where "note_neighbour alloc mac bssid sec c = Some c'" "chain_rep c' (us @ (a, ?w) # vs)"
      by simp
    moreover have "map snd (us @ (a, ?w) # vs) = hear_neighbour mac bssid sec (map snd xs)"
    proof -
      have "update_first (\<lambda>s. sn_station s = bssid) (\<lambda>s. s\<lparr>sn_sec := sec\<rparr>) (map snd us @ v # map snd vs) =
          map snd us @ ?w # map snd vs"
        using z(2,3) av by (subst update_first_skip) auto
      moreover have "bssid \<in> sn_station ` set (map snd us @ v # map snd vs)" using z(2) av by auto
      ultimately show ?thesis unfolding hear z(1) av by (simp only: map_append list.map snd_conv if_True)
    qed
    ultimately show ?thesis by blast
  qed
qed
qed

section \<open>A run\<close>

text \<open>A beacon: the router that heard it, the access point that sent it, and the second.\<close>

type_synonym beacon = "bytes \<times> bytes \<times> u32"

fun note_neighbours :: "(station heap \<Rightarrow> nat) \<Rightarrow> beacon list \<Rightarrow> station_list \<Rightarrow> station_list option" where
  "note_neighbours alloc [] c = Some c"
| "note_neighbours alloc ((mac, bssid, sec) # bs) c =
    Option.bind (note_neighbour alloc mac bssid sec c) (note_neighbours alloc bs)"

definition hear_all :: "beacon list \<Rightarrow> station list \<Rightarrow> station list" where
  "hear_all = fold (\<lambda>(mac, bssid, sec). hear_neighbour mac bssid sec)"

definition beacons_ok :: "beacon list \<Rightarrow> bool" where
  "beacons_ok = list_all (\<lambda>(mac, bssid, sec). length mac = 6 \<and> length bssid = 6)"

text \<open>The number of neighbours that the statistics thread prints.\<close>

definition neighbour_count :: "station_list \<Rightarrow> u32 option" where
  "neighbour_count c =
    (case ch_head c of None \<Rightarrow> Some 0 | Some a \<Rightarrow> map_option (\<lambda>n. sn_count (nval n)) (ch_heap c a))"

text \<open>All addresses have six bytes, and only the first entry counts.\<close>

definition stations_ok :: "station list \<Rightarrow> bool" where
  "stations_ok xs \<longleftrightarrow> list_all (\<lambda>s. length (sn_station s) = 6) xs \<and> list_all (\<lambda>s. sn_count s = 0) (tl xs)"

lemma expire_rest_zero: "list_all P xs \<Longrightarrow> list_all P (expire_rest Q xs)"
  by (induction Q xs rule: expire_rest.induct) auto

lemma expire_list_zero: "list_all P (tl xs) \<Longrightarrow> list_all P (tl (expire_list Q xs))"
proof (induction xs)
  case Nil
  then show ?case by simp
next
  case (Cons x xs)
  then have "list_all P (tl xs)" by (cases xs) auto
  with Cons show ?case by (auto intro: expire_rest_zero)
qed

lemma update_first_ok: "stations_ok xs \<Longrightarrow> stations_ok (update_first P (\<lambda>s. s\<lparr>sn_sec := sec\<rparr>) xs)"
proof -
  have "list_all Q xs \<Longrightarrow> (\<And>s. Q (s\<lparr>sn_sec := sec\<rparr>) = Q s) \<Longrightarrow>
    list_all Q (update_first P (\<lambda>s. s\<lparr>sn_sec := sec\<rparr>) xs)" for Q xs by (induction xs) auto
  then show "stations_ok xs \<Longrightarrow> ?thesis" by (cases xs) (auto simp: stations_ok_def)
qed

lemma hear_neighbour_ok:
  assumes "stations_ok xs" "length mac = 6" "length bssid = 6"
  shows "stations_ok (hear_neighbour mac bssid sec xs)"
proof -
  let ?ys = "expire_list (stale sec) xs"
  have "stations_ok ?ys"
    using assms(1) set_expire_list [of "stale sec" xs] expire_list_zero
    by (auto simp: stations_ok_def list_all_iff [of _ xs] list_all_iff [of _ ?ys])
  moreover from this have "stations_ok (add_station bssid sec ?ys)"
    using assms(3) by (cases ?ys) (auto simp: stations_ok_def add_station_def)
  ultimately show ?thesis
    using assms(2) update_first_ok by (auto simp: hear_neighbour_def Let_def stations_ok_def)
qed

lemma note_neighbours_rep:
  assumes fresh: "\<And>h. finite (dom h) \<Longrightarrow> alloc h \<notin> dom h"
  shows "chain_rep c xs \<Longrightarrow> stations_ok (map snd xs) \<Longrightarrow> beacons_ok bs \<Longrightarrow>
    \<exists>c' ys. note_neighbours alloc bs c = Some c' \<and> chain_rep c' ys \<and>
      map snd ys = hear_all bs (map snd xs) \<and> stations_ok (map snd ys)"
proof (induction bs arbitrary: c xs)
  case Nil
  then show ?case by (auto simp: hear_all_def)
next
  case (Cons b bs)
  obtain mac bssid sec where b: "b = (mac, bssid, sec)" by (cases b)
  from Cons.prems(3) b have ok: "length mac = 6" "length bssid = 6" "beacons_ok bs"
    by (simp_all add: beacons_ok_def)
  from note_neighbour_rep [OF Cons.prems(1) ok(2) _ fresh, of mac sec] Cons.prems(2)
  obtain c1 ys where s: "note_neighbour alloc mac bssid sec c = Some c1" "chain_rep c1 ys"
    "map snd ys = hear_neighbour mac bssid sec (map snd xs)" by (auto simp: stations_ok_def)
  have "stations_ok (map snd ys)" unfolding s(3) by (rule hear_neighbour_ok [OF Cons.prems(2) ok(1,2)])
  from Cons.IH [OF s(2) this ok(3)] s b show ?case by (auto simp: hear_all_def)
qed

lemma neighbour_count_rep:
  "chain_rep c xs \<Longrightarrow> neighbour_count c = Some (case xs of [] \<Rightarrow> 0 | x # _ \<Rightarrow> sn_count (snd x))"
  by (cases xs) (auto simp: neighbour_count_def chain_rep_def)

section \<open>Properties\<close>

text \<open>
  C9.  Neighbours: with any allocator, any sequence of beacons is handled without touching null or
  freed memory, and the heap list is the abstract list of the beacons.
\<close>

theorem neighbours_refine:
  assumes "\<And>h :: station heap. finite (dom h) \<Longrightarrow> alloc h \<notin> dom h" and "beacons_ok bs"
  shows "\<exists>c xs. note_neighbours alloc bs chain_init = Some c \<and> chain_rep c xs \<and> map snd xs = hear_all bs []"
  using note_neighbours_rep [of alloc chain_init "[]" bs, OF assms(1)] assms(2)
  by (auto simp: stations_ok_def)

text \<open>
  The number of neighbours is lost with the first entry: when only the first entry is out of
  date and a new access point is heard, the number printed is one, however long the list is.
\<close>

theorem neighbour_count_restarts:
  assumes "\<And>h :: station heap. finite (dom h) \<Longrightarrow> alloc h \<notin> dom h" and "beacons_ok (bs @ [(mac, bssid, sec)])"
    and "hear_all bs [] = x # y # zs" "stale sec x" "list_all (\<lambda>s. \<not> stale sec s) (y # zs)"
    and "bssid \<notin> sn_station ` set (y # zs)"
  shows "\<exists>c xs. note_neighbours alloc (bs @ [(mac, bssid, sec)]) chain_init = Some c \<and> chain_rep c xs \<and>
    length xs = length zs + 2 \<and> neighbour_count c = Some 1"
proof -
  let ?bs = "bs @ [(mac, bssid, sec)]"
  obtain c xs where c: "note_neighbours alloc ?bs chain_init = Some c" "chain_rep c xs"
    "map snd xs = hear_all ?bs []"
    using note_neighbours_rep [of alloc chain_init "[]" ?bs, OF assms(1)] assms(2) by (auto simp: stations_ok_def)
  have ok: "stations_ok (x # y # zs)"
    using note_neighbours_rep [of alloc chain_init "[]" bs, OF assms(1)] assms(2,3)
    by (auto simp: stations_ok_def beacons_ok_def)
  have keep: "list_all (\<lambda>s. \<not> P s) us \<Longrightarrow> expire_rest P us = us" for P and us :: "station list"
    by (induction P us rule: expire_rest.induct) auto
  have "expire_list (stale sec) (x # y # zs) = y # zs" using assms(4,5) keep [of "stale sec" zs] by simp
  then have "hear_all ?bs [] = y\<lparr>sn_count := sn_count y + 1\<rparr> # zs @ [\<lparr>sn_station = bssid, sn_sec = sec, sn_count = 0\<rparr>]"
    using assms(3,6) by (simp add: hear_all_def hear_neighbour_def Let_def add_station_def)
  with c(3) obtain u us where xs: "xs = u # us" "snd u = y\<lparr>sn_count := sn_count y + 1\<rparr>"
    "map snd us = zs @ [\<lparr>sn_station = bssid, sn_sec = sec, sn_count = 0\<rparr>]" by (auto simp: map_eq_Cons_conv)
  have "length us = length zs + 1" using arg_cong [OF xs(3), of length] by simp
  moreover have "sn_count (snd u) = 1" using ok xs(2) by (simp add: stations_ok_def)
  ultimately show ?thesis using c xs(1) neighbour_count_rep [OF c(2)] by auto
qed

definition some_mac :: "u8 \<Rightarrow> bytes" where
  "some_mac b = [1, 2, 3, 4, 5, b]"

theorem neighbours_refine_witness:
  "\<exists>c xs. note_neighbours bump_alloc [(some_mac 1, some_mac 2, 5), (some_mac 1, some_mac 3, 20)] chain_init = Some c \<and>
    chain_rep c xs \<and> map snd xs = hear_all [(some_mac 1, some_mac 2, 5), (some_mac 1, some_mac 3, 20)] []"
  by (rule neighbours_refine) (auto simp: bump_alloc_fresh beacons_ok_def some_mac_def)

theorem neighbour_count_restarts_witness:
  "\<exists>c xs. note_neighbours bump_alloc ([(some_mac 1, some_mac 2, 0), (some_mac 1, some_mac 3, 5)] @
      [(some_mac 1, some_mac 4, 12)]) chain_init = Some c \<and>
    chain_rep c xs \<and> length xs = length ([] :: station list) + 2 \<and> neighbour_count c = Some 1"
  by (rule neighbour_count_restarts [where x = "\<lparr>sn_station = some_mac 1, sn_sec = 0, sn_count = 2\<rparr>"
        and y = "\<lparr>sn_station = some_mac 3, sn_sec = 5, sn_count = 0\<rparr>"])
    (auto simp: bump_alloc_fresh beacons_ok_def some_mac_def hear_all_def hear_neighbour_def
      add_station_def stale_def)

end
