(* ===== verification/Kept_Lists.thy ===== *)
theory Kept_Lists
  imports Neighbour_List Sendudp
begin

text \<open>
  The lists that the reporter, \<^verbatim>\<open>project/sendudp.c\<close>, keeps from one tick to the next: it frees the
  copy of the last tick and copies the list of access points anew out of the heap it shares with
  \<^verbatim>\<open>project/scan.c\<close>.  In Sendudp the copy is a list of records; here it is a chain in the heap, and
  the two are shown to agree, with nothing lost and nothing freed that is in use.  The allocator
  is an argument; an access to null or freed memory is the value None.
\<close>

section \<open>Freeing and copying\<close>

partial_function (option) destroy_list :: "nat option \<Rightarrow> 'v heap \<Rightarrow> 'v heap option" where
  "destroy_list tmp h =
    (case tmp of
       None \<Rightarrow> Some h
     | Some a \<Rightarrow> (case h a of None \<Rightarrow> None | Some n \<Rightarrow> destroy_list (nnext n) (h(a := None))))"

definition destroy_list_iw :: "nat option \<Rightarrow> data_iw heap \<Rightarrow> data_iw heap option" where
  "destroy_list_iw = destroy_list"

definition destroy_list_beacon :: "nat option \<Rightarrow> data_beacon heap \<Rightarrow> data_beacon heap option" where
  "destroy_list_beacon = destroy_list"

text \<open>The copy grows at its end: \<^verbatim>\<open>keep\<close> is its head and \<^verbatim>\<open>last_keep\<close> its tail.\<close>

partial_function (option) copy_loop ::
  "('v heap \<Rightarrow> nat) \<Rightarrow> ('v \<Rightarrow> 'v) \<Rightarrow> nat option \<Rightarrow> 'v chain \<Rightarrow> 'v chain option"
where
  "copy_loop alloc cp ptr c =
    (case ptr of
       None \<Rightarrow> Some c
     | Some a \<Rightarrow>
        (case ch_heap c a of
           None \<Rightarrow> None
         | Some n \<Rightarrow> Option.bind (chain_append alloc (cp (nval n)) c) (\<lambda>c'.
             (case ch_heap c' a of
                None \<Rightarrow> None
              | Some n' \<Rightarrow> copy_loop alloc cp (nnext n') c'))))"

definition copy_list :: "('v heap \<Rightarrow> nat) \<Rightarrow> ('v \<Rightarrow> 'v) \<Rightarrow> nat option \<Rightarrow> 'v heap \<Rightarrow> (nat option \<times> 'v heap) option" where
  "copy_list alloc cp cur h =
    map_option (\<lambda>c. (ch_head c, ch_heap c)) (copy_loop alloc cp cur \<lparr>ch_heap = h, ch_head = None, ch_tail = None\<rparr>)"

definition copy_last_beacon :: "(data_beacon heap \<Rightarrow> nat) \<Rightarrow> nat option \<Rightarrow> data_beacon heap \<Rightarrow> (nat option \<times> data_beacon heap) option" where
  "copy_last_beacon alloc cur h = copy_list alloc copy_beacon cur h"

text \<open>The members that a station's copy has; the rest is zero.\<close>

definition copy_iw :: "data_iw \<Rightarrow> data_iw" where
  "copy_iw r = zero_iw\<lparr>iw_station := iw_station r, iw_device := iw_device r, iw_inactive_time := iw_inactive_time r,
     iw_rx_bytes := iw_rx_bytes r, iw_rx_packets := iw_rx_packets r, iw_tx_bytes := iw_tx_bytes r,
     iw_tx_packets := iw_tx_packets r, iw_tx_retries := iw_tx_retries r, iw_tx_failed := iw_tx_failed r,
     iw_signal := iw_signal r, iw_signal_avg := iw_signal_avg r,
     iw_expected_throughput := iw_expected_throughput r\<rparr>"

definition copy_last_iw :: "(data_iw heap \<Rightarrow> nat) \<Rightarrow> nat option \<Rightarrow> data_iw heap \<Rightarrow> (nat option \<times> data_iw heap) option" where
  "copy_last_iw alloc cur h = copy_list alloc copy_iw cur h"

text \<open>
  Without a node before it the successor is freed, and the node itself stays.
\<close>

definition del_this_node :: "nat option \<Rightarrow> nat \<Rightarrow> 'v heap \<Rightarrow> 'v heap option" where
  "del_this_node ptr_pre ptr h =
    Option.bind (h ptr) (\<lambda>n.
      case ptr_pre of
        None \<Rightarrow>
          (case nnext n of
             None \<Rightarrow> Some h
           | Some tmp \<Rightarrow> if h tmp = None then None else Some (h(tmp := None)))
      | Some pre \<Rightarrow> map_option (\<lambda>m. h(pre \<mapsto> m\<lparr>nnext := nnext n\<rparr>, ptr := None)) (h pre))"

definition del_this_node_iw :: "nat option \<Rightarrow> nat \<Rightarrow> data_iw heap \<Rightarrow> data_iw heap option" where
  "del_this_node_iw = del_this_node"

definition del_this_node_beacon :: "nat option \<Rightarrow> nat \<Rightarrow> data_beacon heap \<Rightarrow> data_beacon heap option" where
  "del_this_node_beacon = del_this_node"

section \<open>The end of a tick and the end of the module\<close>

record kept =
  kt_heap :: "data_beacon heap"
  kt_iw_heap :: "data_iw heap"
  kt_iwlist_last :: "nat option"
  kt_beacon_last :: "nat option"

definition keep_beacons :: "(data_beacon heap \<Rightarrow> nat) \<Rightarrow> nat option \<Rightarrow> kept \<Rightarrow> kept option" where
  "keep_beacons alloc ptr s =
    Option.bind (destroy_list_beacon (kt_beacon_last s) (kt_heap s)) (\<lambda>h.
    map_option (\<lambda>(p, h'). s\<lparr>kt_heap := h', kt_beacon_last := p\<rparr>) (copy_last_beacon alloc ptr h))"

definition destroy_data :: "kept \<Rightarrow> kept option" where
  "destroy_data s =
    Option.bind (destroy_list_iw (kt_iwlist_last s) (kt_iw_heap s)) (\<lambda>hi.
    map_option (\<lambda>hb. s\<lparr>kt_iw_heap := hi, kt_heap := hb\<rparr>) (destroy_list_beacon (kt_beacon_last s) (kt_heap s)))"

section \<open>Freeing\<close>

lemma lseg_agree: "lseg h p xs \<Longrightarrow> (\<And>a. a \<in> fst ` set xs \<Longrightarrow> h' a = h a) \<Longrightarrow> lseg h' p xs"
  by (induction xs arbitrary: p) auto

lemma destroy_list_lseg:
  "lseg h p xs \<Longrightarrow> distinct (map fst xs) \<Longrightarrow>
   destroy_list p h = Some (\<lambda>a. if a \<in> fst ` set xs then None else h a)"
proof (induction xs arbitrary: p h)
  case Nil
  then show ?case by (subst destroy_list.simps) simp
next
  case (Cons x xs)
  obtain b v where x: "x = (b, v)" by (cases x)
  with Cons.prems obtain q where q: "p = Some b" "h b = Some \<lparr>nval = v, nnext = q\<rparr>" "lseg h q xs" "b \<notin> fst ` set xs"
    by auto
  then have "lseg (h(b := None)) q xs" by simp
  then have "destroy_list q (h(b := None)) = Some (\<lambda>a. if a \<in> fst ` set xs then None else (h(b := None)) a)"
    using Cons.IH Cons.prems(2) by simp
  also have "(\<lambda>a. if a \<in> fst ` set xs then None else (h(b := None)) a) = (\<lambda>a. if a \<in> fst ` set (x # xs) then None else h a)"
    using x by (auto simp: fun_eq_iff)
  finally show ?case using q(1,2) by (subst destroy_list.simps) (simp del: fun_upd_apply)
qed

section \<open>Copying\<close>

lemma chain_append_frame:
  assumes "chain_rep c ks" "chain_append alloc v c = Some c'" "alloc (ch_heap c) \<notin> dom (ch_heap c)"
  shows "dom (ch_heap c') = insert (alloc (ch_heap c)) (dom (ch_heap c))"
    and "a \<notin> insert (alloc (ch_heap c)) (fst ` set ks) \<Longrightarrow> ch_heap c' a = ch_heap c a"
proof -
  let ?h = "(ch_heap c)(alloc (ch_heap c) \<mapsto> \<lparr>nval = v, nnext = None\<rparr>)"
  have new: "ch_heap c' = ?h \<or> (\<exists>l n. l \<in> fst ` set ks \<and> l \<in> dom (ch_heap c) \<and> ch_heap c' = ?h(l \<mapsto> n))"
  proof (cases "ks = []")
    case True
    with assms(1) have "ch_head c = None" by (simp add: chain_rep_def)
    with assms(2) show ?thesis by (auto simp: chain_append_def Let_def)
  next
    case False
    then have l: "last ks \<in> set ks" by simp
    with assms(1) lseg_dom [of "ch_heap c" "ch_head c" ks "last ks"]
    have "fst (last ks) \<in> dom (ch_heap c)" "fst (last ks) \<in> fst ` set ks" by (auto simp: chain_rep_def)
    moreover have "ch_tail c = Some (fst (last ks))" "ch_head c \<noteq> None"
      using assms(1) False by (auto simp: chain_rep_def last_ptr_def neq_Nil_conv)
    moreover from calculation assms(2) obtain n where "ch_heap c' = ?h(fst (last ks) \<mapsto> n)"
      by (auto simp: chain_append_def Let_def simp del: fun_upd_apply split: option.splits)
    ultimately show ?thesis by blast
  qed
  then show "dom (ch_heap c') = insert (alloc (ch_heap c)) (dom (ch_heap c))"
    by (elim disjE exE conjE) (simp_all add: dom_fun_upd insert_absorb del: fun_upd_apply)
  show "ch_heap c' a = ch_heap c a" if "a \<notin> insert (alloc (ch_heap c)) (fst ` set ks)"
    using new
  proof (elim disjE exE conjE)
    fix l n assume "l \<in> fst ` set ks" "ch_heap c' = ?h(l \<mapsto> n)"
    with that show ?thesis by (metis fun_upd_other insertCI)
  qed (use that in simp)
qed

context kmalloc
begin

lemma copy_loop_rep:
  "lseg (ch_heap c) p xs \<Longrightarrow> chain_rep c ks \<Longrightarrow> fst ` set xs \<inter> fst ` set ks = {} \<Longrightarrow>
   \<exists>c' ks'. copy_loop alloc cp p c = Some c' \<and> chain_rep c' (ks @ ks') \<and> map snd ks' = map (cp \<circ> snd) xs \<and>
     fst ` set ks' \<inter> dom (ch_heap c) = {} \<and> dom (ch_heap c') = dom (ch_heap c) \<union> fst ` set ks' \<and>
     (\<forall>a \<in> dom (ch_heap c). a \<notin> fst ` set ks \<longrightarrow> ch_heap c' a = ch_heap c a)"
proof (induction xs arbitrary: p c ks)
  case Nil
  then show ?case by (subst copy_loop.simps) (auto intro!: exI [of _ "[]"])
next
  case (Cons x xs)
  obtain b v where x: "x = (b, v)" by (cases x)
  with Cons.prems(1) obtain q where q: "p = Some b" "ch_heap c b = Some \<lparr>nval = v, nnext = q\<rparr>" "lseg (ch_heap c) q xs"
    by auto
  let ?a = "alloc (ch_heap c)"
  have new: "?a \<notin> dom (ch_heap c)" using fresh [of "ch_heap c"] Cons.prems(2) by (simp add: chain_rep_def domIff)
  from chain_append_rep [of c ks alloc "cp v", OF Cons.prems(2) new] obtain c1 where
    c1: "chain_append alloc (cp v) c = Some c1" "chain_rep c1 (ks @ [(?a, cp v)])" by blast
  note f = chain_append_frame [of c ks alloc "cp v", OF Cons.prems(2) c1(1) new]
  have xs: "?a \<notin> fst ` set (x # xs)" using lseg_dom [OF Cons.prems(1)] new by fastforce
  have b1: "ch_heap c1 b = Some \<lparr>nval = v, nnext = q\<rparr>" using f(2) [of b] q(2) xs x Cons.prems(3) by auto
  have "lseg (ch_heap c1) q xs"
  proof (rule lseg_agree [OF q(3)])
    fix a assume "a \<in> fst ` set xs"
    moreover from xs have "?a \<notin> fst ` set xs" by simp
    moreover from Cons.prems(3) have "fst ` set xs \<inter> fst ` set ks = {}" by auto
    ultimately have "a \<notin> insert ?a (fst ` set ks)" by blast
    then show "ch_heap c1 a = ch_heap c a" by (rule f(2))
  qed
  from Cons.IH [OF this c1(2)] xs Cons.prems(3) obtain c' ks' where
    c': "copy_loop alloc cp q c1 = Some c'" "chain_rep c' ((ks @ [(?a, cp v)]) @ ks')" "map snd ks' = map (cp \<circ> snd) xs"
      "fst ` set ks' \<inter> dom (ch_heap c1) = {}" "dom (ch_heap c') = dom (ch_heap c1) \<union> fst ` set ks'"
      "\<forall>a \<in> dom (ch_heap c1). a \<notin> fst ` set (ks @ [(?a, cp v)]) \<longrightarrow> ch_heap c' a = ch_heap c1 a" by auto
  have "copy_loop alloc cp p c = Some c'"
    using q(1,2) c1(1) b1 c'(1) by (subst copy_loop.simps) simp
  moreover have "\<forall>a \<in> dom (ch_heap c). a \<notin> fst ` set ks \<longrightarrow> ch_heap c' a = ch_heap c a"
  proof (intro ballI impI)
    fix a assume a: "a \<in> dom (ch_heap c)" "a \<notin> fst ` set ks"
    with new have "a \<noteq> ?a" by blast
    with a f c'(6) show "ch_heap c' a = ch_heap c a" by simp
  qed
  ultimately show ?case
    using c'(2-5) f(1) new x by (intro exI [of _ c'] exI [of _ "(?a, cp v) # ks'"]) auto
qed

lemma copy_list_rep:
  assumes "lseg h p xs" "finite (dom h)"
  shows "\<exists>q h' ks. copy_list alloc cp p h = Some (q, h') \<and> lseg h' q ks \<and> distinct (map fst ks) \<and>
    map snd ks = map (cp \<circ> snd) xs \<and> fst ` set ks \<inter> dom h = {} \<and> dom h' = dom h \<union> fst ` set ks \<and>
    (\<forall>a \<in> dom h. h' a = h a)"
proof -
  have "chain_rep \<lparr>ch_heap = h, ch_head = None, ch_tail = None\<rparr> []" using assms(2) by (simp add: chain_rep_def)
  from copy_loop_rep [OF _ this, of p xs cp] assms(1) obtain c' ks' where
    "copy_loop alloc cp p \<lparr>ch_heap = h, ch_head = None, ch_tail = None\<rparr> = Some c'" "chain_rep c' ks'"
    "map snd ks' = map (cp \<circ> snd) xs" "fst ` set ks' \<inter> dom h = {}" "dom (ch_heap c') = dom h \<union> fst ` set ks'"
    "\<forall>a \<in> dom h. ch_heap c' a = h a" by auto
  then show ?thesis by (auto simp: copy_list_def chain_rep_def)
qed

end

section \<open>The two modules on one heap\<close>

text \<open>
  The list of \<^verbatim>\<open>project/scan.c\<close>, its nodes xs from p on, next to the copy with the values vs.  The
  scanning code may do with its own nodes what it likes; at the end of a tick the copy is renewed.
\<close>

definition kept_rep :: "nat option \<Rightarrow> (nat \<times> data_beacon) list \<Rightarrow> data_beacon list \<Rightarrow> kept \<Rightarrow> bool" where
  "kept_rep p xs vs s \<longleftrightarrow>
     (\<exists>ks. lseg (kt_heap s) p xs \<and> lseg (kt_heap s) (kt_beacon_last s) ks \<and> map snd ks = vs \<and>
        distinct (map fst xs) \<and> distinct (map fst ks) \<and> fst ` set xs \<inter> fst ` set ks = {} \<and>
        dom (kt_heap s) = fst ` set xs \<union> fst ` set ks)"

inductive kept_reach :: "(data_beacon heap \<Rightarrow> nat) \<Rightarrow> nat option \<Rightarrow> (nat \<times> data_beacon) list \<Rightarrow> data_beacon list \<Rightarrow> kept \<Rightarrow> bool"
  for alloc :: "data_beacon heap \<Rightarrow> nat"
where
  loaded: "kept_reach alloc None [] [] \<lparr>kt_heap = Map.empty, kt_iw_heap = hi, kt_iwlist_last = None, kt_beacon_last = None\<rparr>"
| scanned: "kept_reach alloc p xs vs s \<Longrightarrow> lseg h p' xs' \<Longrightarrow> distinct (map fst xs') \<Longrightarrow>
    fst ` set xs' \<inter> (dom (kt_heap s) - fst ` set xs) = {} \<Longrightarrow>
    (\<And>a. a \<in> dom (kt_heap s) - fst ` set xs \<Longrightarrow> h a = kt_heap s a) \<Longrightarrow>
    dom h = fst ` set xs' \<union> (dom (kt_heap s) - fst ` set xs) \<Longrightarrow>
    kept_reach alloc p' xs' vs (s\<lparr>kt_heap := h\<rparr>)"
| ticked: "kept_reach alloc p xs vs s \<Longrightarrow> keep_beacons alloc p s = Some s' \<Longrightarrow>
    kept_reach alloc p xs (map (copy_beacon \<circ> snd) xs) s'"

lemma kept_rep_destroyed:
  assumes "kept_rep p xs vs s"
  shows "\<exists>h. destroy_list_beacon (kt_beacon_last s) (kt_heap s) = Some h \<and> lseg h p xs \<and> dom h = fst ` set xs"
proof -
  from assms obtain ks where k: "lseg (kt_heap s) p xs" "lseg (kt_heap s) (kt_beacon_last s) ks" "distinct (map fst ks)"
    "fst ` set xs \<inter> fst ` set ks = {}" "dom (kt_heap s) = fst ` set xs \<union> fst ` set ks" by (auto simp: kept_rep_def)
  let ?h = "\<lambda>a. if a \<in> fst ` set ks then None else kt_heap s a"
  have "lseg ?h p xs" by (rule lseg_agree [OF k(1)]) (use k(4) in auto)
  moreover have "dom ?h = fst ` set xs" using k(4,5) by (auto simp: dom_def split: if_splits)
  ultimately show ?thesis using destroy_list_lseg [OF k(2,3)] by (simp add: destroy_list_beacon_def)
qed

lemma kept_rep_tick:
  assumes "kmalloc alloc" "kept_rep p xs vs s"
  shows "\<exists>s'. keep_beacons alloc p s = Some s' \<and> kept_rep p xs (map (copy_beacon \<circ> snd) xs) s' \<and>
    kt_iwlist_last s' = kt_iwlist_last s"
proof -
  from kept_rep_destroyed [OF assms(2)] obtain h where
    h: "destroy_list_beacon (kt_beacon_last s) (kt_heap s) = Some h" "lseg h p xs" "dom h = fst ` set xs" by blast
  then have "finite (dom h)" by simp
  from kmalloc.copy_list_rep [OF assms(1) h(2) this, of copy_beacon] obtain q h' ks where
    c0: "copy_list alloc copy_beacon p h = Some (q, h')" "lseg h' q ks" "distinct (map fst ks)"
      "map snd ks = map (copy_beacon \<circ> snd) xs" "fst ` set ks \<inter> dom h = {}" "dom h' = dom h \<union> fst ` set ks"
      "\<forall>a \<in> dom h. h' a = h a" by metis
  note c = c0 [unfolded h(3)]
  have p: "lseg h' p xs" by (rule lseg_agree [OF h(2)]) (use c(7) in blast)
  have "distinct (map fst xs)" using assms(2) by (auto simp: kept_rep_def)
  moreover have "fst ` set xs \<inter> fst ` set ks = {}" using c(5) by (subst Int_commute)
  ultimately have "kept_rep p xs (map (copy_beacon \<circ> snd) xs) (s\<lparr>kt_heap := h', kt_beacon_last := q\<rparr>)"
    unfolding kept_rep_def
  proof (intro exI [of _ ks] conjI)
    show "lseg (kt_heap (s\<lparr>kt_heap := h', kt_beacon_last := q\<rparr>)) p xs" using p by simp
    show "lseg (kt_heap (s\<lparr>kt_heap := h', kt_beacon_last := q\<rparr>)) (kt_beacon_last (s\<lparr>kt_heap := h', kt_beacon_last := q\<rparr>)) ks"
      using c(2) by simp
    show "dom (kt_heap (s\<lparr>kt_heap := h', kt_beacon_last := q\<rparr>)) = fst ` set xs \<union> fst ` set ks" using c(6) by simp
  qed (use c(3,4) in simp_all)
  with h(1) c(1) show ?thesis by (simp add: keep_beacons_def copy_last_beacon_def)
qed

lemma kept_reach_rep:
  assumes "kept_reach alloc p xs vs s" "kmalloc alloc"
  shows "kept_rep p xs vs s \<and> kt_iwlist_last s = None"
  using assms(1)
proof (induction rule: kept_reach.induct)
  case (loaded hi)
  show ?case by (simp add: kept_rep_def)
next
  case (scanned p xs vs s h p' xs')
  from scanned.IH obtain ks where k: "lseg (kt_heap s) (kt_beacon_last s) ks" "map snd ks = vs" "distinct (map fst ks)"
    "fst ` set xs \<inter> fst ` set ks = {}" "dom (kt_heap s) = fst ` set xs \<union> fst ` set ks" unfolding kept_rep_def by blast
  then have k': "dom (kt_heap s) - fst ` set xs = fst ` set ks" by blast
  have "lseg h (kt_beacon_last s) ks" by (rule lseg_agree [OF k(1)]) (use scanned.hyps(5) k' in blast)
  moreover have "fst ` set xs' \<inter> fst ` set ks = {}" "dom h = fst ` set xs' \<union> fst ` set ks"
    using scanned.hyps(4,6) unfolding k' .
  ultimately have "kept_rep p' xs' vs (s\<lparr>kt_heap := h\<rparr>)"
    using scanned.hyps(2,3) k(2,3) unfolding kept_rep_def by (intro exI [of _ ks]) simp
  with scanned.IH show ?case by simp
next
  case (ticked p xs vs s s')
  with kept_rep_tick [OF assms(2), of p xs vs s] show ?case by auto
qed

section \<open>Properties\<close>



text \<open>
  The functions that delete one node free its successor instead when there is no node before it.
\<close>

theorem del_first_frees_second:
  assumes "lseg h (Some a) ((a, v) # (b, w) # xs)" "a \<noteq> b"
  shows "\<exists>h'. del_this_node None a h = Some h' \<and> h' b = None \<and> h' a = Some \<lparr>nval = v, nnext = Some b\<rparr>"
  using assms by (auto simp: del_this_node_def)

theorem del_first_frees_second_witness:
  "\<exists>h'. del_this_node None 1 [1 \<mapsto> \<lparr>nval = (7 :: nat), nnext = Some 2\<rparr>, 2 \<mapsto> \<lparr>nval = 8, nnext = None\<rparr>] = Some h' \<and>
     h' 2 = None \<and> h' 1 = Some \<lparr>nval = 7, nnext = Some 2\<rparr>"
  by (rule del_first_frees_second [of _ _ _ _ "8" "[]"]) simp_all

end
