(* ===== verification/Link_Stats.thy ===== *)
theory Link_Stats
  imports Sendudp
begin

text \<open>
  The statistics per station that the reporter of \<^verbatim>\<open>project/sendudp.c\<close> keeps: which stations get
  a ring of samples, what the table of results holds, the value of a rate in 32-bit arithmetic,
  and the bounds of the ring of samples.
\<close>

section \<open>Which stations are sampled\<close>

lemma link_sample_station: "link_sample r l = Some (l', k) \<Longrightarrow> ls_station l' = ls_station l"
  by (auto simp: link_sample_def Let_def split: if_splits)

lemma link_loop_stations:
  "link_loop r ls p f = Some (ls', p', f') \<Longrightarrow> map ls_station ls' = map ls_station ls"
proof (induction ls arbitrary: p f ls')
  case Nil
  then show ?case by simp
next
  case (Cons l ls)
  then show ?case
    by (fastforce simp: Let_def link_sample_station split: if_splits option.splits prod.splits)
qed

lemma link_loop_found:
  "link_loop r ls p f = Some (ls', p', f') \<Longrightarrow>
   f \<or> (\<exists>l\<in>set ls. strcmp_linger (iw_station r) (ls_station l) = 0) \<Longrightarrow> f'"
proof (induction ls arbitrary: p f ls')
  case Nil
  then show ?case by simp
next
  case (Cons l ls)
  then show ?case
    by (fastforce simp: Let_def split: if_splits option.splits prod.splits)
qed

lemma age_links_stations [simp]: "map ls_station (age_links r ls) = map ls_station ls"
  by (simp add: age_links_def)

lemma iw_loop_found_stations:
  "iw_loop rs True st = Some st' \<Longrightarrow> map ls_station (linkinfo st') = map ls_station (linkinfo st)"
proof (induction rs arbitrary: st)
  case Nil
  then show ?case by simp
next
  case (Cons r rs)
  from Cons.prems obtain l b ls p f1 ls' where 1: "link_loop r (linkinfo st) (iwp st) True = Some (ls, p, f1)"
    "(if f1 then Some (age_links r ls) else insert_link r (age_links r ls)) = Some ls'"
    "iw_loop rs f1 (st\<lparr>last_iw := l, outbuf := b, linkinfo := ls', iwp := p\<rparr>) = Some st'"
    by (auto split: option.splits)
  have f1 using link_loop_found [OF 1(1)] by simp
  with 1 have "ls' = age_links r ls"
    "iw_loop rs True (st\<lparr>last_iw := l, outbuf := b, linkinfo := ls', iwp := p\<rparr>) = Some st'" by simp_all
  with Cons.IH [OF this(2)] link_loop_stations [OF 1(1)] show ?case by simp
qed

text \<open>
  When the first station of a dump is sampled already, no other station of the dump is given
  a ring of samples, however many rings are free: the flag that says that a station was found is
  set once per dump and not once per station.
\<close>

theorem known_station_hides_new_ones:
  assumes "compare_and_iwlist (r # rs) sur st = Some st'"
    and "l \<in> set (linkinfo st)" and "strcmp_linger (iw_station r) (ls_station l) = 0"
  shows "map ls_station (linkinfo st') = map ls_station (linkinfo st)"
proof -
  from assms(1) obtain s1 where s1: "report_survey sur st = Some s1" "iw_loop (r # rs) False s1 = Some st'"
    by (auto simp: compare_and_iwlist_def split: option.splits)
  then have s1l: "linkinfo s1 = linkinfo st" by (auto simp: report_survey_def)
  from s1(2) obtain k b ls p f1 ls' where 1: "link_loop r (linkinfo s1) (iwp s1) False = Some (ls, p, f1)"
    "(if f1 then Some (age_links r ls) else insert_link r (age_links r ls)) = Some ls'"
    "iw_loop rs f1 (s1\<lparr>last_iw := k, outbuf := b, linkinfo := ls', iwp := p\<rparr>) = Some st'"
    by (auto split: option.splits)
  have f1 using link_loop_found [OF 1(1)] assms(2,3) s1l by auto
  with 1 have "ls' = age_links r ls"
    "iw_loop rs True (s1\<lparr>last_iw := k, outbuf := b, linkinfo := ls', iwp := p\<rparr>) = Some st'" by simp_all
  with iw_loop_found_stations [OF this(2)] link_loop_stations [OF 1(1)] s1l show ?thesis by simp
qed

text \<open>Two stations for an example: the first is sampled, nine rings are free.\<close>

definition example_stations :: "data_iw list" where
  "example_stations = [zero_iw\<lparr>iw_station := [1,2,3,4,5,6]\<rparr>, zero_iw\<lparr>iw_station := [1,2,3,4,5,7]\<rparr>]"

definition example_links :: "links list" where
  "example_links = zero_links\<lparr>ls_station := [1,2,3,4,5,6]\<rparr> # replicate 9 zero_links"

definition example_survey :: data_survey where
  "example_survey = \<lparr>su_time = 0, su_sec = 0, su_usec = 0, su_time_busy = 0, su_time_ext_busy = 0,
     su_time_rx = 0, su_time_tx = 0, su_time_scan = 0, su_filled = 0, su_noise = 0, su_pad = 0,
     su_center_freq = 0\<rparr>"

lemma example_run_stations:
  "\<exists>st. compare_and_iwlist example_stations example_survey
      ((hello_init [6,5,4,3,2,1])\<lparr>linkinfo := example_links\<rparr>) = Some st"
proof -
  let ?r = "zero_iw\<lparr>iw_station := [1,2,3,4,5,6]\<rparr>" and ?r' = "zero_iw\<lparr>iw_station := [1,2,3,4,5,7]\<rparr>"
  let ?l = "zero_links\<lparr>ls_station := [1,2,3,4,5,6]\<rparr>"
  have n: "report_newer 0 0 m zero_stamp b = Some (zero_stamp, b)" for m b
    by (simp add: report_newer_def zero_stamp_def)
  have z: "iw_sec zero_iw = 0" "iw_usec zero_iw = 0" by (simp_all add: zero_iw_def)
  have free: "link_loop (zero_iw\<lparr>iw_station := s\<rparr>) (replicate k zero_links) p f =
      Some (replicate k zero_links, p, f)" if "length s = 6" "s \<noteq> zero_mac" for s k p f
    using that by (induction k) (simp_all add: zero_links_def zero_mac_def strcmp_linger_eq)
  obtain l1 where l1: "link_sample ?r ?l = Some (l1, iw2linkstates ?r)" "ls_station l1 = [1,2,3,4,5,6]"
    by (simp add: link_sample_def zero_links_def Let_def read_at_def)
  have "link_duration ?r (iw2linkstates ?r) = 0"
    by (simp add: link_duration_def iw2linkstates_def z c_div_def)
  moreover have "\<not> 100 \<le>s (0 :: u32)" by (simp add: word_sle_eq)
  ultimately have first: "link_loop ?r example_links p f =
      Some (l1 # replicate 9 zero_links, p, True)" for p f
    using l1 free [of "[1,2,3,4,5,6]" 9] by (simp add: example_links_def strcmp_linger_eq zero_mac_def)
  have second: "link_loop ?r' (age_links ?r (l1 # replicate 9 zero_links)) p True \<noteq> None" for p
  proof -
    have "age_links ?r (l1 # replicate 9 zero_links) = hd (age_links ?r [l1]) # replicate 9 zero_links"
      by (simp add: age_links_def zero_links_def z)
    moreover have "ls_station (hd (age_links ?r [l1])) = [1,2,3,4,5,6]" by (simp add: age_links_def l1)
    ultimately show ?thesis using free [of "[1,2,3,4,5,7]" 9]
      by (simp add: strcmp_linger_eq zero_mac_def)
  qed
  have f: "last_survey (hello_init m) = zero_stamp" "last_iw (hello_init m) = zero_stamp" for m
    by (simp_all add: hello_init_def)
  from second [of "iwp (hello_init [6,5,4,3,2,1])"] obtain ls p g where
    "link_loop ?r' (age_links ?r (l1 # replicate 9 zero_links)) (iwp (hello_init [6,5,4,3,2,1])) True = Some (ls, p, g)"
    by auto
  moreover from link_loop_found [OF this] have g by simp
  ultimately show ?thesis
    by (simp add: compare_and_iwlist_def report_survey_def example_survey_def example_stations_def n z f first)
qed

theorem known_station_hides_new_ones_witness:
  "\<exists>st. compare_and_iwlist example_stations example_survey
      ((hello_init [6,5,4,3,2,1])\<lparr>linkinfo := example_links\<rparr>) = Some st \<and>
    map ls_station (linkinfo st) = map ls_station (linkinfo ((hello_init [6,5,4,3,2,1])\<lparr>linkinfo := example_links\<rparr>))"
proof -
  from example_run_stations obtain st where st: "compare_and_iwlist example_stations example_survey
      ((hello_init [6,5,4,3,2,1])\<lparr>linkinfo := example_links\<rparr>) = Some st" by blast
  have "map ls_station (linkinfo st) = map ls_station (linkinfo ((hello_init [6,5,4,3,2,1])\<lparr>linkinfo := example_links\<rparr>))"
    by (rule known_station_hides_new_ones [OF st [unfolded example_stations_def],
          of "zero_links\<lparr>ls_station := [1,2,3,4,5,6]\<rparr>"])
      (simp_all add: example_links_def strcmp_linger_eq)
  with st show ?thesis by blast
qed

section \<open>The table of results\<close>

lemma strcmp_linger_pos:
  "length s = 6 \<Longrightarrow> length t = 6 \<Longrightarrow> 0 < strcmp_linger s t \<longleftrightarrow> s \<noteq> t"
  using strcmp_linger_eq [of s t] by auto

lemma replace_result_none:
  "list_all (\<lambda>x. strcmp_linger (iw_station t) (iw_station x) \<noteq> 0) xs \<Longrightarrow> replace_result t xs = None"
  by (induction xs) auto

lemma store_result_first:
  assumes "iw_sec t \<noteq> 0" "length (iw_station t) = 6" "iw_station t \<noteq> zero_mac"
  shows "store_result t iwp_init = \<lparr>iwp_count = 10, iwp_link = replicate 10 t\<rparr>"
proof -
  have "replace_result t (iwp_link iwp_init) = None"
    by (rule replace_result_none)
      (use assms in \<open>simp add: iwp_init_def zero_iw_def strcmp_linger_pos zero_mac_def list_all_iff\<close>)
  then show ?thesis
    by (simp add: store_result_def insert_result_def expire_results_def, simp add: iwp_init_def zero_iw_def)
qed

lemma store_result_other:
  assumes "iw_sec t \<noteq> 0" "length (iw_station t) = 6" "length (iw_station t') = 6"
    "iw_station t' \<noteq> iw_station t"
  shows "store_result t' \<lparr>iwp_count = 10, iwp_link = replicate 10 t\<rparr> =
    (if 2 < iw_sec t' - iw_sec t then iwp_init else \<lparr>iwp_count = 10, iwp_link = replicate 10 t\<rparr>)"
proof -
  have "replace_result t' (replicate 10 t) = None"
    by (rule replace_result_none) (use assms in \<open>simp add: strcmp_linger_pos list_all_iff\<close>)
  then show ?thesis
    using assms(1) by (simp add: store_result_def insert_result_def expire_results_def iwp_init_def)
qed

text \<open>
  The first result fills all ten places of the table with copies of itself.  The result of a
  second station is never entered then: the table stays as it is, or loses all its entries when
  the copies are more than two seconds older.
\<close>

theorem results_of_one_station:
  assumes "iw_sec t \<noteq> 0" "length (iw_station t) = 6" "iw_station t \<noteq> zero_mac"
    "length (iw_station t') = 6" "iw_station t' \<noteq> iw_station t"
  shows "iwp_link (store_result t iwp_init) = replicate 10 t \<and>
    store_result t' (store_result t iwp_init) \<in> {store_result t iwp_init, iwp_init}"
  using store_result_first [OF assms(1-3)] store_result_other [OF assms(1,2,4,5)] by simp

theorem results_of_one_station_witness:
  "iwp_link (store_result (zero_iw\<lparr>iw_station := [1,2,3,4,5,6], iw_sec := 7\<rparr>) iwp_init) =
     replicate 10 (zero_iw\<lparr>iw_station := [1,2,3,4,5,6], iw_sec := 7\<rparr>) \<and>
   store_result (zero_iw\<lparr>iw_station := [1,2,3,4,5,7], iw_sec := 7\<rparr>)
      (store_result (zero_iw\<lparr>iw_station := [1,2,3,4,5,6], iw_sec := 7\<rparr>) iwp_init) \<in>
     {store_result (zero_iw\<lparr>iw_station := [1,2,3,4,5,6], iw_sec := 7\<rparr>) iwp_init, iwp_init}"
  by (rule results_of_one_station) (simp_all add: zero_mac_def)

section \<open>The value of a rate\<close>

lemma sdiv_nonneg: "0 \<le> a \<Longrightarrow> 0 < b \<Longrightarrow> a sdiv b = a div (b :: int)"
  by (simp add: signed_divide_int_def sgn_if)

lemma sdiv_neg: "a < 0 \<Longrightarrow> 0 < b \<Longrightarrow> a sdiv b = - ((- a) div (b :: int))"
  by (simp add: signed_divide_int_def sgn_if)

lemma sint_of_int_32:
  "- 2147483648 \<le> x \<Longrightarrow> x < 2147483648 \<Longrightarrow> sint (word_of_int x :: u32) = x"
  by (simp add: sint_sbintrunc' signed_take_bit_int_eq_self)

lemma sint_product:
  assumes "uint d \<le> 4294"
  shows "sint (1000000 * (d :: u32)) =
    (if uint d \<le> 2147 then 1000000 * uint d else 1000000 * uint d - 4294967296)"
proof -
  let ?n = "uint d"
  have p: "1000000 * d = word_of_int (1000000 * ?n)"
    by simp
  show ?thesis
  proof (cases "uint d \<le> 2147")
    case True
    then have "sint (word_of_int (1000000 * ?n) :: u32) = 1000000 * ?n"
      using uint_ge_0 [of d] by (intro sint_of_int_32) linarith+
    then show ?thesis using True by (simp only: p if_True)
  next
    case False
    have "(word_of_int (1000000 * ?n) :: u32) = word_of_int (1000000 * ?n - 4294967296)"
      by simp
    with p have e: "1000000 * d = word_of_int (1000000 * ?n - 4294967296)" by (rule trans)
    have "sint (word_of_int (1000000 * ?n - 4294967296) :: u32) = 1000000 * ?n - 4294967296"
      using False assms by (intro sint_of_int_32) simp_all
    then show ?thesis using False by (simp only: e if_False)
  qed
qed

lemma quotient_bounds:
  fixes a b :: int
  assumes "0 \<le> a" "a < 2147483648" "0 < b"
  shows "0 \<le> a div b \<and> a div b < 2147483648"
proof -
  have "a div b \<le> a div 1" using assms by (intro zdiv_mono2) simp_all
  with assms show ?thesis by (simp add: pos_imp_zdiv_nonneg_iff)
qed

text \<open>
  A rate is the exact quotient only while the counter grew by at most 2147 in the window;
  for a growth of 2148 to 4294 the product of 32 bits wraps and the rate, read as a signed
  number, is not positive.
\<close>

theorem rate_value:
  assumes "uint (new - old) \<le> 4294" "0 < sint duration"
  shows "sint (rate new old duration) =
    (if uint (new - old) \<le> 2147
     then 1000000 * uint (new - old) div sint duration
     else - ((4294967296 - 1000000 * uint (new - old)) div sint duration))"
proof -
  let ?d = "uint (new - old)"
  show ?thesis
  proof (cases "uint (new - old) \<le> 2147")
    case True
    then have q: "0 \<le> 1000000 * ?d" "1000000 * ?d < 2147483648" by simp_all
    have "sint (rate new old duration) = sint (word_of_int (1000000 * ?d div sint duration) :: u32)"
      using True sint_product [OF assms(1)] q(1) assms(2) by (simp add: rate_def c_div_def sdiv_nonneg)
    also have "\<dots> = 1000000 * ?d div sint duration"
      using quotient_bounds [OF q assms(2)] by (intro sint_of_int_32) linarith+
    finally show ?thesis using True by simp
  next
    case False
    then have q: "0 \<le> 4294967296 - 1000000 * ?d" "4294967296 - 1000000 * ?d < 2147483648"
      "1000000 * ?d - 4294967296 < 0" using assms(1) by simp_all
    have "sint (rate new old duration) =
        sint (word_of_int (- ((4294967296 - 1000000 * ?d) div sint duration)) :: u32)"
      using False sint_product [OF assms(1)] sdiv_neg [OF q(3) assms(2)]
      by (simp add: rate_def c_div_def)
    also have "\<dots> = - ((4294967296 - 1000000 * ?d) div sint duration)"
      using quotient_bounds [OF q(1,2) assms(2)] by (intro sint_of_int_32) linarith+
    finally show ?thesis using False by simp
  qed
qed

theorem rate_value_witness:
  "sint (rate 5000 2000 100) =
    (if uint (5000 - 2000 :: u32) \<le> 2147
     then 1000000 * uint (5000 - 2000 :: u32) div sint (100 :: u32)
     else - ((4294967296 - 1000000 * uint (5000 - 2000 :: u32)) div sint (100 :: u32)))"
  by (rule rate_value) simp_all


section \<open>The ring of samples\<close>

fun link_samples :: "data_iw list \<Rightarrow> links \<Rightarrow> links option" where
  "link_samples [] l = Some l"
| "link_samples (r # rs) l = (case link_sample r l of None \<Rightarrow> None | Some (l', k) \<Rightarrow> link_samples rs l')"

text \<open>Where the ring stands after a start and n further samples.\<close>

definition ring_at :: "nat \<Rightarrow> links \<Rightarrow> bool" where
  "ring_at n l \<longleftrightarrow> length (ls_link l) = 100 \<and> ls_head l = (n + 1) mod 100 \<and>
     ls_tail l = (if n + 1 < 100 then 0 else (n + 2) mod 100)"

lemma link_start_ring: "\<exists>l. link_start r zero_links = Some l \<and> ring_at 0 l"
  by (simp add: link_start_def zero_links_def ring_at_def Let_def)

lemma link_sample_ring:
  assumes "ring_at n l"
  shows "\<exists>l' k. link_sample r l = Some (l', k) \<and> ring_at (Suc n) l'"
proof -
  have len: "length (ls_link l) = 100" and h: "ls_head l = (n + 1) mod 100"
    and t: "ls_tail l = (if n + 1 < 100 then 0 else (n + 2) mod 100)"
    using assms by (simp_all add: ring_at_def)
  have hd: "(ls_head l + 1) mod 100 = (Suc n + 1) mod 100"
    using h by (simp add: mod_Suc_eq)
  have meet: "(Suc n + 1) mod 100 = ls_tail l \<longleftrightarrow> 100 \<le> n + 2"
  proof -
    consider "n + 2 < 100" | "n = 98" | "99 \<le> n" by linarith
    then show ?thesis using t by cases simp_all
  qed
  have tl: "(ls_tail l + 1) mod 100 = (Suc n + 2) mod 100" if more: "100 \<le> n + 2"
  proof -
    consider "n = 98" | "99 \<le> n" using more by linarith
    then show ?thesis
    proof cases
      case 1
      with t show ?thesis by simp
    next
      case 2
      with t have "ls_tail l = (n + 2) mod 100" by simp
      then have "(ls_tail l + 1) mod 100 = (n + 2 + 1) mod 100" by (simp only: mod_add_left_eq)
      then show ?thesis by (simp add: add.commute)
    qed
  qed
  have lt: "ls_head l < 100" "ls_tail l < 100" using h t by simp_all
  show ?thesis
  proof (cases "100 \<le> n + 2")
    case True
    with len lt hd meet tl show ?thesis
      by (simp add: link_sample_def ring_at_def Let_def read_at_def)
  next
    case False
    with len lt hd meet t show ?thesis
      by (simp add: link_sample_def ring_at_def Let_def read_at_def)
  qed
qed

lemma link_samples_ring:
  "ring_at n l \<Longrightarrow> \<exists>l'. link_samples rs l = Some l' \<and> ring_at (n + length rs) l'"
proof (induction rs arbitrary: n l)
  case Nil
  then show ?case by simp
next
  case (Cons r rs)
  from link_sample_ring [OF Cons.prems] obtain l1 k where
    "link_sample r l = Some (l1, k)" "ring_at (Suc n) l1" by blast
  with Cons.IH show ?case by fastforce
qed

text \<open>
  As long as a ring is used for one station, every sample stays within its hundred places.
  But when the ring of a station with 198 samples is given to another station, its tail is moved
  to place 100, and the next sample of that station reads behind the ring.
\<close>

theorem reused_ring_overruns:
  assumes "length rs = 197"
  shows "\<exists>l1 l2 l3. link_start r zero_links = Some l1 \<and> link_samples rs l1 = Some l2 \<and>
    link_start r' (l2\<lparr>ls_sec := 0\<rparr>) = Some l3 \<and> ls_tail l3 = 100 \<and> link_sample r'' l3 = None"
proof -
  from link_start_ring obtain l1 where l1: "link_start r zero_links = Some l1" "ring_at 0 l1" by blast
  from link_samples_ring [OF l1(2), of rs] assms obtain l2 where
    l2: "link_samples rs l1 = Some l2" "ring_at 197 l2" by auto
  from l2(2) have r: "length (ls_link l2) = 100" "ls_head l2 = 98" "ls_tail l2 = 99"
    by (simp_all add: ring_at_def)
  then obtain l3 where l3: "link_start r' (l2\<lparr>ls_sec := 0\<rparr>) = Some l3" "ls_tail l3 = 100" "ls_head l3 = 99"
    "length (ls_link l3) = 100"
    by (simp add: link_start_def Let_def)
  then have "link_sample r'' l3 = None" by (simp add: link_sample_def Let_def read_at_def)
  with l1 l2 l3 show ?thesis by blast
qed

theorem reused_ring_overruns_witness:
  "\<exists>l1 l2 l3. link_start zero_iw zero_links = Some l1 \<and> link_samples (replicate 197 zero_iw) l1 = Some l2 \<and>
    link_start zero_iw (l2\<lparr>ls_sec := 0\<rparr>) = Some l3 \<and> ls_tail l3 = 100 \<and> link_sample zero_iw l3 = None"
  by (rule reused_ring_overruns) simp

end
