(* ===== verification/Decision_Tree.thy ===== *)
theory Decision_Tree
  imports Prelude
begin

text \<open>
  The decision tree of the controller program on the routers, \<^verbatim>\<open>create_tree/createtree.c\<close>: the
  tree arrives as text, one record per node in preorder, is rebuilt from the list of records and
  searched with the measured values; the flow with the most packets is controlled when the
  search ends in a leaf.

  A pointer to a record of the linked list is the rest of the list, a null pointer to a tree node
  is \<open>Null\<close>, and a null dereference or an access outside an array is the value None.  The type
  \<open>float\<close> and its reader \<open>atof\<close> are parameters, a linear order \<open>'f\<close> and a function, so nothing
  depends on rounding.  The sizes given to \<open>malloc\<close> are not modelled (each name is given one byte
  too few for its terminator).
\<close>

section \<open>Data\<close>

record 'f rawdata =
  rd_father :: int
  rd_itself :: int
  rd_name :: "string option"
  rd_value :: 'f
  rd_class :: int

datatype 'f treenode = Null | Node int string 'f int "'f treenode" "'f treenode"

record 'f item_value =
  it_name :: "string option"
  it_value :: 'f

section \<open>Reading the text\<close>

text \<open>The tokens that repeated calls of \<open>strtok_r\<close> yield for one delimiter.\<close>

function tokens :: "char \<Rightarrow> string \<Rightarrow> string list" where
  "tokens d [] = []"
| "tokens d (c # cs) =
    (if c = d then tokens d cs
     else takeWhile (\<lambda>x. x \<noteq> d) (c # cs) # tokens d (dropWhile (\<lambda>x. x \<noteq> d) cs))"
  by pat_completeness auto
termination
  by (relation "measure (\<lambda>(d, s). length s)") (auto simp: le_imp_less_Suc length_dropWhile_le)

text \<open>\<open>atoi\<close>: leading blanks, a sign, and the digits that follow.\<close>

definition digit_value :: "char \<Rightarrow> int" where
  "digit_value c = int (of_char c) - 48"

definition is_digit :: "char \<Rightarrow> bool" where
  "is_digit c \<longleftrightarrow> 48 \<le> (of_char c :: nat) \<and> (of_char c :: nat) \<le> 57"

definition digits_value :: "string \<Rightarrow> int" where
  "digits_value s = foldl (\<lambda>n c. 10 * n + digit_value c) 0 (takeWhile is_digit s)"

definition atoi :: "string \<Rightarrow> int" where
  "atoi s =
    (case dropWhile (\<lambda>c. c = CHR '' '') s of
       [] \<Rightarrow> 0
     | c # cs \<Rightarrow> if c = CHR ''-'' then - digits_value cs
                 else if c = CHR ''+'' then digits_value cs
                 else digits_value (c # cs))"

text \<open>The fields of a record by their position.\<close>

definition set_field :: "(string \<Rightarrow> 'f) \<Rightarrow> nat \<Rightarrow> string \<Rightarrow> 'f rawdata \<Rightarrow> 'f rawdata" where
  "set_field atof k q r =
    (if k = 0 then r\<lparr>rd_father := atoi q\<rparr>
     else if k = 1 then r\<lparr>rd_itself := atoi q\<rparr>
     else if k = 2 then r\<lparr>rd_name := Some q\<rparr>
     else if k = 3 then r\<lparr>rd_value := atof q\<rparr>
     else if k = 4 then r\<lparr>rd_class := atoi q\<rparr>
     else r)"

fun set_fields :: "(string \<Rightarrow> 'f) \<Rightarrow> nat \<Rightarrow> string list \<Rightarrow> 'f rawdata \<Rightarrow> 'f rawdata" where
  "set_fields atof k [] r = r"
| "set_fields atof k (q # qs) r = set_fields atof (k + 1) qs (set_field atof k q r)"

definition parse_record :: "(string \<Rightarrow> 'f::zero) \<Rightarrow> string \<Rightarrow> 'f rawdata" where
  "parse_record atof p =
    set_fields atof 0 (tokens CHR '','' p)
      \<lparr>rd_father = 0, rd_itself = 0, rd_name = None, rd_value = 0, rd_class = 0\<rparr>"

definition init_rawdata :: "(string \<Rightarrow> 'f::zero) \<Rightarrow> string \<Rightarrow> 'f rawdata list" where
  "init_rawdata atof inputtxt = map (parse_record atof) (tokens CHR ''|'' inputtxt)"

section \<open>Building the tree\<close>

fun find_lchild :: "'f rawdata list \<Rightarrow> int \<Rightarrow> 'f rawdata list" where
  "find_lchild [] father = []"
| "find_lchild (p # ps) father = (if rd_father p = father then p # ps else find_lchild ps father)"

fun find_rchild_from :: "int \<Rightarrow> 'f rawdata list \<Rightarrow> int \<Rightarrow> 'f rawdata list" where
  "find_rchild_from rchild [] father = []"
| "find_rchild_from rchild (p # ps) father =
    (if rd_father p = father then
       (if rchild = 1 then p # ps else find_rchild_from (rchild + 1) ps father)
     else find_rchild_from rchild ps father)"

definition find_rchild :: "'f rawdata list \<Rightarrow> int \<Rightarrow> 'f rawdata list" where
  "find_rchild ps father = find_rchild_from 0 ps father"

lemma length_find_lchild: "length (find_lchild ps f) \<le> length ps"
  by (induction ps) auto

lemma length_find_rchild_from: "length (find_rchild_from k ps f) \<le> length ps"
  by (induction ps arbitrary: k) (auto intro: le_SucI)

lemma length_find_rchild: "length (find_rchild ps f) \<le> length ps"
  by (simp add: find_rchild_def length_find_rchild_from)

function create_tree :: "'f rawdata list \<Rightarrow> 'f treenode option" where
  "create_tree [] = Some Null"
| "create_tree (p # ps) =
    (case rd_name p of
       None \<Rightarrow> None
     | Some nm \<Rightarrow>
        if nm = ''leaf'' then Some (Node (rd_itself p) nm (rd_value p) (rd_class p) Null Null)
        else (case create_tree (find_lchild ps (rd_itself p)) of
                None \<Rightarrow> None
              | Some l \<Rightarrow>
                 (case create_tree (find_rchild ps (rd_itself p)) of
                    None \<Rightarrow> None
                  | Some r \<Rightarrow> Some (Node (rd_itself p) nm (rd_value p) (rd_class p) l r))))"
  by pat_completeness auto
termination
  by (relation "measure length")
    (auto simp: less_Suc_eq_le length_find_lchild length_find_rchild)

fun TreeDepth :: "'f treenode \<Rightarrow> int" where
  "TreeDepth Null = -1"
| "TreeDepth (Node i nm v c l r) =
    (let leftdep = (if l \<noteq> Null then TreeDepth l else -1);
         rightdep = (if r \<noteq> Null then TreeDepth r else -1)
     in if leftdep < rightdep then rightdep + 1 else leftdep + 1)"

section \<open>The names of the parameters\<close>

fun parameters_loop :: "'f rawdata list \<Rightarrow> string list \<Rightarrow> string list option" where
  "parameters_loop [] tmp = Some tmp"
| "parameters_loop (p # ps) tmp =
    (case rd_name p of
       None \<Rightarrow> None
     | Some nm \<Rightarrow>
        if nm = ''leaf'' \<or> nm \<in> set tmp then parameters_loop ps tmp
        else if length tmp < 80 then parameters_loop ps (tmp @ [nm])
        else None)"

definition get_parameters :: "'f rawdata list \<Rightarrow> string list option" where
  "get_parameters ps = parameters_loop ps []"

section \<open>Searching the tree\<close>

text \<open>
  The loop over the values: the name is compared before it is checked for being null.  The
  results are a null dereference, no value of this name, and the value.
\<close>

fun find_item :: "'f item_value list \<Rightarrow> string \<Rightarrow> 'f option option" where
  "find_item [] nm = Some None"
| "find_item (x # xs) nm =
    (case it_name x of
       None \<Rightarrow> None
     | Some s \<Rightarrow> if nm = s then Some (Some (it_value x)) else find_item xs nm)"

fun bst_loop :: "'f::linorder item_value list \<Rightarrow> bool \<Rightarrow> 'f treenode \<Rightarrow> 'f treenode \<Rightarrow> 'f treenode option" where
  "bst_loop items found node_pre Null =
    (if node_pre = Null then None else Some (if found then Null else node_pre))"
| "bst_loop items found node_pre (Node i nm v c l r) =
    (if nm = ''leaf'' then
       (if node_pre = Null then None else Some (if found then Node i nm v c l r else node_pre))
     else
       (case find_item items nm of
          None \<Rightarrow> None
        | Some None \<Rightarrow> Some Null
        | Some (Some x) \<Rightarrow>
            if x \<le> v then bst_loop items True (Node i nm v c l r) l
            else bst_loop items True (Node i nm v c l r) r))"

definition bst_search :: "'f::linorder treenode \<Rightarrow> 'f item_value list \<Rightarrow> 'f treenode option" where
  "bst_search node items = bst_loop items False node node"

section \<open>The values and the flow to control\<close>

record user_apstates =
  ua_sec :: u32
  ua_usec :: u32
  ua_drop_count :: u32
  ua_time :: u64
  ua_time_busy :: u64
  ua_time_ext_busy :: u64
  ua_time_rx :: u64
  ua_time_tx :: u64
  ua_time_scan :: u64
  ua_noise :: u8
  ua_stations :: u8
  ua_packets :: u32
  ua_bytes :: u64
  ua_qlen :: u32
  ua_backlog :: u32
  ua_drops :: u32
  ua_requeues :: u32
  ua_overlimits :: u32
  ua_pad :: u16

text \<open>
  The fourteen values; \<open>scaled\<close> is the conversion to \<open>float\<close> and the product with 0.000001, \<open>plain\<close>
  the conversion alone.  The last two values are those of the enumeration constants.
\<close>

definition named :: "string \<Rightarrow> 'f \<Rightarrow> 'f item_value" where
  "named s x = \<lparr>it_name = Some s, it_value = x\<rparr>"

definition fstates :: "(int \<Rightarrow> 'f) \<Rightarrow> (int \<Rightarrow> 'f) \<Rightarrow> user_apstates \<Rightarrow> 'f item_value list" where
  "fstates scaled plain a = [
     named ''drop_count'' (scaled (uint (ua_drop_count a))),
     named ''time_busy'' (scaled (uint (ua_time_busy a))),
     named ''time_ext_busy'' (scaled (uint (ua_time_ext_busy a))),
     named ''time_rx'' (scaled (uint (ua_time_rx a))),
     named ''time_tx'' (scaled (uint (ua_time_tx a))),
     named ''time_scan'' (scaled (uint (ua_time_scan a))),
     named ''noise'' (plain (sint (ua_noise a))),
     named ''packets'' (scaled (uint (ua_packets a))),
     named ''bytes'' (scaled (uint (ua_bytes a))),
     named ''qlen'' (plain (uint (ua_qlen a))),
     named ''backlog'' (plain (uint (ua_backlog a))),
     named ''drops'' (plain (uint (ua_drops a))),
     named ''requeues'' (scaled 12),
     named ''overlimits'' (scaled 13)]"

record user_flow =
  uf_ip_src :: u32
  uf_ip_dst :: u32
  uf_sourceaddr :: u16
  uf_destination :: u16
  uf_winsize :: u16
  uf_sec :: u32
  uf_usec :: u32
  uf_packets :: u64

definition zero_flow :: user_flow where
  "zero_flow = \<lparr>uf_ip_src = 0, uf_ip_dst = 0, uf_sourceaddr = 0, uf_destination = 0, uf_winsize = 0,
     uf_sec = 0, uf_usec = 0, uf_packets = 0\<rparr>"

definition max_flow :: "user_flow list \<Rightarrow> user_flow" where
  "max_flow = foldl (\<lambda>m tmp. if uf_packets m < uf_packets tmp then tmp else m) zero_flow"

text \<open>The flow that is controlled, when there is one.\<close>

definition flow_to_control :: "'f::linorder treenode \<Rightarrow> 'f item_value list \<Rightarrow> user_flow list \<Rightarrow> user_flow option option" where
  "flow_to_control tnode items flows =
    (case bst_search tnode items of
       None \<Rightarrow> None
     | Some search_results \<Rightarrow>
        if search_results = Null then Some None
        else Some (if uf_sec (max_flow flows) \<noteq> 0 then Some (max_flow flows) else None))"

section \<open>The tree that is built in\<close>

definition get_openflow_input :: string where
  "get_openflow_input = ''0,0,requeues_3,5158.975,0|0,1,busy_time_1,808.831,2|1,2,leaf,0,2|1,3,allpackets_1,150.5,2|3,4,leaf,0,2|3,5,requeues_1,678.932,2|5,6,drops_1,3211.45,2|6,7,leaf,0,2|6,8,leaf,0,2|5,9,leaf,0,2|0,10,busy_time_1,808.542,0|10,11,retrans_4,14.5,0|11,12,allpackets_3,182.5,0|12,13,retrans_5,14.5,0|13,14,retrans_3,0.5,0|14,15,receive_time_1,122.551,0|15,16,leaf,0,0|15,17,leaf,0,1|14,18,transmit_time_4,32.177,0|18,19,leaf,0,0|18,20,leaf,0,0|13,21,leaf,0,0|12,22,allpackets_1,202.5,0|22,23,rbytes_3,257018.672,0|23,24,leaf,0,0|23,25,allpackets_1,170.5,0|25,26,leaf,0,0|25,27,leaf,0,0|22,28,leaf,0,0|11,29,leaf,0,0|10,30,leaf,0,2''"

section \<open>Rebuilding a tree from its records\<close>

text \<open>The records of a tree in preorder, the form of the text.\<close>

fun flatten :: "int \<Rightarrow> 'f treenode \<Rightarrow> 'f rawdata list" where
  "flatten p Null = []"
| "flatten p (Node i nm v c l r) =
    \<lparr>rd_father = p, rd_itself = i, rd_name = Some nm, rd_value = v, rd_class = c\<rparr> #
      flatten i l @ flatten i r"

fun decision_tree :: "'f treenode \<Rightarrow> bool" where
  "decision_tree Null \<longleftrightarrow> False"
| "decision_tree (Node i nm v c l r) \<longleftrightarrow>
    (if nm = ''leaf'' then l = Null \<and> r = Null else decision_tree l \<and> decision_tree r)"

fun node_ids :: "'f treenode \<Rightarrow> int list" where
  "node_ids Null = []"
| "node_ids (Node i nm v c l r) = i # node_ids l @ node_ids r"

fun inner_names :: "'f treenode \<Rightarrow> string list" where
  "inner_names Null = []"
| "inner_names (Node i nm v c l r) =
    (if nm = ''leaf'' then [] else nm # inner_names l @ inner_names r)"

lemma find_lchild_head: "rd_father p = f \<Longrightarrow> find_lchild (p # ps) f = p # ps"
  by simp

lemma find_rchild_skip:
  "f \<notin> rd_father ` set ps \<Longrightarrow> find_rchild_from k (ps @ qs) f = find_rchild_from k qs f"
  by (induction ps) auto

lemma flatten_fathers: "rd_father ` set (flatten p t) \<subseteq> insert p (set (node_ids t))"
proof (induction t arbitrary: p)
  case Null
  then show ?case by simp
next
  case (Node i nm v c l r)
  from Node.IH(1) [of i] Node.IH(2) [of i] show ?case by (auto simp: image_Un)
qed

lemma flatten_shape:
  assumes "decision_tree t"
  obtains x xs where "\<forall>p. flatten p t = x\<lparr>rd_father := p\<rparr> # xs" "rd_father ` set xs \<subseteq> set (node_ids t)"
proof (cases t)
  case Null
  with assms show ?thesis by simp
next
  case (Node i nm v c l r)
  let ?x = "\<lparr>rd_father = 0, rd_itself = i, rd_name = Some nm, rd_value = v, rd_class = c\<rparr>"
  show ?thesis
    by (rule that [of ?x "flatten i l @ flatten i r"])
      (use Node flatten_fathers [of i l] flatten_fathers [of i r] in \<open>auto simp: image_Un\<close>)
qed

lemma create_tree_flatten:
  "decision_tree t \<Longrightarrow> distinct (node_ids t) \<Longrightarrow> create_tree (flatten p t @ rest) = Some t"
proof (induction t arbitrary: p rest)
  case Null
  then show ?case by simp
next
  case (Node i nm v c l r)
  show ?case
  proof (cases "nm = ''leaf''")
    case True
    with Node.prems show ?thesis by simp
  next
    case False
    with Node.prems have dl: "decision_tree l" "distinct (node_ids l)" "i \<notin> set (node_ids l)"
      and dr: "decision_tree r" "distinct (node_ids r)" by auto
    from dl(1) obtain x xs where x: "\<forall>p. flatten p l = x\<lparr>rd_father := p\<rparr> # xs"
      "rd_father ` set xs \<subseteq> set (node_ids l)" by (rule flatten_shape)
    from dr(1) obtain y ys where y: "\<forall>p. flatten p r = y\<lparr>rd_father := p\<rparr> # ys" by (rule flatten_shape)
    let ?ps = "flatten i l @ flatten i r @ rest"
    have "find_lchild ?ps i = flatten i l @ (flatten i r @ rest)" by (simp add: x(1))
    then have left: "create_tree (find_lchild ?ps i) = Some l"
      using Node.IH(1) [OF dl(1,2)] by simp
    have "find_rchild ?ps i = find_rchild_from 1 (xs @ flatten i r @ rest) i"
      by (simp add: find_rchild_def x(1))
    also have "\<dots> = find_rchild_from 1 (flatten i r @ rest) i"
      using x(2) dl(3) by (intro find_rchild_skip) auto
    also have "\<dots> = flatten i r @ rest" by (simp add: y)
    finally have "create_tree (find_rchild ?ps i) = Some r"
      using Node.IH(2) [OF dr] by simp
    with left False show ?thesis by simp
  qed
qed

text \<open>
  A decision tree whose nodes have different numbers is rebuilt exactly from its records in
  preorder, whatever number the root names as its father.
\<close>

theorem create_tree_inverts_flatten:
  assumes "decision_tree t" "distinct (node_ids t)"
  shows "create_tree (flatten p t) = Some t"
  using create_tree_flatten [OF assms, of p "[]"] by simp

definition example_tree :: "nat treenode" where
  "example_tree = Node 0 ''qlen'' 18 0
     (Node 1 ''leaf'' 0 0 Null Null)
     (Node 2 ''noise'' 7 1 (Node 3 ''leaf'' 0 1 Null Null) (Node 4 ''leaf'' 0 2 Null Null))"

theorem create_tree_inverts_flatten_witness:
  "create_tree (flatten 0 example_tree) = Some example_tree"
  by (rule create_tree_inverts_flatten) (simp_all add: example_tree_def)

section \<open>What the search decides\<close>

text \<open>The leaf that the values of the parameters select.\<close>

fun decide :: "(string \<Rightarrow> 'f::linorder) \<Rightarrow> 'f treenode \<Rightarrow> 'f treenode" where
  "decide val Null = Null"
| "decide val (Node i nm v c l r) =
    (if nm = ''leaf'' then Node i nm v c l r
     else if val nm \<le> v then decide val l else decide val r)"

definition named_values :: "'f item_value list \<Rightarrow> (string \<times> 'f) list" where
  "named_values items = map (\<lambda>x. (the (it_name x), it_value x)) items"

lemma find_item_named:
  "list_all (\<lambda>x. it_name x \<noteq> None) items \<Longrightarrow> find_item items nm = Some (map_of (named_values items) nm)"
  by (induction items) (auto simp: named_values_def)

lemma bst_loop_decides:
  assumes "list_all (\<lambda>x. it_name x \<noteq> None) items"
  shows "decision_tree t \<Longrightarrow> set (inner_names t) \<subseteq> dom (map_of (named_values items)) \<Longrightarrow> pre \<noteq> Null \<Longrightarrow>
    (\<not> found \<Longrightarrow> pre = t) \<Longrightarrow>
    bst_loop items found pre t = Some (decide (\<lambda>s. the (map_of (named_values items) s)) t)"
proof (induction t arbitrary: found pre)
  case Null
  then show ?case by simp
next
  case (Node i nm v c l r)
  show ?case
  proof (cases "nm = ''leaf''")
    case True
    with Node.prems show ?thesis by auto
  next
    case False
    with Node.prems(2) obtain x where "map_of (named_values items) nm = Some x" by auto
    with False Node.prems Node.IH(1) [of "Node i nm v c l r" True] Node.IH(2) [of "Node i nm v c l r" True]
    show ?thesis by (simp add: find_item_named [OF assms])
  qed
qed

lemma decide_leaf: "decision_tree t \<Longrightarrow> \<exists>i v c. decide val t = Node i ''leaf'' v c Null Null"
  by (induction t) (auto split: if_splits)

text \<open>
  C31.  When every value has a name and every parameter of the tree has a value, the search of a
  decision tree ends in the leaf that the comparisons along the path select.
\<close>

theorem bst_search_decides:
  assumes "decision_tree t" "list_all (\<lambda>x. it_name x \<noteq> None) items"
    and "set (inner_names t) \<subseteq> dom (map_of (named_values items))"
  shows "bst_search t items = Some (decide (\<lambda>s. the (map_of (named_values items) s)) t) \<and>
    (\<exists>i v c. decide (\<lambda>s. the (map_of (named_values items) s)) t = Node i ''leaf'' v c Null Null)"
proof -
  have "t \<noteq> Null" using assms(1) by auto
  with bst_loop_decides [OF assms(2,1,3), of t False] decide_leaf [OF assms(1)] show ?thesis
    by (simp add: bst_search_def)
qed

theorem bst_search_decides_witness:
  "bst_search example_tree [named ''noise'' 9, named ''qlen'' 20] =
     Some (decide (\<lambda>s. the (map_of (named_values [named ''noise'' 9, named ''qlen'' 20]) s)) example_tree) \<and>
   (\<exists>i v c. decide (\<lambda>s. the (map_of (named_values [named ''noise'' 9, named ''qlen'' 20]) s)) example_tree =
     Node i ''leaf'' v c Null Null)"
  by (rule bst_search_decides) (simp_all add: example_tree_def named_def named_values_def)

section \<open>The parameters\<close>

lemma parameters_loop_names:
  "list_all (\<lambda>p. rd_name p \<noteq> None) ps \<Longrightarrow> distinct tmp \<Longrightarrow>
   card (set tmp \<union> (Some -` rd_name ` set ps - {''leaf''})) \<le> 80 \<Longrightarrow>
   \<exists>res. parameters_loop ps tmp = Some res \<and> distinct res \<and>
     set res = set tmp \<union> (Some -` rd_name ` set ps - {''leaf''})"
proof (induction ps arbitrary: tmp)
  case Nil
  then show ?case by simp
next
  case (Cons p ps)
  from Cons.prems(1) obtain nm where nm: "rd_name p = Some nm" by auto
  have vim: "Some -` rd_name ` set (p # ps) = insert nm (Some -` rd_name ` set ps)" using nm by auto
  show ?case
  proof (cases "nm = ''leaf'' \<or> nm \<in> set tmp")
    case True
    then have eq: "set tmp \<union> (Some -` rd_name ` set (p # ps) - {''leaf''}) =
        set tmp \<union> (Some -` rd_name ` set ps - {''leaf''})" unfolding vim by auto
    with True Cons.prems Cons.IH [of tmp] nm show ?thesis by simp
  next
    case False
    then have eq: "set tmp \<union> (Some -` rd_name ` set (p # ps) - {''leaf''}) =
        set (tmp @ [nm]) \<union> (Some -` rd_name ` set ps - {''leaf''})" unfolding vim by auto
    have fin: "finite (Some -` rd_name ` set ps)"
      by (rule finite_vimageI) auto
    have "card (set (tmp @ [nm])) \<le> 80"
      using Cons.prems(3) unfolding eq by (rule order_trans [rotated]) (use fin in \<open>auto intro: card_mono\<close>)
    then have "length tmp < 80"
      using False Cons.prems(2) distinct_card [of "tmp @ [nm]"] by simp
    with False Cons.prems Cons.IH [of "tmp @ [nm]"] nm eq show ?thesis by simp
  qed
qed

lemma flatten_names:
  "decision_tree t \<Longrightarrow> list_all (\<lambda>p. rd_name p \<noteq> None) (flatten f t)"
  "decision_tree t \<Longrightarrow> Some -` rd_name ` set (flatten f t) - {''leaf''} = set (inner_names t)"
proof (induction t arbitrary: f)
  case (Node i nm v c l r)
  { case 1
    with Node show ?case by (auto split: if_splits) }
  { case 2
    show ?case
    proof (cases "nm = ''leaf''")
      case True
      with 2 show ?thesis by auto
    next
      case False
      have "Some -` rd_name ` set (flatten f (Node i nm v c l r)) =
          insert nm (Some -` rd_name ` set (flatten i l) \<union> Some -` rd_name ` set (flatten i r))" by auto
      with False 2 Node.IH(2) [of i] Node.IH(4) [of i] show ?thesis
        by (simp add: insert_Diff_if Un_Diff)
    qed }
qed simp_all

text \<open>
  The list of parameters of a tree with at most eighty of them holds each parameter that an
  inner node of the tree asks for exactly once, within the array of eighty names.
\<close>

theorem get_parameters_of_tree:
  assumes "decision_tree t" "card (set (inner_names t)) \<le> 80"
  shows "\<exists>ps. get_parameters (flatten p t) = Some ps \<and> distinct ps \<and> set ps = set (inner_names t)"
  using parameters_loop_names [OF flatten_names(1) [OF assms(1), of p], of "[]"] assms(2)
  by (simp add: get_parameters_def flatten_names(2) [OF assms(1)])

theorem get_parameters_of_tree_witness:
  "\<exists>ps. get_parameters (flatten 0 example_tree) = Some ps \<and> distinct ps \<and>
    set ps = set (inner_names example_tree)"
  by (rule get_parameters_of_tree) (simp_all add: example_tree_def card_insert_if)

section \<open>The built-in tree and the names of the values\<close>

lemma create_tree_root:
  "create_tree (p # ps) = Some t \<Longrightarrow> rd_name p = Some nm \<Longrightarrow> \<exists>l r. t = Node (rd_itself p) nm (rd_value p) (rd_class p) l r"
  by (auto split: if_splits option.splits)

lemma tokens_head:
  "list_all (\<lambda>c. c \<noteq> d) s \<Longrightarrow> s \<noteq> [] \<Longrightarrow> tokens d (s @ d # rest) = s # tokens d (d # rest)"
  by (cases s) (auto simp: list_all_iff takeWhile_append2 dropWhile_append2)

lemma builtin_root:
  "\<exists>l r. create_tree (init_rawdata atof get_openflow_input) = None \<or>
     create_tree (init_rawdata atof get_openflow_input) = Some (Node 0 ''requeues_3'' (atof ''5158.975'') 0 l r)"
proof -
  obtain rest where inp: "get_openflow_input = ''0,0,requeues_3,5158.975,0'' @ CHR ''|'' # rest"
    by (simp add: get_openflow_input_def)
  have "tokens CHR ''|'' get_openflow_input = ''0,0,requeues_3,5158.975,0'' # tokens CHR ''|'' (CHR ''|'' # rest)"
    unfolding inp by (rule tokens_head) simp_all
  then obtain ps where ps: "init_rawdata atof get_openflow_input =
      parse_record atof ''0,0,requeues_3,5158.975,0'' # ps"
    by (simp add: init_rawdata_def)
  have "parse_record atof ''0,0,requeues_3,5158.975,0'' =
      \<lparr>rd_father = 0, rd_itself = 0, rd_name = Some ''requeues_3'', rd_value = atof ''5158.975'', rd_class = 0\<rparr>"
    by (simp add: parse_record_def set_field_def atoi_def digits_value_def is_digit_def digit_value_def)
  with ps show ?thesis
    using create_tree_root [of "parse_record atof ''0,0,requeues_3,5158.975,0''" ps]
    by (cases "create_tree (init_rawdata atof get_openflow_input)") auto
qed

lemma builtin_tree_built: "create_tree (init_rawdata atof get_openflow_input) \<noteq> None"
  by code_simp

text \<open>
  With the tree that is built into the program, no measurement ever leads to a decision: the
  root asks for the parameter requeues_3, the program provides fourteen values none of which has
  this name, the search returns null and no flow is controlled.
\<close>

theorem builtin_tree_never_controls:
  "\<exists>tnode. create_tree (init_rawdata atof get_openflow_input) = Some tnode \<and>
    flow_to_control tnode (fstates scaled plain a) flows = Some None"
proof -
  from builtin_root [of atof] builtin_tree_built [of atof] obtain l r where
    "create_tree (init_rawdata atof get_openflow_input) = Some (Node 0 ''requeues_3'' (atof ''5158.975'') 0 l r)"
    by auto
  then show ?thesis
    by (simp add: flow_to_control_def bst_search_def fstates_def named_def)
qed

end
