(* ===== verification/Tree_Memory.thy ===== *)
theory Tree_Memory
  imports Decision_Tree Drop_Log
begin

text \<open>
  The memory of \<^verbatim>\<open>create_tree/createtree.c\<close>: the records, the names, the nodes of the tree and the array
  of parameters as blocks that are allocated and freed.  There is a heap for each kind of block; an
  access to null or to a freed block, and freeing a block twice, is the value None.  The program with
  pointers refines Decision_Tree, and \<^verbatim>\<open>destroy_everything\<close> frees every block of the tree exactly once;
  \<^verbatim>\<open>destroy_item_list\<close> frees the first name only.

  The allocator is a function of the addresses in use.  The sizes of the blocks are not modelled (the
  names are given one byte too few for their terminator), and neither are the blocks for messages.
\<close>

section \<open>Blocks\<close>

record 'f raw_cell =
  rc_father :: int
  rc_itself :: int
  rc_name :: "nat option"
  rc_value :: 'f
  rc_class :: int

record 'f tree_cell =
  tc_itself :: int
  tc_name :: nat
  tc_value :: 'f
  tc_class :: int
  tc_lchild :: "nat option"
  tc_rchild :: "nat option"

record 'f tree_memory =
  tm_text :: "nat \<rightharpoonup> string"
  tm_raw :: "'f raw_cell heap"
  tm_tree :: "nat \<rightharpoonup> 'f tree_cell"
  tm_array :: "nat \<rightharpoonup> nat option list"
  tm_node :: "nat option"
  tm_tnode :: "nat option"
  tm_parameters :: "nat option"

definition new_text :: "(nat set \<Rightarrow> nat) \<Rightarrow> string \<Rightarrow> 'f tree_memory \<Rightarrow> nat \<times> 'f tree_memory" where
  "new_text alloc s m = (let a = alloc (dom (tm_text m)) in (a, m\<lparr>tm_text := (tm_text m)(a \<mapsto> s)\<rparr>))"

text \<open>Freeing null does nothing.\<close>

definition free_text :: "nat option \<Rightarrow> 'f tree_memory \<Rightarrow> 'f tree_memory option" where
  "free_text p m =
    (case p of
       None \<Rightarrow> Some m
     | Some a \<Rightarrow> if tm_text m a = None then None else Some (m\<lparr>tm_text := (tm_text m)(a := None)\<rparr>))"

section \<open>Reading the records\<close>

definition set_field_mem :: "(nat set \<Rightarrow> nat) \<Rightarrow> (string \<Rightarrow> 'f) \<Rightarrow> nat \<Rightarrow> string \<Rightarrow> 'f raw_cell \<times> 'f tree_memory \<Rightarrow>
    'f raw_cell \<times> 'f tree_memory" where
  "set_field_mem alloc atof k q = (\<lambda>(c, m).
    if k = 0 then (c\<lparr>rc_father := atoi q\<rparr>, m)
    else if k = 1 then (c\<lparr>rc_itself := atoi q\<rparr>, m)
    else if k = 2 then (let (a, m') = new_text alloc q m in (c\<lparr>rc_name := Some a\<rparr>, m'))
    else if k = 3 then (c\<lparr>rc_value := atof q\<rparr>, m)
    else if k = 4 then (c\<lparr>rc_class := atoi q\<rparr>, m)
    else (c, m))"

fun set_fields_mem :: "(nat set \<Rightarrow> nat) \<Rightarrow> (string \<Rightarrow> 'f) \<Rightarrow> nat \<Rightarrow> string list \<Rightarrow> 'f raw_cell \<times> 'f tree_memory \<Rightarrow>
    'f raw_cell \<times> 'f tree_memory" where
  "set_fields_mem alloc atof k [] s = s"
| "set_fields_mem alloc atof k (q # qs) s = set_fields_mem alloc atof (k + 1) qs (set_field_mem alloc atof k q s)"

text \<open>
  The loop over the records: the new record becomes the head of the list when there is none, and is
  linked behind the last one of this text otherwise.
\<close>

fun link_records :: "(nat set \<Rightarrow> nat) \<Rightarrow> (string \<Rightarrow> 'f::zero) \<Rightarrow> nat option \<Rightarrow> string list \<Rightarrow> 'f tree_memory \<Rightarrow>
    'f tree_memory option" where
  "link_records alloc atof nodeptr [] m = Some m"
| "link_records alloc atof nodeptr (p # ps) m =
    (let a = alloc (dom (tm_raw m));
         (c, m1) = set_fields_mem alloc atof 0 (tokens CHR '','' p)
           (\<lparr>rc_father = 0, rc_itself = 0, rc_name = None, rc_value = 0, rc_class = 0\<rparr>, m);
         m2 = m1\<lparr>tm_raw := (tm_raw m1)(a \<mapsto> \<lparr>nval = c, nnext = None\<rparr>)\<rparr>
     in case tm_node m2 of
          None \<Rightarrow> link_records alloc atof (Some a) ps (m2\<lparr>tm_node := Some a\<rparr>)
        | Some _ \<Rightarrow>
           (case nodeptr of
              None \<Rightarrow> None
            | Some l \<Rightarrow>
               (case tm_raw m2 l of
                  None \<Rightarrow> None
                | Some n \<Rightarrow>
                    link_records alloc atof (Some a) ps
                      (m2\<lparr>tm_raw := (tm_raw m2)(l \<mapsto> n\<lparr>nnext := Some a\<rparr>)\<rparr>))))"

section \<open>Building the tree\<close>

partial_function (option) find_lchild_mem :: "'f raw_cell heap \<Rightarrow> int \<Rightarrow> nat option \<Rightarrow> nat option option" where
  "find_lchild_mem h father p =
    (case p of
       None \<Rightarrow> Some None
     | Some a \<Rightarrow> Option.bind (h a) (\<lambda>n.
         if rc_father (nval n) = father then Some p else find_lchild_mem h father (nnext n)))"

partial_function (option) find_rchild_mem :: "'f raw_cell heap \<Rightarrow> int \<Rightarrow> int \<Rightarrow> nat option \<Rightarrow> nat option option" where
  "find_rchild_mem h rchild father p =
    (case p of
       None \<Rightarrow> Some None
     | Some a \<Rightarrow> Option.bind (h a) (\<lambda>n.
         if rc_father (nval n) = father
         then (if rchild = 1 then Some p else find_rchild_mem h (rchild + 1) father (nnext n))
         else find_rchild_mem h rchild father (nnext n)))"

definition update_cell :: "nat \<Rightarrow> ('f tree_cell \<Rightarrow> 'f tree_cell) \<Rightarrow> 'f tree_memory \<Rightarrow> 'f tree_memory option" where
  "update_cell t f m = map_option (\<lambda>c. m\<lparr>tm_tree := (tm_tree m)(t \<mapsto> f c)\<rparr>) (tm_tree m t)"

partial_function (option) create_tree_mem ::
  "(nat set \<Rightarrow> nat) \<Rightarrow> nat option \<Rightarrow> 'f tree_memory \<Rightarrow> (nat option \<times> 'f tree_memory) option"
where
  "create_tree_mem alloc ptr m =
    (case ptr of
       None \<Rightarrow> Some (None, m)
     | Some a \<Rightarrow>
         Option.bind (tm_raw m a) (\<lambda>n. Option.bind (rc_name (nval n)) (\<lambda>nb. Option.bind (tm_text m nb) (\<lambda>nm.
           let t = alloc (dom (tm_tree m));
               (b, m1) = new_text alloc nm m;
               m2 = m1\<lparr>tm_tree := (tm_tree m1)(t \<mapsto> \<lparr>tc_itself = rc_itself (nval n), tc_name = b,
                 tc_value = rc_value (nval n), tc_class = rc_class (nval n), tc_lchild = None, tc_rchild = None\<rparr>)\<rparr>
           in if nm = ''leaf'' then Some (Some t, m2)
              else
                Option.bind (find_lchild_mem (tm_raw m2) (rc_itself (nval n)) (nnext n)) (\<lambda>q.
                Option.bind (create_tree_mem alloc q m2) (\<lambda>(l, m3).
                Option.bind (update_cell t (\<lambda>c. c\<lparr>tc_lchild := l\<rparr>) m3) (\<lambda>m4.
                Option.bind (find_rchild_mem (tm_raw m4) 0 (rc_itself (nval n)) (nnext n)) (\<lambda>q'.
                Option.bind (create_tree_mem alloc q' m4) (\<lambda>(r, m5).
                map_option (Pair (Some t)) (update_cell t (\<lambda>c. c\<lparr>tc_rchild := r\<rparr>) m5))))))))))"

section \<open>The parameters\<close>

text \<open>The entries of the array so far; a name is compared with the text of each of them.\<close>

partial_function (option) parameters_mem ::
  "(nat set \<Rightarrow> nat) \<Rightarrow> nat option \<Rightarrow> nat list \<Rightarrow> 'f tree_memory \<Rightarrow> (nat list \<times> 'f tree_memory) option"
where
  "parameters_mem alloc ptr tmp m =
    (case ptr of
       None \<Rightarrow> Some (tmp, m)
     | Some a \<Rightarrow>
         Option.bind (tm_raw m a) (\<lambda>n. Option.bind (rc_name (nval n)) (\<lambda>nb. Option.bind (tm_text m nb) (\<lambda>nm.
           if nm = ''leaf'' \<or> list_ex (\<lambda>b. tm_text m b = Some nm) tmp then parameters_mem alloc (nnext n) tmp m
           else if length tmp < 80
             then (let (b, m') = new_text alloc nm m in parameters_mem alloc (nnext n) (tmp @ [b]) m')
             else None))))"

definition get_parameters_mem :: "(nat set \<Rightarrow> nat) \<Rightarrow> nat option \<Rightarrow> 'f tree_memory \<Rightarrow> (nat \<times> 'f tree_memory) option" where
  "get_parameters_mem alloc ptr m =
    (let a = alloc (dom (tm_array m))
     in map_option (\<lambda>(tmp, m'). (a, m'\<lparr>tm_array := (tm_array m')(a \<mapsto> map Some tmp @ replicate (80 - length tmp) None)\<rparr>))
          (parameters_mem alloc ptr [] (m\<lparr>tm_array := (tm_array m)(a \<mapsto> replicate 80 None)\<rparr>)))"

text \<open>Printing the parameters runs to the first null entry, so there must be one.\<close>

definition init_linger_mem :: "(nat set \<Rightarrow> nat) \<Rightarrow> (string \<Rightarrow> 'f::zero) \<Rightarrow> string \<Rightarrow> 'f tree_memory \<Rightarrow> 'f tree_memory option" where
  "init_linger_mem alloc atof inputtxt m =
    Option.bind (link_records alloc atof None (tokens CHR ''|'' inputtxt) m) (\<lambda>m1.
    Option.bind (create_tree_mem alloc (tm_node m1) m1) (\<lambda>(t, m2).
    Option.bind (get_parameters_mem alloc (tm_node m2) (m2\<lparr>tm_tnode := t\<rparr>)) (\<lambda>(a, m3).
      if tm_array m3 a = None \<or> None \<notin> set (the (tm_array m3 a)) then None
      else Some (m3\<lparr>tm_parameters := Some a\<rparr>))))"

section \<open>Freeing\<close>

partial_function (option) free_rawdata :: "nat option \<Rightarrow> 'f tree_memory \<Rightarrow> 'f tree_memory option" where
  "free_rawdata head m =
    (case head of
       None \<Rightarrow> Some m
     | Some a \<Rightarrow>
         Option.bind (tm_raw m a) (\<lambda>n. Option.bind (free_text (rc_name (nval n)) m) (\<lambda>m1.
           free_rawdata (nnext n) (m1\<lparr>tm_raw := (tm_raw m1)(a := None)\<rparr>))))"

partial_function (option) destroy_tree :: "nat option \<Rightarrow> 'f tree_memory \<Rightarrow> 'f tree_memory option" where
  "destroy_tree T m =
    (case T of
       None \<Rightarrow> Some m
     | Some a \<Rightarrow>
         Option.bind (tm_tree m a) (\<lambda>c.
         Option.bind (destroy_tree (tc_lchild c) m) (\<lambda>m1.
         Option.bind (tm_tree m1 a) (\<lambda>c1.
         Option.bind (destroy_tree (tc_rchild c1) m1) (\<lambda>m2.
         Option.bind (tm_tree m2 a) (\<lambda>c2.
         Option.bind (free_text (Some (tc_name c2)) m2) (\<lambda>m3.
           Some (m3\<lparr>tm_tree := (tm_tree m3)(a := None)\<rparr>))))))))"

fun free_texts :: "nat option list \<Rightarrow> 'f tree_memory \<Rightarrow> 'f tree_memory option" where
  "free_texts [] m = Some m"
| "free_texts (p # ps) m = Option.bind (free_text p m) (free_texts ps)"

definition destroy_parameters :: "nat option \<Rightarrow> 'f tree_memory \<Rightarrow> 'f tree_memory option" where
  "destroy_parameters p m =
    Option.bind p (\<lambda>a. Option.bind (tm_array m a) (\<lambda>xs.
      map_option (\<lambda>m'. m'\<lparr>tm_array := (tm_array m')(a := None)\<rparr>) (free_texts xs m)))"

text \<open>The loop tests the same entry again, which is null once it is freed.\<close>

definition destroy_item_list :: "nat option list \<Rightarrow> 'f tree_memory \<Rightarrow> (nat option list \<times> 'f tree_memory) option" where
  "destroy_item_list names m =
    (case names of
       [] \<Rightarrow> None
     | p # ps \<Rightarrow> if p = None then Some (names, m) else map_option (\<lambda>m'. (None # ps, m')) (free_text p m))"

text \<open>The names of the global items are null: nothing calls \<open>create_items\<close>.\<close>

definition destroy_everything :: "'f tree_memory \<Rightarrow> 'f tree_memory option" where
  "destroy_everything m =
    Option.bind (destroy_item_list (replicate 100 None) m) (\<lambda>(_, m0).
    Option.bind (destroy_parameters (tm_parameters m0) m0) (\<lambda>m1.
    Option.bind (destroy_tree (tm_tnode m1) m1) (\<lambda>m2.
    map_option (\<lambda>m3. m3\<lparr>tm_node := None, tm_tnode := None, tm_parameters := None\<rparr>)
      (free_rawdata (tm_node m2) m2))))"

section \<open>A round\<close>

text \<open>The names of the fourteen values, in the order in which they are assigned.\<close>

fun assign_names :: "(nat set \<Rightarrow> nat) \<Rightarrow> string list \<Rightarrow> 'f tree_memory \<Rightarrow> nat option list \<times> 'f tree_memory" where
  "assign_names alloc [] m = ([], m)"
| "assign_names alloc (s # ss) m =
    (let (a, m1) = new_text alloc s m; (ps, m2) = assign_names alloc ss m1 in (Some a # ps, m2))"

definition value_names :: "string list" where
  "value_names = [''drop_count'', ''time_busy'', ''time_ext_busy'', ''time_rx'', ''time_tx'', ''time_scan'', ''noise'',
     ''packets'', ''bytes'', ''qlen'', ''backlog'', ''drops'', ''requeues'', ''overlimits'']"

text \<open>
  One turn of the loop of \<^verbatim>\<open>main\<close>, as far as blocks are concerned: the copy of the built-in text, which
  is freed only behind the loop, the tree, the names of the values when the kernel answers with a
  state, and the end of \<^verbatim>\<open>main_linger\<close>.
\<close>

definition round_mem :: "(nat set \<Rightarrow> nat) \<Rightarrow> (string \<Rightarrow> 'f::zero) \<Rightarrow> string \<Rightarrow> bool \<Rightarrow> 'f tree_memory \<Rightarrow> 'f tree_memory option" where
  "round_mem alloc atof inputtxt answered m =
    Option.bind (init_linger_mem alloc atof inputtxt (snd (new_text alloc inputtxt m))) (\<lambda>m1.
    Option.bind
      (if answered
       then (let (names, m2) = assign_names alloc value_names m1 in map_option snd (destroy_item_list names m2))
       else Some m1)
      destroy_everything)"

section \<open>What the blocks represent\<close>

lemma restrict_all [simp]: "f |` UNIV = f"
  by (simp add: restrict_map_def)

text \<open>A tree, with the addresses of its nodes and of its names.\<close>

fun tree_at :: "(nat \<rightharpoonup> 'f tree_cell) \<Rightarrow> (nat \<rightharpoonup> string) \<Rightarrow> nat option \<Rightarrow> 'f treenode \<Rightarrow> nat set \<Rightarrow> nat set \<Rightarrow> bool" where
  "tree_at H T p Null A N \<longleftrightarrow> p = None \<and> A = {} \<and> N = {}"
| "tree_at H T p (Node i nm v c l r) A N \<longleftrightarrow>
    (\<exists>a b pl pr A1 A2 N1 N2. p = Some a \<and>
       H a = Some \<lparr>tc_itself = i, tc_name = b, tc_value = v, tc_class = c, tc_lchild = pl, tc_rchild = pr\<rparr> \<and> T b = Some nm \<and>
       A = insert a (A1 \<union> A2) \<and> a \<notin> A1 \<union> A2 \<and> A1 \<inter> A2 = {} \<and> N = insert b (N1 \<union> N2) \<and> b \<notin> N1 \<union> N2 \<and> N1 \<inter> N2 = {} \<and>
       tree_at H T pl l A1 N1 \<and> tree_at H T pr r A2 N2)"

lemma tree_at_NodeE:
  assumes "tree_at H T p (Node i nm v c l r) A N"
  obtains a b pl pr A1 A2 N1 N2 where "p = Some a"
    "H a = Some \<lparr>tc_itself = i, tc_name = b, tc_value = v, tc_class = c, tc_lchild = pl, tc_rchild = pr\<rparr>" "T b = Some nm"
    "A = insert a (A1 \<union> A2)" "a \<notin> A1 \<union> A2" "A1 \<inter> A2 = {}" "N = insert b (N1 \<union> N2)" "b \<notin> N1 \<union> N2" "N1 \<inter> N2 = {}"
    "tree_at H T pl l A1 N1" "tree_at H T pr r A2 N2"
  using assms unfolding tree_at.simps by (elim exE conjE) (rule that; assumption)

lemma tree_at_agree:
  "tree_at H T p t A N \<Longrightarrow> (\<And>a. a \<in> A \<Longrightarrow> H' a = H a) \<Longrightarrow> (\<And>b. b \<in> N \<Longrightarrow> T' b = T b) \<Longrightarrow> tree_at H' T' p t A N"
proof (induction t arbitrary: p A N)
  case (Node i nm v c l r)
  from Node.prems(1) obtain a b pl pr A1 A2 N1 N2 where
    n: "p = Some a" "H a = Some \<lparr>tc_itself = i, tc_name = b, tc_value = v, tc_class = c, tc_lchild = pl, tc_rchild = pr\<rparr>"
      "T b = Some nm" "A = insert a (A1 \<union> A2)" "a \<notin> A1 \<union> A2" "A1 \<inter> A2 = {}" "N = insert b (N1 \<union> N2)" "b \<notin> N1 \<union> N2"
      "N1 \<inter> N2 = {}" "tree_at H T pl l A1 N1" "tree_at H T pr r A2 N2" by (rule tree_at_NodeE)
  have "tree_at H' T' pl l A1 N1" "tree_at H' T' pr r A2 N2"
    using Node.IH(1) [OF n(10)] Node.IH(2) [OF n(11)] Node.prems(2,3) n(4,7) by simp_all
  moreover have "H' a = H a" "T' b = T b" using Node.prems(2,3) n(4,7) by simp_all
  ultimately show ?case using n by auto
qed simp

lemma tree_at_dom: "tree_at H T p t A N \<Longrightarrow> A \<subseteq> dom H \<and> N \<subseteq> dom T \<and> finite A \<and> finite N"
proof (induction t arbitrary: p A N)
  case (Node i nm v c l r)
  from Node.prems(1) obtain a b pl pr A1 A2 N1 N2 where
    n: "p = Some a" "H a = Some \<lparr>tc_itself = i, tc_name = b, tc_value = v, tc_class = c, tc_lchild = pl, tc_rchild = pr\<rparr>"
      "T b = Some nm" "A = insert a (A1 \<union> A2)" "a \<notin> A1 \<union> A2" "A1 \<inter> A2 = {}" "N = insert b (N1 \<union> N2)" "b \<notin> N1 \<union> N2"
      "N1 \<inter> N2 = {}" "tree_at H T pl l A1 N1" "tree_at H T pr r A2 N2" by (rule tree_at_NodeE)
  from Node.IH(1) [OF n(10)] Node.IH(2) [OF n(11)] n(2-4,7) show ?case by (simp add: domIff)
qed simp

text \<open>Destroying a tree frees its blocks and no other.\<close>

lemma destroy_tree_frees:
  "tree_at (tm_tree m) (tm_text m) p t A N \<Longrightarrow>
   destroy_tree p m = Some (m\<lparr>tm_tree := tm_tree m |` (- A), tm_text := tm_text m |` (- N)\<rparr>)"
proof (induction t arbitrary: p A N m)
  case Null
  then show ?case by (subst destroy_tree.simps) simp
next
  case (Node i nm v c l r)
  from Node.prems(1) obtain a b pl pr A1 A2 N1 N2 where
    n: "p = Some a" "tm_tree m a = Some \<lparr>tc_itself = i, tc_name = b, tc_value = v, tc_class = c, tc_lchild = pl, tc_rchild = pr\<rparr>"
      "tm_text m b = Some nm" "A = insert a (A1 \<union> A2)" "a \<notin> A1 \<union> A2" "A1 \<inter> A2 = {}" "N = insert b (N1 \<union> N2)" "b \<notin> N1 \<union> N2"
      "N1 \<inter> N2 = {}" "tree_at (tm_tree m) (tm_text m) pl l A1 N1" "tree_at (tm_tree m) (tm_text m) pr r A2 N2" by (rule tree_at_NodeE)
  let ?m1 = "m\<lparr>tm_tree := tm_tree m |` (- A1), tm_text := tm_text m |` (- N1)\<rparr>"
  let ?m2 = "?m1\<lparr>tm_tree := tm_tree ?m1 |` (- A2), tm_text := tm_text ?m1 |` (- N2)\<rparr>"
  have "tree_at (tm_tree ?m1) (tm_text ?m1) pr r A2 N2"
    using n(11) by (rule tree_at_agree) (use n(6,9) in \<open>auto simp: restrict_map_def\<close>)
  then have d: "destroy_tree pl m = Some ?m1" "destroy_tree pr ?m1 = Some ?m2"
    using Node.IH(1) [OF n(10)] Node.IH(2) by simp_all
  have e: "(tm_tree ?m2)(a := None) = tm_tree m |` (- A)" "(tm_text ?m2)(b := None) = tm_text m |` (- N)"
    using n(4,7) by (auto simp: restrict_map_def fun_eq_iff)
  show ?case
    using n(1-3,5,8) d e by (subst destroy_tree.simps) (simp add: free_text_def)
qed

text \<open>A record, and the names of records that are not null.\<close>

definition cell_at :: "(nat \<rightharpoonup> string) \<Rightarrow> 'f raw_cell \<Rightarrow> 'f rawdata \<Rightarrow> bool" where
  "cell_at T c r \<longleftrightarrow> rc_father c = rd_father r \<and> rc_itself c = rd_itself r \<and> rc_value c = rd_value r \<and> rc_class c = rd_class r \<and>
     (case rc_name c of None \<Rightarrow> rd_name r = None | Some b \<Rightarrow> T b \<noteq> None \<and> rd_name r = T b)"

definition cell_names :: "(nat \<times> 'f raw_cell) list \<Rightarrow> nat list" where
  "cell_names xs = List.map_filter (\<lambda>x. rc_name (snd x)) xs"

lemma cell_names_simps [simp]:
  "cell_names [] = []"
  "cell_names (x # xs) = (case rc_name (snd x) of None \<Rightarrow> cell_names xs | Some b \<Rightarrow> b # cell_names xs)"
  by (simp_all add: cell_names_def List.map_filter_def split: option.split)

lemma cell_names_append [simp]: "cell_names (xs @ ys) = cell_names xs @ cell_names ys"
  by (induction xs) (auto split: option.split)

abbreviation cells_at :: "(nat \<rightharpoonup> string) \<Rightarrow> (nat \<times> 'f raw_cell) list \<Rightarrow> 'f rawdata list \<Rightarrow> bool" where
  "cells_at T xs rs \<equiv> list_all2 (\<lambda>x. cell_at T (snd x)) xs rs"

lemma cell_at_grow: "cell_at T c r \<Longrightarrow> T \<subseteq>\<^sub>m T' \<Longrightarrow> cell_at T' c r"
  unfolding cell_at_def by (auto simp: map_le_def dom_def split: option.splits)

lemma cells_at_grow: "cells_at T xs rs \<Longrightarrow> T \<subseteq>\<^sub>m T' \<Longrightarrow> cells_at T' xs rs"
  by (erule list_all2_mono) (rule cell_at_grow)

lemma free_rawdata_frees:
  "lseg (tm_raw m) p xs \<Longrightarrow> distinct (map fst xs) \<Longrightarrow> distinct (cell_names xs) \<Longrightarrow> set (cell_names xs) \<subseteq> dom (tm_text m) \<Longrightarrow>
   free_rawdata p m = Some (m\<lparr>tm_raw := tm_raw m |` (- fst ` set xs), tm_text := tm_text m |` (- set (cell_names xs))\<rparr>)"
proof (induction xs arbitrary: p m)
  case Nil
  then show ?case by (subst free_rawdata.simps) simp
next
  case (Cons x xs)
  obtain a c where x: "x = (a, c)" by (cases x)
  from Cons.prems x obtain q where q: "p = Some a" "tm_raw m a = Some \<lparr>nval = c, nnext = q\<rparr>" "lseg (tm_raw m) q xs" "a \<notin> fst ` set xs"
    by auto
  show ?case
  proof (cases "rc_name c")
    case None
    let ?m1 = "m\<lparr>tm_raw := (tm_raw m)(a := None)\<rparr>"
    have "free_rawdata q ?m1 = Some (?m1\<lparr>tm_raw := tm_raw ?m1 |` (- fst ` set xs), tm_text := tm_text ?m1 |` (- set (cell_names xs))\<rparr>)"
      using Cons.IH [of ?m1 q] Cons.prems q None x by (simp del: fun_upd_apply)
    moreover have "tm_raw ?m1 |` (- fst ` set xs) = tm_raw m |` (- fst ` set (x # xs))"
      using x by (auto simp: restrict_map_def fun_eq_iff)
    ultimately show ?thesis using q None x by (subst free_rawdata.simps) (simp add: free_text_def del: fun_upd_apply)
  next
    case (Some b)
    let ?m1 = "m\<lparr>tm_text := (tm_text m)(b := None), tm_raw := (tm_raw m)(a := None)\<rparr>"
    have "b \<notin> set (cell_names xs)" "b \<in> dom (tm_text m)" using Cons.prems x Some by auto
    then have "free_rawdata q ?m1 = Some (?m1\<lparr>tm_raw := tm_raw ?m1 |` (- fst ` set xs), tm_text := tm_text ?m1 |` (- set (cell_names xs))\<rparr>)"
      using Cons.IH [of ?m1 q] Cons.prems q Some x by (auto simp del: fun_upd_apply)
    moreover have "tm_raw ?m1 |` (- fst ` set xs) = tm_raw m |` (- fst ` set (x # xs))"
      "tm_text ?m1 |` (- set (cell_names xs)) = tm_text m |` (- set (cell_names (x # xs)))"
      using x Some by (auto simp: restrict_map_def fun_eq_iff)
    ultimately show ?thesis using q Some x \<open>b \<in> dom (tm_text m)\<close>
      by (subst free_rawdata.simps) (auto simp: free_text_def simp del: fun_upd_apply)
  qed
qed

section \<open>Building\<close>

text \<open>What a heap has more than another one, at the addresses of a set.\<close>

definition adds :: "nat set \<Rightarrow> (nat \<rightharpoonup> 'v) \<Rightarrow> (nat \<rightharpoonup> 'v) \<Rightarrow> bool" where
  "adds A h h' \<longleftrightarrow> finite A \<and> h' |` (- A) = h"

lemma adds_eq: "adds A h h' \<Longrightarrow> a \<notin> A \<Longrightarrow> h' a = h a"
  unfolding adds_def by (metis ComplI restrict_in)

lemma adds_new_addr: "adds A h h' \<Longrightarrow> a \<in> A \<Longrightarrow> h a = None"
  unfolding adds_def by (metis ComplD restrict_out)

lemma adds_iff: "adds A h h' \<longleftrightarrow> finite A \<and> (\<forall>a. if a \<in> A then h a = None else h' a = h a)"
  unfolding adds_def by (auto simp: restrict_map_def fun_eq_iff)

lemma adds_le: "adds A h h' \<Longrightarrow> h \<subseteq>\<^sub>m h'"
  unfolding map_le_def using adds_eq adds_new_addr by (metis domIff)

lemma adds_none [simp]: "adds {} h h' \<longleftrightarrow> h' = h"
  by (auto simp: adds_def)

lemma adds_one: "h a = None \<Longrightarrow> adds {a} h (h(a \<mapsto> x))"
  by (simp add: adds_iff)

lemma adds_trans: "adds A h h' \<Longrightarrow> adds B h' h'' \<Longrightarrow> adds (A \<union> B) h h''"
  unfolding adds_iff by (metis Un_iff finite_Un)

lemma adds_upd: "adds A h h' \<Longrightarrow> a \<in> A \<Longrightarrow> adds A h (h'(a := x))"
  by (auto simp: adds_iff)

lemma adds_finite:
  assumes "adds A h h'" "finite (dom h)"
  shows "finite (dom h')"
proof (rule finite_subset)
  show "dom h' \<subseteq> A \<union> dom h" using adds_eq [OF assms(1)] by (metis UnI1 UnI2 domIff subsetI)
  show "finite (A \<union> dom h)" using assms by (simp add: adds_def)
qed

definition fresh_alloc :: "(nat set \<Rightarrow> nat) \<Rightarrow> bool" where
  "fresh_alloc alloc \<longleftrightarrow> (\<forall>A. finite A \<longrightarrow> alloc A \<notin> A)"

lemma fresh_addr: "fresh_alloc alloc \<Longrightarrow> finite (dom h) \<Longrightarrow> h (alloc (dom h)) = None"
  by (auto simp: fresh_alloc_def domIff)

definition finite_mem :: "'f tree_memory \<Rightarrow> bool" where
  "finite_mem m \<longleftrightarrow> finite (dom (tm_text m)) \<and> finite (dom (tm_raw m)) \<and> finite (dom (tm_tree m)) \<and> finite (dom (tm_array m))"

text \<open>New nodes and new texts, and nothing else.\<close>

definition grows :: "nat set \<Rightarrow> nat set \<Rightarrow> 'f tree_memory \<Rightarrow> 'f tree_memory \<Rightarrow> bool" where
  "grows A N m m' \<longleftrightarrow> adds A (tm_tree m) (tm_tree m') \<and> adds N (tm_text m) (tm_text m') \<and>
     tm_raw m' = tm_raw m \<and> tm_array m' = tm_array m \<and> tm_node m' = tm_node m \<and> tm_tnode m' = tm_tnode m \<and>
     tm_parameters m' = tm_parameters m"

lemma grows_trans: "grows A N m m' \<Longrightarrow> grows B K m' m'' \<Longrightarrow> grows (A \<union> B) (N \<union> K) m m''"
  by (auto simp: grows_def intro: adds_trans)

lemma grows_finite: "grows A N m m' \<Longrightarrow> finite_mem m \<Longrightarrow> finite_mem m'"
  by (auto simp: grows_def finite_mem_def intro: adds_finite)

lemma find_lchild_refines:
  "lseg h p xs \<Longrightarrow> cells_at T xs rs \<Longrightarrow>
   \<exists>q ys. find_lchild_mem h f p = Some q \<and> lseg h q ys \<and> cells_at T ys (find_lchild rs f)"
proof (induction rs arbitrary: p xs)
  case Nil
  then show ?case by (subst find_lchild_mem.simps) auto
next
  case (Cons r rs)
  then obtain x ys where xs: "xs = x # ys" "cell_at T (snd x) r" "cells_at T ys rs" by (cases xs) auto
  obtain a c where x: "x = (a, c)" by (cases x)
  from Cons.prems(1) xs x obtain q where q: "p = Some a" "h a = Some \<lparr>nval = c, nnext = q\<rparr>" "lseg h q ys" by auto
  have f: "rc_father c = rd_father r" using xs(2) x by (simp add: cell_at_def)
  show ?case
  proof (cases "rd_father r = f")
    case True
    with Cons.prems xs x q show ?thesis
      by (subst find_lchild_mem.simps) (auto simp: f intro!: exI [of _ xs])
  next
    case False
    with Cons.IH [OF q(3) xs(3)] q show ?thesis
      by (subst find_lchild_mem.simps) (simp add: f)
  qed
qed

lemma find_rchild_refines:
  "lseg h p xs \<Longrightarrow> cells_at T xs rs \<Longrightarrow>
   \<exists>q ys. find_rchild_mem h k f p = Some q \<and> lseg h q ys \<and> cells_at T ys (find_rchild_from k rs f)"
proof (induction rs arbitrary: p xs k)
  case Nil
  then show ?case by (subst find_rchild_mem.simps) auto
next
  case (Cons r rs)
  then obtain x ys where xs: "xs = x # ys" "cell_at T (snd x) r" "cells_at T ys rs" by (cases xs) auto
  obtain a c where x: "x = (a, c)" by (cases x)
  from Cons.prems(1) xs x obtain q where q: "p = Some a" "h a = Some \<lparr>nval = c, nnext = q\<rparr>" "lseg h q ys" by auto
  have f: "rc_father c = rd_father r" using xs(2) x by (simp add: cell_at_def)
  show ?case
  proof (cases "rd_father r = f \<and> k = 1")
    case True
    with Cons.prems xs x q show ?thesis
      by (subst find_rchild_mem.simps) (auto simp: f intro!: exI [of _ xs])
  next
    case False
    with Cons.IH [OF q(3) xs(3), of "k + 1"] Cons.IH [OF q(3) xs(3), of k] q show ?thesis
      by (subst find_rchild_mem.simps) (auto simp: f)
  qed
qed

lemma tree_at_NodeI:
  assumes "H a = Some \<lparr>tc_itself = i, tc_name = b, tc_value = v, tc_class = c, tc_lchild = pl, tc_rchild = pr\<rparr>" "T b = Some nm"
    and "a \<notin> A1 \<union> A2" "A1 \<inter> A2 = {}" "b \<notin> N1 \<union> N2" "N1 \<inter> N2 = {}"
    and "tree_at H T pl l A1 N1" "tree_at H T pr r A2 N2"
  shows "tree_at H T (Some a) (Node i nm v c l r) (insert a (A1 \<union> A2)) (insert b (N1 \<union> N2))"
  unfolding tree_at.simps by (rule exI [of _ a], rule exI [of _ b], rule exI [of _ pl], rule exI [of _ pr],
    rule exI [of _ A1], rule exI [of _ A2], rule exI [of _ N1], rule exI [of _ N2]) (use assms in simp)

text \<open>The node and its name are allocated before the children, and the links to them set afterwards.\<close>

lemma grows_node:
  assumes "fresh_alloc alloc" "finite_mem m"
  shows "grows {alloc (dom (tm_tree m))} {alloc (dom (tm_text m))} m
    (snd (new_text alloc nm m)\<lparr>tm_tree := (tm_tree m)(alloc (dom (tm_tree m)) \<mapsto> c)\<rparr>)"
  using fresh_addr [OF assms(1), of "tm_tree m"] fresh_addr [OF assms(1), of "tm_text m"] assms(2)
  by (simp add: grows_def new_text_def finite_mem_def adds_one Let_def)

lemma grows_link:
  assumes "grows A N m m'" "a \<in> A" "tm_tree m' a = Some c"
  shows "\<exists>m''. update_cell a f m' = Some m'' \<and> grows A N m m'' \<and> tm_tree m'' = (tm_tree m')(a \<mapsto> f c) \<and> tm_text m'' = tm_text m'"
  using assms by (simp add: grows_def update_cell_def adds_upd)

lemma grows_reads:
  assumes "grows A N m m'"
  shows "tm_raw m' = tm_raw m" "tm_text m \<subseteq>\<^sub>m tm_text m'" "a \<notin> A \<Longrightarrow> tm_tree m' a = tm_tree m a" "b \<notin> N \<Longrightarrow> tm_text m' b = tm_text m b"
    "a \<in> A \<Longrightarrow> tm_tree m a = None" "b \<in> N \<Longrightarrow> tm_text m b = None"
  using assms adds_le adds_eq adds_new_addr unfolding grows_def by metis+

text \<open>Two subtrees built one after the other under a node.\<close>

lemma children_at:
  assumes "grows {a} {b} m m2" "tm_tree m2 a = Some c2" "tm_text m2 b = Some nm"
    and "grows A1 N1 m2 m3" "tree_at (tm_tree m3) (tm_text m3) pl l A1 N1"
    and "tm_tree m4 = (tm_tree m3)(a \<mapsto> c4)" "tm_text m4 = tm_text m3"
    and "grows A2 N2 m4 m5" "tree_at (tm_tree m5) (tm_text m5) pr r A2 N2"
    and "tm_tree m6 = (tm_tree m5)(a \<mapsto> \<lparr>tc_itself = i, tc_name = b, tc_value = v, tc_class = c, tc_lchild = pl, tc_rchild = pr\<rparr>)"
    and "tm_text m6 = tm_text m5"
  shows "tree_at (tm_tree m6) (tm_text m6) (Some a) (Node i nm v c l r) (insert a (A1 \<union> A2)) (insert b (N1 \<union> N2))"
proof (rule tree_at_NodeI)
  have a: "a \<notin> A1" "b \<notin> N1" using grows_reads(5,6) [OF assms(4)] assms(2,3) by fastforce+
  have a2: "a \<notin> A2" using grows_reads(5) [OF assms(8)] assms(6) by fastforce
  have b3: "tm_text m3 b = Some nm" using grows_reads(4) [OF assms(4) a(2)] assms(3) by simp
  then have b2: "b \<notin> N2" using grows_reads(6) [OF assms(8), of b] assms(7) by fastforce
  note d = tree_at_dom [OF assms(5)]
  have A: "A1 \<inter> A2 = {}"
  proof -
    have "tm_tree m4 x \<noteq> None" if "x \<in> A1" for x using that d assms(6) a(1) by (cases "x = a") auto
    then show ?thesis using grows_reads(5) [OF assms(8)] by blast
  qed
  have N: "N1 \<inter> N2 = {}"
    using grows_reads(6) [OF assms(8)] d assms(7) by fastforce
  show "a \<notin> A1 \<union> A2" "b \<notin> N1 \<union> N2" "A1 \<inter> A2 = {}" "N1 \<inter> N2 = {}" using a a2 b2 A N by simp_all
  show "tm_tree m6 a = Some \<lparr>tc_itself = i, tc_name = b, tc_value = v, tc_class = c, tc_lchild = pl, tc_rchild = pr\<rparr>"
    using assms(10) by simp
  show "tm_text m6 b = Some nm" using grows_reads(4) [OF assms(8) b2] b3 assms(7,11) by simp
  show "tree_at (tm_tree m6) (tm_text m6) pr r A2 N2"
    using assms(9) by (rule tree_at_agree) (use a2 assms(10,11) in auto)
  show "tree_at (tm_tree m6) (tm_text m6) pl l A1 N1"
  proof (rule tree_at_agree [OF assms(5)])
    fix x assume x: "x \<in> A1"
    then have "x \<notin> A2" "x \<noteq> a" using A a(1) by auto
    then show "tm_tree m6 x = tm_tree m3 x" using grows_reads(3) [OF assms(8), of x] assms(6,10) by simp
  next
    fix y assume "y \<in> N1"
    then have "y \<notin> N2" using N by auto
    then show "tm_text m6 y = tm_text m3 y" using grows_reads(4) [OF assms(8), of y] assms(7,11) by simp
  qed
qed

lemma create_tree_refines:
  "create_tree rs = Some t \<Longrightarrow> lseg (tm_raw m) p xs \<Longrightarrow> cells_at (tm_text m) xs rs \<Longrightarrow> fresh_alloc alloc \<Longrightarrow> finite_mem m \<Longrightarrow>
   \<exists>q m' A N. create_tree_mem alloc p m = Some (q, m') \<and> tree_at (tm_tree m') (tm_text m') q t A N \<and> grows A N m m'"
proof (induction rs arbitrary: t p m xs rule: create_tree.induct)
  case 1
  then show ?case by (subst create_tree_mem.simps) (auto simp: grows_def)
next
  case (2 r rs)
  from 2(5) obtain x ys where xs: "xs = x # ys" "cell_at (tm_text m) (snd x) r" "cells_at (tm_text m) ys rs"
    by (cases xs) auto
  obtain a c where x: "x = (a, c)" by (cases x)
  from 2(4) xs x obtain q where q: "p = Some a" "tm_raw m a = Some \<lparr>nval = c, nnext = q\<rparr>" "lseg (tm_raw m) q ys" by auto
  from 2(3) obtain nm where nm: "rd_name r = Some nm" by (auto split: option.splits)
  with xs(2) x obtain nb where nb: "rc_name c = Some nb" "tm_text m nb = Some nm"
    by (auto simp: cell_at_def split: option.splits)
  have c: "rc_itself c = rd_itself r" "rc_value c = rd_value r" "rc_class c = rd_class r" using xs(2) x by (simp_all add: cell_at_def)
  let ?a = "alloc (dom (tm_tree m))" and ?b = "alloc (dom (tm_text m))"
  let ?cell = "\<lparr>tc_itself = rd_itself r, tc_name = ?b, tc_value = rd_value r, tc_class = rd_class r, tc_lchild = None, tc_rchild = None\<rparr>"
  define m2 where "m2 = snd (new_text alloc nm m)\<lparr>tm_tree := (tm_tree m)(?a \<mapsto> ?cell)\<rparr>"
  have g2: "grows {?a} {?b} m m2" unfolding m2_def using grows_node [OF 2(6,7)] .
  have m2: "tm_tree m2 ?a = Some ?cell" "tm_text m2 ?b = Some nm" "tm_raw m2 = tm_raw m"
    by (simp_all add: m2_def new_text_def Let_def)
  have new: "fst (new_text alloc s m) = ?b" "tm_tree (snd (new_text alloc s m)) = tm_tree m" for s
    by (simp_all add: new_text_def Let_def)
  have start: "create_tree_mem alloc p m = (if nm = ''leaf'' then Some (Some ?a, m2) else
      Option.bind (find_lchild_mem (tm_raw m2) (rd_itself r) q) (\<lambda>ql.
      Option.bind (create_tree_mem alloc ql m2) (\<lambda>(l, m3).
      Option.bind (update_cell ?a (\<lambda>c. c\<lparr>tc_lchild := l\<rparr>) m3) (\<lambda>m4.
      Option.bind (find_rchild_mem (tm_raw m4) 0 (rd_itself r) q) (\<lambda>qr.
      Option.bind (create_tree_mem alloc qr m4) (\<lambda>(r, m5).
      map_option (Pair (Some ?a)) (update_cell ?a (\<lambda>c. c\<lparr>tc_rchild := r\<rparr>) m5)))))))"
    using q(1,2) nb c new by (subst create_tree_mem.simps) (simp add: m2_def Let_def split_beta)
  show ?case
  proof (cases "nm = ''leaf''")
    case True
    then have t: "t = Node (rd_itself r) nm (rd_value r) (rd_class r) Null Null" using 2(3) nm by simp
    have "tree_at (tm_tree m2) (tm_text m2) (Some ?a) t (insert ?a ({} \<union> {})) (insert ?b ({} \<union> {}))"
      unfolding t by (rule tree_at_NodeI) (use m2(1,2) in simp_all)
    with g2 start True show ?thesis by (intro exI [of _ "Some ?a"] exI [of _ m2] exI [of _ "{?a}"] exI [of _ "{?b}"]) simp
  next
    case False
    with 2(3) nm obtain l r' where lr: "create_tree (find_lchild rs (rd_itself r)) = Some l"
      "create_tree (find_rchild rs (rd_itself r)) = Some r'" "t = Node (rd_itself r) nm (rd_value r) (rd_class r) l r'"
      by (auto split: option.splits)
    have cl: "cells_at (tm_text m2) ys rs" using cells_at_grow [OF xs(3) grows_reads(2) [OF g2]] .
    have f2: "finite_mem m2" using grows_finite [OF g2 2(7)] .
    obtain ql yl where ql: "find_lchild_mem (tm_raw m2) (rd_itself r) q = Some ql" "lseg (tm_raw m2) ql yl"
      "cells_at (tm_text m2) yl (find_lchild rs (rd_itself r))"
      using find_lchild_refines [OF q(3) cl, of "rd_itself r"] m2(3) by auto
    obtain pl m3 A1 N1 where m3: "create_tree_mem alloc ql m2 = Some (pl, m3)"
      "tree_at (tm_tree m3) (tm_text m3) pl l A1 N1" "grows A1 N1 m2 m3"
      using 2(1) [OF nm False lr(1) ql(2,3) 2(6) f2] by blast
    have g3: "grows ({?a} \<union> A1) ({?b} \<union> N1) m m3" using grows_trans [OF g2 m3(3)] .
    have "?a \<notin> A1" using grows_reads(5) [OF m3(3), of ?a] m2(1) by auto
    then have "tm_tree m3 ?a = Some ?cell" using grows_reads(3) [OF m3(3)] m2(1) by simp
    from grows_link [OF g3 _ this, of "\<lambda>c. c\<lparr>tc_lchild := pl\<rparr>"] obtain m4 where
      m4: "update_cell ?a (\<lambda>c. c\<lparr>tc_lchild := pl\<rparr>) m3 = Some m4" "grows ({?a} \<union> A1) ({?b} \<union> N1) m m4"
        "tm_tree m4 = (tm_tree m3)(?a \<mapsto> ?cell\<lparr>tc_lchild := pl\<rparr>)" "tm_text m4 = tm_text m3" by auto
    have cr: "cells_at (tm_text m4) ys rs" using cells_at_grow [OF xs(3) grows_reads(2) [OF m4(2)]] .
    have f4: "finite_mem m4" using grows_finite [OF m4(2) 2(7)] .
    obtain qr yr where qr: "find_rchild_mem (tm_raw m4) 0 (rd_itself r) q = Some qr" "lseg (tm_raw m4) qr yr"
      "cells_at (tm_text m4) yr (find_rchild rs (rd_itself r))"
      using find_rchild_refines [OF q(3) cr, of 0 "rd_itself r"] grows_reads(1) [OF m4(2)] unfolding find_rchild_def by auto
    obtain pr m5 A2 N2 where m5: "create_tree_mem alloc qr m4 = Some (pr, m5)"
      "tree_at (tm_tree m5) (tm_text m5) pr r' A2 N2" "grows A2 N2 m4 m5"
      using 2(2) [OF nm False lr(1,2) qr(2,3) 2(6) f4] by blast
    have g5: "grows ({?a} \<union> A1 \<union> A2) ({?b} \<union> N1 \<union> N2) m m5" using grows_trans [OF m4(2) m5(3)] .
    have "?a \<notin> A2" using grows_reads(5) [OF m5(3), of ?a] m4(3) by auto
    then have "tm_tree m5 ?a = Some (?cell\<lparr>tc_lchild := pl\<rparr>)" using grows_reads(3) [OF m5(3)] m4(3) by simp
    from grows_link [OF g5 _ this, of "\<lambda>c. c\<lparr>tc_rchild := pr\<rparr>"] obtain m6 where
      m6: "update_cell ?a (\<lambda>c. c\<lparr>tc_rchild := pr\<rparr>) m5 = Some m6" "grows ({?a} \<union> A1 \<union> A2) ({?b} \<union> N1 \<union> N2) m m6"
        "tm_tree m6 = (tm_tree m5)(?a \<mapsto> ?cell\<lparr>tc_lchild := pl, tc_rchild := pr\<rparr>)" "tm_text m6 = tm_text m5" by auto
    have "tree_at (tm_tree m6) (tm_text m6) (Some ?a) t (insert ?a (A1 \<union> A2)) (insert ?b (N1 \<union> N2))"
      unfolding lr(3) by (rule children_at [OF g2 m2(1,2) m3(3,2) m4(3,4) m5(3,2) _ m6(4)]) (simp add: m6(3))
    moreover have "create_tree_mem alloc p m = Some (Some ?a, m6)"
      using start False ql(1) m3(1) m4(1) qr(1) m5(1) m6(1) by simp
    ultimately show ?thesis using m6(2) by (metis Un_assoc insert_is_Un)
  qed
qed

section \<open>Reading\<close>

lemma new_text_grows:
  assumes "fresh_alloc alloc" "finite_mem m" "new_text alloc s m = (b, m')"
  shows "grows {} {b} m m'" "tm_text m' b = Some s"
  using assms fresh_addr [OF assms(1), of "tm_text m"]
  by (auto simp: new_text_def finite_mem_def grows_def Let_def adds_one)

lemma set_field_other:
  assumes "k \<noteq> 2" "cell_at T c r"
  shows "\<exists>c1. set_field_mem alloc atof k q (c, m) = (c1, m) \<and> rc_name c1 = rc_name c \<and> cell_at T c1 (set_field atof k q r)"
proof -
  from assms(1) consider "k = 0" | "k = 1" | "k = 3" | "k = 4" | "4 < k" by linarith
  then show ?thesis
    by cases (use assms(2) in \<open>simp_all add: set_field_mem_def set_field_def cell_at_def split: option.splits\<close>)
qed

lemma set_fields_refines:
  "set_fields_mem alloc atof k qs (c, m) = (c', m') \<Longrightarrow> cell_at (tm_text m) c r \<Longrightarrow> rc_name c = None \<or> 2 < k \<Longrightarrow>
   fresh_alloc alloc \<Longrightarrow> finite_mem m \<Longrightarrow>
   \<exists>N. grows {} N m m' \<and> cell_at (tm_text m') c' (set_fields atof k qs r) \<and>
     (rc_name c' = rc_name c \<and> N = {} \<or> rc_name c = None \<and> (\<exists>b. rc_name c' = Some b \<and> N = {b}))"
proof (induction qs arbitrary: k c m r)
  case Nil
  then show ?case by (intro exI [of _ "{}"]) (auto simp: grows_def)
next
  case (Cons q qs)
  show ?case
  proof (cases "k = 2")
    case True
    obtain b m1 where n: "new_text alloc q m = (b, m1)" by fastforce
    note g = new_text_grows [OF Cons.prems(4,5) n]
    have c: "rc_name c = None" using Cons.prems(3) True by simp
    have "cell_at (tm_text m1) (c\<lparr>rc_name := Some b\<rparr>) (r\<lparr>rd_name := Some q\<rparr>)"
      using Cons.prems(2) g(2) by (simp add: cell_at_def)
    from Cons.IH [OF _ this, of 3] Cons.prems(1,4) True n grows_finite [OF g(1) Cons.prems(5)]
    have "\<exists>N. grows {} N m1 m' \<and> cell_at (tm_text m') c' (set_fields atof 3 qs (r\<lparr>rd_name := Some q\<rparr>)) \<and> rc_name c' = Some b \<and> N = {}"
      by (simp add: set_field_mem_def eval_nat_numeral)
    then have "grows {} ({b} \<union> {}) m m'" "cell_at (tm_text m') c' (set_fields atof k (q # qs) r)" "rc_name c' = Some b"
      using grows_trans [OF g(1)] True by (auto simp: set_field_def eval_nat_numeral)
    with c show ?thesis by (intro exI [of _ "{b}"]) simp
  next
    case False
    then obtain c1 where c1: "set_field_mem alloc atof k q (c, m) = (c1, m)" "rc_name c1 = rc_name c"
      "cell_at (tm_text m) c1 (set_field atof k q r)"
      using set_field_other [OF False Cons.prems(2)] by blast
    moreover have "rc_name c1 = None \<or> 2 < k + 1" using Cons.prems(3) c1(2) False by auto
    ultimately show ?thesis using Cons.IH [OF _ c1(3), of "k + 1"] Cons.prems(1,4,5) by simp
  qed
qed

text \<open>The list of records that was read on top of a memory.\<close>

definition listed :: "'f tree_memory \<Rightarrow> 'f tree_memory \<Rightarrow> (nat \<times> 'f raw_cell) list \<Rightarrow> 'f rawdata list \<Rightarrow> bool" where
  "listed m0 m xs rs \<longleftrightarrow> lseg (tm_raw m) (tm_node m) xs \<and> distinct (map fst xs) \<and> distinct (cell_names xs) \<and>
     cells_at (tm_text m) xs rs \<and> adds (fst ` set xs) (tm_raw m0) (tm_raw m) \<and> adds (set (cell_names xs)) (tm_text m0) (tm_text m) \<and>
     tm_tree m = tm_tree m0 \<and> tm_array m = tm_array m0 \<and> tm_tnode m = tm_tnode m0 \<and> tm_parameters m = tm_parameters m0"

lemma cell_at_name: "cell_at T c r \<Longrightarrow> rc_name c = Some b \<Longrightarrow> b \<in> dom T"
  by (simp add: cell_at_def domIff)

lemma cells_at_names: "cells_at T xs rs \<Longrightarrow> set (cell_names xs) \<subseteq> dom T"
proof (induction xs arbitrary: rs)
  case (Cons x xs)
  then obtain r rs' where r: "cell_at T (snd x) r" "cells_at T xs rs'" by (cases rs) auto
  from Cons.IH [OF r(2)] cell_at_name [OF r(1)] show ?case by (simp split: option.split)
qed simp

lemma lseg_unused: "lseg h p xs \<Longrightarrow> h a = None \<Longrightarrow> a \<notin> fst ` set xs"
  using lseg_dom by (metis domIff imageE)

text \<open>One more record at the end.\<close>

lemma listed_snoc:
  assumes l: "listed m0 m xs rs" and g: "grows {} N m m1" and c: "cell_at (tm_text m1) c r"
    and N: "rc_name c = None \<and> N = {} \<or> (\<exists>b. rc_name c = Some b \<and> N = {b})" and a: "tm_raw m a = None"
    and h: "lseg h p (xs @ [(a, c)])" "adds {a} (tm_raw m) h \<or> (\<exists>l n. l \<in> fst ` set xs \<and> h = (tm_raw m)(a \<mapsto> \<lparr>nval = c, nnext = None\<rparr>, l \<mapsto> n))"
  shows "listed m0 (m1\<lparr>tm_raw := h, tm_node := p\<rparr>) (xs @ [(a, c)]) (rs @ [r])"
proof -
  from l have x: "lseg (tm_raw m) (tm_node m) xs" "distinct (map fst xs)" "distinct (cell_names xs)" "cells_at (tm_text m) xs rs"
    "adds (fst ` set xs) (tm_raw m0) (tm_raw m)" "adds (set (cell_names xs)) (tm_text m0) (tm_text m)" by (simp_all add: listed_def)
  have "a \<notin> fst ` set xs" using lseg_unused [OF x(1) a] .
  moreover have "cells_at (tm_text m1) (xs @ [(a, c)]) (rs @ [r])"
    using cells_at_grow [OF x(4) grows_reads(2) [OF g]] c by (simp add: list_all2_appendI)
  moreover have "distinct (cell_names (xs @ [(a, c)]))"
    using x(3) N cells_at_names [OF x(4)] grows_reads(6) [OF g] by (fastforce split: option.splits)
  moreover have "adds (fst ` set (xs @ [(a, c)])) (tm_raw m0) h"
  proof -
    have e: "fst ` set (xs @ [(a, c)]) = fst ` set xs \<union> {a}" by simp
    have b: "adds (fst ` set xs \<union> {a}) (tm_raw m0) ((tm_raw m)(a \<mapsto> \<lparr>nval = c, nnext = None\<rparr>))"
      by (rule adds_trans [OF x(5)], rule adds_one, rule a)
    from h(2) show ?thesis
    proof
      assume "adds {a} (tm_raw m) h"
      then show ?thesis unfolding e by (rule adds_trans [OF x(5)])
    next
      assume "\<exists>l n. l \<in> fst ` set xs \<and> h = (tm_raw m)(a \<mapsto> \<lparr>nval = c, nnext = None\<rparr>, l \<mapsto> n)"
      then obtain l n where l: "l \<in> fst ` set xs \<union> {a}" "h = (tm_raw m)(a \<mapsto> \<lparr>nval = c, nnext = None\<rparr>, l \<mapsto> n)" by blast
      show ?thesis unfolding e l(2) by (rule adds_upd [OF b l(1)])
    qed
  qed
  moreover have "adds (set (cell_names (xs @ [(a, c)]))) (tm_text m0) (tm_text m1)"
  proof -
    have "set (cell_names (xs @ [(a, c)])) = set (cell_names xs) \<union> N" using N by auto
    with adds_trans [OF x(6), of N "tm_text m1"] g show ?thesis by (simp add: grows_def)
  qed
  ultimately show ?thesis using l g h(1) x(2) by (simp add: listed_def grows_def)
qed

lemma link_records_refines:
  "listed m0 m xs rs \<Longrightarrow> nodeptr = (if xs = [] then None else Some (fst (last xs))) \<Longrightarrow> fresh_alloc alloc \<Longrightarrow> finite_mem m \<Longrightarrow>
   \<exists>m' ys. link_records alloc atof nodeptr ps m = Some m' \<and> listed m0 m' ys (rs @ map (parse_record atof) ps) \<and> finite_mem m'"
proof (induction ps arbitrary: m xs rs nodeptr)
  case Nil
  then show ?case by auto
next
  case (Cons q ps)
  let ?a = "alloc (dom (tm_raw m))" and ?z = "\<lparr>rc_father = 0, rc_itself = 0, rc_name = None, rc_value = 0, rc_class = 0\<rparr>"
  obtain c m1 where c: "set_fields_mem alloc atof 0 (tokens CHR '','' q) (?z, m) = (c, m1)" by fastforce
  have "cell_at (tm_text m) ?z \<lparr>rd_father = 0, rd_itself = 0, rd_name = None, rd_value = 0, rd_class = 0\<rparr>" by (simp add: cell_at_def)
  from set_fields_refines [OF c this _ Cons.prems(3,4)] obtain N where
    N: "grows {} N m m1" "cell_at (tm_text m1) c (parse_record atof q)"
      "rc_name c = None \<and> N = {} \<or> (\<exists>b. rc_name c = Some b \<and> N = {b})" by (auto simp: parse_record_def)
  have a: "tm_raw m ?a = None" using fresh_addr [OF Cons.prems(3), of "tm_raw m"] Cons.prems(4) by (simp add: finite_mem_def)
  have raw: "tm_raw m1 = tm_raw m" "tm_node m1 = tm_node m" using N(1) by (simp_all add: grows_def)
  have l: "lseg (tm_raw m) (tm_node m) xs" "distinct (map fst xs)" using Cons.prems(1) by (simp_all add: listed_def)
  note snoc = listed_snoc [OF Cons.prems(1) N a]
  have fin: "finite_mem (m1\<lparr>tm_raw := h, tm_node := p\<rparr>)" if "dom h \<subseteq> insert ?a (dom (tm_raw m))" for h p
    using grows_finite [OF N(1) Cons.prems(4)] that finite_subset [of "dom h" "insert ?a (dom (tm_raw m))"] Cons.prems(4)
    by (simp add: finite_mem_def)
  show ?case
  proof (cases xs rule: rev_cases)
    case Nil
    let ?h = "(tm_raw m)(?a \<mapsto> \<lparr>nval = c, nnext = None\<rparr>)"
    have "listed m0 (m1\<lparr>tm_raw := ?h, tm_node := Some ?a\<rparr>) (xs @ [(?a, c)]) (rs @ [parse_record atof q])"
    proof (rule snoc)
      show "adds {?a} (tm_raw m) ?h \<or> (\<exists>l n. l \<in> fst ` set xs \<and> ?h = (tm_raw m)(?a \<mapsto> \<lparr>nval = c, nnext = None\<rparr>, l \<mapsto> n))"
        by (rule disjI1, rule adds_one, rule a)
    qed (simp add: Nil)
    from Cons.IH [OF this _ Cons.prems(3) fin, of "Some ?a"] Nil l(1) c raw
    show ?thesis by (auto simp: Let_def split_beta)
  next
    case (snoc zs y)
    obtain k w where y: "y = (k, w)" by (cases y)
    let ?h = "(tm_raw m)(?a \<mapsto> \<lparr>nval = c, nnext = None\<rparr>, k \<mapsto> \<lparr>nval = w, nnext = Some ?a\<rparr>)"
    have k: "tm_raw m k = Some \<lparr>nval = w, nnext = None\<rparr>" "k \<noteq> ?a"
      using lseg_nth [OF l(1), of "length zs"] snoc y a by (auto simp: nth_append)
    have na: "?a \<notin> fst ` set xs" using lseg_unused [OF l(1) a] .
    have "lseg ?h (tm_node m) (xs @ [(?a, c)])"
      using lseg_append [of "tm_raw m" "tm_node m" zs k w ?a c] l na snoc y by simp
    then have "listed m0 (m1\<lparr>tm_raw := ?h, tm_node := tm_node m\<rparr>) (xs @ [(?a, c)]) (rs @ [parse_record atof q])"
      by (rule listed_snoc [OF Cons.prems(1) N a]) (use snoc y in auto)
    moreover have "finite_mem (m1\<lparr>tm_raw := ?h, tm_node := tm_node m\<rparr>)" by (rule fin) (use k in auto)
    ultimately have r: "\<exists>m' ys. link_records alloc atof (Some ?a) ps (m1\<lparr>tm_raw := ?h, tm_node := tm_node m\<rparr>) = Some m' \<and>
        listed m0 m' ys (rs @ map (parse_record atof) (q # ps)) \<and> finite_mem m'"
      using Cons.IH [of _ _ _ "Some ?a"] Cons.prems(3) by fastforce
    have n: "\<exists>b. tm_node m = Some b" using l(1) snoc y by (cases zs) auto
    have "m1\<lparr>tm_raw := ?h, tm_node := tm_node m\<rparr> = m1\<lparr>tm_raw := ?h\<rparr>" using raw(2) by simp
    with r n k c raw snoc y Cons.prems(2) show ?thesis by (auto simp: Let_def)
  qed
qed

section \<open>Parameters\<close>

lemma texts_known:
  assumes "list_all2 (\<lambda>b s. T b = Some s) tmp ps"
  shows "list_ex (\<lambda>b. T b = Some nm) tmp \<longleftrightarrow> nm \<in> set ps" "length tmp = length ps"
  using assms by (induction rule: list_all2_induct) auto

lemma texts_grow: "list_all2 (\<lambda>b s. T b = Some s) tmp ps \<Longrightarrow> T \<subseteq>\<^sub>m T' \<Longrightarrow> list_all2 (\<lambda>b s. T' b = Some s) tmp ps"
  by (erule list_all2_mono) (force simp: map_le_def dom_def)

lemma texts_dom: "list_all2 (\<lambda>b s. T b = Some s) tmp ps \<Longrightarrow> set tmp \<subseteq> dom T"
  by (induction rule: list_all2_induct) auto

lemma parameters_refines:
  "parameters_loop rs ps = Some ps' \<Longrightarrow> lseg (tm_raw m) p xs \<Longrightarrow> cells_at (tm_text m) xs rs \<Longrightarrow>
   list_all2 (\<lambda>b s. tm_text m b = Some s) tmp ps \<Longrightarrow> fresh_alloc alloc \<Longrightarrow> finite_mem m \<Longrightarrow>
   \<exists>new m'. parameters_mem alloc p tmp m = Some (tmp @ new, m') \<and> grows {} (set new) m m' \<and> distinct new \<and>
     list_all2 (\<lambda>b s. tm_text m' b = Some s) (tmp @ new) ps'"
proof (induction rs arbitrary: ps p xs tmp m)
  case Nil
  then show ?case by (subst parameters_mem.simps) (auto simp: grows_def)
next
  case (Cons r rs)
  from Cons.prems(3) obtain x ys where xs: "xs = x # ys" "cell_at (tm_text m) (snd x) r" "cells_at (tm_text m) ys rs"
    by (cases xs) auto
  obtain a c where x: "x = (a, c)" by (cases x)
  from Cons.prems(2) xs x obtain q where q: "p = Some a" "tm_raw m a = Some \<lparr>nval = c, nnext = q\<rparr>" "lseg (tm_raw m) q ys" by auto
  from Cons.prems(1) obtain nm where nm: "rd_name r = Some nm" by (auto split: option.splits)
  with xs(2) x obtain nb where nb: "rc_name c = Some nb" "tm_text m nb = Some nm"
    by (auto simp: cell_at_def split: option.splits)
  note known = texts_known [OF Cons.prems(4)]
  show ?case
  proof (cases "nm = ''leaf'' \<or> nm \<in> set ps")
    case True
    with Cons.prems(1) nm have "parameters_loop rs ps = Some ps'" by auto
    from Cons.IH [OF this q(3) xs(3) Cons.prems(4-6)] True q nb known show ?thesis
      by (subst parameters_mem.simps) simp
  next
    case False
    with Cons.prems(1) nm have l: "parameters_loop rs (ps @ [nm]) = Some ps'" "length ps < 80" by (auto split: if_splits)
    obtain b m1 where n: "new_text alloc nm m = (b, m1)" by fastforce
    note g = new_text_grows [OF Cons.prems(5,6) n]
    have raw: "lseg (tm_raw m1) q ys" using q(3) grows_reads(1) [OF g(1)] by simp
    have cl: "cells_at (tm_text m1) ys rs" using cells_at_grow [OF xs(3) grows_reads(2) [OF g(1)]] .
    have t: "list_all2 (\<lambda>b s. tm_text m1 b = Some s) (tmp @ [b]) (ps @ [nm])"
      using texts_grow [OF Cons.prems(4) grows_reads(2) [OF g(1)]] g(2) by (simp add: list_all2_appendI)
    from Cons.IH [OF l(1) raw cl t Cons.prems(5) grows_finite [OF g(1) Cons.prems(6)]] obtain new m' where
      i: "parameters_mem alloc q (tmp @ [b]) m1 = Some ((tmp @ [b]) @ new, m')" "grows {} (set new) m1 m'" "distinct new"
        "list_all2 (\<lambda>b s. tm_text m' b = Some s) ((tmp @ [b]) @ new) ps'" by blast
    have "b \<notin> set new" using grows_reads(6) [OF i(2), of b] g(2) by auto
    moreover have "grows {} (set (b # new)) m m'" using grows_trans [OF g(1) i(2)] by simp
    moreover have "parameters_mem alloc p tmp m = Some (tmp @ b # new, m')"
      using q nb False known l(2) n i(1) by (subst parameters_mem.simps) simp
    ultimately show ?thesis using i(3,4) by (intro exI [of _ "b # new"] exI [of _ m']) simp
  qed
qed

lemma free_texts_frees:
  "distinct bs \<Longrightarrow> set bs \<subseteq> dom (tm_text m) \<Longrightarrow>
   free_texts (map Some bs @ replicate k None) m = Some (m\<lparr>tm_text := tm_text m |` (- set bs)\<rparr>)"
proof (induction bs arbitrary: m)
  case Nil
  have "free_texts (replicate k None) m = Some m" by (induction k) (simp_all add: free_text_def)
  then show ?case by simp
next
  case (Cons b bs)
  let ?m1 = "m\<lparr>tm_text := (tm_text m)(b := None)\<rparr>"
  have "set bs \<subseteq> dom (tm_text ?m1)" using Cons.prems by auto
  with Cons.IH [of ?m1] Cons.prems(1)
  have "free_texts (map Some bs @ replicate k None) ?m1 = Some (?m1\<lparr>tm_text := tm_text ?m1 |` (- set bs)\<rparr>)"
    by (simp del: fun_upd_apply)
  moreover have "tm_text ?m1 |` (- set bs) = tm_text m |` (- set (b # bs))" by (auto simp: restrict_map_def fun_eq_iff)
  ultimately show ?case using Cons.prems(2) by (auto simp: free_text_def simp del: fun_upd_apply)
qed

section \<open>Freeing everything\<close>

text \<open>A memory with a list of records, the tree of them and their parameters, on different blocks.\<close>

definition tree_blocks ::
  "'f tree_memory \<Rightarrow> (nat \<times> 'f raw_cell) list \<Rightarrow> 'f treenode \<Rightarrow> nat set \<Rightarrow> nat set \<Rightarrow> nat \<Rightarrow> nat list \<Rightarrow> nat \<Rightarrow> bool"
where
  "tree_blocks m xs t A N a bs k \<longleftrightarrow>
     lseg (tm_raw m) (tm_node m) xs \<and> distinct (map fst xs) \<and> distinct (cell_names xs) \<and> set (cell_names xs) \<subseteq> dom (tm_text m) \<and>
     tree_at (tm_tree m) (tm_text m) (tm_tnode m) t A N \<and>
     tm_parameters m = Some a \<and> tm_array m a = Some (map Some bs @ replicate k None) \<and> distinct bs \<and> set bs \<subseteq> dom (tm_text m) \<and>
     N \<inter> set bs = {} \<and> set (cell_names xs) \<inter> (N \<union> set bs) = {}"

lemma tree_blocks_agree:
  assumes "tree_blocks m xs t A N a bs k" "\<And>b. b \<in> set bs \<union> N \<union> set (cell_names xs) \<Longrightarrow> T b = tm_text m b"
  shows "tree_blocks (m\<lparr>tm_text := T\<rparr>) xs t A N a bs k"
proof -
  from assms(1) have t: "tree_at (tm_tree m) (tm_text m) (tm_tnode m) t A N" by (simp add: tree_blocks_def)
  have "tree_at (tm_tree m) T (tm_tnode m) t A N" using t by (rule tree_at_agree) (use assms(2) in simp_all)
  moreover have "set (cell_names xs) \<subseteq> dom T" "set bs \<subseteq> dom T"
    using assms unfolding tree_blocks_def by (auto simp: domIff subset_iff)
  ultimately show ?thesis using assms(1) by (simp add: tree_blocks_def)
qed

lemma destroy_blocks:
  assumes "tree_blocks m xs t A N a bs k"
  shows "destroy_everything m = Some
    \<lparr>tm_text = tm_text m |` (- (set bs \<union> N \<union> set (cell_names xs))), tm_raw = tm_raw m |` (- fst ` set xs),
     tm_tree = tm_tree m |` (- A), tm_array = (tm_array m)(a := None), tm_node = None, tm_tnode = None, tm_parameters = None\<rparr>"
proof -
  from assms have b: "lseg (tm_raw m) (tm_node m) xs" "distinct (map fst xs)" "distinct (cell_names xs)" "set (cell_names xs) \<subseteq> dom (tm_text m)"
    "tree_at (tm_tree m) (tm_text m) (tm_tnode m) t A N" "tm_parameters m = Some a" "tm_array m a = Some (map Some bs @ replicate k None)"
    "distinct bs" "set bs \<subseteq> dom (tm_text m)" "N \<inter> set bs = {}" "set (cell_names xs) \<inter> (N \<union> set bs) = {}"
    by (simp_all add: tree_blocks_def)
  let ?m1 = "m\<lparr>tm_text := tm_text m |` (- set bs), tm_array := (tm_array m)(a := None)\<rparr>"
  let ?m2 = "?m1\<lparr>tm_tree := tm_tree ?m1 |` (- A), tm_text := tm_text ?m1 |` (- N)\<rparr>"
  have i: "destroy_item_list (replicate 100 None) m = Some (replicate 100 None, m)"
    using replicate_Suc [of 99 "None :: nat option"] by (simp add: destroy_item_list_def)
  have 1: "destroy_parameters (tm_parameters m) m = Some ?m1"
    using b(6,7) free_texts_frees [OF b(8,9)] by (simp add: destroy_parameters_def del: fun_upd_apply)
  have "tree_at (tm_tree m) (tm_text m |` (- set bs)) (tm_tnode m) t A N"
    by (rule tree_at_agree [OF b(5)]) (use b(10) in \<open>auto simp: restrict_map_def\<close>)
  then have "tree_at (tm_tree ?m1) (tm_text ?m1) (tm_tnode ?m1) t A N" by simp
  from destroy_tree_frees [OF this] have 2: "destroy_tree (tm_tnode ?m1) ?m1 = Some ?m2" .
  have "set (cell_names xs) \<subseteq> dom (tm_text ?m2)" using b(4,11) by auto
  then have 3: "free_rawdata (tm_node ?m2) ?m2 = Some (?m2\<lparr>tm_raw := tm_raw ?m2 |` (- fst ` set xs),
      tm_text := tm_text ?m2 |` (- set (cell_names xs))\<rparr>)"
    using free_rawdata_frees [of ?m2 "tm_node ?m2" xs] b(1-3) by (simp del: fun_upd_apply)
  have t: "tm_text ?m2 |` (- set (cell_names xs)) = tm_text m |` (- (set bs \<union> N \<union> set (cell_names xs)))"
    by (auto simp: restrict_map_def fun_eq_iff)
  show ?thesis
    unfolding destroy_everything_def using i 1 2 3 t by (simp del: fun_upd_apply)
qed

text \<open>A program that starts, or starts another round.\<close>

definition no_tree :: "'f tree_memory \<Rightarrow> bool" where
  "no_tree m \<longleftrightarrow> finite_mem m \<and> tm_node m = None \<and> tm_tnode m = None \<and> tm_parameters m = None"

lemma init_builds:
  assumes "create_tree (init_rawdata atof txt) = Some t" "get_parameters (init_rawdata atof txt) = Some ps" "length ps < 80"
    and "fresh_alloc alloc" "no_tree m"
  shows "\<exists>m' xs A N a bs k. init_linger_mem alloc atof txt m = Some m' \<and> tree_blocks m' xs t A N a bs k \<and>
    adds (set bs \<union> N \<union> set (cell_names xs)) (tm_text m) (tm_text m') \<and> adds (fst ` set xs) (tm_raw m) (tm_raw m') \<and>
    adds A (tm_tree m) (tm_tree m') \<and> (tm_array m')(a := None) = tm_array m \<and> finite_mem m' \<and>
    list_all2 (\<lambda>b s. tm_text m' b = Some s) bs ps"
proof -
  let ?rs = "init_rawdata atof txt"
  have "listed m m [] []" using assms(5) by (simp add: listed_def no_tree_def)
  from link_records_refines [OF this _ assms(4), of None atof "tokens CHR ''|'' txt"] assms(5) obtain m1 xs where
    m1: "link_records alloc atof None (tokens CHR ''|'' txt) m = Some m1" "listed m m1 xs ?rs" "finite_mem m1"
    by (auto simp: no_tree_def init_rawdata_def)
  from m1(2) have l: "lseg (tm_raw m1) (tm_node m1) xs" "distinct (map fst xs)" "distinct (cell_names xs)" "cells_at (tm_text m1) xs ?rs"
    "adds (fst ` set xs) (tm_raw m) (tm_raw m1)" "adds (set (cell_names xs)) (tm_text m) (tm_text m1)"
    "tm_tree m1 = tm_tree m" "tm_array m1 = tm_array m" by (simp_all add: listed_def)
  from create_tree_refines [OF assms(1) l(1,4) assms(4) m1(3)] obtain q m2 A N where
    m2: "create_tree_mem alloc (tm_node m1) m1 = Some (q, m2)" "tree_at (tm_tree m2) (tm_text m2) q t A N" "grows A N m1 m2" by blast
  let ?a = "alloc (dom (tm_array m2))"
  let ?m2 = "m2\<lparr>tm_tnode := q, tm_array := (tm_array m2)(?a \<mapsto> replicate 80 None)\<rparr>"
  have f: "finite_mem m2" using grows_finite [OF m2(3) m1(3)] .
  then have f2: "finite_mem ?m2" by (simp add: finite_mem_def)
  have cl: "cells_at (tm_text ?m2) xs ?rs" using cells_at_grow [OF l(4) grows_reads(2) [OF m2(3)]] by simp
  have raw: "lseg (tm_raw ?m2) (tm_node m2) xs" using l(1) m2(3) by (simp add: grows_def)
  from parameters_refines [OF assms(2) [unfolded get_parameters_def] raw cl _ assms(4) f2, of "[]"] obtain bs m3 where
    m3: "parameters_mem alloc (tm_node m2) [] ?m2 = Some (bs, m3)" "grows {} (set bs) ?m2 m3" "distinct bs"
      "list_all2 (\<lambda>b s. tm_text m3 b = Some s) bs ps" by auto
  have lb: "length bs < 80" using texts_known(2) [OF m3(4)] assms(3) by simp
  let ?xs = "map Some bs @ replicate (80 - length bs) None"
  let ?m' = "m3\<lparr>tm_array := (tm_array m3)(?a \<mapsto> ?xs), tm_parameters := Some ?a\<rparr>"
  have "None \<in> set ?xs" using lb by simp
  then have i: "init_linger_mem alloc atof txt m = Some ?m'"
    using m1(1) m2(1) m3(1) by (simp add: init_linger_mem_def get_parameters_mem_def Let_def)
  have g: "tm_raw m3 = tm_raw m1" "tm_tree m3 = tm_tree m2" "tm_node m3 = tm_node m1" "tm_tnode m3 = q"
    "tm_array m3 = (tm_array m2)(?a \<mapsto> replicate 80 None)" "adds (set bs) (tm_text m2) (tm_text m3)" "tm_array m2 = tm_array m"
    using m2(3) m3(2) l(8) by (simp_all add: grows_def)
  have new: "N \<inter> set bs = {}" "set (cell_names xs) \<inter> (N \<union> set bs) = {}"
    using adds_new_addr [OF g(6)] tree_at_dom [OF m2(2)] cells_at_names [OF cl] cells_at_names [OF l(4)] grows_reads(6) [OF m2(3)]
    by fastforce+
  have "tree_at (tm_tree m3) (tm_text m3) (tm_tnode m3) t A N"
    unfolding g(2,4) by (rule tree_at_agree [OF m2(2)]) (use adds_eq [OF g(6)] new(1) in auto)
  moreover have "set (cell_names xs) \<subseteq> dom (tm_text m3)"
    using cells_at_names [OF cells_at_grow [OF cl grows_reads(2) [OF m3(2)]]] .
  ultimately have "tree_blocks ?m' xs t A N ?a bs (80 - length bs)"
    using l(1-3) new g(1,3) m3(3) texts_dom [OF m3(4)] by (simp add: tree_blocks_def)
  moreover have "adds (set bs \<union> N \<union> set (cell_names xs)) (tm_text m) (tm_text ?m')"
    using adds_trans [OF adds_trans [OF l(6), of N "tm_text m2"] g(6)] m2(3) by (simp add: grows_def Un_ac)
  moreover have "adds (fst ` set xs) (tm_raw m) (tm_raw ?m')" "adds A (tm_tree m) (tm_tree ?m')"
    using l(5,7) g(1,2) m2(3) by (simp_all add: grows_def)
  moreover have "(tm_array ?m')(?a := None) = tm_array m"
    using g(5,7) fresh_addr [OF assms(4), of "tm_array m2"] f by (simp add: finite_mem_def fun_upd_idem)
  moreover have "finite_mem ?m'" using grows_finite [OF m3(2) f2] by (simp add: finite_mem_def)
  moreover have "list_all2 (\<lambda>b s. tm_text ?m' b = Some s) bs ps" using m3(4) by simp
  ultimately show ?thesis using i by blast
qed

section \<open>An example\<close>

text \<open>An allocator that takes the address behind the last one in use, and a program that has just started.\<close>

definition next_address :: "nat set \<Rightarrow> nat" where
  "next_address A = (if A = {} then 0 else Suc (Max A))"

lemma next_address_fresh: "fresh_alloc next_address"
  by (auto simp: fresh_alloc_def next_address_def dest: Max_ge)

definition empty_memory :: "int tree_memory" where
  "empty_memory = \<lparr>tm_text = Map.empty, tm_raw = Map.empty, tm_tree = Map.empty, tm_array = Map.empty,
     tm_node = None, tm_tnode = None, tm_parameters = None\<rparr>"

lemma no_tree_empty: "no_tree empty_memory"
  by (simp add: no_tree_def finite_mem_def empty_memory_def)

definition noise_text :: string where
  "noise_text = ''0,0,noise,5,0|0,1,leaf,0,1|0,2,leaf,0,2''"

definition noise_tree :: "int treenode" where
  "noise_tree = Node 0 ''noise'' 5 0 (Node 1 ''leaf'' 0 1 Null Null) (Node 2 ''leaf'' 0 2 Null Null)"

lemma noise_text_read:
  "create_tree (init_rawdata atoi noise_text) = Some noise_tree"
  "get_parameters (init_rawdata atoi noise_text) = Some [''noise'']"
  by code_simp+



section \<open>Rounds\<close>

lemma assign_names_adds:
  "assign_names alloc ss m = (ps, m') \<Longrightarrow> fresh_alloc alloc \<Longrightarrow> finite_mem m \<Longrightarrow>
   \<exists>bs T. ps = map Some bs \<and> distinct bs \<and> length bs = length ss \<and> m' = m\<lparr>tm_text := T\<rparr> \<and>
     adds (set bs) (tm_text m) T \<and> set bs \<subseteq> dom T"
proof (induction ss arbitrary: m ps m')
  case Nil
  then show ?case by (auto intro!: exI [of _ "tm_text m"])
next
  case (Cons s ss)
  obtain a m1 where n: "new_text alloc s m = (a, m1)" by fastforce
  obtain qs m2 where q: "assign_names alloc ss m1 = (qs, m2)" by fastforce
  note g = new_text_grows [OF Cons.prems(2,3) n]
  from Cons.IH [OF q Cons.prems(2) grows_finite [OF g(1) Cons.prems(3)]] obtain bs T where
    i: "qs = map Some bs" "distinct bs" "length bs = length ss" "m2 = m1\<lparr>tm_text := T\<rparr>" "adds (set bs) (tm_text m1) T"
      "set bs \<subseteq> dom T" by blast
  have a: "a \<notin> set bs" using adds_new_addr [OF i(5), of a] g(2) by auto
  then have "a \<in> dom T" using adds_eq [OF i(5), of a] g(2) by auto
  moreover have "adds (set (a # bs)) (tm_text m) T" using adds_trans [OF _ i(5), of "{a}"] g(1) by (simp add: grows_def)
  moreover have "m' = m\<lparr>tm_text := T\<rparr>" "ps = map Some (a # bs)"
    using Cons.prems(1) n q i(1,4) by (auto simp: new_text_def Let_def)
  ultimately show ?case using a i(2,3,6) by (intro exI [of _ "a # bs"] exI [of _ T]) simp
qed

text \<open>The first of the names is freed.\<close>

lemma names_left:
  assumes "fresh_alloc alloc" "finite_mem m" "ss \<noteq> []"
  shows "\<exists>K T. (let (names, m2) = assign_names alloc ss m in map_option snd (destroy_item_list names m2)) =
      Some (m\<lparr>tm_text := T\<rparr>) \<and> adds K (tm_text m) T \<and> K \<subseteq> dom T \<and> Suc (card K) = length ss"
proof -
  obtain names m2 where a: "assign_names alloc ss m = (names, m2)" by fastforce
  from assign_names_adds [OF this assms(1,2)] obtain bs T where
    b: "names = map Some bs" "distinct bs" "length bs = length ss" "m2 = m\<lparr>tm_text := T\<rparr>" "adds (set bs) (tm_text m) T" "set bs \<subseteq> dom T"
    by blast
  from b(3) assms(3) obtain c cs where c: "bs = c # cs" by (cases bs) auto
  have "adds (set cs) (tm_text m) (T(c := None))" using b(2,5) c by (auto simp: adds_iff)
  moreover have "set cs \<subseteq> dom (T(c := None))" using b(2,6) c by auto
  moreover have "Suc (card (set cs)) = length ss" using b(2,3) c distinct_card [of cs] by simp
  moreover have "(let (names, m2) = assign_names alloc ss m in map_option snd (destroy_item_list names m2)) =
      Some (m\<lparr>tm_text := T(c := None)\<rparr>)"
    using a b(1,4,6) c by (auto simp: destroy_item_list_def free_text_def)
  ultimately show ?thesis by blast
qed

lemma adds_card:
  assumes "adds K h h'" "K \<subseteq> dom h'" "finite (dom h)"
  shows "card (dom h') = card (dom h) + card K" "finite (dom h')"
proof -
  have d: "dom h' = dom h \<union> K" "dom h \<inter> K = {}"
    using assms(1,2) by (auto simp: adds_iff domIff) (metis domIff option.distinct(1) subsetD)+
  then show "card (dom h') = card (dom h) + card K" using assms(1,3) by (simp add: adds_iff card_Un_disjoint)
  show "finite (dom h')" using assms(1,3) d(1) by (simp add: adds_iff)
qed

text \<open>Taking blocks away that were added before others.\<close>

lemma adds_drop:
  assumes "adds B h h1" "adds K h1 h2" "B \<subseteq> dom h1" "K \<subseteq> dom h2"
  shows "adds K h (h2 |` (- B)) \<and> K \<subseteq> dom (h2 |` (- B))"
proof -
  have d: "B \<inter> K = {}" using assms(3) adds_new_addr [OF assms(2)] by fastforce
  have "(h2 |` (- B)) |` (- K) = (h2 |` (- K)) |` (- B)" by (simp only: restrict_restrict Int_commute)
  also have "\<dots> = h" using assms(1,2) by (simp add: adds_def)
  finally have "adds K h (h2 |` (- B))" using assms(2) by (simp add: adds_def)
  moreover have "K \<subseteq> dom h2 \<inter> - B" using d assms(4) by blast
  ultimately show ?thesis by (simp add: dom_restrict)
qed

lemma destroy_everything_text:
  assumes "tree_blocks m' xs t A N a bs k" "adds (set bs \<union> N \<union> set (cell_names xs)) (tm_text m) (tm_text m')"
    "adds (fst ` set xs) (tm_raw m) (tm_raw m')" "adds A (tm_tree m) (tm_tree m')" "(tm_array m')(a := None) = tm_array m"
    "no_tree m" "adds K (tm_text m') T" "K \<subseteq> dom T"
  shows "\<exists>T'. destroy_everything (m'\<lparr>tm_text := T\<rparr>) = Some (m\<lparr>tm_text := T'\<rparr>) \<and> adds K (tm_text m) T' \<and> K \<subseteq> dom T'"
proof -
  let ?B = "set bs \<union> N \<union> set (cell_names xs)"
  have "tree_at (tm_tree m') (tm_text m') (tm_tnode m') t A N" using assms(1) by (simp add: tree_blocks_def)
  from tree_at_dom [OF this] have "N \<subseteq> dom (tm_text m')" by simp
  with assms(1) have B: "?B \<subseteq> dom (tm_text m')" by (simp add: tree_blocks_def)
  have "tree_blocks (m'\<lparr>tm_text := T\<rparr>) xs t A N a bs k"
  proof (rule tree_blocks_agree [OF assms(1)])
    fix b assume "b \<in> set bs \<union> N \<union> set (cell_names xs)"
    with B have "b \<notin> K" using adds_new_addr [OF assms(7)] by force
    then show "T b = tm_text m' b" using adds_eq [OF assms(7)] by simp
  qed
  from destroy_blocks [OF this] have "destroy_everything (m'\<lparr>tm_text := T\<rparr>) = Some (m\<lparr>tm_text := T |` (- ?B)\<rparr>)"
    using assms(3-6) by (simp add: adds_def no_tree_def)
  with adds_drop [OF assms(2,7) B assms(8)] show ?thesis by blast
qed

lemma round_leaves:
  assumes "create_tree (init_rawdata atof txt) = Some t" "get_parameters (init_rawdata atof txt) = Some ps" "length ps < 80"
    and "fresh_alloc alloc" "no_tree m"
  shows "\<exists>K T. round_mem alloc atof txt answered m = Some (m\<lparr>tm_text := T\<rparr>) \<and> adds K (tm_text m) T \<and> K \<subseteq> dom T \<and>
    card K = (if answered then 14 else 1)"
proof -
  obtain c m0 where n: "new_text alloc txt m = (c, m0)" by fastforce
  have fm: "finite_mem m" using assms(5) by (simp add: no_tree_def)
  note g = new_text_grows [OF assms(4) fm n]
  have m0: "m0 = m\<lparr>tm_text := tm_text m0\<rparr>" "no_tree m0"
    using n assms(5) grows_finite [OF g(1) fm] by (auto simp: new_text_def Let_def no_tree_def)
  from init_builds [OF assms(1-4) m0(2)] obtain m1 xs A N a bs k where b: "init_linger_mem alloc atof txt m0 = Some m1"
    "tree_blocks m1 xs t A N a bs k" "adds (set bs \<union> N \<union> set (cell_names xs)) (tm_text m0) (tm_text m1)"
    "adds (fst ` set xs) (tm_raw m0) (tm_raw m1)" "adds A (tm_tree m0) (tm_tree m1)" "(tm_array m1)(a := None) = tm_array m0"
    "finite_mem m1" by blast
  have "\<exists>K T. (if answered then (let (names, m2) = assign_names alloc value_names m1 in map_option snd (destroy_item_list names m2))
      else Some m1) = Some (m1\<lparr>tm_text := T\<rparr>) \<and> adds K (tm_text m1) T \<and> K \<subseteq> dom T \<and> card K = (if answered then 13 else 0)"
  proof (cases answered)
    case True
    have "value_names \<noteq> []" "length value_names = Suc 13" by (simp_all add: value_names_def)
    with names_left [OF assms(4) b(7), of value_names] True show ?thesis by simp
  next
    case False
    then show ?thesis by (intro exI [of _ "{}"] exI [of _ "tm_text m1"]) simp
  qed
  then obtain K T where K: "(if answered then (let (names, m2) = assign_names alloc value_names m1 in map_option snd (destroy_item_list names m2))
      else Some m1) = Some (m1\<lparr>tm_text := T\<rparr>)" "adds K (tm_text m1) T" "K \<subseteq> dom T" "card K = (if answered then 13 else 0)" by blast
  from destroy_everything_text [OF b(2-6) m0(2) K(2,3)] obtain T' where
    d: "destroy_everything (m1\<lparr>tm_text := T\<rparr>) = Some (m0\<lparr>tm_text := T'\<rparr>)" "adds K (tm_text m0) T'" "K \<subseteq> dom T'" by blast
  have c: "c \<notin> K" using adds_new_addr [OF d(2)] g(2) by force
  have "round_mem alloc atof txt answered m = Some (m0\<lparr>tm_text := T'\<rparr>)"
    using n b(1) K(1) d(1) by (simp add: round_mem_def)
  also have "m0\<lparr>tm_text := T'\<rparr> = m\<lparr>tm_text := T'\<rparr>" using n by (auto simp: new_text_def Let_def)
  finally have "round_mem alloc atof txt answered m = Some (m\<lparr>tm_text := T'\<rparr>)" .
  moreover have "adds (insert c K) (tm_text m) T'" using adds_trans [OF _ d(2), of "{c}"] g(1) by (simp add: grows_def)
  moreover have "insert c K \<subseteq> dom T'" using d(3) adds_eq [OF d(2) c] g(2) by auto
  moreover have "card (insert c K) = (if answered then 14 else 1)" using K(2,4) c by (simp add: adds_def)
  ultimately show ?thesis by blast
qed

text \<open>The turns of the loop, with whether the kernel answers in each of them.\<close>

fun rounds_mem :: "(nat set \<Rightarrow> nat) \<Rightarrow> (string \<Rightarrow> 'f::zero) \<Rightarrow> string \<Rightarrow> bool list \<Rightarrow> 'f tree_memory \<Rightarrow> 'f tree_memory option" where
  "rounds_mem alloc atof txt [] m = Some m"
| "rounds_mem alloc atof txt (b # bs) m = Option.bind (round_mem alloc atof txt b m) (rounds_mem alloc atof txt bs)"



end
