(* ===== verification/Flow_Monitor.thy ===== *)
theory Flow_Monitor
  imports Public_Buffer
begin

text \<open>
  What the flow module of the routers' virtual switch does with a TCP segment, the block in
  \<open>key_extract\<close> of \<^verbatim>\<open>project/flow.c\<close>: it takes the fields of the segment, walks the options of a SYN
  for the window scale, keeps a table of ten flows for the user process and sends a record of
  the segment to the receiver.

  The walk over the options can loop for ever, so it is a partial function whose value None is
  divergence; a read behind the packet is the result None inside.  The clock is read once for
  the record and once more for a known flow; both readings are arguments, as is the address of
  the bridge that is looked up when the socket is opened.
\<close>

section \<open>Data\<close>

record tcp_segment =
  sg_ip_src :: u32
  sg_ip_dst :: u32
  sg_tot_len :: u16
  sg_ihl :: nat
  sg_source :: u16
  sg_dest :: u16
  sg_seq :: u32
  sg_ack_seq :: u32
  sg_flags :: u16
  sg_window :: u16
  sg_doff :: nat
  sg_syn :: bool
  sg_options :: bytes
  sg_h_source :: bytes
  sg_h_dest :: bytes

record tcp_flow =
  tf_ip_src :: u32
  tf_ip_dst :: u32
  tf_sourceaddr :: u16
  tf_destination :: u16
  tf_winsize :: u16
  tf_wscale :: u16
  tf_sec :: u32
  tf_usec :: u32
  tf_packets :: u64
  tf_eth_src :: bytes
  tf_count :: u16
  tf_eth_dst :: bytes
  tf_pad2 :: u16

definition zero_tcp_flow :: tcp_flow where
  "zero_tcp_flow = \<lparr>tf_ip_src = 0, tf_ip_dst = 0, tf_sourceaddr = 0, tf_destination = 0,
     tf_winsize = 0, tf_wscale = 0, tf_sec = 0, tf_usec = 0, tf_packets = 0,
     tf_eth_src = replicate 6 0, tf_count = 0, tf_eth_dst = replicate 6 0, tf_pad2 = 0\<rparr>"

record flow_table =
  flow_linger :: "tcp_flow list"
  flow_count :: int

record monitor =
  mo_table :: flow_table
  mo_buffer :: out_buffer
  mo_mac :: bytes
  mo_sock :: bool

definition monitor_init :: monitor where
  "monitor_init = \<lparr>mo_table = \<lparr>flow_linger = replicate 10 zero_tcp_flow, flow_count = 0\<rparr>,
     mo_buffer = out_buffer_init, mo_mac = replicate 6 0, mo_sock = False\<rparr>"

section \<open>The window scale of a SYN\<close>

text \<open>
  The loop over the options: \<open>opt\<close> is the memory from the first option on, \<open>opt_len\<close> the length
  of the options by the header.  The kind is read before the bound is tested.
\<close>

partial_function (option) option_walk :: "bytes \<Rightarrow> int \<Rightarrow> nat \<Rightarrow> nat option option" where
  "option_walk opt opt_len opt_off =
    (case read_at opt opt_off of
       None \<Rightarrow> Some None
     | Some kind \<Rightarrow>
        if kind \<noteq> 3 \<and> int opt_off < opt_len - 2 then
          (if kind \<noteq> 1 then
             (case read_at opt (opt_off + 1) of
                None \<Rightarrow> Some None
              | Some len \<Rightarrow> option_walk opt opt_len (opt_off + unat len))
           else option_walk opt opt_len (opt_off + 1))
        else Some (Some opt_off))"

definition wscale_of :: "bytes \<Rightarrow> nat \<Rightarrow> bytes option" where
  "wscale_of opt opt_off =
    (case read_at opt opt_off of
       None \<Rightarrow> None
     | Some kind \<Rightarrow> if kind = 3 then read_block opt opt_off 3 else Some [0, 0, 0])"

definition segment_wscale :: "tcp_segment \<Rightarrow> bytes option option" where
  "segment_wscale s =
    (if sg_syn s then
       (case option_walk (sg_options s) (int (sg_doff s) * 4 - 20) 0 of
          None \<Rightarrow> None
        | Some None \<Rightarrow> Some None
        | Some (Some off) \<Rightarrow> Some (wscale_of (sg_options s) off))
     else Some (Some [0, 0, 0]))"

section \<open>The table of flows\<close>

definition new_flow :: "tcp_segment \<Rightarrow> u16 \<Rightarrow> u32 \<times> u32 \<Rightarrow> tcp_flow \<Rightarrow> tcp_flow" where
  "new_flow s wscale now t = t\<lparr>tf_ip_src := sg_ip_src s, tf_ip_dst := sg_ip_dst s,
     tf_sourceaddr := sg_source s, tf_destination := sg_dest s, tf_winsize := sg_window s,
     tf_wscale := wscale, tf_sec := fst now, tf_usec := snd now,
     tf_eth_src := sg_h_source s, tf_eth_dst := sg_h_dest s, tf_packets := 1\<rparr>"

definition same_flow :: "tcp_segment \<Rightarrow> tcp_flow \<Rightarrow> bool" where
  "same_flow s t \<longleftrightarrow> tf_ip_src t = sg_ip_src s \<and> tf_ip_dst t = sg_ip_dst s \<and>
     tf_sourceaddr t = sg_source s \<and> tf_destination t = sg_dest s"

fun update_flow :: "tcp_segment \<Rightarrow> u32 \<times> u32 \<Rightarrow> tcp_flow list \<Rightarrow> tcp_flow list option" where
  "update_flow s later [] = None"
| "update_flow s later (t # ts) =
    (if same_flow s t
     then Some (t\<lparr>tf_sec := fst later, tf_usec := snd later, tf_packets := tf_packets t + 1\<rparr> # ts)
     else map_option ((#) t) (update_flow s later ts))"

text \<open>The loop that inserts has no break: it writes the flow into every free place.\<close>

definition insert_flow :: "tcp_segment \<Rightarrow> u16 \<Rightarrow> u32 \<times> u32 \<Rightarrow> flow_table \<Rightarrow> flow_table" where
  "insert_flow s wscale now ft = \<lparr>
     flow_linger = map (\<lambda>t. if tf_sec t = 0 then new_flow s wscale now t else t) (flow_linger ft),
     flow_count = flow_count ft + int (length (filter (\<lambda>t. tf_sec t = 0) (flow_linger ft)))\<rparr>"

definition expire_flows :: "u32 \<Rightarrow> flow_table \<Rightarrow> flow_table" where
  "expire_flows sec ft = \<lparr>
     flow_linger = map (\<lambda>t. if 2 < sec - tf_sec t then zero_tcp_flow else t) (flow_linger ft),
     flow_count = flow_count ft - int (length (filter (\<lambda>t. 2 < sec - tf_sec t) (flow_linger ft)))\<rparr>"

definition note_flow :: "tcp_segment \<Rightarrow> u16 \<Rightarrow> u32 \<times> u32 \<Rightarrow> u32 \<times> u32 \<Rightarrow> flow_table \<Rightarrow> flow_table" where
  "note_flow s wscale now later ft =
    expire_flows (fst now)
     (if flow_count ft = 0 then
        \<lparr>flow_linger = (flow_linger ft)[0 := new_flow s wscale now (flow_linger ft ! 0)], flow_count = 1\<rparr>
      else (case update_flow s later (flow_linger ft) of
              Some ts \<Rightarrow> ft\<lparr>flow_linger := ts\<rparr>
            | None \<Rightarrow> insert_flow s wscale now ft))"

section \<open>A segment\<close>

definition segment_record :: "tcp_segment \<Rightarrow> bytes \<Rightarrow> u32 \<times> u32 \<Rightarrow> u8 \<Rightarrow> data_winsize" where
  "segment_record s wscale now pad = \<lparr>ws_ip_src = sg_ip_src s, ws_ip_dst = sg_ip_dst s,
     ws_sourceaddr = sg_source s, ws_destination = sg_dest s, ws_sequence = sg_seq s,
     ws_ack_sequence = sg_ack_seq s, ws_flags = sg_flags s, ws_windowsize = sg_window s,
     ws_sec = fst now, ws_usec = snd now,
     ws_datalength = word_of_int (uint (sg_tot_len s) - int (sg_doff s + sg_ihl s) * 4),
     ws_wscale = wscale, ws_pad = pad\<rparr>"

text \<open>The buffer of this module opens its socket, and learns the address, when it is first sent.\<close>

definition monitor_write :: "bytes \<Rightarrow> bytes \<Rightarrow> monitor \<Rightarrow> monitor option" where
  "monitor_write dev_addr data mo =
    (let flush = B_S < write_begin (mo_buffer mo) + length data
     in map_option (\<lambda>b. mo\<lparr>mo_buffer := b,
                            mo_mac := (if flush \<and> \<not> mo_sock mo then dev_addr else mo_mac mo),
                            mo_sock := mo_sock mo \<or> flush\<rparr>)
          (write_2_public_buffer data (mo_buffer mo)))"

text \<open>
  A segment with port 64793 is not looked at; its record is what was on the stack.  The byte
  \<open>pad\<close> of the others is never set.
\<close>

definition monitor_segment ::
  "bytes \<Rightarrow> data_winsize \<Rightarrow> u32 \<times> u32 \<Rightarrow> u32 \<times> u32 \<Rightarrow> tcp_segment \<Rightarrow> monitor \<Rightarrow> monitor option option"
where
  "monitor_segment dev_addr stack now later s mo =
    (let mac = (if mo_sock mo then mo_mac mo else replicate 6 0)
     in if sg_source s \<noteq> 64793 \<and> sg_dest s \<noteq> 64793 then
          (case segment_wscale s of
             None \<Rightarrow> None
           | Some None \<Rightarrow> Some None
           | Some (Some ws) \<Rightarrow>
              let wscale = (if sg_syn s then scast (ws ! 2) else 0);
                  mo1 = mo\<lparr>mo_table := note_flow s wscale now later (mo_table mo)\<rparr>
              in Some (monitor_write dev_addr
                   (encode_message (MWinsize mac (segment_record s ws now (ws_pad stack)))) mo1))
        else Some (monitor_write dev_addr (encode_message (MWinsize mac stack)) mo))"

section \<open>When the walk ends\<close>

lemma option_walk_hangs:
  assumes "off < length opt" "opt ! off \<noteq> 3" "opt ! off \<noteq> 1" "int off < n - 2"
    "off + 1 < length opt" "opt ! (off + 1) = 0"
  shows "option_walk opt n off = None"
proof -
  have "\<not> (opt' = opt \<and> n' = n \<and> off' = off)" if "option_walk opt' n' off' = Some y" for opt' n' off' y
  proof (rule option_walk.raw_induct
      [where P = "\<lambda>opt' n' off' y. \<not> (opt' = opt \<and> n' = n \<and> off' = off)", OF _ that])
    fix self :: "bytes \<Rightarrow> int \<Rightarrow> nat \<Rightarrow> nat option option" and opt' n' off' y
    assume rec: "\<And>opt' n' off' y. self opt' n' off' = Some y \<Longrightarrow> \<not> (opt' = opt \<and> n' = n \<and> off' = off)"
      and body: "(case read_at opt' off' of
         None \<Rightarrow> Some None
       | Some kind \<Rightarrow>
          if kind \<noteq> 3 \<and> int off' < n' - 2 then
            (if kind \<noteq> 1 then
               (case read_at opt' (off' + 1) of
                  None \<Rightarrow> Some None
                | Some len \<Rightarrow> self opt' n' (off' + unat len))
             else self opt' n' (off' + 1))
          else Some (Some off')) = Some y"
    show "\<not> (opt' = opt \<and> n' = n \<and> off' = off)"
    proof
      assume eq: "opt' = opt \<and> n' = n \<and> off' = off"
      have "self opt n off = Some y" using body eq assms by (simp add: read_at_def)
      with rec show False by blast
    qed
  qed
  then show ?thesis by (cases "option_walk opt n off") auto
qed

text \<open>
  C36.  A SYN whose first option has a length of zero keeps the walk over the options looping for
  ever: the segment is never finished.
\<close>

theorem zero_length_option_hangs:
  assumes "sg_source s \<noteq> 64793" "sg_dest s \<noteq> 64793" "sg_syn s"
    and "sg_options s = kind # 0 # rest" "kind \<noteq> 1" "kind \<noteq> 3" "6 \<le> sg_doff s"
  shows "monitor_segment dev_addr stack now later s mo = None"
proof -
  have "option_walk (sg_options s) (int (sg_doff s) * 4 - 20) 0 = None"
    by (rule option_walk_hangs) (use assms in auto)
  with assms show ?thesis by (simp add: monitor_segment_def segment_wscale_def)
qed

definition example_syn :: "bytes \<Rightarrow> tcp_segment" where
  "example_syn opt = \<lparr>sg_ip_src = 1, sg_ip_dst = 2, sg_tot_len = 60, sg_ihl = 5, sg_source = 80,
     sg_dest = 90, sg_seq = 0, sg_ack_seq = 0, sg_flags = 2, sg_window = 100,
     sg_doff = 5 + length opt div 4, sg_syn = True, sg_options = opt, sg_h_source = replicate 6 1,
     sg_h_dest = replicate 6 2\<rparr>"

definition zero_winsize :: data_winsize where
  "zero_winsize = \<lparr>ws_ip_src = 0, ws_ip_dst = 0, ws_sourceaddr = 0, ws_destination = 0,
     ws_sequence = 0, ws_ack_sequence = 0, ws_flags = 0, ws_windowsize = 0, ws_sec = 0, ws_usec = 0,
     ws_datalength = 0, ws_wscale = [0, 0, 0], ws_pad = 0\<rparr>"

theorem zero_length_option_hangs_witness:
  "monitor_segment (replicate 6 9) zero_winsize (7, 0) (7, 0) (example_syn [2, 0, 0, 0]) monitor_init = None"
  by (rule zero_length_option_hangs [where kind = 2 and rest = "[0, 0]"])
    (simp_all add: example_syn_def)

text \<open>Options in the form that a correct sender gives them.\<close>

datatype tcp_option = Nop | Opt u8 bytes

fun option_bytes :: "tcp_option \<Rightarrow> bytes" where
  "option_bytes Nop = [1]"
| "option_bytes (Opt kind data) = kind # of_nat (length data + 2) # data"

fun option_ok :: "tcp_option \<Rightarrow> bool" where
  "option_ok Nop \<longleftrightarrow> True"
| "option_ok (Opt kind data) \<longleftrightarrow> kind \<noteq> 1 \<and> kind \<noteq> 3 \<and> length data + 2 < 256"

lemma unat_option_length: "length data + 2 < 256 \<Longrightarrow> unat (of_nat (length data + 2) :: u8) = length data + 2"
  by (simp only: unsigned_of_nat) (simp add: take_bit_nat_eq_self)

lemma option_walk_finds:
  "list_all option_ok opts \<Longrightarrow> opt = pre @ concat (map option_bytes opts) @ 3 # rest \<Longrightarrow>
   int (length (pre @ concat (map option_bytes opts)) + 3) \<le> n \<Longrightarrow>
   option_walk opt n (length pre) = Some (Some (length (pre @ concat (map option_bytes opts))))"
proof (induction opts arbitrary: pre)
  case Nil
  then show ?case by (subst option_walk.simps) (simp add: read_at_def)
next
  case (Cons o1 opts)
  have ih: "option_walk opt n (length (pre @ option_bytes o1)) =
      Some (Some (length (pre @ concat (map option_bytes (o1 # opts)))))"
    using Cons.IH [of "pre @ option_bytes o1"] Cons.prems by simp
  show ?case
  proof (cases o1)
    case Nop
    with Cons.prems ih show ?thesis
      by (subst option_walk.simps) (simp add: read_at_def nth_append)
  next
    case (Opt kind data)
    then have ok: "kind \<noteq> 1" "kind \<noteq> 3" "length data + 2 < 256" using Cons.prems(1) by simp_all
    have k: "read_at opt (length pre) = Some kind" "read_at opt (length pre + 1) = Some (of_nat (length data + 2))"
      using Cons.prems(2) Opt by (simp_all add: nth_append)
    have "int (length pre) < n - 2" using Cons.prems(3) Opt by simp
    then have "option_walk opt n (length pre) = option_walk opt n (length pre + unat (of_nat (length data + 2) :: u8))"
      by (subst option_walk.simps) (simp only: k ok option.case, simp)
    also have "\<dots> = option_walk opt n (length (pre @ option_bytes o1))"
      unfolding unat_option_length [OF ok(3)] by (simp add: Opt)
    finally show ?thesis using ih by simp
  qed
qed

text \<open>
  C19.  In a SYN whose options are well formed and hold a window scale option, the walk ends and
  the record sent carries that option with its shift count.
\<close>

theorem window_scale_found:
  assumes "list_all option_ok opts" "sg_syn s"
    and "sg_options s = concat (map option_bytes opts) @ [3, 3, shift] @ rest"
    and "length (concat (map option_bytes opts)) + 23 \<le> sg_doff s * 4"
  shows "segment_wscale s = Some (Some [3, 3, shift])"
proof -
  let ?p = "concat (map option_bytes opts)"
  have len: "int (length ([] @ ?p) + 3) \<le> int (sg_doff s) * 4 - 20" using assms(4) by simp
  have "option_walk (sg_options s) (int (sg_doff s) * 4 - 20) (length ([] :: bytes)) = Some (Some (length ([] @ ?p)))"
    by (rule option_walk_finds [OF assms(1) _ len, where rest = "[3, shift] @ rest"]) (simp add: assms(3))
  then show ?thesis
    using assms(2) by (simp add: segment_wscale_def wscale_of_def assms(3) nth_append read_at_def read_block_def)
qed

theorem window_scale_found_witness:
  "segment_wscale (example_syn (concat (map option_bytes [Opt 2 [5, 180], Nop]) @ [3, 3, 7] @ [0, 0, 0, 0])) =
    Some (Some [3, 3, 7])"
  by (rule window_scale_found [where opts = "[Opt 2 [5, 180], Nop]" and rest = "[0, 0, 0, 0]"])
    (simp_all add: example_syn_def)

section \<open>What the table holds\<close>

lemma update_flow_none: "list_all (\<lambda>t. \<not> same_flow s t) ts \<Longrightarrow> update_flow s later ts = None"
  by (induction ts) auto

lemma same_flow_new [simp]: "same_flow s (new_flow s w now t)"
  by (simp add: same_flow_def new_flow_def)

text \<open>
  A flow that is not in the table takes every free place at once, and when there is none it
  is not entered at all; entries more than two seconds old, or stamped later than now, are
  removed at the same time.
\<close>

theorem new_flow_takes_all_places:
  assumes "flow_count ft \<noteq> 0" "list_all (\<lambda>t. \<not> same_flow s t) (flow_linger ft)" "i < length (flow_linger ft)"
  shows "flow_linger (note_flow s w now later ft) ! i =
    (if tf_sec (flow_linger ft ! i) = 0 then new_flow s w now (flow_linger ft ! i)
     else if 2 < fst now - tf_sec (flow_linger ft ! i) then zero_tcp_flow
     else flow_linger ft ! i)"
  using assms by (simp add: note_flow_def update_flow_none insert_flow_def expire_flows_def new_flow_def)

theorem new_flow_takes_all_places_witness:
  "flow_linger (note_flow (example_syn []) 0 (100, 0) (100, 1)
      \<lparr>flow_linger = replicate 10 zero_tcp_flow, flow_count = -8\<rparr>) ! 9 =
    (if tf_sec (replicate 10 zero_tcp_flow ! 9) = 0
     then new_flow (example_syn []) 0 (100, 0) (replicate 10 zero_tcp_flow ! 9)
     else if 2 < fst (100, 0) - tf_sec (replicate 10 zero_tcp_flow ! 9) then zero_tcp_flow
     else replicate 10 zero_tcp_flow ! 9)"
  using new_flow_takes_all_places [of "\<lparr>flow_linger = replicate 10 zero_tcp_flow, flow_count = -8\<rparr>"
      "example_syn []" 9 0 "(100, 0)" "(100, 1)"]
  by (simp add: same_flow_def example_syn_def zero_tcp_flow_def list_all_iff)

text \<open>
  The counter of flows is already negative after the first segment: the nine places that
  are free count as expired entries.
\<close>

theorem flow_count_negative:
  assumes "2 < fst now"
  shows "flow_count (note_flow s w now later (mo_table monitor_init)) = -8"
  using assms
  by (simp add: note_flow_def monitor_init_def expire_flows_def new_flow_def zero_tcp_flow_def numeral_eq_Suc)

theorem flow_count_negative_witness:
  "flow_count (note_flow (example_syn []) 0 (100, 0) (100, 1) (mo_table monitor_init)) = -8"
  by (rule flow_count_negative) simp

end
