(* ===== verification/Retrans.thy ===== *)
theory Retrans
  imports Wire
begin

text \<open>
  The detection of retransmissions in the experimental receiver, \<^verbatim>\<open>EXP/receive.c\<close>: a table of flows
  with the sequence numbers seen, filled by SYN segments, cleared by FIN segments and consulted
  and extended by the data segments; a sequence number that is seen again is counted, and the
  time of its first transmission is appended to a ring for the statistics thread.

  The two arrays have 10000 places; the definitions work on lists of any length and the initial
  state has lists of that length.
\<close>

section \<open>Data\<close>

definition SEQLIST :: nat where
  "SEQLIST = 10000"

definition THUNDRED :: nat where
  "THUNDRED = 100000"

record seq_info =
  sq_seq :: u32
  sq_sec :: u32
  sq_usec :: u32

record winsize_record =
  wr_ip_src :: u32
  wr_ip_dst :: u32
  wr_sourceaddr :: u16
  wr_destination :: u16
  wr_seq_list :: "seq_info list"
  wr_ack_seq :: u32
  wr_sec :: u32

record retrans =
  flow_seq_list :: "winsize_record list"
  retrans_times :: "(u32 \<times> u32) list"
  retrans_head :: nat
  count_retrans :: nat

definition zero_seq :: seq_info where
  "zero_seq = \<lparr>sq_seq = 0, sq_sec = 0, sq_usec = 0\<rparr>"

definition zero_record :: winsize_record where
  "zero_record = \<lparr>wr_ip_src = 0, wr_ip_dst = 0, wr_sourceaddr = 0, wr_destination = 0,
     wr_seq_list = replicate SEQLIST zero_seq, wr_ack_seq = 0, wr_sec = 0\<rparr>"

definition retrans_init :: retrans where
  "retrans_init = \<lparr>flow_seq_list = replicate SEQLIST zero_record,
     retrans_times = replicate THUNDRED (0, 0), retrans_head = 0, count_retrans = 0\<rparr>"

section \<open>Operations\<close>

text \<open>The first index with a property, the loops with a break.\<close>

fun first_index :: "('a \<Rightarrow> bool) \<Rightarrow> 'a list \<Rightarrow> nat option" where
  "first_index P [] = None"
| "first_index P (x # xs) = (if P x then Some 0 else map_option Suc (first_index P xs))"

definition fill_record :: "data_winsize \<Rightarrow> winsize_record \<Rightarrow> winsize_record" where
  "fill_record ptr r = r\<lparr>wr_ip_src := ws_ip_src ptr, wr_ip_dst := ws_ip_dst ptr,
     wr_sourceaddr := ws_sourceaddr ptr, wr_destination := ws_destination ptr,
     wr_seq_list := (wr_seq_list r)[0 := \<lparr>sq_seq = ws_sequence ptr, sq_sec = ws_sec ptr, sq_usec = ws_usec ptr\<rparr>],
     wr_sec := ws_sec ptr\<rparr>"

text \<open>The record to overwrite in a full table.\<close>

definition oldest_record :: "winsize_record list \<Rightarrow> nat" where
  "oldest_record rs =
    snd (fold (\<lambda>i (sec_max, j). if wr_sec (rs ! i) < sec_max then (wr_sec (rs ! i), i) else (sec_max, j))
          [1..<length rs] (wr_sec (rs ! 0), 0))"

definition insert_flow_info :: "data_winsize \<Rightarrow> retrans \<Rightarrow> retrans" where
  "insert_flow_info ptr st =
    (let rs = flow_seq_list st;
         i = (case first_index (\<lambda>r. wr_sourceaddr r = 0) rs of Some i \<Rightarrow> i | None \<Rightarrow> oldest_record rs)
     in st\<lparr>flow_seq_list := rs[i := fill_record ptr (rs ! i)]\<rparr>)"

definition same_flow :: "data_winsize \<Rightarrow> winsize_record \<Rightarrow> bool" where
  "same_flow ptr r \<longleftrightarrow> wr_ip_src r = ws_ip_src ptr \<and> wr_ip_dst r = ws_ip_dst ptr \<and>
     wr_sourceaddr r = ws_sourceaddr ptr \<and> wr_destination r = ws_destination ptr"

definition reverse_flow :: "data_winsize \<Rightarrow> winsize_record \<Rightarrow> bool" where
  "reverse_flow ptr r \<longleftrightarrow> wr_ip_src r = ws_ip_dst ptr \<and> wr_ip_dst r = ws_ip_src ptr \<and>
     wr_sourceaddr r = ws_destination ptr \<and> wr_destination r = ws_sourceaddr ptr"

definition clear_flow_info :: "data_winsize \<Rightarrow> retrans \<Rightarrow> retrans" where
  "clear_flow_info ptr st =
    (case first_index (same_flow ptr) (flow_seq_list st) of
       None \<Rightarrow> st
     | Some i \<Rightarrow> st\<lparr>flow_seq_list := (flow_seq_list st)[i := zero_record]\<rparr>)"

definition hit :: "data_winsize \<Rightarrow> seq_info \<Rightarrow> bool" where
  "hit ptr q \<longleftrightarrow> sq_seq q \<noteq> -1 \<and> sq_seq q = ws_sequence ptr"

definition note_retrans :: "u32 \<times> u32 \<Rightarrow> retrans \<Rightarrow> retrans" where
  "note_retrans t st = st\<lparr>retrans_times := (retrans_times st)[retrans_head st := t],
     retrans_head := (retrans_head st + 1) mod THUNDRED, count_retrans := count_retrans st + 1\<rparr>"

text \<open>The loop over the sequence numbers of a flow has no break: every equal one is counted.\<close>

definition match_seqs :: "data_winsize \<Rightarrow> seq_info list \<Rightarrow> seq_info list" where
  "match_seqs ptr qs =
    map (\<lambda>q. if hit ptr q then q\<lparr>sq_sec := ws_sec ptr, sq_usec := ws_usec ptr\<rparr> else q) qs"

definition hit_times :: "data_winsize \<Rightarrow> seq_info list \<Rightarrow> (u32 \<times> u32) list" where
  "hit_times ptr qs = map (\<lambda>q. (sq_sec q, sq_usec q)) (filter (hit ptr) qs)"

definition insert_seq :: "data_winsize \<Rightarrow> seq_info list \<Rightarrow> seq_info list" where
  "insert_seq ptr qs =
    (case first_index (\<lambda>q. sq_seq q = 0 \<or> sq_seq q = -1) qs of
       None \<Rightarrow> qs
     | Some i \<Rightarrow> qs[i := \<lparr>sq_seq = ws_sequence ptr, sq_sec = ws_sec ptr, sq_usec = ws_usec ptr\<rparr>])"

definition set_seqs :: "nat \<Rightarrow> seq_info list \<Rightarrow> retrans \<Rightarrow> retrans" where
  "set_seqs i qs st =
    st\<lparr>flow_seq_list := (flow_seq_list st)[i := (flow_seq_list st ! i)\<lparr>wr_seq_list := qs\<rparr>]\<rparr>"

definition data_segment :: "data_winsize \<Rightarrow> retrans \<Rightarrow> retrans" where
  "data_segment ptr st =
    (case first_index (\<lambda>r. wr_sec r \<noteq> 0 \<and> same_flow ptr r) (flow_seq_list st) of
       None \<Rightarrow> insert_flow_info ptr st
     | Some i \<Rightarrow>
        (let qs = wr_seq_list (flow_seq_list st ! i);
             st1 = fold note_retrans (hit_times ptr qs) (set_seqs i (match_seqs ptr qs) st)
         in if hit_times ptr qs = [] then set_seqs i (insert_seq ptr qs) st1 else st1))"

definition forget_acked :: "data_winsize \<Rightarrow> seq_info list \<Rightarrow> seq_info list" where
  "forget_acked ptr qs =
    map (\<lambda>q. if sq_seq q < ws_ack_sequence ptr \<and> 5 < ws_sec ptr - sq_sec q then zero_seq else q) qs"

definition ack_reverse :: "data_winsize \<Rightarrow> retrans \<Rightarrow> retrans" where
  "ack_reverse ptr st =
    (case first_index (\<lambda>r. wr_sec r \<noteq> 0 \<and> reverse_flow ptr r) (flow_seq_list st) of
       None \<Rightarrow> st
     | Some i \<Rightarrow> set_seqs i (forget_acked ptr (wr_seq_list (flow_seq_list st ! i))) st)"

definition ack_flow_info :: "data_winsize \<Rightarrow> retrans \<Rightarrow> retrans" where
  "ack_flow_info ptr st =
    ack_reverse ptr (if ws_datalength ptr \<noteq> 0 then data_segment ptr st else st)"

text \<open>The choice in \<open>decode_winsize\<close>; the flags are masked already.\<close>

definition track_segment :: "data_winsize \<Rightarrow> retrans \<Rightarrow> retrans" where
  "track_segment ptr st =
    (if ws_flags ptr = 2 \<or> ws_flags ptr = 18 then insert_flow_info ptr st
     else if ws_flags ptr = 17 \<or> ws_flags ptr AND 0x0004 = 1 then clear_flow_info ptr st
     else if ws_flags ptr = 16 then ack_flow_info ptr st
     else st)"

section \<open>Lemmas\<close>

lemma first_index_Some:
  "first_index P xs = Some i \<Longrightarrow> i < length xs \<and> P (xs ! i) \<and> (\<forall>j<i. \<not> P (xs ! j))"
proof (induction xs arbitrary: i)
  case Nil
  then show ?case by simp
next
  case (Cons x xs)
  then show ?case by (auto split: if_splits simp: nth_Cons less_Suc_eq_0_disj)
qed

lemma first_index_None: "first_index P xs = None \<longleftrightarrow> list_all (\<lambda>x. \<not> P x) xs"
  by (induction xs) auto

lemma first_index_update:
  "first_index P xs = Some i \<Longrightarrow> (P y \<longleftrightarrow> P (xs ! j)) \<Longrightarrow> first_index P (xs[j := y]) = Some i"
proof (induction xs arbitrary: i j)
  case Nil
  then show ?case by simp
next
  case (Cons x xs)
  then show ?case by (cases j) (auto split: if_splits)
qed

lemma first_index_only:
  "list_all (\<lambda>x. \<not> P x) xs \<Longrightarrow> P y \<Longrightarrow> i < length xs \<Longrightarrow> first_index P (xs[i := y]) = Some i"
proof (induction xs arbitrary: i)
  case Nil
  then show ?case by simp
next
  case (Cons x xs)
  then show ?case by (cases i) auto
qed

lemma fold_note_retrans:
  "flow_seq_list (fold note_retrans ts st) = flow_seq_list st"
  "count_retrans (fold note_retrans ts st) = count_retrans st + length ts"
  by (induction ts arbitrary: st) (simp_all add: note_retrans_def)

lemma set_seqs_count [simp]: "count_retrans (set_seqs i qs st) = count_retrans st"
  by (simp add: set_seqs_def)

lemma ack_reverse_count [simp]: "count_retrans (ack_reverse ptr st) = count_retrans st"
  by (simp add: ack_reverse_def split: option.split)

lemma insert_flow_count [simp]: "count_retrans (insert_flow_info ptr st) = count_retrans st"
  by (simp add: insert_flow_info_def Let_def)

lemma length_hit_times: "length (hit_times ptr qs) = length (filter (hit ptr) qs)"
  by (simp add: hit_times_def)

lemma data_segment_count:
  "first_index (\<lambda>r. wr_sec r \<noteq> 0 \<and> same_flow ptr r) (flow_seq_list st) = Some i \<Longrightarrow> ws_datalength ptr \<noteq> 0 \<Longrightarrow>
   count_retrans (ack_flow_info ptr st) =
     count_retrans st + length (filter (hit ptr) (wr_seq_list (flow_seq_list st ! i)))"
  by (simp add: ack_flow_info_def data_segment_def Let_def fold_note_retrans length_hit_times)
    (simp add: hit_times_def)

text \<open>
  A data segment of a tracked flow is counted as a retransmission once for every place of
  the flow that holds its sequence number, and not at all when there is none.
\<close>

theorem retransmissions_counted:
  assumes "ws_flags ptr = 16" "ws_datalength ptr \<noteq> 0"
    and "first_index (\<lambda>r. wr_sec r \<noteq> 0 \<and> same_flow ptr r) (flow_seq_list st) = Some i"
  shows "count_retrans (track_segment ptr st) =
    count_retrans st + length (filter (hit ptr) (wr_seq_list (flow_seq_list st ! i)))"
  using assms
  by (simp add: track_segment_def data_segment_count)

definition example_segment :: "u32 \<Rightarrow> u16 \<Rightarrow> data_winsize" where
  "example_segment sn flags = \<lparr>ws_ip_src = 1, ws_ip_dst = 2, ws_sourceaddr = 80, ws_destination = 90,
     ws_sequence = sn, ws_ack_sequence = 0, ws_flags = flags, ws_windowsize = 100, ws_sec = 9,
     ws_usec = 0, ws_datalength = 5, ws_wscale = [0, 0, 0], ws_pad = 0\<rparr>"

definition one_flow :: retrans where
  "one_flow = insert_flow_info (example_segment 7 2) (retrans_init\<lparr>flow_seq_list := [zero_record]\<rparr>)"

lemma one_flow_list:
  "flow_seq_list one_flow = [fill_record (example_segment 7 2) zero_record]"
  by (simp add: one_flow_def insert_flow_info_def zero_record_def)

lemma one_flow_found:
  "first_index (\<lambda>r. wr_sec r \<noteq> 0 \<and> same_flow (example_segment sn fl) r) (flow_seq_list one_flow) = Some 0"
  unfolding one_flow_list by (simp add: fill_record_def same_flow_def example_segment_def)

theorem retransmissions_counted_witness:
  "count_retrans (track_segment (example_segment 7 16) one_flow) =
    count_retrans one_flow + length (filter (hit (example_segment 7 16)) (wr_seq_list (flow_seq_list one_flow ! 0)))"
  by (rule retransmissions_counted)
    (use one_flow_found [of 7 16] in \<open>simp_all add: example_segment_def\<close>)

text \<open>
  Free places hold the number zero, so a data segment with sequence number zero on a flow
  whose SYN had another number is counted as 9999 retransmissions.
\<close>

theorem zero_sequence_counts_free_places:
  assumes "ws_flags syn = 2" "ws_sequence syn \<noteq> 0" "ws_sec syn \<noteq> 0"
    and "first_index (\<lambda>r. wr_sourceaddr r = 0) (flow_seq_list st) = Some i" "flow_seq_list st ! i = zero_record"
    and "list_all (\<lambda>r. \<not> same_flow syn r) (flow_seq_list st)"
    and "same_flow syn = same_flow ptr" "ws_flags ptr = 16" "ws_datalength ptr \<noteq> 0" "ws_sequence ptr = 0"
  shows "count_retrans (track_segment ptr (track_segment syn st)) = count_retrans st + 9999"
proof -
  let ?rs = "flow_seq_list st" and ?r = "fill_record syn zero_record"
  have i: "i < length ?rs" using first_index_Some [OF assms(4)] by simp
  have st1: "track_segment syn st = st\<lparr>flow_seq_list := ?rs[i := ?r]\<rparr>"
    using assms(1,4,5) by (simp add: track_segment_def insert_flow_info_def)
  have at: "first_index (\<lambda>r. wr_sec r \<noteq> 0 \<and> same_flow ptr r) (?rs[i := ?r]) = Some i"
  proof -
    have no: "list_all (\<lambda>r. \<not> (wr_sec r \<noteq> 0 \<and> same_flow ptr r)) ?rs"
      using assms(6,7) by (auto simp: list_all_iff)
    have "wr_sec ?r \<noteq> 0 \<and> same_flow ptr ?r"
      unfolding assms(7) [symmetric] using assms(3) by (simp add: fill_record_def same_flow_def)
    then show ?thesis by (rule first_index_only [OF no _ i])
  qed
  have "wr_seq_list ?r = \<lparr>sq_seq = ws_sequence syn, sq_sec = ws_sec syn, sq_usec = ws_usec syn\<rparr> # replicate 9999 zero_seq"
    using replicate_Suc [of 9999 zero_seq] by (simp add: fill_record_def zero_record_def SEQLIST_def)
  then have "length (filter (hit ptr) (wr_seq_list ?r)) = 9999"
    using assms(2,10) by (simp add: hit_def zero_seq_def)
  then show ?thesis
    using data_segment_count [of ptr "track_segment syn st" i] at i assms(8,9) st1
    by (simp add: track_segment_def [of ptr])
qed

theorem zero_sequence_counts_free_places_witness:
  "count_retrans (track_segment (example_segment 0 16)
      (track_segment (example_segment 7 2) (retrans_init\<lparr>flow_seq_list := [zero_record]\<rparr>))) =
    count_retrans (retrans_init\<lparr>flow_seq_list := [zero_record]\<rparr>) + 9999"
  by (rule zero_sequence_counts_free_places [where i = 0])
    (simp_all add: example_segment_def zero_record_def same_flow_def fun_eq_iff)

section \<open>One retransmission\<close>

lemma filter_update_one:
  "\<forall>q\<in>set qs. \<not> P q \<Longrightarrow> P y \<Longrightarrow> i < length qs \<Longrightarrow> length (filter P (qs[i := y])) = 1"
proof (induction qs arbitrary: i)
  case Nil
  then show ?case by simp
next
  case (Cons q qs)
  then show ?case by (cases i) auto
qed

text \<open>
  C7.  When a flow is tracked and has a free place, a data segment with a new sequence number is
  not counted, and the same segment sent again is counted exactly once.
\<close>

theorem retransmission_detected:
  assumes "ws_flags p = 16" "ws_datalength p \<noteq> 0" "ws_sequence p \<noteq> 0" "ws_sequence p \<noteq> -1"
    and found: "first_index (\<lambda>r. wr_sec r \<noteq> 0 \<and> same_flow p r) (flow_seq_list st) = Some i"
    and new: "filter (hit p) (wr_seq_list (flow_seq_list st ! i)) = []"
    and room: "first_index (\<lambda>q. sq_seq q = 0 \<or> sq_seq q = -1) (wr_seq_list (flow_seq_list st ! i)) = Some k"
    and other: "\<not> reverse_flow p (flow_seq_list st ! i)"
  shows "count_retrans (track_segment p st) = count_retrans st \<and>
    count_retrans (track_segment p (track_segment p st)) = count_retrans st + 1"
proof -
  let ?rs = "flow_seq_list st" and ?P = "\<lambda>r. wr_sec r \<noteq> 0 \<and> same_flow p r"
  let ?qs = "wr_seq_list (?rs ! i)"
  have i: "i < length ?rs" "?P (?rs ! i)" using first_index_Some [OF found] by simp_all
  have k: "k < length ?qs" using first_index_Some [OF room] by simp
  define st1 where "st1 = ack_flow_info p st"
  have seg: "track_segment p s = ack_flow_info p s" for s
    using assms(1) by (simp add: track_segment_def)
  have none: "hit_times p ?qs = []" using new by (simp add: hit_times_def)
  let ?q = "\<lparr>sq_seq = ws_sequence p, sq_sec = ws_sec p, sq_usec = ws_usec p\<rparr>"
  have id: "match_seqs p ?qs = ?qs"
    using new by (auto simp: match_seqs_def filter_empty_conv intro: map_idI)
  have dlist: "flow_seq_list (data_segment p st) = ?rs[i := (?rs ! i)\<lparr>wr_seq_list := ?qs[k := ?q]\<rparr>]"
    using found none room i(1) by (simp add: data_segment_def Let_def set_seqs_def insert_seq_def id)
  let ?ds = "data_segment p st"
  have st1: "st1 = ack_reverse p ?ds" using assms(2) by (simp add: st1_def ack_flow_info_def)
  have found': "first_index ?P (flow_seq_list ?ds) = Some i"
    unfolding dlist by (rule first_index_update [OF found]) (simp add: same_flow_def)
  have "first_index ?P (flow_seq_list st1) = Some i \<and> flow_seq_list st1 ! i = flow_seq_list ?ds ! i"
  proof (cases "first_index (\<lambda>r. wr_sec r \<noteq> 0 \<and> reverse_flow p r) (flow_seq_list ?ds)")
    case None
    with found' st1 show ?thesis by (simp add: ack_reverse_def)
  next
    case (Some j)
    have "j \<noteq> i"
      using first_index_Some [OF Some] other i by (auto simp: dlist reverse_flow_def)
    moreover have "first_index ?P ((flow_seq_list ?ds)
        [j := (flow_seq_list ?ds ! j)\<lparr>wr_seq_list := forget_acked p (wr_seq_list (flow_seq_list ?ds ! j))\<rparr>]) = Some i"
      by (rule first_index_update [OF found']) (simp add: same_flow_def)
    ultimately show ?thesis using Some st1 by (simp add: ack_reverse_def set_seqs_def)
  qed
  then have at: "first_index ?P (flow_seq_list st1) = Some i" and
    qs1: "wr_seq_list (flow_seq_list st1 ! i) = ?qs[k := ?q]" using dlist i by simp_all
  have "length (filter (hit p) (?qs[k := ?q])) = 1"
    by (rule filter_update_one) (use new k assms(3,4) in \<open>auto simp: hit_def filter_empty_conv\<close>)
  with data_segment_count [OF at assms(2)] qs1 have "count_retrans (ack_flow_info p st1) = count_retrans st1 + 1"
    by simp
  moreover have "count_retrans st1 = count_retrans st"
    using data_segment_count [OF found assms(2)] new by (simp add: st1_def)
  ultimately show ?thesis by (simp add: seg st1_def)
qed

lemma one_flow_seqs:
  "wr_seq_list (flow_seq_list one_flow ! 0) = \<lparr>sq_seq = 7, sq_sec = 9, sq_usec = 0\<rparr> # replicate 9999 zero_seq"
  using replicate_Suc [of 9999 zero_seq]
  by (simp add: one_flow_list fill_record_def zero_record_def SEQLIST_def example_segment_def)

theorem retransmission_detected_witness:
  "count_retrans (track_segment (example_segment 8 16) one_flow) = count_retrans one_flow \<and>
   count_retrans (track_segment (example_segment 8 16) (track_segment (example_segment 8 16) one_flow)) =
     count_retrans one_flow + 1"
proof (rule retransmission_detected [where i = 0 and k = 1])
  show "first_index (\<lambda>r. wr_sec r \<noteq> 0 \<and> same_flow (example_segment 8 16) r) (flow_seq_list one_flow) = Some 0"
    by (rule one_flow_found)
  have r: "replicate 9999 zero_seq = zero_seq # replicate 9998 zero_seq"
    using replicate_Suc [of 9998 zero_seq] by simp
  show "first_index (\<lambda>q. sq_seq q = 0 \<or> sq_seq q = -1) (wr_seq_list (flow_seq_list one_flow ! 0)) = Some 1"
    unfolding one_flow_seqs r by (simp add: zero_seq_def)
  show "filter (hit (example_segment 8 16)) (wr_seq_list (flow_seq_list one_flow ! 0)) = []"
    unfolding one_flow_seqs by (simp add: hit_def example_segment_def zero_seq_def)
  show "\<not> reverse_flow (example_segment 8 16) (flow_seq_list one_flow ! 0)"
    by (simp add: one_flow_list reverse_flow_def fill_record_def example_segment_def)
qed (simp_all add: example_segment_def)

section \<open>Eviction\<close>

lemma oldest_fold:
  fixes rs :: "winsize_record list"
  assumes "n \<le> length rs" "1 \<le> n"
  shows "case fold (\<lambda>i (sec_max, j). if wr_sec (rs ! i) < sec_max then (wr_sec (rs ! i), i) else (sec_max, j))
      [1..<n] (wr_sec (rs ! 0), 0) of
    (m, j) \<Rightarrow> j < n \<and> m = wr_sec (rs ! j) \<and> (\<forall>k<n. m \<le> wr_sec (rs ! k))"
  using assms
proof (induction n)
  case 0
  then show ?case by simp
next
  case (Suc n)
  show ?case
  proof (cases "n = 0")
    case True
    then show ?thesis by simp
  next
    case False
    with Suc have "[1..<Suc n] = [1..<n] @ [n]" by simp
    with False Suc show ?thesis
      by (auto simp: less_Suc_eq split: prod.splits intro: order_less_imp_le order_trans)
  qed
qed

text \<open>
  In a full table a SYN overwrites a record with the oldest time stamp, but of that record's
  sequence numbers only the first: the others stay and belong to the new flow from then on.
\<close>

theorem full_table_evicts_oldest:
  assumes "list_all (\<lambda>r. wr_sourceaddr r \<noteq> 0) (flow_seq_list st)" "flow_seq_list st \<noteq> []"
  shows "\<exists>j<length (flow_seq_list st).
    list_all (\<lambda>r. wr_sec (flow_seq_list st ! j) \<le> wr_sec r) (flow_seq_list st) \<and>
    flow_seq_list (insert_flow_info ptr st) =
      (flow_seq_list st)[j := fill_record ptr (flow_seq_list st ! j)] \<and>
    tl (wr_seq_list (fill_record ptr (flow_seq_list st ! j))) = tl (wr_seq_list (flow_seq_list st ! j))"
proof -
  let ?rs = "flow_seq_list st"
  obtain m j where mj: "fold (\<lambda>i (sec_max, j). if wr_sec (?rs ! i) < sec_max then (wr_sec (?rs ! i), i) else (sec_max, j))
      [1..<length ?rs] (wr_sec (?rs ! 0), 0) = (m, j)" by fastforce
  have "1 \<le> length ?rs" using assms(2) by (simp add: Suc_le_eq)
  from oldest_fold [OF order_refl this] mj have j: "j < length ?rs" "\<forall>k<length ?rs. wr_sec (?rs ! j) \<le> wr_sec (?rs ! k)"
    by auto
  have "first_index (\<lambda>r. wr_sourceaddr r = 0) ?rs = None" using assms(1) by (simp add: first_index_None)
  with mj have "flow_seq_list (insert_flow_info ptr st) = ?rs[j := fill_record ptr (?rs ! j)]"
    by (simp add: insert_flow_info_def oldest_record_def Let_def)
  moreover have "tl (wr_seq_list (fill_record ptr r)) = tl (wr_seq_list r)" for r
    by (cases "wr_seq_list r") (simp_all add: fill_record_def)
  ultimately show ?thesis using j by (auto simp: list_all_length)
qed

theorem full_table_evicts_oldest_witness:
  "\<exists>j<length (flow_seq_list one_flow).
    list_all (\<lambda>r. wr_sec (flow_seq_list one_flow ! j) \<le> wr_sec r) (flow_seq_list one_flow) \<and>
    flow_seq_list (insert_flow_info (example_segment 1 2) one_flow) =
      (flow_seq_list one_flow)[j := fill_record (example_segment 1 2) (flow_seq_list one_flow ! j)] \<and>
    tl (wr_seq_list (fill_record (example_segment 1 2) (flow_seq_list one_flow ! j))) =
      tl (wr_seq_list (flow_seq_list one_flow ! j))"
  by (rule full_table_evicts_oldest) (simp_all add: one_flow_list fill_record_def example_segment_def)

end
