(* ===== verification/Exp_Receiver.thy ===== *)
theory Exp_Receiver
  imports Neighbour_List Retrans
begin

text \<open>
  The decoders of the experimental receiver \<^verbatim>\<open>EXP/receive.c\<close>: the same messages as in Receiver, but the
  values go to two log files, to the table of sequence numbers and to the lists from which the
  statistics thread (Format_Data) computes.  All lists live in heaps; the allocator picks an
  address outside the set of those in use.

  Quotients of type \<^verbatim>\<open>float\<close> are values of an argument type, formed by the operations of a record.
\<close>

section \<open>State\<close>

record 'f floats =
  fl_quot :: "int \<Rightarrow> int \<Rightarrow> 'f"
  fl_of :: "int \<Rightarrow> 'f"
  fl_thousandth :: "u32 \<Rightarrow> 'f"

record data_iwp =
  pw_timex :: u64
  pw_inactive_time :: u32
  pw_rx_bytes :: u32
  pw_rx_packets :: u32
  pw_tx_bytes :: u32
  pw_tx_packets :: u32
  pw_tx_retries :: u32
  pw_tx_failed :: u32

record 'f data_iwget =
  gw_inactive_time :: 'f
  gw_rx_bytes :: 'f
  gw_rx_packets :: 'f
  gw_tx_bytes :: 'f
  gw_tx_packets :: 'f
  gw_tx_retries :: 'f
  gw_tx_failed :: 'f
  gw_signal :: u32
  gw_signal_avg :: u32
  gw_expected_throughput :: 'f

text \<open>A station; the first sample is null or the sample it points to.\<close>

record 'f iw_station =
  is_station :: bytes
  is_sec :: u32
  is_count :: u32
  is_iwget :: "'f data_iwget"
  is_iwh :: "data_iwp option"

record drop_time =
  dt_sec :: u32
  dt_usec :: u32
  dt_count :: u32

record 'f exp =
  fp_lines :: "log_line list"
  fp_winsize :: "log_line list"
  seqs :: retrans
  winsize_times :: "(u32 \<times> u32) list"
  winsize_head :: nat
  queue_list_3 :: "data_queue chain"
  queue_list_f :: "data_queue chain"
  survey_list :: "data_survey chain"
  station_lists :: "'f iw_station chain"
  neibour_lists :: station_list
  drop_count :: u32
  last_100_ms_drop :: drop_time
  count_winsize :: nat
  count_iw :: nat
  count_queue :: nat
  count_survey :: nat

definition exp_init :: "'f exp" where
  "exp_init = \<lparr>fp_lines = [], fp_winsize = [], seqs = retrans_init,
     winsize_times = replicate THUNDRED (0, 0), winsize_head = 0,
     queue_list_3 = chain_init, queue_list_f = chain_init, survey_list = chain_init,
     station_lists = chain_init, neibour_lists = chain_init, drop_count = 0,
     last_100_ms_drop = \<lparr>dt_sec = 0, dt_usec = 0, dt_count = 0\<rparr>,
     count_winsize = 1, count_iw = 0, count_queue = 0, count_survey = 0\<rparr>"

definition write_fp :: "log_line \<Rightarrow> 'f exp \<Rightarrow> 'f exp" where
  "write_fp l st = st\<lparr>fp_lines := fp_lines st @ [l]\<rparr>"

section \<open>TCP segments and dropped packets\<close>

definition exp_winsize_log :: "bytes \<Rightarrow> data_winsize \<Rightarrow> log_line" where
  "exp_winsize_log mac r =
     Log WINSIZE (timex_of (ws_sec r) (ws_usec r)) (mac_text mac)
       [ip_text (ws_ip_src r), ip_text (ws_ip_dst r)]
       [uint (ws_sourceaddr r), uint (ws_destination r), uint (ws_sequence r),
        uint (ws_ack_sequence r), uint (ws_windowsize r), uint (ws_windowsize r),
        sint (ws_datalength r), uint (ws_flags r), uint (scast (ws_wscale r ! 0) :: u32),
        sint (ws_wscale r ! 1), uint (scast (ws_wscale r ! 2) :: u32)]"

definition note_winsize_time :: "data_winsize \<Rightarrow> 'f exp \<Rightarrow> 'f exp" where
  "note_winsize_time r st = st\<lparr>winsize_times := (winsize_times st)[winsize_head st := (ws_sec r, ws_usec r)],
     winsize_head := (winsize_head st + 1) mod THUNDRED\<rparr>"

definition exp_decode_winsize :: "bytes \<Rightarrow> 'f exp \<Rightarrow> 'f exp option" where
  "exp_decode_winsize buf st =
    (if length buf < 6 + sizeof_data_winsize then None
     else let mac = field_bytes buf 0 6;
              rdata = winsize_rdata buf;
              st1 = note_winsize_time rdata st
          in Some (st1\<lparr>seqs := track_segment rdata (seqs st1),
               fp_winsize := fp_winsize st1 @ [exp_winsize_log mac rdata]\<rparr>))"

text \<open>The number of drops since the last time that is at least 0.9 seconds ago.\<close>

definition note_drops :: "dp_packet \<Rightarrow> 'f exp \<Rightarrow> 'f exp" where
  "note_drops r st =
    (let l = last_100_ms_drop st
     in if 900000 \<le> timex_of (dp_sec r) (dp_usec r) - timex_of (dt_sec l) (dt_usec l)
        then st\<lparr>drop_count := dp_drop_count r - dt_count l,
          last_100_ms_drop := \<lparr>dt_sec = dp_sec r, dt_usec = dp_usec r, dt_count = dp_drop_count r\<rparr>\<rparr>
        else st)"

definition exp_decode_drops :: "bytes \<Rightarrow> 'f exp \<Rightarrow> 'f exp option" where
  "exp_decode_drops buf st =
    (if length buf < 6 + sizeof_dp_packet then None
     else let mac = field_bytes buf 0 6;
              r = reverse_dp_packet (dp_packet_of_bytes (field_bytes buf 6 sizeof_dp_packet));
              line = Log DROPS (timex_of (dp_sec r) (dp_usec r)) (mac_text mac)
                [ip_text (dp_ip_src r), ip_text (dp_ip_dst r)]
                [uint (dp_port_src r), uint (dp_port_dst r), uint (dp_sequence r),
                 uint (dp_ack_sequence r), uint (dp_in_time r), uint (dp_dpl r),
                 uint (dp_drop_count r)]
          in Some (note_drops r (write_fp line st)))"

section \<open>Queues, surveys and beacons\<close>

type_synonym allocator = "nat set \<Rightarrow> nat"

definition exp_decode_queue :: "allocator \<Rightarrow> bytes \<Rightarrow> 'f exp \<Rightarrow> 'f exp option" where
  "exp_decode_queue alloc buf st =
    (if length buf < 6 + sizeof_data_queue then None
     else let mac = field_bytes buf 0 6;
              r = reverse_data_queue (data_queue_of_bytes (field_bytes buf 6 sizeof_data_queue));
              st1 = write_fp (Log QUEUE (timex_of (qu_sec r) (qu_usec r)) (mac_text mac) []
                [uint (qu_queue_id r), uint (qu_bytes r), uint (qu_packets r), uint (qu_qlen r),
                 uint (qu_backlog r), uint (qu_drops r), uint (qu_requeues r), uint (qu_overlimits r)]) st
          in if qu_queue_id r = 3 then
               map_option (\<lambda>c. st1\<lparr>queue_list_3 := c\<rparr>) (chain_append (alloc \<circ> dom) r (queue_list_3 st1))
             else if qu_queue_id r = 4294967295 then
               map_option (\<lambda>c. st1\<lparr>queue_list_f := c\<rparr>) (chain_append (alloc \<circ> dom) r (queue_list_f st1))
             else Some st1)"

definition exp_decode_survey :: "allocator \<Rightarrow> bytes \<Rightarrow> 'f exp \<Rightarrow> 'f exp option" where
  "exp_decode_survey alloc buf st =
    (if length buf < 6 + sizeof_data_survey then None
     else let mac = field_bytes buf 0 6;
              r = reverse_data_survey (data_survey_of_bytes (field_bytes buf 6 sizeof_data_survey));
              st1 = write_fp (Log SURVEY (timex_of (su_sec r) (su_usec r)) (mac_text mac) []
                [uint (su_time r), uint (su_time_busy r), uint (su_time_ext_busy r),
                 uint (su_time_rx r), uint (su_time_tx r), uint (su_time_scan r),
                 uint (su_center_freq r), sint (su_noise r)]) st
          in map_option (\<lambda>c. st1\<lparr>survey_list := c\<rparr>) (chain_append (alloc \<circ> dom) r (survey_list st1)))"

definition exp_decode_beacon :: "allocator \<Rightarrow> bytes \<Rightarrow> 'f exp \<Rightarrow> 'f exp option" where
  "exp_decode_beacon alloc buf st =
    (if length buf < 6 + sizeof_data_beacon then None
     else let mac = field_bytes buf 0 6;
              r0 = reverse_data_beacon (data_beacon_of_bytes (field_bytes buf 6 sizeof_data_beacon));
              r = r0\<lparr>be_data_rate := reversebytes_uint16t (be_data_rate r0)\<rparr>;
              st1 = write_fp (Log BEACON (timex_of (be_sec r) (be_usec r)) (mac_text mac)
                [mac_text (be_bssid r)]
                [uint (be_data_rate r), uint (be_freq r), uint (scast (be_signal r) :: u32)]) st
          in map_option (\<lambda>c. st1\<lparr>neibour_lists := c\<rparr>)
               (note_neighbour (alloc \<circ> dom) mac (be_bssid r) (be_sec r) (neibour_lists st1)))"

section \<open>Stations\<close>

text \<open>
  The list of stations.  The sample that a new entry is to remember is written to a block that
  nothing points to afterwards, so \<^verbatim>\<open>iwh\<close> of an entry stays null.  The removal of an entry that is not
  the first starts with the entry itself as if it were a sample, and frees it a second time:
  this is None.
\<close>

partial_function (option) expire_stations :: "u32 \<Rightarrow> nat option \<Rightarrow> 'f iw_station chain \<Rightarrow> 'f iw_station chain option" where
  "expire_stations sec tlist c =
    (case tlist of
       None \<Rightarrow> Some c
     | Some a \<Rightarrow>
        (case ch_heap c a of
           None \<Rightarrow> None
         | Some n \<Rightarrow>
            if 10 < sec - is_sec (nval n) then
              if tlist = ch_head c then
                if ch_head c = ch_tail c then
                  Some (c\<lparr>ch_heap := (ch_heap c)(a := None), ch_head := None, ch_tail := None\<rparr>)
                else
                  expire_stations sec (nnext n) (c\<lparr>ch_heap := (ch_heap c)(a := None), ch_head := nnext n\<rparr>)
              else None
            else expire_stations sec (nnext n) c))"

definition find_iw :: "'f iw_station chain \<Rightarrow> bytes \<Rightarrow> nat option option" where
  "find_iw c mac = find_node is_station (ch_heap c) (ch_head c) mac"

definition iw_rates :: "'f floats \<Rightarrow> data_iw \<Rightarrow> data_iwp \<Rightarrow> 'f data_iwget \<Rightarrow> 'f data_iwget" where
  "iw_rates fl r p g =
    (let timex = timex_of (iw_sec r) (iw_usec r);
         duration = uint (timex - pw_timex p)
     in if 900 < timex - pw_timex p then
       \<lparr>gw_inactive_time = fl_quot fl (uint (iw_inactive_time r - pw_inactive_time p)) duration,
        gw_rx_bytes = fl_quot fl (uint (iw_rx_bytes r - pw_rx_bytes p)) duration,
        gw_rx_packets = fl_quot fl (uint (iw_rx_packets r - pw_rx_packets p)) duration,
        gw_tx_bytes = fl_quot fl (uint (iw_tx_bytes r - pw_tx_bytes p)) duration,
        gw_tx_packets = fl_quot fl (uint (iw_tx_packets r - pw_tx_packets p)) duration,
        gw_tx_retries = fl_quot fl (uint (iw_tx_retries r - pw_tx_retries p)) duration,
        gw_tx_failed = fl_quot fl (uint (iw_tx_failed r - pw_tx_failed p)) duration,
        gw_signal = iw_signal r, gw_signal_avg = iw_signal_avg r,
        gw_expected_throughput = fl_thousandth fl (iw_expected_throughput r)\<rparr>
     else g)"

definition zero_iwget :: "'f floats \<Rightarrow> 'f data_iwget" where
  "zero_iwget fl = \<lparr>gw_inactive_time = fl_of fl 0, gw_rx_bytes = fl_of fl 0, gw_rx_packets = fl_of fl 0,
     gw_tx_bytes = fl_of fl 0, gw_tx_packets = fl_of fl 0, gw_tx_retries = fl_of fl 0,
     gw_tx_failed = fl_of fl 0, gw_signal = 0, gw_signal_avg = 0, gw_expected_throughput = fl_of fl 0\<rparr>"

definition new_station :: "'f floats \<Rightarrow> data_iw \<Rightarrow> u32 \<Rightarrow> 'f iw_station" where
  "new_station fl r n = \<lparr>is_station = iw_station r, is_sec = iw_sec r, is_count = n,
     is_iwget = zero_iwget fl, is_iwh = None\<rparr>"

text \<open>
  A new entry behind the others; \<^verbatim>\<open>station_lists->iwh\<close> is read first, so the list must not be empty.
\<close>

definition insert_iw :: "'f floats \<Rightarrow> allocator \<Rightarrow> data_iw \<Rightarrow> 'f iw_station chain \<Rightarrow> 'f iw_station chain option" where
  "insert_iw fl alloc r c =
    Option.bind (ch_head c) (\<lambda>first.
    Option.bind (chain_append (alloc \<circ> dom) (new_station fl r 0) c) (\<lambda>c1.
    map_option (\<lambda>n. c1\<lparr>ch_heap := (ch_heap c1)(first \<mapsto> n\<lparr>nval := (nval n)\<lparr>is_count := is_count (nval n) + 1\<rparr>\<rparr>)\<rparr>)
      (ch_heap c1 first)))"

definition note_station :: "'f floats \<Rightarrow> allocator \<Rightarrow> data_iw \<Rightarrow> 'f iw_station chain \<Rightarrow> 'f iw_station chain option" where
  "note_station fl alloc r c =
    (if ch_head c = None then chain_append (alloc \<circ> dom) (new_station fl r 1) c
     else
       Option.bind (expire_stations (iw_sec r) (ch_head c) c) (\<lambda>c1.
       Option.bind (find_iw c1 (iw_station r)) (\<lambda>found.
       case found of
         None \<Rightarrow> insert_iw fl alloc r c1
       | Some a \<Rightarrow>
           Option.bind (ch_heap c1 a) (\<lambda>n.
           map_option (\<lambda>p. c1\<lparr>ch_heap := (ch_heap c1)(a \<mapsto> n\<lparr>nval := (nval n)\<lparr>is_sec := iw_sec r,
               is_iwget := iw_rates fl r p (is_iwget (nval n))\<rparr>\<rparr>)\<rparr>) (is_iwh (nval n))))))"

text \<open>The last column of the log line, printed with \<^verbatim>\<open>%f\<close>, is left out.\<close>

definition exp_decode_iw :: "'f floats \<Rightarrow> allocator \<Rightarrow> bytes \<Rightarrow> 'f exp \<Rightarrow> 'f exp option" where
  "exp_decode_iw fl alloc buf st =
    (if length buf < 6 + sizeof_data_iw then None
     else let mac = field_bytes buf 0 6;
              r = reverse_data_iw (data_iw_of_bytes (field_bytes buf 6 sizeof_data_iw));
              st1 = write_fp (Log IW (timex_of (iw_sec r) (iw_usec r)) (mac_text mac)
                [mac_text (iw_station r)]
                [uint (iw_device r), uint (iw_inactive_time r), uint (iw_rx_bytes r),
                 uint (iw_rx_packets r), uint (iw_tx_bytes r), uint (iw_tx_packets r),
                 uint (iw_tx_retries r), uint (iw_tx_failed r), sint (iw_signal r),
                 sint (iw_signal_avg r)]) st
          in map_option (\<lambda>c. st1\<lparr>station_lists := c\<rparr>) (note_station fl alloc r (station_lists st1)))"

section \<open>The dispatcher\<close>

text \<open>The decoder of a tag with its counter, and the distance to the next message.\<close>

definition exp_dispatch :: "'f floats \<Rightarrow> allocator \<Rightarrow> u16 \<Rightarrow> ((bytes \<Rightarrow> 'f exp \<Rightarrow> 'f exp option) \<times> nat) option" where
  "exp_dispatch fl alloc value =
    (if value = 1 then Some (\<lambda>b st. map_option (\<lambda>s. s\<lparr>count_winsize := count_winsize s + 1\<rparr>)
       (exp_decode_winsize b st), sizeof_data_winsize + 6)
     else if value = 2 then Some (exp_decode_drops, sizeof_dp_packet + 6)
     else if value = 3 then Some (\<lambda>b st. map_option (\<lambda>s. s\<lparr>count_iw := count_iw s + 1\<rparr>)
       (exp_decode_iw fl alloc b st), sizeof_data_iw + 6)
     else if value = 4 then Some (\<lambda>b st. map_option (\<lambda>s. s\<lparr>count_queue := count_queue s + 1\<rparr>)
       (exp_decode_queue alloc b st), sizeof_data_queue + 6)
     else if value = 5 then Some (exp_decode_beacon alloc, sizeof_data_beacon + 6)
     else if value = 6 then Some (\<lambda>b st. map_option (\<lambda>s. s\<lparr>count_survey := count_survey s + 1\<rparr>)
       (exp_decode_survey alloc b st), sizeof_data_survey + 6)
     else None)"

function exp_process_from :: "'f floats \<Rightarrow> allocator \<Rightarrow> bytes \<Rightarrow> nat \<Rightarrow> nat \<Rightarrow> 'f exp \<Rightarrow> 'f exp option" where
  "exp_process_from fl alloc buffer offset len st =
    (if offset < len then
       (case read_block buffer offset 2 of
          None \<Rightarrow> None
        | Some tag \<Rightarrow>
            (case exp_dispatch fl alloc (reversebytes_uint16t (le_word tag)) of
               None \<Rightarrow> Some st
             | Some (decode, k) \<Rightarrow>
                 (case decode (drop (offset + 2) buffer) st of
                    None \<Rightarrow> None
                  | Some st' \<Rightarrow> exp_process_from fl alloc buffer (offset + 2 + k) len st')))
     else Some st)"
  by pat_completeness auto
termination
  by (relation "measure (\<lambda>(fl, alloc, buffer, offset, len, st). len - offset)") auto

declare exp_process_from.simps [simp del]

definition exp_process :: "'f floats \<Rightarrow> allocator \<Rightarrow> bytes \<Rightarrow> nat \<Rightarrow> 'f exp \<Rightarrow> 'f exp option" where
  "exp_process fl alloc buffer len st = exp_process_from fl alloc buffer 0 len st"

section \<open>What becomes of the stations\<close>

definition old_station :: "u32 \<Rightarrow> 'f iw_station \<Rightarrow> bool" where
  "old_station sec s \<longleftrightarrow> 10 < sec - is_sec s"

lemma expire_stations_rest:
  "lseg (ch_heap c) p xs \<Longrightarrow> ch_head c \<notin> Some ` fst ` set xs \<Longrightarrow>
   expire_stations sec p c = (if list_all (\<lambda>x. \<not> old_station sec (snd x)) xs then Some c else None)"
proof (induction xs arbitrary: p)
  case Nil
  then show ?case by (subst expire_stations.simps) simp
next
  case (Cons x xs)
  obtain a v where x: "x = (a, v)" by (cases x)
  with Cons.prems obtain q where "p = Some a" "ch_heap c a = Some \<lparr>nval = v, nnext = q\<rparr>" "lseg (ch_heap c) q xs"
    by auto
  with Cons.IH [of q] Cons.prems(2) x show ?case
    by (subst expire_stations.simps) (auto simp: old_station_def)
qed

lemma expire_stations_rep:
  "chain_rep c xs \<Longrightarrow>
   (let ys = dropWhile (\<lambda>x. old_station sec (snd x)) xs
    in if list_all (\<lambda>x. \<not> old_station sec (snd x)) ys
       then \<exists>c'. expire_stations sec (ch_head c) c = Some c' \<and> chain_rep c' ys
       else expire_stations sec (ch_head c) c = None)"
proof (induction xs arbitrary: c)
  case Nil
  then have "ch_head c = None" by (simp add: chain_rep_def)
  with Nil show ?case by (subst expire_stations.simps) simp
next
  case (Cons x xs)
  obtain a v where x: "x = (a, v)" by (cases x)
  from Cons.prems x have l: "lseg (ch_heap c) (Some a) ((a, v) # xs)" "distinct (map fst ((a, v) # xs))"
    "ch_tail c = last_ptr ((a, v) # xs)" "ch_head c = Some a" "finite (dom (ch_heap c))"
    by (auto simp: chain_rep_def)
  have read: "ch_heap c a = Some \<lparr>nval = v, nnext = first_ptr xs\<rparr>"
    using lseg_read [of "ch_heap c" _ "[]" a v xs] l(1) by simp
  have rest: "lseg (ch_heap c) (first_ptr xs) xs" using l(1) by (auto dest: lseg_first)
  show ?case
  proof (cases "old_station sec v")
    case False
    then have "expire_stations sec (ch_head c) c = expire_stations sec (first_ptr xs) c"
      using read l(4) by (subst expire_stations.simps) (simp add: old_station_def)
    moreover have "ch_head c \<notin> Some ` fst ` set xs" using l(2,4) by auto
    ultimately show ?thesis
      using expire_stations_rest [OF rest, of sec] False x Cons.prems by (auto simp: Let_def)
  next
    case True
    show ?thesis
    proof (cases xs)
      case Nil
      with True x read l show ?thesis
        by (subst expire_stations.simps) (simp add: chain_rep_def old_station_def)
    next
      case (Cons y ys)
      have tail: "ch_tail c \<noteq> Some a" using l(2,3) Cons by (auto simp: last_ptr_def)
      let ?c = "c\<lparr>ch_heap := (ch_heap c)(a := None), ch_head := first_ptr xs\<rparr>"
      have "chain_rep ?c xs" using rest l(2,3,5) Cons by (simp add: chain_rep_def del: fun_upd_apply)
      note IH = Cons.IH [OF this]
      have "ch_head ?c = first_ptr xs" by simp
      note IH [unfolded this]
      moreover have "expire_stations sec (ch_head c) c = expire_stations sec (first_ptr xs) ?c"
        using True read l(4) tail by (subst expire_stations.simps) (simp add: old_station_def)
      ultimately show ?thesis using True x by (simp add: Let_def)
    qed
  qed
qed

lemma insert_iw_rep:
  assumes rep: "chain_rep c xs" and alloc: "alloc (dom (ch_heap c)) \<notin> dom (ch_heap c)"
  shows "xs = [] \<Longrightarrow> insert_iw fl alloc r c = None"
    and "xs = (a, v) # zs \<Longrightarrow> \<exists>c' ys. insert_iw fl alloc r c = Some c' \<and> chain_rep c' ys \<and>
      map snd ys = v\<lparr>is_count := is_count v + 1\<rparr> # map snd zs @ [new_station fl r 0]"
proof -
  show "xs = [] \<Longrightarrow> insert_iw fl alloc r c = None"
    using rep by (simp add: insert_iw_def chain_rep_def)
  assume xs: "xs = (a, v) # zs"
  then have head: "ch_head c = Some a" using rep by (auto simp: chain_rep_def)
  from chain_append_rep [OF rep, of "alloc \<circ> dom"] alloc obtain c1 where
    "chain_append (alloc \<circ> dom) (new_station fl r 0) c = Some c1"
    "chain_rep c1 ((a, v) # zs @ [(alloc (dom (ch_heap c)), new_station fl r 0)])" using xs by fastforce
  with chain_write [of c1 "[]" a v _ "v\<lparr>is_count := is_count v + 1\<rparr>"] head
  show "\<exists>c' ys. insert_iw fl alloc r c = Some c' \<and> chain_rep c' ys \<and>
      map snd ys = v\<lparr>is_count := is_count v + 1\<rparr> # map snd zs @ [new_station fl r 0]"
    by (fastforce simp: insert_iw_def)
qed

text \<open>The measurements of a station that survive.\<close>

definition station_survives :: "data_iw \<Rightarrow> 'f iw_station list \<Rightarrow> bool" where
  "station_survives r xs \<longleftrightarrow>
    xs = [] \<or>
    (let ys = dropWhile (old_station (iw_sec r)) xs
     in ys \<noteq> [] \<and> list_all (\<lambda>s. \<not> old_station (iw_sec r) s) ys \<and> iw_station r \<notin> is_station ` set ys)"

lemma dropWhile_map_snd: "dropWhile P (map snd xs) = map snd (dropWhile (\<lambda>x. P (snd x)) xs)"
  by (simp add: dropWhile_map comp_def)


definition example_iw :: "u8 \<Rightarrow> u32 \<Rightarrow> data_iw" where
  "example_iw b sec = reverse_data_iw (data_iw_of_bytes (replicate 64 0))
     \<lparr>iw_station := some_mac b, iw_sec := sec\<rparr>"

definition some_floats :: "int floats" where
  "some_floats = \<lparr>fl_quot = (\<lambda>a b. a div b), fl_of = id, fl_thousandth = (\<lambda>x. uint x div 1000)\<rparr>"

definition next_free :: allocator where
  "next_free A = (if A = {} then 0 else Suc (Max A))"

lemma next_free: "finite A \<Longrightarrow> next_free A \<notin> A"
proof (cases "A = {}")
  case False
  assume fin: "finite A"
  have "Suc (Max A) \<notin> A"
  proof
    assume "Suc (Max A) \<in> A"
    from Max_ge [OF fin this] show False by simp
  qed
  with False show ?thesis by (simp add: next_free_def)
qed (simp add: next_free_def)

definition one_station :: "int iw_station chain" where
  "one_station = \<lparr>ch_heap = [0 \<mapsto> \<lparr>nval = new_station some_floats (example_iw 1 5) 1, nnext = None\<rparr>],
     ch_head = Some 0, ch_tail = Some 0\<rparr>"


end
