(* ===== verification/Format_Data.thy ===== *)
theory Format_Data
  imports Exp_Receiver Sendudp
begin

text \<open>
  The statistics thread \<^verbatim>\<open>format_data\<close> of the experimental receiver \<^verbatim>\<open>EXP/receive.c\<close>.  Every round
  takes the difference of the first and the last measurement of a raw list if they are at least
  900 milliseconds apart, stores it in a list ordered by time, and writes a line for every
  retransmission and every TCP segment with the states of the queues and of the channel after it.

  A round is modelled without decoders running between its critical sections.  The three local
  variables that the code leaves uninitialised are arguments.  The comparison of a duration of
  type \<^verbatim>\<open>float\<close> with 900 has the same result on the integer it comes from.
\<close>

section \<open>State\<close>

record 'f queue_computed =
  qc_packets :: 'f
  qc_bytes :: 'f
  qc_sec :: u32
  qc_usec :: u32
  qc_qlen :: 'f
  qc_backlog :: 'f
  qc_drops :: 'f
  qc_requeues :: 'f
  qc_overlimits :: 'f

record 'f survey_computed =
  sc_sec :: u32
  sc_usec :: u32
  sc_time_busy :: 'f
  sc_time_ext_busy :: 'f
  sc_time_rx :: 'f
  sc_time_tx :: 'f
  sc_time_scan :: 'f
  sc_noise :: u8

record 'f stat_line =
  sl_drop :: bool
  sl_drop_count :: u32
  sl_neibours :: u32
  sl_stations :: u32
  sl_survey :: "'f survey_computed"
  sl_queue_3 :: "'f queue_computed"
  sl_queue_f :: "'f queue_computed"

record 'f stats = "'f exp" +
  queue_p_3 :: "'f queue_computed chain"
  queue_p_f :: "'f queue_computed chain"
  survey_p :: "'f survey_computed chain"
  retrans_tail :: nat
  winsize_tail :: nat
  fretrans :: "'f stat_line list"
  write_count :: nat

type_synonym time = "u32 \<times> u32"

definition qc_time :: "'f queue_computed \<Rightarrow> time" where
  "qc_time q = (qc_sec q, qc_usec q)"

definition sc_time :: "'f survey_computed \<Rightarrow> time" where
  "sc_time s = (sc_sec s, sc_usec s)"

definition not_later :: "time \<Rightarrow> time \<Rightarrow> bool" where
  "not_later t u \<longleftrightarrow> fst t < fst u \<or> fst t = fst u \<and> snd t \<le> snd u"

section \<open>Differences\<close>

definition pop_head :: "'v chain \<Rightarrow> 'v chain option" where
  "pop_head c =
    Option.bind (ch_head c) (\<lambda>a.
      map_option (\<lambda>n. c\<lparr>ch_heap := (ch_heap c)(a := None), ch_head := nnext n\<rparr>) (ch_heap c a))"

text \<open>The first and the last element, if there are any.\<close>

definition both_ends :: "'v chain \<Rightarrow> ('v \<times> 'v) option option" where
  "both_ends c =
    (case (ch_head c, ch_tail c) of
       (Some a, Some b) \<Rightarrow>
         (case (ch_heap c a, ch_heap c b) of
            (Some n, Some l) \<Rightarrow> Some (Some (nval n, nval l))
          | _ \<Rightarrow> None)
     | _ \<Rightarrow> Some None)"

definition queue_duration :: "data_queue \<Rightarrow> data_queue \<Rightarrow> int" where
  "queue_duration new lst = sint ((qu_sec lst - qu_sec new) * 1000 + c_div (qu_usec lst - qu_usec new) 1000)"

definition queue_item :: "'f floats \<Rightarrow> data_queue \<Rightarrow> data_queue \<Rightarrow> int \<Rightarrow> 'f queue_computed" where
  "queue_item fl new lst duration =
    \<lparr>qc_packets = fl_quot fl (uint (qu_packets lst - qu_packets new)) duration,
     qc_bytes = fl_quot fl (uint (qu_bytes lst - qu_bytes new)) duration,
     qc_sec = qu_sec lst, qc_usec = qu_usec lst,
     qc_qlen = fl_of fl (uint (qu_qlen lst)), qc_backlog = fl_of fl (uint (qu_backlog lst)),
     qc_drops = fl_of fl 0,
     qc_requeues = fl_quot fl (uint (qu_requeues lst - qu_requeues new)) duration,
     qc_overlimits = fl_quot fl (uint (qu_overlimits lst - qu_overlimits new)) duration\<rparr>"

text \<open>
  The new item, the list without its head, and the duration; an empty list leaves the duration of
  the list before it.
\<close>

definition take_queue :: "'f floats \<Rightarrow> int \<Rightarrow> data_queue chain \<Rightarrow>
    ('f queue_computed option \<times> data_queue chain \<times> int) option" where
  "take_queue fl before c =
    Option.bind (both_ends c) (\<lambda>ends.
      let duration = (case ends of None \<Rightarrow> before | Some (new, lst) \<Rightarrow> queue_duration new lst)
      in if 900 \<le> duration then
           Option.bind ends (\<lambda>(new, lst).
             map_option (\<lambda>c'. (Some (queue_item fl new lst duration), c', duration)) (pop_head c))
         else Some (None, c, duration))"

definition survey_item :: "'f floats \<Rightarrow> data_survey \<Rightarrow> data_survey \<Rightarrow> int \<Rightarrow> 'f survey_computed" where
  "survey_item fl new lst duration =
    \<lparr>sc_sec = su_sec lst, sc_usec = su_usec lst,
     sc_time_busy = fl_quot fl (uint (su_time_busy lst - su_time_busy new)) duration,
     sc_time_ext_busy = fl_quot fl (uint (su_time_ext_busy lst - su_time_ext_busy new)) duration,
     sc_time_rx = fl_quot fl (uint (su_time_rx lst - su_time_rx new)) duration,
     sc_time_tx = fl_quot fl (uint (su_time_tx lst - su_time_tx new)) duration,
     sc_time_scan = fl_quot fl (uint (su_time_scan lst - su_time_scan new)) duration,
     sc_noise = su_noise lst\<rparr>"

definition take_survey :: "'f floats \<Rightarrow> int \<Rightarrow> data_survey chain \<Rightarrow>
    ('f survey_computed option \<times> data_survey chain) option" where
  "take_survey fl before c =
    Option.bind (both_ends c) (\<lambda>ends.
      let duration = (case ends of None \<Rightarrow> before | Some (new, lst) \<Rightarrow> uint (su_time lst - su_time new))
      in if 900 \<le> duration then
           Option.bind ends (\<lambda>(new, lst).
             map_option (\<lambda>c'. (Some (survey_item fl new lst duration), c')) (pop_head c))
         else Some (None, c))"

section \<open>Ordered lists\<close>

text \<open>The first node of a later second and the node before it.\<close>

partial_function (option) find_later :: "('v \<Rightarrow> time) \<Rightarrow> 'v heap \<Rightarrow> u32 \<Rightarrow> nat option \<Rightarrow> nat option \<Rightarrow>
    (nat option \<times> nat option) option" where
  "find_later ts h sec pre ptr =
    (case ptr of
       None \<Rightarrow> Some (pre, None)
     | Some a \<Rightarrow>
        (case h a of
           None \<Rightarrow> None
         | Some n \<Rightarrow>
            if sec < fst (ts (nval n)) then Some (pre, ptr)
            else find_later ts h sec ptr (nnext n)))"

definition insert_between :: "nat option \<Rightarrow> nat option \<Rightarrow> nat \<Rightarrow> 'v \<Rightarrow> 'v chain \<Rightarrow> 'v chain option" where
  "insert_between pre ptr a v c =
    (let h = (ch_heap c)(a \<mapsto> \<lparr>nval = v, nnext = None\<rparr>)
     in case pre of
          None \<Rightarrow> Some (c\<lparr>ch_heap := h\<rparr>)
        | Some p \<Rightarrow>
            map_option (\<lambda>n. c\<lparr>ch_heap := h(p \<mapsto> n\<lparr>nnext := Some a\<rparr>, a \<mapsto> \<lparr>nval = v, nnext = ptr\<rparr>)\<rparr>) (h p))"

text \<open>
  A new item goes behind the last one unless it is earlier; then it goes before the first item of
  a later second, or nowhere if that is the head.
\<close>

definition insert_computed :: "('v \<Rightarrow> time) \<Rightarrow> allocator \<Rightarrow> 'v \<Rightarrow> 'v chain \<Rightarrow> 'v chain option" where
  "insert_computed ts alloc v c =
    (if ch_head c = None then chain_append (alloc \<circ> dom) v c
     else
       Option.bind (ch_tail c) (\<lambda>l.
       Option.bind (ch_heap c l) (\<lambda>n.
       if not_later (ts (nval n)) (ts v) then chain_append (alloc \<circ> dom) v c
       else
         Option.bind (find_later ts (ch_heap c) (fst (ts v)) None (ch_head c)) (\<lambda>(pre, ptr).
           insert_between pre ptr (alloc (dom (ch_heap c))) v c))))"

definition insert_some :: "('v \<Rightarrow> time) \<Rightarrow> allocator \<Rightarrow> 'v option \<Rightarrow> 'v chain \<Rightarrow> 'v chain option" where
  "insert_some ts alloc v c = (case v of None \<Rightarrow> Some c | Some v \<Rightarrow> insert_computed ts alloc v c)"

section \<open>States at a time\<close>

text \<open>
  The first item that is not before a time, and the last item before it that is older than ten
  seconds.
\<close>

partial_function (option) find_state :: "('v \<Rightarrow> time) \<Rightarrow> 'v heap \<Rightarrow> time \<Rightarrow> nat option \<Rightarrow> nat option \<Rightarrow>
    ('v option \<times> nat option) option" where
  "find_state ts h t p del =
    (case p of
       None \<Rightarrow> Some (None, del)
     | Some a \<Rightarrow>
        (case h a of
           None \<Rightarrow> None
         | Some n \<Rightarrow>
            if not_later t (ts (nval n)) then Some (Some (nval n), del)
            else find_state ts h t (nnext n) (if 10 < fst t - fst (ts (nval n)) then p else del)))"

partial_function (option) free_before :: "'v heap \<Rightarrow> nat option \<Rightarrow> nat option \<Rightarrow> 'v heap option" where
  "free_before h p stop =
    (if p = stop then Some h
     else
       (case p of
          None \<Rightarrow> None
        | Some a \<Rightarrow> (case h a of None \<Rightarrow> None | Some n \<Rightarrow> free_before (h(a := None)) (nnext n) stop)))"

definition prune :: "nat option \<Rightarrow> 'v chain \<Rightarrow> 'v chain option" where
  "prune del c =
    (if del = None then Some c
     else map_option (\<lambda>h. c\<lparr>ch_heap := h, ch_head := del\<rparr>) (free_before (ch_heap c) (ch_head c) del))"

text \<open>What the variable holds after the search; without a hit it is what it held before.\<close>

definition state_at :: "('v \<Rightarrow> time) \<Rightarrow> time \<Rightarrow> 'v \<Rightarrow> 'v chain \<Rightarrow> ('v \<times> 'v chain) option" where
  "state_at ts t junk c =
    Option.bind (find_state ts (ch_heap c) t (ch_head c) None) (\<lambda>(found, del).
      map_option (\<lambda>c'. (case found of None \<Rightarrow> junk | Some v \<Rightarrow> v, c')) (prune del c))"

type_synonym 'f states = "'f queue_computed \<times> 'f queue_computed \<times> 'f survey_computed"

text \<open>The states at a time, unless one of the lists is empty.\<close>

definition states_at :: "time \<Rightarrow> 'f states \<Rightarrow> 'f stats \<Rightarrow> ('f states option \<times> 'f stats) option" where
  "states_at t junk st =
    (case junk of (junk_3, junk_f, junk_s) \<Rightarrow>
       if ch_head (queue_p_3 st) = None \<or> ch_head (survey_p st) = None \<or> ch_head (queue_p_f st) = None
       then Some (None, st)
       else
         Option.bind (state_at qc_time t junk_3 (queue_p_3 st)) (\<lambda>(q3, c3).
         Option.bind (state_at qc_time t junk_f (queue_p_f st)) (\<lambda>(qf, cf).
         map_option (\<lambda>(s, cs). (Some (q3, qf, s), st\<lparr>queue_p_3 := c3, queue_p_f := cf, survey_p := cs\<rparr>))
           (state_at sc_time t junk_s (survey_p st)))))"

definition station_count :: "'f iw_station chain \<Rightarrow> u32 option" where
  "station_count c =
    (case ch_head c of None \<Rightarrow> Some 0 | Some a \<Rightarrow> map_option (\<lambda>n. is_count (nval n)) (ch_heap c a))"

definition print_line :: "bool \<Rightarrow> 'f states \<Rightarrow> 'f stats \<Rightarrow> 'f stats option" where
  "print_line drp states st =
    (case states of (q3, qf, s) \<Rightarrow>
       Option.bind (neighbour_count (exp.neibour_lists st)) (\<lambda>neibours.
       map_option (\<lambda>stations. st\<lparr>fretrans := fretrans st @
             [\<lparr>sl_drop = drp, sl_drop_count = drop_count st, sl_neibours = neibours,
               sl_stations = stations, sl_survey = s, sl_queue_3 = q3, sl_queue_f = qf\<rparr>],
           write_count := (if write_count st + 1 > 50000 then 0 else write_count st + 1)\<rparr>)
         (station_count (station_lists st))))"

section \<open>Segments\<close>

text \<open>The number of segments that wait, as the code computes it.\<close>

definition waiting :: "nat \<Rightarrow> nat \<Rightarrow> nat" where
  "waiting head tail = (if tail < head then head - tail else if tail + THUNDRED < head then 1 else 0)"

definition seconds_after :: "time \<Rightarrow> time \<Rightarrow> u32" where
  "seconds_after t u = (fst t - fst u) + (snd t - snd u) * 1000000"

partial_function (option) skip_segments :: "time list \<Rightarrow> nat \<Rightarrow> time \<Rightarrow> nat \<Rightarrow> nat \<Rightarrow> (nat \<times> nat) option" where
  "skip_segments seen head t tail amount =
    (if seconds_after (seen ! tail) t <s 0 \<and> 0 < amount
     then let tail' = (tail + 1) mod THUNDRED
          in skip_segments seen head t tail' (waiting head tail')
     else Some (tail, amount))"

text \<open>The earlier one of the two times.\<close>

definition earlier_state :: "'f states \<Rightarrow> time" where
  "earlier_state states =
    (case states of (q3, qf, s) \<Rightarrow>
       if sc_sec s > qc_sec q3 then qc_time q3
       else if sc_sec s = qc_sec q3 then (if sc_usec s > qc_usec q3 then qc_time q3 else sc_time s)
       else sc_time s)"

definition report_segment :: "bool \<Rightarrow> 'f states \<Rightarrow> nat \<Rightarrow> 'f stats \<Rightarrow> (nat \<times> 'f stats) option" where
  "report_segment drp states amount st =
    (case states of (q3, qf, s) \<Rightarrow>
       if sc_sec s \<noteq> 0 \<and> qc_sec q3 \<noteq> 0 then
         Option.bind (skip_segments (winsize_times st) (winsize_head st) (earlier_state states)
             (winsize_tail st) amount) (\<lambda>(tail, amount').
         map_option (\<lambda>st'. (amount', st')) (print_line drp states (st\<lparr>winsize_tail := tail\<rparr>)))
       else Some (amount, st))"

text \<open>The seconds of the last items, which the two lists have whenever this is called.\<close>

definition before_last_states :: "time \<Rightarrow> 'f stats \<Rightarrow> bool option" where
  "before_last_states t st =
    Option.bind (ch_tail (queue_p_3 st)) (\<lambda>a.
    Option.bind (ch_heap (queue_p_3 st) a) (\<lambda>q.
    if fst t < qc_sec (nval q) then
      Option.bind (ch_tail (survey_p st)) (\<lambda>b.
      map_option (\<lambda>s. fst t < sc_sec (nval s)) (ch_heap (survey_p st) b))
    else Some False))"

text \<open>The loop over the segments; the result has the time that was looked at last.\<close>

partial_function (option) segments_loop :: "bool \<Rightarrow> 'f states \<Rightarrow> time \<Rightarrow> nat \<Rightarrow> 'f stats \<Rightarrow> (time \<times> 'f stats) option" where
  "segments_loop drp junk time_tp amount st =
    (if amount = 0 then Some (time_tp, st)
     else
       let t = winsize_times st ! winsize_tail st
       in Option.bind (before_last_states t st) (\<lambda>before.
          if \<not> before then Some (t, st)
          else
            let st1 = st\<lparr>winsize_tail := (winsize_tail st + 1) mod THUNDRED\<rparr>
            in if fst t = 0 then segments_loop drp junk t (amount - 1) st1
               else
                 Option.bind (states_at t junk st1) (\<lambda>(states, st2).
                 case states of
                   None \<Rightarrow> segments_loop drp junk t (amount - 1) st2
                 | Some states \<Rightarrow>
                     Option.bind (report_segment drp states (amount - 1) st2) (\<lambda>(amount', st3).
                       segments_loop drp junk t amount' st3))))"

section \<open>A round\<close>

definition next_retrans :: "'f stats \<Rightarrow> (time \<times> bool \<times> 'f stats) option" where
  "next_retrans st =
    (if retrans_tail st < retrans_head (seqs st) then
       let t = retrans_times (seqs st) ! retrans_tail st
       in map_option (\<lambda>before.
            if before then (t, True, st\<lparr>retrans_tail := (retrans_tail st + 1) mod THUNDRED\<rparr>)
            else ((0, 0), False, st)) (before_last_states t st)
     else Some ((0, 0), False, st))"

definition report_time :: "'f states \<Rightarrow> time \<Rightarrow> bool \<Rightarrow> 'f stats \<Rightarrow> 'f stats option" where
  "report_time junk t drp st =
    (if fst t = 0 then Some st
     else
       Option.bind (states_at t junk st) (\<lambda>(states, st1).
       case states of
         None \<Rightarrow> Some st1
       | Some (q3, qf, s) \<Rightarrow>
           if sc_sec s \<noteq> 0 \<and> qc_sec q3 \<noteq> 0 then print_line drp (q3, qf, s) st1 else Some st1))"

definition collect :: "'f floats \<Rightarrow> allocator \<Rightarrow> 'f stats \<Rightarrow> 'f stats option" where
  "collect fl alloc st =
    Option.bind (take_queue fl 0 (queue_list_3 st)) (\<lambda>(item3, l3, d3).
    Option.bind (insert_some qc_time alloc item3 (queue_p_3 st)) (\<lambda>c3.
    Option.bind (take_queue fl d3 (queue_list_f st)) (\<lambda>(itemf, lf, df).
    Option.bind (insert_some qc_time alloc itemf (queue_p_f st)) (\<lambda>cf.
    Option.bind (take_survey fl df (survey_list st)) (\<lambda>(items, ls).
    map_option (\<lambda>cs. st\<lparr>queue_list_3 := l3, queue_p_3 := c3, queue_list_f := lf, queue_p_f := cf,
        survey_list := ls, survey_p := cs\<rparr>)
      (insert_some sc_time alloc items (survey_p st)))))))"

definition format_data :: "'f floats \<Rightarrow> allocator \<Rightarrow> 'f states \<Rightarrow> 'f stats \<Rightarrow> 'f stats option" where
  "format_data fl alloc junk st =
    Option.bind (collect fl alloc st) (\<lambda>st1.
    if ch_tail (survey_p st1) = None \<or> ch_tail (queue_p_3 st1) = None then Some st1
    else
      Option.bind (next_retrans st1) (\<lambda>(t, drp, st2).
      if fst t = 0 then
        Option.bind (segments_loop drp junk t (waiting (winsize_head st2) (winsize_tail st2)) st2)
          (\<lambda>(t', st3). report_time junk t' drp st3)
      else report_time junk t drp st2))"

section \<open>Lists with a last item that is not at their end\<close>

text \<open>
  The pointer to the last item is not moved when an item of the same second is put behind it, so a
  list consists of the items up to the pointer and of those behind it, which the next item at the
  end cuts off.
\<close>

definition ordered_rep :: "('v \<Rightarrow> time) \<Rightarrow> 'v chain \<Rightarrow> (nat \<times> 'v) list \<Rightarrow> (nat \<times> 'v) list \<Rightarrow> bool" where
  "ordered_rep ts c ys zs \<longleftrightarrow> lseg (ch_heap c) (ch_head c) (ys @ zs) \<and> distinct (map fst (ys @ zs)) \<and>
     ch_tail c = last_ptr ys \<and> finite (dom (ch_heap c)) \<and> (ys = [] \<longrightarrow> zs = []) \<and>
     sorted (map (\<lambda>x. fst (ts (snd x))) (ys @ zs)) \<and>
     (\<forall>z\<in>set zs. fst (ts (snd z)) = fst (ts (snd (last ys))))"

text \<open>Where a new item goes.\<close>

definition place :: "('v \<Rightarrow> time) \<Rightarrow> 'v \<Rightarrow> 'v list \<times> 'v list \<Rightarrow> 'v list \<times> 'v list" where
  "place ts v l = (case l of (ys, zs) \<Rightarrow>
     if ys = [] then ([v], [])
     else if not_later (ts (last ys)) (ts v) then (ys @ [v], [])
     else if fst (ts v) = fst (ts (last ys)) then (ys, zs @ [v])
     else
       let us = takeWhile (\<lambda>x. fst (ts x) \<le> fst (ts v)) ys
       in if us = [] then (ys, zs) else (us @ [v] @ drop (length us) ys, zs))"

lemma lseg_prefix:
  "lseg h p (us @ (l, w) # zs) \<Longrightarrow> \<forall>b\<in>fst ` set us. h' b = h b \<Longrightarrow> h' l = Some \<lparr>nval = w, nnext = q\<rparr> \<Longrightarrow>
   lseg h' q vs \<Longrightarrow> lseg h' p (us @ (l, w) # vs)"
proof (induction us arbitrary: p)
  case Nil
  then show ?case by auto
next
  case (Cons u us)
  obtain b z where u: "u = (b, z)" by (cases u)
  with Cons.prems obtain r where "p = Some b" "h b = Some \<lparr>nval = z, nnext = r\<rparr>" "lseg h r (us @ (l, w) # zs)"
    by auto
  with Cons u show ?case by auto
qed

lemma lseg_tail: "lseg h p (us @ vs) \<Longrightarrow> lseg h (first_ptr vs) vs"
proof (induction us arbitrary: p)
  case Nil
  then show ?case using lseg_first [of h p vs] by simp
qed auto

text \<open>A node between two others.\<close>

lemma lseg_insert:
  assumes l: "lseg h p (us @ (l, w) # vs)" "distinct (map fst (us @ (l, w) # vs))"
    and a: "a \<notin> fst ` set (us @ (l, w) # vs)"
  shows "lseg (h(l \<mapsto> \<lparr>nval = w, nnext = Some a\<rparr>, a \<mapsto> \<lparr>nval = v, nnext = first_ptr vs\<rparr>)) p (us @ (l, w) # (a, v) # vs)"
proof (rule lseg_prefix [OF l(1)])
  let ?h = "h(l \<mapsto> \<lparr>nval = w, nnext = Some a\<rparr>, a \<mapsto> \<lparr>nval = v, nnext = first_ptr vs\<rparr>)"
  show "\<forall>b\<in>fst ` set us. ?h b = h b" using l(2) a by auto
  show "?h l = Some \<lparr>nval = w, nnext = Some a\<rparr>" using a by auto
  have "lseg h (first_ptr vs) vs" using lseg_tail [of h p "us @ [(l, w)]" vs] l(1) by simp
  moreover have "l \<notin> fst ` set vs" "a \<notin> fst ` set vs" using l(2) a by auto
  ultimately have "lseg ?h (first_ptr vs) vs" by (simp del: fun_upd_apply)
  then show "lseg ?h (Some a) ((a, v) # vs)" by simp
qed

lemma find_later_list:
  "lseg h p xs \<Longrightarrow>
   find_later ts h sec pre p =
     (let us = takeWhile (\<lambda>x. fst (ts (snd x)) \<le> sec) xs
      in Some (if us = [] then pre else last_ptr us, first_ptr (drop (length us) xs)))"
proof (induction xs arbitrary: p pre)
  case Nil
  then show ?case by (subst find_later.simps) simp
next
  case (Cons x xs)
  obtain a v where x: "x = (a, v)" by (cases x)
  with Cons.prems obtain q where q: "p = Some a" "h a = Some \<lparr>nval = v, nnext = q\<rparr>" "lseg h q xs" by auto
  show ?case
  proof (cases "sec < fst (ts v)")
    case True
    with x q show ?thesis by (subst find_later.simps) (simp add: not_le [symmetric])
  next
    case False
    let ?us = "takeWhile (\<lambda>x. fst (ts (snd x)) \<le> sec) xs"
    have "find_later ts h sec pre p = find_later ts h sec p q"
      using False q by (subst find_later.simps) simp
    also have "\<dots> = Some (if ?us = [] then p else last_ptr ?us, first_ptr (drop (length ?us) xs))"
      using Cons.IH [OF q(3)] by (simp add: Let_def)
    finally show ?thesis using False x q(1) by (cases ?us) (auto simp: Let_def last_ptr_def not_less)
  qed
qed

lemma sorted_takeWhile:
  fixes f :: "'a \<Rightarrow> 'b :: linorder"
  assumes "sorted (map f xs)"
  shows "x \<in> set (drop (length (takeWhile (\<lambda>x. f x \<le> m) xs)) xs) \<Longrightarrow> m < f x"
  using assms by (induction xs) (auto split: if_splits)

lemma takeWhile_all_but:
  "\<not> P (last ys) \<Longrightarrow> ys \<noteq> [] \<Longrightarrow> takeWhile P (ys @ zs) = takeWhile P ys"
  by (metis append_butlast_last_id last_in_set takeWhile_append1)

lemma insert_between_rep:
  assumes l: "lseg (ch_heap c) (ch_head c) (us @ (l, w) # vs)" "distinct (map fst (us @ (l, w) # vs))"
    and a: "a \<notin> fst ` set (us @ (l, w) # vs)"
  shows "\<exists>c'. insert_between (Some l) (first_ptr vs) a v c = Some c' \<and>
    lseg (ch_heap c') (ch_head c') (us @ (l, w) # (a, v) # vs) \<and> ch_tail c' = ch_tail c \<and>
    (finite (dom (ch_heap c)) \<longrightarrow> finite (dom (ch_heap c')))"
proof -
  have "ch_heap c l = Some \<lparr>nval = w, nnext = first_ptr vs\<rparr>" by (rule lseg_read [OF l(1)])
  moreover have "l \<noteq> a" using a by auto
  ultimately have "insert_between (Some l) (first_ptr vs) a v c =
      Some (c\<lparr>ch_heap := (ch_heap c)(l \<mapsto> \<lparr>nval = w, nnext = Some a\<rparr>, a \<mapsto> \<lparr>nval = v, nnext = first_ptr vs\<rparr>)\<rparr>)"
    by (auto simp: insert_between_def Let_def fun_upd_twist)
  with lseg_insert [OF l a, of v] show ?thesis by simp
qed

lemma append_cut:
  assumes l: "lseg (ch_heap c) (ch_head c) (us @ (l, w) # zs)" "distinct (map fst (us @ (l, w) # zs))"
    and t: "ch_tail c = Some l" and a: "alloc (ch_heap c) \<notin> dom (ch_heap c)"
  shows "\<exists>c'. chain_append alloc v c = Some c' \<and>
    lseg (ch_heap c') (ch_head c') (us @ [(l, w), (alloc (ch_heap c), v)]) \<and>
    ch_tail c' = Some (alloc (ch_heap c)) \<and> (finite (dom (ch_heap c)) \<longrightarrow> finite (dom (ch_heap c')))"
proof -
  let ?a = "alloc (ch_heap c)"
  let ?h = "(ch_heap c)(?a \<mapsto> \<lparr>nval = v, nnext = None\<rparr>, l \<mapsto> \<lparr>nval = w, nnext = Some ?a\<rparr>)"
  have out: "?a \<notin> fst ` set (us @ (l, w) # zs)" using lseg_dom [OF l(1)] a by fastforce
  have "ch_heap c l = Some \<lparr>nval = w, nnext = first_ptr zs\<rparr>" by (rule lseg_read [OF l(1)])
  moreover have "l \<noteq> ?a" using out by auto
  moreover have "ch_head c \<noteq> None" using l(1) by (cases us) auto
  ultimately have "chain_append alloc v c = Some (c\<lparr>ch_heap := ?h, ch_tail := Some ?a\<rparr>)"
    using t by (auto simp: chain_append_def Let_def)
  moreover have "lseg ?h (ch_head c) (us @ (l, w) # [(?a, v)])"
    by (rule lseg_prefix [OF l(1)]) (use l(2) out in force)+
  ultimately show ?thesis by simp
qed

lemma map_takeWhile_snd: "map snd (takeWhile (\<lambda>x. P (snd x)) xs) = takeWhile P (map snd xs)"
  by (simp add: takeWhile_map comp_def)

lemma ordered_repD:
  assumes "ordered_rep ts c ys zs"
  shows "lseg (ch_heap c) (ch_head c) (ys @ zs)" "distinct (map fst (ys @ zs))" "ch_tail c = last_ptr ys"
    "finite (dom (ch_heap c))" "ys = [] \<Longrightarrow> zs = []" "sorted (map (\<lambda>x. fst (ts (snd x))) (ys @ zs))"
    "\<forall>z\<in>set zs. fst (ts (snd z)) = fst (ts (snd (last ys)))"
  using assms by (auto simp: ordered_rep_def)

lemma ordered_fresh:
  "ordered_rep ts c ys zs \<Longrightarrow> a \<notin> dom (ch_heap c) \<Longrightarrow> a \<notin> fst ` set (ys @ zs)"
  using lseg_dom [OF ordered_repD(1)] by fastforce

lemma ordered_last:
  "ordered_rep ts c (us @ [(e, w)]) zs \<Longrightarrow> x \<in> set us \<union> set zs \<Longrightarrow> fst (ts (snd x)) \<le> fst (ts w)"
  by (auto simp: ordered_rep_def sorted_append)

lemma insert_at_end:
  assumes rep: "ordered_rep ts c (us @ [(e, w)]) zs" and a: "alloc (dom (ch_heap c)) \<notin> dom (ch_heap c)"
    and t: "not_later (ts w) (ts v)"
  shows "\<exists>c' a. chain_append (alloc \<circ> dom) v c = Some c' \<and> ordered_rep ts c' (us @ [(e, w), (a, v)]) []"
proof -
  note l = ordered_repD [OF rep] and out = ordered_fresh [OF rep a]
  let ?a = "alloc (dom (ch_heap c))"
  obtain c' where "chain_append (alloc \<circ> dom) v c = Some c'"
    "lseg (ch_heap c') (ch_head c') (us @ [(e, w), (?a, v)])" "ch_tail c' = Some ?a" "finite (dom (ch_heap c'))"
    using append_cut [of c us e w zs "alloc \<circ> dom" v] l(1-4) a by auto
  moreover have "distinct (map fst (us @ [(e, w), (?a, v)]))" using l(2) out by auto
  moreover have "sorted (map (\<lambda>x. fst (ts (snd x))) (us @ [(e, w), (?a, v)]))"
    using l(6) t ordered_last [OF rep] by (fastforce simp: sorted_append not_later_def)
  ultimately show ?thesis by (intro exI [of _ c'] exI [of _ ?a]) (simp add: ordered_rep_def)
qed

lemma insert_behind_last:
  assumes rep: "ordered_rep ts c (us @ [(e, w)]) zs" and a: "a \<notin> dom (ch_heap c)"
    and t: "fst (ts v) = fst (ts w)"
  shows "\<exists>c'. Option.bind (find_later ts (ch_heap c) (fst (ts v)) None (ch_head c))
      (\<lambda>(pre, ptr). insert_between pre ptr a v c) = Some c' \<and>
    ordered_rep ts c' (us @ [(e, w)]) (zs @ [(a, v)])"
proof -
  note l = ordered_repD [OF rep] and out = ordered_fresh [OF rep a]
  let ?xs = "(us @ [(e, w)]) @ zs"
  obtain vs k u where vs: "?xs = vs @ [(k, u)]" by (cases ?xs rule: rev_cases) auto
  have tw: "takeWhile (\<lambda>x. fst (ts (snd x)) \<le> fst (ts v)) ?xs = ?xs"
    using ordered_last [OF rep] t by (intro takeWhile_eq_all_conv [THEN iffD2]) auto
  have "find_later ts (ch_heap c) (fst (ts v)) None (ch_head c) = Some (Some k, None)"
    using find_later_list [OF l(1), of ts "fst (ts v)" None] unfolding tw Let_def unfolding vs by simp
  moreover obtain c' where "insert_between (Some k) (first_ptr []) a v c = Some c'"
    "lseg (ch_heap c') (ch_head c') (vs @ [(k, u), (a, v)])" "ch_tail c' = ch_tail c" "finite (dom (ch_heap c'))"
    using insert_between_rep [of c vs k u "[]" a v] l(1,2,4) out unfolding vs by auto
  moreover have "vs @ [(k, u), (a, v)] = (us @ [(e, w)]) @ zs @ [(a, v)]" using vs by simp
  moreover have "distinct (map fst ((us @ [(e, w)]) @ zs @ [(a, v)]))" using l(2) out by auto
  moreover have "sorted (map (\<lambda>x. fst (ts (snd x))) ((us @ [(e, w)]) @ zs @ [(a, v)]))"
    using l(6) t ordered_last [OF rep] by (fastforce simp: sorted_append)
  ultimately show ?thesis using l(3,7) t by (intro exI [of _ c']) (auto simp: ordered_rep_def)
qed

lemma insert_before_later:
  assumes rep: "ordered_rep ts c ys zs" and a: "a \<notin> dom (ch_heap c)"
    and ys: "ys \<noteq> []" and t: "fst (ts v) < fst (ts (snd (last ys)))"
    and us: "us = takeWhile (\<lambda>x. fst (ts (snd x)) \<le> fst (ts v)) ys"
  shows "\<exists>c'. Option.bind (find_later ts (ch_heap c) (fst (ts v)) None (ch_head c))
      (\<lambda>(pre, ptr). insert_between pre ptr a v c) = Some c' \<and>
    ordered_rep ts c' (if us = [] then ys else us @ (a, v) # drop (length us) ys) zs"
proof -
  note l = ordered_repD [OF rep] and out = ordered_fresh [OF rep a]
  have tw: "takeWhile (\<lambda>x. fst (ts (snd x)) \<le> fst (ts v)) (ys @ zs) = us"
    unfolding us by (rule takeWhile_all_but) (use t ys in auto)
  have split: "ys = us @ drop (length us) ys" unfolding us by (metis takeWhile_dropWhile_id dropWhile_eq_drop)
  have ne: "drop (length us) ys \<noteq> []"
  proof
    assume "drop (length us) ys = []"
    with split have "us = ys" by simp
    then show False using us ys t takeWhile_eq_all_conv [of "\<lambda>x. fst (ts (snd x)) \<le> fst (ts v)" ys]
      last_in_set [OF ys] by (metis not_le)
  qed
  have find: "find_later ts (ch_heap c) (fst (ts v)) None (ch_head c) =
      Some (if us = [] then None else last_ptr us, first_ptr (drop (length us) ys @ zs))"
    using find_later_list [OF l(1), of ts "fst (ts v)" None] unfolding tw Let_def by (subst (asm) split) simp
  show ?thesis
  proof (cases us rule: rev_cases)
    case Nil
    with find l out show ?thesis
      by (auto simp: insert_between_def Let_def ordered_rep_def)
  next
    case (snoc vs x)
    obtain k u where x: "x = (k, u)" by (cases x)
    let ?ds = "drop (length us) ys"
    have all: "ys @ zs = vs @ (k, u) # ?ds @ zs" using split snoc x by simp
    obtain c' where c': "insert_between (Some k) (first_ptr (?ds @ zs)) a v c = Some c'"
      "lseg (ch_heap c') (ch_head c') (vs @ (k, u) # (a, v) # ?ds @ zs)" "ch_tail c' = ch_tail c"
      "finite (dom (ch_heap c'))"
      using insert_between_rep [of c vs k u "?ds @ zs" a v] l(1,2,4) out unfolding all by auto
    have new: "(us @ (a, v) # ?ds) @ zs = vs @ (k, u) # (a, v) # ?ds @ zs" using snoc x by simp
    have "distinct (map fst ((us @ (a, v) # ?ds) @ zs))" using l(2) out all unfolding new by auto
    moreover have "sorted (map (\<lambda>x. fst (ts (snd x))) ((us @ (a, v) # ?ds) @ zs))"
    proof -
      have "drop (length us) (ys @ zs) = ?ds @ zs" using length_takeWhile_le [of _ ys] us by simp
      moreover have "\<forall>x\<in>set (drop (length us) (ys @ zs)). fst (ts v) < fst (ts (snd x))"
        using sorted_takeWhile [OF l(6), where m = "fst (ts v)"] unfolding tw by blast
      ultimately have "\<forall>x\<in>set (?ds @ zs). fst (ts v) \<le> fst (ts (snd x))" by (simp add: less_imp_le)
      moreover have "\<forall>x\<in>set us. fst (ts (snd x)) \<le> fst (ts v)" using us by (auto dest: set_takeWhileD)
      moreover have "sorted (map (\<lambda>x. fst (ts (snd x))) (us @ ?ds @ zs))"
        using l(6) unfolding append_assoc [symmetric] split [symmetric] .
      ultimately show ?thesis by (auto simp: sorted_append)
    qed
    moreover have "last (us @ (a, v) # ?ds) = last ys" "last_ptr (us @ (a, v) # ?ds) = last_ptr ys"
      using split ne by (metis last_appendR last_ConsR list.distinct(1) last_ptr_def append_is_Nil_conv)+
    ultimately have "ordered_rep ts c' (us @ (a, v) # ?ds) zs"
      using c' l(3,7) unfolding ordered_rep_def new by (auto simp: new)
    with find c' snoc x show ?thesis by simp
  qed
qed

fun insert_all :: "('v \<Rightarrow> time) \<Rightarrow> allocator \<Rightarrow> 'v list \<Rightarrow> 'v chain \<Rightarrow> 'v chain option" where
  "insert_all ts alloc [] c = Some c"
| "insert_all ts alloc (v # vs) c = Option.bind (insert_computed ts alloc v c) (insert_all ts alloc vs)"

lemma insert_computed_empty:
  assumes "ordered_rep ts c [] zs"
  shows "\<exists>c' a. insert_computed ts alloc v c = Some c' \<and> ordered_rep ts c' [(a, v)] []"
proof -
  let ?a = "alloc (dom (ch_heap c))"
  from ordered_repD [OF assms] have "ch_head c = None" "ch_tail c = None" "zs = []" "finite (dom (ch_heap c))" by auto
  then show ?thesis
    by (intro exI [of _ "\<lparr>ch_heap = (ch_heap c)(?a \<mapsto> \<lparr>nval = v, nnext = None\<rparr>), ch_head = Some ?a, ch_tail = Some ?a\<rparr>"]
        exI [of _ ?a]) (simp add: insert_computed_def chain_append_def ordered_rep_def Let_def)
qed

lemma insert_computed_rep:
  assumes rep: "ordered_rep ts c ys zs" and fresh: "\<And>A. finite A \<Longrightarrow> alloc A \<notin> A"
  shows "\<exists>c' ys' zs'. insert_computed ts alloc v c = Some c' \<and> ordered_rep ts c' ys' zs' \<and>
    (map snd ys', map snd zs') = place ts v (map snd ys, map snd zs)"
proof (cases ys rule: rev_cases)
  case Nil
  with insert_computed_empty [of ts c zs alloc v] rep show ?thesis by (fastforce simp: place_def)
next
  case (snoc us x)
  let ?a = "alloc (dom (ch_heap c))"
  note l = ordered_repD [OF rep]
  have a: "?a \<notin> dom (ch_heap c)" by (rule fresh [OF l(4)])
  obtain e w where x: "x = (e, w)" by (cases x)
  have head: "ch_head c \<noteq> None" using l(1) snoc x by (cases us) auto
  have tail: "ch_tail c = Some e" "ch_heap c e = Some \<lparr>nval = w, nnext = first_ptr zs\<rparr>"
    using l(1,3) snoc x lseg_read [of "ch_heap c" "ch_head c" us e w zs] by simp_all
  have step: "insert_computed ts alloc v c =
      (if not_later (ts w) (ts v) then chain_append (alloc \<circ> dom) v c
       else Option.bind (find_later ts (ch_heap c) (fst (ts v)) None (ch_head c))
         (\<lambda>(pre, ptr). insert_between pre ptr ?a v c))"
    unfolding insert_computed_def if_not_P [OF head] tail(1) bind.bind_lunit tail(2) by simp
  have rep': "ordered_rep ts c (us @ [(e, w)]) zs" using rep snoc x by simp
  consider "not_later (ts w) (ts v)" | "\<not> not_later (ts w) (ts v)" "fst (ts v) = fst (ts w)"
    | "\<not> not_later (ts w) (ts v)" "fst (ts v) < fst (ts w)"
    by (cases rule: linorder_cases [of "fst (ts v)" "fst (ts w)"]) (auto simp: not_later_def)
  then show ?thesis
  proof cases
    case 1
    with insert_at_end [OF rep', of alloc, OF a] step snoc x show ?thesis
      by (fastforce simp: place_def)
  next
    case 2
    with insert_behind_last [OF rep' a, of v] step snoc x show ?thesis
      by (fastforce simp: place_def)
  next
    case 3
    let ?us = "takeWhile (\<lambda>x. fst (ts (snd x)) \<le> fst (ts v)) ys"
    obtain c' where "insert_computed ts alloc v c = Some c'"
      "ordered_rep ts c' (if ?us = [] then ys else ?us @ (?a, v) # drop (length ?us) ys) zs"
      using insert_before_later [OF rep a _ _ refl, of v] 3 step snoc x by auto
    moreover have "(map snd (if ?us = [] then ys else ?us @ (?a, v) # drop (length ?us) ys), map snd zs) =
        place ts v (map snd ys, map snd zs)"
    proof -
      have "takeWhile (\<lambda>x. fst (ts x) \<le> fst (ts v)) (map snd ys) = map snd ?us"
        by (simp add: takeWhile_map comp_def)
      moreover have "map snd ys \<noteq> []" "last (map snd ys) = w" using snoc x by simp_all
      ultimately show ?thesis using 3 unfolding place_def by (simp add: Let_def drop_map)
    qed
    ultimately show ?thesis by blast
  qed
qed

text \<open>
  C10.  Ordered lists: with any allocator, any sequence of items is inserted without touching null or
  freed memory, and the items stay ordered by seconds and are where \<open>place\<close> puts them.
\<close>

theorem insert_all_refines:
  assumes fresh: "\<And>A. finite A \<Longrightarrow> alloc A \<notin> A"
  shows "\<exists>c ys zs. insert_all ts alloc vs chain_init = Some c \<and> ordered_rep ts c ys zs \<and>
    (map snd ys, map snd zs) = fold (place ts) vs ([], [])"
proof -
  have "ordered_rep ts c ys zs \<Longrightarrow> \<exists>c' ys' zs'. insert_all ts alloc vs c = Some c' \<and> ordered_rep ts c' ys' zs' \<and>
    (map snd ys', map snd zs') = fold (place ts) vs (map snd ys, map snd zs)" for c ys zs
  proof (induction vs arbitrary: c ys zs)
    case Nil
    then show ?case by auto
  next
    case (Cons v vs)
    from insert_computed_rep [OF Cons.prems fresh, of v] obtain c1 ys1 zs1 where
      s: "insert_computed ts alloc v c = Some c1" "ordered_rep ts c1 ys1 zs1"
      "(map snd ys1, map snd zs1) = place ts v (map snd ys, map snd zs)" by blast
    from Cons.IH [OF s(2)] s(1,3) show ?case by simp
  qed
  from this [of chain_init "[]" "[]"] show ?thesis by (simp add: ordered_rep_def chain_init_def)
qed

text \<open>An item that arrives late in the second of the last item is lost with the next item.\<close>

lemma late_item_lost:
  assumes "fst (ts v) = fst (ts w)" "snd (ts v) < snd (ts w)" "not_later (ts w) (ts u)"
  shows "fold (place ts) [w, v, u] ([], []) = ([w, u], [])"
proof -
  have "\<not> not_later (ts w) (ts v)" using assms(1,2) by (simp add: not_later_def)
  then have "place ts v ([w], []) = ([w], [v])" using assms(1) by (simp add: place_def)
  moreover have "place ts u ([w], [v]) = ([w, u], [])" using assms(3) by (simp add: place_def)
  ultimately show ?thesis by (simp add: place_def [of _ w])
qed

section \<open>Lookup\<close>

lemma find_state_list:
  "lseg h p xs \<Longrightarrow>
   find_state ts h t p del =
     (let olds = filter (\<lambda>x. 10 < fst t - fst (ts (snd x))) (takeWhile (\<lambda>x. \<not> not_later t (ts (snd x))) xs)
      in Some (map_option snd (find (\<lambda>x. not_later t (ts (snd x))) xs), if olds = [] then del else last_ptr olds))"
proof (induction xs arbitrary: p del)
  case Nil
  then show ?case by (subst find_state.simps) simp
next
  case (Cons x xs)
  obtain a v where x: "x = (a, v)" by (cases x)
  with Cons.prems obtain q where q: "p = Some a" "h a = Some \<lparr>nval = v, nnext = q\<rparr>" "lseg h q xs" by auto
  with Cons.IH [of q] x show ?case
    by (subst find_state.simps) (auto simp: Let_def last_ptr_def)
qed

lemma free_before_list:
  "lseg h p (us @ (d, w) # vs) \<Longrightarrow> distinct (map fst (us @ (d, w) # vs)) \<Longrightarrow>
   \<exists>h'. free_before h p (Some d) = Some h' \<and> lseg h' (Some d) ((d, w) # vs) \<and> (finite (dom h) \<longrightarrow> finite (dom h'))"
proof (induction us arbitrary: h p)
  case Nil
  then show ?case by (subst free_before.simps) auto
next
  case (Cons u us)
  obtain b z where u: "u = (b, z)" by (cases u)
  with Cons.prems obtain q where q: "p = Some b" "h b = Some \<lparr>nval = z, nnext = q\<rparr>" "lseg h q (us @ (d, w) # vs)"
    by auto
  have b: "b \<notin> fst ` set (us @ (d, w) # vs)" "b \<noteq> d" using Cons.prems(2) u by auto
  have "lseg (h(b := None)) q (us @ (d, w) # vs)" using b(1) q(3) by (simp del: fun_upd_apply)
  with Cons.IH [of "h(b := None)" q] Cons.prems(2) q b(2) show ?case
    by (subst free_before.simps) (auto simp del: fun_upd_apply)
qed

lemma state_at_list:
  assumes "lseg (ch_heap c) (ch_head c) xs" "distinct (map fst xs)"
  shows "\<exists>c'. state_at ts t junk c =
    Some (case find (\<lambda>v. not_later t (ts v)) (map snd xs) of None \<Rightarrow> junk | Some v \<Rightarrow> v, c')"
proof -
  let ?olds = "filter (\<lambda>x. 10 < fst t - fst (ts (snd x))) (takeWhile (\<lambda>x. \<not> not_later t (ts (snd x))) xs)"
  have found: "map_option snd (find (\<lambda>x. not_later t (ts (snd x))) xs) = find (\<lambda>v. not_later t (ts v)) (map snd xs)"
    by (induction xs) auto
  have "\<exists>c'. prune (if ?olds = [] then None else last_ptr ?olds) c = Some c'"
  proof (cases "?olds = []")
    case True
    then show ?thesis by (simp add: prune_def)
  next
    case False
    then have "last ?olds \<in> set xs" using last_in_set [OF False] by (auto dest: set_takeWhileD)
    then obtain us vs where "xs = us @ last ?olds # vs" by (meson split_list)
    with free_before_list [of "ch_heap c" "ch_head c" us "fst (last ?olds)" "snd (last ?olds)" vs] assms False
    show ?thesis by (auto simp: prune_def last_ptr_def)
  qed
  then show ?thesis using find_state_list [OF assms(1), of ts t None] found
    by (auto simp: state_at_def Let_def)
qed

lemma found_later:
  assumes "ordered_rep ts c ys zs" "ys \<noteq> []" "fst t < fst (ts (snd (last ys)))"
  shows "\<exists>v. find (\<lambda>v. not_later t (ts v)) (map snd (ys @ zs)) = Some v"
proof -
  have "snd (last ys) \<in> set (map snd (ys @ zs))" using assms(2) by simp
  moreover have "not_later t (ts (snd (last ys)))" using assms(3) by (simp add: not_later_def)
  ultimately have "find (\<lambda>v. not_later t (ts v)) (map snd (ys @ zs)) \<noteq> None" unfolding find_None_iff by blast
  then show ?thesis by blast
qed

lemma before_last_D:
  assumes rep: "ordered_rep qc_time (queue_p_3 st) y3 z3" "ordered_rep sc_time (survey_p st) ys zs"
    and b: "before_last_states t st = Some True"
  shows "y3 \<noteq> [] \<and> ys \<noteq> [] \<and> fst t < qc_sec (snd (last y3)) \<and> fst t < sc_sec (snd (last ys))"
proof -
  note l3 = ordered_repD [OF rep(1)] and ls = ordered_repD [OF rep(2)]
  have y3: "y3 \<noteq> []" using b l3(3) by (auto simp: before_last_states_def)
  then obtain us e w where u: "y3 = us @ [(e, w)]" by (metis rev_exhaust surj_pair)
  have "ch_tail (queue_p_3 st) = Some e" "ch_heap (queue_p_3 st) e = Some \<lparr>nval = w, nnext = first_ptr z3\<rparr>"
    using l3(1,3) u lseg_read [of _ _ us e w z3] by simp_all
  with b have w: "fst t < qc_sec w" and s: "Option.bind (ch_tail (survey_p st)) (\<lambda>b.
      map_option (\<lambda>s. fst t < sc_sec (nval s)) (ch_heap (survey_p st) b)) = Some True"
    by (auto simp: before_last_states_def split: if_splits)
  have ys: "ys \<noteq> []" using s ls(3) by auto
  then obtain vs d x where v: "ys = vs @ [(d, x)]" by (metis rev_exhaust surj_pair)
  have "ch_tail (survey_p st) = Some d" "ch_heap (survey_p st) d = Some \<lparr>nval = x, nnext = first_ptr zs\<rparr>"
    using ls(1,3) v lseg_read [of _ _ vs d x zs] by simp_all
  with s have "fst t < sc_sec x" by simp
  with w u v show ?thesis by simp
qed

text \<open>
  C11.  Lookup: at a time before the last items of the two main lists, the states reported for
  the queue and the channel are the first ones not before that time.  The state of all queues is so too
  if there is one, and the uninitialised variable otherwise.
\<close>

theorem states_after_time:
  assumes "ordered_rep qc_time (queue_p_3 st) y3 z3" "ordered_rep sc_time (survey_p st) ys zs"
    and "ordered_rep qc_time (queue_p_f st) yf zf" "yf \<noteq> []"
    and "before_last_states t st = Some True"
  shows "\<exists>q3 s st'. find (\<lambda>q. not_later t (qc_time q)) (map snd (y3 @ z3)) = Some q3 \<and>
    find (\<lambda>s. not_later t (sc_time s)) (map snd (ys @ zs)) = Some s \<and>
    states_at t (junk_3, junk_f, junk_s) st =
      Some (Some (q3, (case find (\<lambda>q. not_later t (qc_time q)) (map snd (yf @ zf)) of
        None \<Rightarrow> junk_f | Some qf \<Rightarrow> qf), s), st')"
proof -
  note l3 = ordered_repD [OF assms(1)] and ls = ordered_repD [OF assms(2)] and lf = ordered_repD [OF assms(3)]
  note b = before_last_D [OF assms(1,2,5)]
  obtain q3 s where q: "find (\<lambda>q. not_later t (qc_time q)) (map snd (y3 @ z3)) = Some q3"
    "find (\<lambda>s. not_later t (sc_time s)) (map snd (ys @ zs)) = Some s"
  proof -
    have "fst t < fst (qc_time (snd (last y3)))" "fst t < fst (sc_time (snd (last ys)))"
      using b by (simp_all add: qc_time_def sc_time_def)
    with found_later [OF assms(1)] found_later [OF assms(2)] b that show ?thesis by blast
  qed
  have heads: "ch_head (queue_p_3 st) \<noteq> None" "ch_head (survey_p st) \<noteq> None" "ch_head (queue_p_f st) \<noteq> None"
    using l3(1) ls(1) lf(1) b assms(4) by (auto simp: neq_Nil_conv)
  obtain c3 cf cs where "state_at qc_time t junk_3 (queue_p_3 st) = Some (q3, c3)"
    "state_at qc_time t junk_f (queue_p_f st) = Some (case find (\<lambda>q. not_later t (qc_time q)) (map snd (yf @ zf)) of
        None \<Rightarrow> junk_f | Some qf \<Rightarrow> qf, cf)"
    "state_at sc_time t junk_s (survey_p st) = Some (s, cs)"
    using state_at_list [OF l3(1,2), of qc_time t junk_3] state_at_list [OF ls(1,2), of sc_time t junk_s]
      state_at_list [OF lf(1,2), of qc_time t junk_f] q by auto
  with q heads show ?thesis by (auto simp: states_at_def)
qed

text \<open>
  Null dereference: when the measurements of the first queue span 0.9 seconds and there is none
  of all queues yet, the round dereferences null.
\<close>

theorem statistics_null_dereference:
  assumes "both_ends (queue_list_3 st) = Some (Some (q, q'))" "900 \<le> queue_duration q q'"
    and "ch_head (queue_list_f st) = None"
  shows "format_data fl alloc junk st = None"
proof -
  have "take_queue fl (queue_duration q q') (queue_list_f st) = None"
    using assms(2,3) by (simp add: take_queue_def both_ends_def)
  moreover have "take_queue fl 0 (queue_list_3 st) = map_option (\<lambda>c'. (Some (queue_item fl q q'
      (queue_duration q q')), c', queue_duration q q')) (pop_head (queue_list_3 st))"
    using assms(1,2) by (simp add: take_queue_def Let_def)
  ultimately have "collect fl alloc st = None"
    by (cases "pop_head (queue_list_3 st)") (simp_all add: collect_def bind_eq_None_conv)
  then show ?thesis by (simp add: format_data_def)
qed

text \<open>
  After the head of the ring has wrapped around, none of the waiting segments is reported until it
  has passed the tail again.
\<close>

lemma wrapped_ring_waits: "head \<le> tail \<Longrightarrow> waiting head tail = 0"
  by (simp add: waiting_def)

lemma wrapped_round_silent:
  assumes "collect fl alloc st = Some st1" "retrans_head (seqs st1) \<le> retrans_tail st1"
    and "winsize_head st1 \<le> winsize_tail st1"
  shows "format_data fl alloc junk st = Some st1"
  using assms wrapped_ring_waits [OF assms(3)] segments_loop.simps [of False junk "(0, 0)" 0 st1]
  by (simp add: format_data_def next_retrans_def report_time_def)

section \<open>Examples\<close>

definition stats_init :: "'f stats" where
  "stats_init = exp.extend exp_init (stats.fields chain_init chain_init chain_init 0 0 [] 0)"

definition single :: "'v \<Rightarrow> 'v chain" where
  "single v = \<lparr>ch_heap = [0 \<mapsto> \<lparr>nval = v, nnext = None\<rparr>], ch_head = Some 0, ch_tail = Some 0\<rparr>"

lemma single_rep: "ordered_rep ts (single v) [(0, v)] []"
  by (simp add: ordered_rep_def single_def)

definition some_queue :: "u32 \<Rightarrow> data_queue" where
  "some_queue sec = data_queue_of_bytes (replicate 48 0)\<lparr>qu_sec := sec\<rparr>"

definition some_item :: "u32 \<Rightarrow> int queue_computed" where
  "some_item sec = queue_item some_floats (some_queue sec) (some_queue sec) 1"

definition some_channel :: "u32 \<Rightarrow> int survey_computed" where
  "some_channel sec = \<lparr>sc_sec = sec, sc_usec = 0, sc_time_busy = 0, sc_time_ext_busy = 0, sc_time_rx = 0,
     sc_time_tx = 0, sc_time_scan = 0, sc_noise = 0\<rparr>"

definition some_stats :: "int stats" where
  "some_stats = stats_init\<lparr>queue_p_3 := single (some_item 9), queue_p_f := single (some_item 8),
     survey_p := single (some_channel 7)\<rparr>"

definition long_list :: "data_queue chain" where
  "long_list = \<lparr>ch_heap = [0 \<mapsto> \<lparr>nval = some_queue 0, nnext = Some 1\<rparr>, 1 \<mapsto> \<lparr>nval = some_queue 1, nnext = None\<rparr>],
     ch_head = Some 0, ch_tail = Some 1\<rparr>"

lemma stats_init_list_f: "queue_list_f (stats_init :: 'f stats) = chain_init"
  by (simp add: stats_init_def exp_init_def exp.defs stats.defs)

theorem insert_all_refines_witness:
  "\<exists>c ys zs. insert_all id next_free [(5, 7), (5, 3), (2, 0), (6, 1)] chain_init = Some c \<and> ordered_rep id c ys zs \<and>
    (map snd ys, map snd zs) = fold (place id) [(5, 7), (5, 3), (2, 0), (6, 1)] ([], [])"
  by (rule insert_all_refines [OF next_free])

theorem states_after_time_witness:
  "\<exists>q3 s st'. find (\<lambda>q. not_later (5, 0) (qc_time q)) (map snd ([(0 :: nat, some_item 9)] @ [])) = Some q3 \<and>
    find (\<lambda>s. not_later (5, 0) (sc_time s)) (map snd ([(0 :: nat, some_channel 7)] @ [])) = Some s \<and>
    states_at (5, 0) (some_item 0, some_item 0, some_channel 0) some_stats =
      Some (Some (q3, (case find (\<lambda>q. not_later (5, 0) (qc_time q)) (map snd ([(0 :: nat, some_item 8)] @ [])) of
        None \<Rightarrow> some_item 0 | Some qf \<Rightarrow> qf), s), st')"
proof (rule states_after_time)
  show "ordered_rep qc_time (queue_p_3 some_stats) [(0, some_item 9)] []"
    "ordered_rep sc_time (survey_p some_stats) [(0, some_channel 7)] []"
    "ordered_rep qc_time (queue_p_f some_stats) [(0, some_item 8)] []"
    by (simp_all add: some_stats_def single_rep)
  show "before_last_states (5, 0) some_stats = Some True"
    by (simp add: before_last_states_def some_stats_def single_def some_item_def some_queue_def queue_item_def some_channel_def)
qed simp

theorem statistics_null_dereference_witness:
  "format_data some_floats next_free (some_item 0, some_item 0, some_channel 0)
     (stats_init\<lparr>queue_list_3 := long_list\<rparr>) = None"
  by (rule statistics_null_dereference [where q = "some_queue 0" and q' = "some_queue 1"])
    (simp_all add: both_ends_def long_list_def queue_duration_def some_queue_def c_div_def stats_init_list_f chain_init_def)

end
