(* ===== verification/Exp_Threads.thy ===== *)
theory Exp_Threads
  imports Exp_Receiver Msg_Pool
begin

text \<open>
  The threads of \<^verbatim>\<open>EXP/receive.c\<close> that get messages to the decoders: \<^verbatim>\<open>receive\<close> and \<^verbatim>\<open>receive1\<close>
  store the datagrams of two ports in one pool, and \<^verbatim>\<open>g_mes_tn_process\<close> takes them out and processes
  them.  The pool is that of Msg_Pool.  A step is a critical section or a read of the shared indices
  outside of one; a datagram the decoders would not survive is not a step.  The statistics thread is
  in Format_Data and takes no part here.
\<close>

section \<open>Steps\<close>

datatype port = P6666 | P6667

datatype exp_pc = Exp_Outer | Exp_Test | Exp_Fetch | Exp_Measure | Exp_Process

record 'f exp_threads =
  et_pool :: pool
  et_ulen :: nat
  et_pc :: exp_pc
  et_buffer :: bytes
  et_state :: "'f exp"

definition exp_threads_init :: "'f exp_threads" where
  "exp_threads_init = \<lparr>et_pool = pool_init, et_ulen = 0, et_pc = Exp_Outer, et_buffer = replicate SEND_SIZE 0,
     et_state = exp_init\<rparr>"

datatype exp_event = Arrived port bytes | Fetched bytes | Processed | Quiet

inductive exp_step :: "'f floats \<Rightarrow> allocator \<Rightarrow> 'f exp_threads \<Rightarrow> exp_event \<Rightarrow> 'f exp_threads \<Rightarrow> bool"
  for fl :: "'f floats" and alloc :: allocator
where
  receive: "m \<noteq> [] \<Longrightarrow> length m \<le> SEND_SIZE \<Longrightarrow>
    exp_step fl alloc s (Arrived P6666 m) (s\<lparr>et_pool := pool_store (pad_message m) (et_pool s)\<rparr>)"
| receive1: "m \<noteq> [] \<Longrightarrow> length m \<le> SEND_SIZE \<Longrightarrow>
    exp_step fl alloc s (Arrived P6667 m) (s\<lparr>et_pool := pool_store (pad_message m) (et_pool s)\<rparr>)"
| outer: "et_pc s = Exp_Outer \<Longrightarrow>
    exp_step fl alloc s Quiet (s\<lparr>et_ulen := pool_used (et_pool s), et_pc := Exp_Test\<rparr>)"
| test_length: "et_pc s = Exp_Test \<Longrightarrow>
    exp_step fl alloc s Quiet (s\<lparr>et_pc := (if et_ulen s > 1 then Exp_Fetch else Exp_Outer)\<rparr>)"
| fetch_message: "et_pc s = Exp_Fetch \<Longrightarrow> pool_fetch (et_pool s) = (m, p) \<Longrightarrow>
    exp_step fl alloc s (Fetched m) (s\<lparr>et_pool := p, et_buffer := m, et_pc := Exp_Measure\<rparr>)"
| measure_again: "et_pc s = Exp_Measure \<Longrightarrow>
    exp_step fl alloc s Quiet (s\<lparr>et_ulen := pool_used (et_pool s), et_pc := Exp_Process\<rparr>)"
| process_message: "et_pc s = Exp_Process \<Longrightarrow> exp_process fl alloc (et_buffer s) 1024 (et_state s) = Some d \<Longrightarrow>
    exp_step fl alloc s Processed (s\<lparr>et_state := d, et_pc := Exp_Test\<rparr>)"

inductive_cases exp_stepE: "exp_step fl alloc s e s'"

inductive exp_threads_run :: "'f floats \<Rightarrow> allocator \<Rightarrow> exp_event list \<Rightarrow> 'f exp_threads \<Rightarrow> bool"
  for fl :: "'f floats" and alloc :: allocator
where
  threads_start: "exp_threads_run fl alloc [] exp_threads_init"
| threads_step: "exp_threads_run fl alloc tr s \<Longrightarrow> exp_step fl alloc s e s' \<Longrightarrow> exp_threads_run fl alloc (tr @ [e]) s'"

section \<open>What was received and processed\<close>

fun arrivals :: "exp_event list \<Rightarrow> (port \<times> bytes) list" where
  "arrivals [] = []"
| "arrivals (Arrived p m # tr) = (p, m) # arrivals tr"
| "arrivals (_ # tr) = arrivals tr"

definition fetches :: "exp_event list \<Rightarrow> nat" where
  "fetches tr = length (filter (\<lambda>e. case e of Fetched m \<Rightarrow> True | _ \<Rightarrow> False) tr)"

definition processed :: "exp_event list \<Rightarrow> nat" where
  "processed tr = length (filter (\<lambda>e. e = Processed) tr)"

definition of_port :: "port \<Rightarrow> (port \<times> bytes) list \<Rightarrow> bytes list" where
  "of_port p ms = map snd (filter (\<lambda>x. fst x = p) ms)"

fun exp_process_all :: "'f floats \<Rightarrow> allocator \<Rightarrow> bytes list \<Rightarrow> 'f exp \<Rightarrow> 'f exp option" where
  "exp_process_all fl alloc [] st = Some st"
| "exp_process_all fl alloc (m # ms) st =
    Option.bind (exp_process fl alloc (pad_message m) 1024 st) (exp_process_all fl alloc ms)"

text \<open>Never more than 9999 messages are in the pool.\<close>

definition no_exp_overrun :: "exp_event list \<Rightarrow> bool" where
  "no_exp_overrun tr \<longleftrightarrow>
     (\<forall>k\<le>length tr. length (arrivals (take k tr)) \<le> fetches (take k tr) + (SLOTS - 1))"

lemma arrivals_append [simp]: "arrivals (xs @ ys) = arrivals xs @ arrivals ys"
  by (induction xs rule: arrivals.induct) auto

lemma fetches_append [simp]: "fetches (xs @ ys) = fetches xs + fetches ys"
  by (simp add: fetches_def)

lemma processed_append [simp]: "processed (xs @ ys) = processed xs + processed ys"
  by (simp add: processed_def)

lemma count_one [simp]:
  "fetches [Fetched m] = 1" "fetches [Arrived p m] = 0" "fetches [Quiet] = 0" "fetches [Processed] = 0"
  "processed [Processed] = 1" "processed [Fetched m] = 0" "processed [Arrived p m] = 0" "processed [Quiet] = 0"
  by (simp_all add: fetches_def processed_def)

lemma no_exp_overrun_snoc:
  "no_exp_overrun (tr @ [e]) \<Longrightarrow>
   no_exp_overrun tr \<and> length (arrivals (tr @ [e])) \<le> fetches (tr @ [e]) + (SLOTS - 1)"
  unfolding no_exp_overrun_def
proof (intro conjI allI impI)
  assume all: "\<forall>k\<le>length (tr @ [e]). length (arrivals (take k (tr @ [e]))) \<le> fetches (take k (tr @ [e])) + (SLOTS - 1)"
  show "length (arrivals (take k tr)) \<le> fetches (take k tr) + (SLOTS - 1)" if "k \<le> length tr" for k
    using all [rule_format, of k] that by simp
  show "length (arrivals (tr @ [e])) \<le> fetches (tr @ [e]) + (SLOTS - 1)"
    using all [rule_format, of "length (tr @ [e])"] by simp
qed

lemma exp_process_all_append:
  "exp_process_all fl alloc (xs @ ys) st = Option.bind (exp_process_all fl alloc xs st) (exp_process_all fl alloc ys)"
  by (induction xs arbitrary: st) (auto simp: Option.bind_eq_Some_conv split: Option.bind_splits)

section \<open>The invariant\<close>

text \<open>
  The pool holds the messages that arrived and were not fetched; the consumer that goes for a message
  finds one; the decoders have the messages that were fetched, but for one that is in the local buffer.
\<close>

definition exp_sim :: "'f floats \<Rightarrow> allocator \<Rightarrow> exp_event list \<Rightarrow> 'f exp_threads \<Rightarrow> bool" where
  "exp_sim fl alloc tr s \<longleftrightarrow>
     (let ms = map snd (arrivals tr); k = processed tr; q = map pad_message (drop (fetches tr) ms)
      in pool_rep (et_pool s) q \<and>
         (et_pc s = Exp_Fetch \<longrightarrow> q \<noteq> []) \<and> (et_pc s \<in> {Exp_Process, Exp_Test} \<longrightarrow> 1 < et_ulen s \<longrightarrow> q \<noteq> []) \<and>
         fetches tr \<le> length ms \<and>
         (if et_pc s \<in> {Exp_Measure, Exp_Process}
          then fetches tr = Suc k \<and> et_buffer s = pad_message (ms ! k) else fetches tr = k) \<and>
         exp_process_all fl alloc (take k ms) exp_init = Some (et_state s))"

lemma exp_sim_init: "exp_sim fl alloc [] exp_threads_init"
  by (simp add: exp_sim_def exp_threads_init_def pool_rep_init fetches_def processed_def)

lemma exp_sim_arrival:
  assumes "exp_sim fl alloc tr s" "length m \<le> SEND_SIZE"
    and "length (arrivals (tr @ [Arrived p m])) \<le> fetches (tr @ [Arrived p m]) + (SLOTS - 1)"
  shows "exp_sim fl alloc (tr @ [Arrived p m]) (s\<lparr>et_pool := pool_store (pad_message m) (et_pool s)\<rparr>)"
proof -
  let ?q = "map pad_message (drop (fetches tr) (map snd (arrivals tr)))"
  from assms(1) have r: "pool_rep (et_pool s) ?q" and f: "fetches tr \<le> length (arrivals tr)" "processed tr \<le> fetches tr"
    by (auto simp: exp_sim_def Let_def split: if_splits)
  from assms(3) f have "length ?q < SLOTS - 1" by simp
  with pool_rep_put [OF r length_pad_message [OF assms(2)]]
  have "pool_rep (pool_store (pad_message m) (et_pool s)) (?q @ [pad_message m])" by simp
  with assms(1) f show ?thesis by (auto simp: exp_sim_def Let_def nth_append split: if_splits)
qed

lemma exp_sim_fetch:
  assumes "exp_sim fl alloc tr s" "et_pc s = Exp_Fetch" "pool_fetch (et_pool s) = (m, p)"
  shows "exp_sim fl alloc (tr @ [Fetched m]) (s\<lparr>et_pool := p, et_buffer := m, et_pc := Exp_Measure\<rparr>)"
proof -
  let ?ms = "map snd (arrivals tr)" and ?k = "processed tr"
  from assms(1,2) have k: "fetches tr = ?k" and r: "pool_rep (et_pool s) (map pad_message (drop ?k ?ms))"
    and ne: "?k < length ?ms" by (auto simp: exp_sim_def Let_def)
  then have "map pad_message (drop ?k ?ms) = pad_message (?ms ! ?k) # map pad_message (drop (Suc ?k) ?ms)"
    by (metis Cons_nth_drop_Suc list.simps(9))
  with r pool_rep_get [of "et_pool s" "pad_message (?ms ! ?k)" "map pad_message (drop (Suc ?k) ?ms)"] assms(3)
  have "m = pad_message (?ms ! ?k)" "pool_rep p (map pad_message (drop (Suc ?k) ?ms))" by simp_all
  with assms(1,2) k ne show ?thesis by (simp add: exp_sim_def Let_def)
qed

lemma exp_sim_process:
  assumes "exp_sim fl alloc tr s" "et_pc s = Exp_Process" "exp_process fl alloc (et_buffer s) 1024 (et_state s) = Some d"
  shows "exp_sim fl alloc (tr @ [Processed]) (s\<lparr>et_state := d, et_pc := Exp_Test\<rparr>)"
proof -
  let ?ms = "map snd (arrivals tr)" and ?k = "processed tr"
  from assms(1,2) have k: "fetches tr = Suc ?k" "et_buffer s = pad_message (?ms ! ?k)" "?k < length ?ms"
    and d: "exp_process_all fl alloc (take ?k ?ms) exp_init = Some (et_state s)" by (auto simp: exp_sim_def Let_def)
  have "exp_process_all fl alloc (take (Suc ?k) ?ms) exp_init = Some d"
    using k assms(3) by (simp only: take_Suc_conv_app_nth exp_process_all_append d) simp
  with assms(1,2) k show ?thesis by (simp add: exp_sim_def Let_def)
qed

lemma exp_sim_step:
  assumes "exp_step fl alloc s e s'" "exp_sim fl alloc tr s"
    and "length (arrivals (tr @ [e])) \<le> fetches (tr @ [e]) + (SLOTS - 1)"
  shows "exp_sim fl alloc (tr @ [e]) s'"
  using assms(1)
proof cases
  case outer
  with assms(2) pool_used_rep show ?thesis by (fastforce simp: exp_sim_def Let_def)
next
  case measure_again
  with assms(2) pool_used_rep show ?thesis by (fastforce simp: exp_sim_def Let_def)
next
  case test_length
  with assms(2) show ?thesis by (auto simp: exp_sim_def Let_def)
qed (use assms(2,3) exp_sim_arrival exp_sim_fetch exp_sim_process in blast)+

lemma exp_sim_run: "exp_threads_run fl alloc tr s \<Longrightarrow> no_exp_overrun tr \<Longrightarrow> exp_sim fl alloc tr s"
proof (induction rule: exp_threads_run.induct)
  case threads_start
  show ?case by (rule exp_sim_init)
next
  case (threads_step tr s e s')
  with no_exp_overrun_snoc [OF threads_step.prems] exp_sim_step show ?case by blast
qed

section \<open>Properties\<close>

text \<open>
  C27.  In every interleaving of the two receiving threads and the processing thread in which no
  more than 9999 messages wait, the decoders have processed, one after the other and from the
  start, the first of the messages that arrived, each padded with zeros; the messages of either
  port were taken in the order they arrived there.
\<close>

theorem decoders_see_both_ports:
  assumes "exp_threads_run fl alloc tr s" "no_exp_overrun tr"
  shows "exp_process_all fl alloc (map snd (take (processed tr) (arrivals tr))) exp_init = Some (et_state s) \<and>
    (\<exists>waiting. of_port p (take (processed tr) (arrivals tr)) @ waiting = of_port p (arrivals tr))"
proof -
  from exp_sim_run [OF assms] have "exp_process_all fl alloc (map snd (take (processed tr) (arrivals tr))) exp_init = Some (et_state s)"
    by (simp add: exp_sim_def Let_def take_map)
  moreover have "of_port p (take (processed tr) (arrivals tr)) @ of_port p (drop (processed tr) (arrivals tr)) =
      of_port p (arrivals tr)"
    by (simp add: of_port_def flip: map_append filter_append)
  ultimately show ?thesis by blast
qed

text \<open>Two datagrams with an unknown tag, one per port; the first has been processed.\<close>

lemma unknown_tag_ignored:
  "exp_process fl alloc (pad_message [0, 9]) 1024 st = Some st"
  by (subst exp_process_def, subst exp_process_from.simps)
    (simp add: pad_message_def SEND_SIZE_def read_block_def exp_dispatch_def reversebytes_uint16t_def)

lemma example_threads_run:
  "\<exists>s. exp_threads_run fl alloc [Arrived P6667 [0, 9], Arrived P6666 [0, 8], Quiet, Quiet, Fetched (pad_message [0, 9]), Quiet, Processed] s"
proof -
  let ?s1 = "exp_threads_init\<lparr>et_pool := pool_store (pad_message [0, 9]) pool_init\<rparr>"
  let ?p2 = "pool_store (pad_message [0, 8]) (pool_store (pad_message [0, 9]) pool_init)"
  let ?s2 = "?s1\<lparr>et_pool := ?p2\<rparr>"
  let ?s3 = "?s2\<lparr>et_ulen := pool_used ?p2, et_pc := Exp_Test\<rparr>"
  let ?s4 = "?s3\<lparr>et_pc := Exp_Fetch\<rparr>"
  let ?s5 = "?s4\<lparr>et_pool := snd (pool_fetch ?p2), et_buffer := pad_message [0, 9], et_pc := Exp_Measure\<rparr>"
  let ?s6 = "?s5\<lparr>et_ulen := pool_used (snd (pool_fetch ?p2)), et_pc := Exp_Process\<rparr>"
  have r: "pool_rep ?p2 ([pad_message [0, 9]] @ [pad_message [0, 8]])"
    using pool_rep_put [OF pool_rep_put [OF pool_rep_init, of "pad_message [0, 9]"], of "pad_message [0, 8]"]
    by (simp add: length_pad_message SEND_SIZE_def SLOTS_def)
  then have f: "pool_fetch ?p2 = (pad_message [0, 9], snd (pool_fetch ?p2))"
    using pool_rep_get [of ?p2 "pad_message [0, 9]"] by (simp add: prod_eq_iff)
  have u: "1 < pool_used ?p2" using pool_used_rep [OF r] by (simp add: SEND_SIZE_def)
  have e1: "exp_step fl alloc exp_threads_init (Arrived P6667 [0, 9]) ?s1"
    using receive1 [of "[0, 9]" fl alloc exp_threads_init] by (simp add: SEND_SIZE_def exp_threads_init_def)
  have e2: "exp_step fl alloc ?s1 (Arrived P6666 [0, 8]) ?s2"
    using receive [of "[0, 8]" fl alloc ?s1] by (simp add: SEND_SIZE_def)
  have e3: "exp_step fl alloc ?s2 Quiet ?s3" using outer [of ?s2 fl alloc] by (simp add: exp_threads_init_def)
  have e4: "exp_step fl alloc ?s3 Quiet ?s4" using test_length [of ?s3 fl alloc] u by simp
  have e5: "exp_step fl alloc ?s4 (Fetched (pad_message [0, 9])) ?s5"
    using fetch_message [of ?s4 "pad_message [0, 9]" "snd (pool_fetch ?p2)" fl alloc] f by simp
  have e6: "exp_step fl alloc ?s5 Quiet ?s6" using measure_again [of ?s5 fl alloc] by simp
  have e7: "exp_step fl alloc ?s6 Processed (?s6\<lparr>et_state := et_state ?s6, et_pc := Exp_Test\<rparr>)"
    by (rule process_message) (simp_all add: unknown_tag_ignored)
  note run = threads_step [OF threads_step [OF threads_step [OF threads_step [OF threads_step [OF threads_step
    [OF threads_step [OF threads_start e1] e2] e3] e4] e5] e6] e7]
  show ?thesis by (rule exI, use run in simp)
qed

theorem decoders_see_both_ports_witness:
  "\<exists>s :: int exp_threads. exp_process_all some_floats next_free [[0, 9]] exp_init = Some (et_state s) \<and>
     (\<exists>waiting. of_port P6666 [(P6667, [0, 9])] @ waiting = [[0, 8]])"
proof -
  let ?tr = "[Arrived P6667 [0, 9], Arrived P6666 [0, 8], Quiet, Quiet, Fetched (pad_message [0, 9]), Quiet, Processed]"
  obtain s where r: "exp_threads_run some_floats next_free ?tr s" using example_threads_run by blast
  have n: "no_exp_overrun ?tr" by (auto simp: no_exp_overrun_def fetches_def take_Cons' SLOTS_def)
  have t: "take (processed ?tr) (arrivals ?tr) = [(P6667, [0, 9])]" "of_port P6666 (arrivals ?tr) = [[0, 8]]"
    by (simp_all add: processed_def of_port_def)
  from decoders_see_both_ports [OF r n, of P6666]
  have "exp_process_all some_floats next_free [[0, 9]] exp_init = Some (et_state s)"
    "\<exists>waiting. of_port P6666 [(P6667, [0, 9])] @ waiting = [[0, 8]]" unfolding t by simp_all
  then show ?thesis by blast
qed

end
