(* ===== verification/Flow_Control.thy ===== *)
theory Flow_Control
  imports Decision_Tree Sendudp Flow_Monitor
begin

text \<open>
  The part of the switch daemon, \<^verbatim>\<open>project/ofproto.c\<close>, that takes a decision tree out of an OpenFlow
  message, asks the reporter over netlink for the state of the access point, its stations and its
  flows, and tells another process about the flows of the stations that the tree decides on.

  The structures are those of Sendudp and Flow_Monitor.  What the kernel answers is a list of
  messages, taken one by one; the layout of a structure in a message is an argument.  The calls of
  \<^verbatim>\<open>socket\<close> and \<^verbatim>\<open>bind\<close> succeed, and \<^verbatim>\<open>sendto\<close> and \<^verbatim>\<open>recvfrom\<close> never return zero.  The type
  \<^verbatim>\<open>float\<close> is a linear order with the operations that are used.
\<close>

section \<open>The tree\<close>

text \<open>Names are numbers here, and zero is the name of a leaf.\<close>

record 'f rawnode =
  rn_father :: int
  rn_itself :: int
  rn_name :: int
  rn_value :: 'f
  rn_class :: int

datatype 'f ctree = Absent | Branch int int 'f int "'f ctree" "'f ctree"

definition set_field_m :: "(string \<Rightarrow> 'f) \<Rightarrow> nat \<Rightarrow> string \<Rightarrow> 'f rawnode \<Rightarrow> 'f rawnode" where
  "set_field_m atof k q r =
    (if k = 0 then r\<lparr>rn_father := atoi q\<rparr>
     else if k = 1 then r\<lparr>rn_itself := atoi q\<rparr>
     else if k = 2 then r\<lparr>rn_name := atoi q\<rparr>
     else if k = 3 then r\<lparr>rn_value := atof q\<rparr>
     else if k = 4 then r\<lparr>rn_class := atoi q\<rparr>
     else r)"

fun set_fields_m :: "(string \<Rightarrow> 'f) \<Rightarrow> nat \<Rightarrow> string list \<Rightarrow> 'f rawnode \<Rightarrow> 'f rawnode" where
  "set_fields_m atof k [] r = r"
| "set_fields_m atof k (q # qs) r = set_fields_m atof (k + 1) qs (set_field_m atof k q r)"

definition parse_node :: "(string \<Rightarrow> 'f::zero) \<Rightarrow> string \<Rightarrow> 'f rawnode" where
  "parse_node atof p =
    set_fields_m atof 0 (tokens CHR '','' p)
      \<lparr>rn_father = 0, rn_itself = 0, rn_name = 0, rn_value = 0, rn_class = 0\<rparr>"

fun find_lchild_m :: "'f rawnode list \<Rightarrow> int \<Rightarrow> 'f rawnode list" where
  "find_lchild_m [] father = []"
| "find_lchild_m (p # ps) father = (if rn_father p = father then p # ps else find_lchild_m ps father)"

fun find_rchild_loop :: "int \<Rightarrow> 'f rawnode list \<Rightarrow> int \<Rightarrow> 'f rawnode list" where
  "find_rchild_loop rchild [] father = []"
| "find_rchild_loop rchild (p # ps) father =
    (if rn_father p = father then
       (if rchild = 1 then p # ps else find_rchild_loop (rchild + 1) ps father)
     else find_rchild_loop rchild ps father)"

definition find_rchild_m :: "'f rawnode list \<Rightarrow> int \<Rightarrow> 'f rawnode list" where
  "find_rchild_m ps father = find_rchild_loop 0 ps father"

lemma length_find_lchild_m: "length (find_lchild_m ps f) \<le> length ps"
  by (induction ps) auto

lemma length_find_rchild_m: "length (find_rchild_m ps f) \<le> length ps"
proof -
  have "length (find_rchild_loop k ps f) \<le> length ps" for k
    by (induction ps arbitrary: k) (auto intro: le_SucI)
  then show ?thesis by (simp add: find_rchild_m_def)
qed

function create_tree_m :: "'f rawnode list \<Rightarrow> 'f ctree" where
  "create_tree_m [] = Absent"
| "create_tree_m (p # ps) =
    (if rn_name p \<noteq> 0
     then Branch (rn_itself p) (rn_name p) (rn_value p) (rn_class p)
       (create_tree_m (find_lchild_m ps (rn_itself p))) (create_tree_m (find_rchild_m ps (rn_itself p)))
     else Branch (rn_itself p) (rn_name p) (rn_value p) (rn_class p) Absent Absent)"
  by pat_completeness auto
termination
  by (relation "measure length")
    (auto simp: less_Suc_eq_le length_find_lchild_m length_find_rchild_m)

text \<open>
  The records are appended to a list that a message before may have left; its end is not known
  then, and null is dereferenced.
\<close>

definition init_linger_m :: "(string \<Rightarrow> 'f::zero) \<Rightarrow> string \<Rightarrow> 'f rawnode list \<Rightarrow> ('f rawnode list \<times> 'f ctree) option" where
  "init_linger_m atof inputtxt node =
    (let ps = map (parse_node atof) (tokens CHR ''|'' inputtxt)
     in if ps = [] then Some (node, create_tree_m node)
        else if node = [] then Some (ps, create_tree_m ps)
        else None)"

fun tree_depth :: "'f ctree \<Rightarrow> int" where
  "tree_depth Absent = -1"
| "tree_depth (Branch i nm v c l r) =
    (let leftdep = (if l \<noteq> Absent then tree_depth l else -1);
         rightdep = (if r \<noteq> Absent then tree_depth r else -1)
     in if leftdep < rightdep then rightdep + 1 else leftdep + 1)"

section \<open>The search\<close>

type_synonym 'f items = "(int \<times> 'f) list"

text \<open>The loop over the values starts behind the first one; a name of -1 ends it.\<close>

fun find_value :: "'f items \<Rightarrow> int \<Rightarrow> 'f option" where
  "find_value [] nm = None"
| "find_value ((n, x) # its) nm =
    (if nm = n then Some x else if n = -1 then None else find_value its nm)"

fun search_loop :: "'f::linorder items \<Rightarrow> bool \<Rightarrow> 'f ctree \<Rightarrow> 'f ctree \<Rightarrow> 'f ctree option" where
  "search_loop its found node_pre Absent =
    (if node_pre = Absent then None else Some (if found then Absent else node_pre))"
| "search_loop its found node_pre (Branch i nm v c l r) =
    (if nm = 0 then
       (if node_pre = Absent then None else Some (if found then Branch i nm v c l r else node_pre))
     else
       (case find_value its nm of
          None \<Rightarrow> Some Absent
        | Some x \<Rightarrow>
            if x \<le> v then search_loop its True (Branch i nm v c l r) l
            else search_loop its True (Branch i nm v c l r) r))"

definition bst_search_m :: "'f::linorder ctree \<Rightarrow> 'f items \<Rightarrow> 'f ctree option" where
  "bst_search_m node value = search_loop (tl value) False node node"

section \<open>The values\<close>

datatype sta_l =
    Noncongestion | Congestion | Time_busy | Time_rx | Time_tx | Noise | Q3bytes | Q3packets | Q3qlen
  | Q3backlog | Q3drops | Q3requeues | Qfbytes | Qfpackets | Qfqlen | Qfbacklog | Qfdrops | Qfrequeues
  | Neibours | Inactive_time | Rx_bytes | Rx_packets | Tx_bytes | Tx_packets | Tx_retries | Tx_failed
  | Signal | Signal_avg | Expected_throughput | Station_count

definition all_sta_l :: "sta_l list" where
  "all_sta_l = [Noncongestion, Congestion, Time_busy, Time_rx, Time_tx, Noise, Q3bytes, Q3packets, Q3qlen,
     Q3backlog, Q3drops, Q3requeues, Qfbytes, Qfpackets, Qfqlen, Qfbacklog, Qfdrops, Qfrequeues,
     Neibours, Inactive_time, Rx_bytes, Rx_packets, Tx_bytes, Tx_packets, Tx_retries, Tx_failed,
     Signal, Signal_avg, Expected_throughput, Station_count]"

fun position :: "'a \<Rightarrow> 'a list \<Rightarrow> nat" where
  "position x [] = 0"
| "position x (y # ys) = (if x = y then 0 else Suc (position x ys))"

definition sta_index :: "sta_l \<Rightarrow> nat" where
  "sta_index s = Suc (position s all_sta_l)"

definition set_value :: "sta_l \<Rightarrow> 'f \<Rightarrow> 'f items \<Rightarrow> 'f items" where
  "set_value s x its = its[sta_index s := (fst (its ! sta_index s), x)]"

definition assign_string :: "sta_l \<Rightarrow> 'f items \<Rightarrow> 'f items" where
  "assign_string s its = its[sta_index s := (int (sta_index s), snd (its ! sta_index s))]"

text \<open>The assignments in their order: where the value goes, the value, and which name is set.\<close>

record 'f conversions =
  scaled :: "int \<Rightarrow> 'f"
  plain :: "int \<Rightarrow> 'f"

definition assignments :: "'f conversions \<Rightarrow> apstates \<Rightarrow> linkstates \<Rightarrow> (sta_l \<times> 'f \<times> sta_l) list" where
  "assignments cv a k = [
     (Congestion, scaled cv (uint (ap_congestion a)), Congestion),
     (Noncongestion, scaled cv (uint (ap_noncongestion a)), Noncongestion),
     (Station_count, plain cv (uint (ap_station_count a)), Station_count),
     (Station_count, plain cv (uint (ap_neibours a)), Neibours),
     (Time_busy, scaled cv (uint (ap_time_busy a)), Time_busy),
     (Time_rx, scaled cv (uint (ap_time_rx a)), Time_rx),
     (Time_tx, scaled cv (uint (ap_time_tx a)), Time_tx),
     (Noise, plain cv (sint (ap_noise a)), Noise),
     (Q3packets, scaled cv (uint (ap_q3packets a)), Q3packets),
     (Q3bytes, scaled cv (uint (ap_q3bytes a)), Q3bytes),
     (Q3qlen, plain cv (uint (ap_q3qlen a)), Q3qlen),
     (Q3backlog, plain cv (uint (ap_q3backlog a)), Q3backlog),
     (Q3drops, plain cv (uint (ap_q3drops a)), Q3drops),
     (Q3requeues, scaled cv (uint (ap_q3requeues a)), Q3requeues),
     (Qfpackets, scaled cv (uint (ap_qfpackets a)), Qfpackets),
     (Qfbytes, scaled cv (uint (ap_qfbytes a)), Qfbytes),
     (Qfqlen, plain cv (uint (ap_qfqlen a)), Qfqlen),
     (Qfbacklog, plain cv (uint (ap_qfbacklog a)), Qfbacklog),
     (Qfdrops, plain cv (uint (ap_qfdrops a)), Qfdrops),
     (Qfrequeues, scaled cv (uint (ap_qfrequeues a)), Qfrequeues),
     (Signal, plain cv (sint (lk_signal k)), Signal),
     (Signal_avg, plain cv (sint (lk_signal_avg k)), Signal_avg),
     (Qfrequeues, scaled cv (uint (lk_inactive_time k)), Inactive_time),
     (Qfrequeues, scaled cv (uint (lk_rx_bytes k)), Rx_bytes),
     (Qfrequeues, scaled cv (uint (lk_rx_packets k)), Rx_packets),
     (Qfrequeues, scaled cv (uint (lk_tx_bytes k)), Tx_bytes),
     (Qfrequeues, scaled cv (uint (lk_tx_packets k)), Tx_packets),
     (Qfrequeues, scaled cv (uint (lk_tx_retries k)), Tx_retries),
     (Qfrequeues, scaled cv (uint (lk_tx_failed k)), Tx_failed),
     (Station_count, plain cv (uint (lk_expected_throughput k)), Expected_throughput)]"

definition fill_fstates :: "'f conversions \<Rightarrow> apstates \<Rightarrow> linkstates \<Rightarrow> 'f items \<Rightarrow> 'f items" where
  "fill_fstates cv a k vals =
    fold (\<lambda>(i, v, s) its. assign_string s (set_value i v its)) (assignments cv a k) vals"

definition destroy_item_list :: "'f::zero items \<Rightarrow> 'f items" where
  "destroy_item_list its = replicate 31 (0, 0) @ drop 31 its"

section \<open>The flows\<close>

record tcp_ss =
  ss_state :: u32
  ss_ip_src :: string
  ss_ip_dst :: string
  ss_src_port :: u16
  ss_dst_port :: u16
  ss_cwnd :: u32

definition strcmp_linger :: "bytes \<Rightarrow> bytes \<Rightarrow> nat" where
  "strcmp_linger s t =
    (if length (filter (\<lambda>(a, b). a = b) (zip (take 6 s) (take 6 t))) = 6 then 0 else 1)"

definition reversebytes_be16t :: "u16 \<Rightarrow> u16" where
  "reversebytes_be16t value = push_bit 8 (value AND 0x00FF) OR drop_bit 8 (value AND 0xFF00)"

text \<open>The text of an address: the bytes of the reversed value in the memory of a big-endian machine.\<close>

definition dotted :: "bytes \<Rightarrow> string" where
  "dotted b = dec_digits (unat (b ! 3)) @ ''.'' @ dec_digits (unat (b ! 2)) @ ''.'' @
     dec_digits (unat (b ! 1)) @ ''.'' @ dec_digits (unat (b ! 0))"

definition address_text :: "u32 \<Rightarrow> string" where
  "address_text ip = dotted (be_bytes 4 (reversebytes_uint32t ip))"

text \<open>The rest of a string from the first of its characters that is in another string.\<close>

definition strpbrk :: "string \<Rightarrow> string \<Rightarrow> string option" where
  "strpbrk s accept = (case dropWhile (\<lambda>c. c \<notin> set accept) s of [] \<Rightarrow> None | t \<Rightarrow> Some t)"

definition tcpinfo :: "tcp_flow \<Rightarrow> tcp_ss" where
  "tcpinfo tmp = \<lparr>ss_state = 0, ss_ip_src = address_text (tf_ip_src tmp), ss_ip_dst = address_text (tf_ip_dst tmp),
     ss_src_port = reversebytes_be16t (tf_sourceaddr tmp), ss_dst_port = reversebytes_be16t (tf_destination tmp),
     ss_cwnd = 0\<rparr>"

text \<open>What is sent to the other process for a flow.\<close>

definition report_flow :: "linkstates \<Rightarrow> tcp_flow \<Rightarrow> tcp_ss list" where
  "report_flow lkst tmp =
    (if tf_packets tmp = 0 then []
     else if strcmp_linger (tf_eth_src tmp) (lk_station lkst) + strcmp_linger (tf_eth_dst tmp) (lk_station lkst) = 1
     then (if strpbrk (address_text (tf_ip_src tmp)) ''192.168.11.'' \<noteq> None then [tcpinfo tmp] else [])
     else [])"

section \<open>The netlink client\<close>

text \<open>
  The socket, the message buffer, the messages to come and what was sent.  A call of \<open>recvfrom\<close> on
  the closed socket leaves the buffer alone; one that waits for ever is None.
\<close>

record client =
  skfd :: bool
  info :: bytes
  replies :: "bytes list"
  sent :: "tcp_ss list"

definition recvfrom :: "client \<Rightarrow> client option" where
  "recvfrom cl =
    (if \<not> skfd cl then Some cl
     else (case replies cl of [] \<Rightarrow> None | m # ms \<Rightarrow> Some (cl\<lparr>info := m, replies := ms\<rparr>)))"

record layout =
  as_apstates :: "bytes \<Rightarrow> apstates"
  as_linkstates :: "bytes \<Rightarrow> linkstates"
  as_tcp_flow :: "bytes \<Rightarrow> tcp_flow"

definition MSG_LEN :: nat where
  "MSG_LEN = 150"

text \<open>The stations, read only when there are fewer than ten.\<close>

fun read_links :: "layout \<Rightarrow> nat \<Rightarrow> client \<Rightarrow> (linkstates list \<times> client) option" where
  "read_links lay 0 cl = Some ([], cl)"
| "read_links lay (Suc n) cl =
    Option.bind (recvfrom (cl\<lparr>info := replicate MSG_LEN 0\<rparr>)) (\<lambda>cl1.
    map_option (\<lambda>(ks, cl2). (as_linkstates lay (info cl1) # ks, cl2)) (read_links lay n cl1))"

fun read_flows :: "layout \<Rightarrow> nat \<Rightarrow> linkstates \<Rightarrow> client \<Rightarrow> client option" where
  "read_flows lay 0 lkst cl = Some cl"
| "read_flows lay (Suc n) lkst cl =
    Option.bind (recvfrom cl) (\<lambda>cl1.
      read_flows lay n lkst (cl1\<lparr>sent := sent cl1 @ report_flow lkst (as_tcp_flow lay (info cl1))\<rparr>))"

text \<open>One station; the array of values is cleared afterwards.\<close>

definition handle_link :: "layout \<Rightarrow> 'f conversions \<Rightarrow> 'f::{linorder,zero} ctree \<Rightarrow> apstates \<Rightarrow> linkstates \<Rightarrow>
    'f items \<times> client \<Rightarrow> ('f items \<times> client) option" where
  "handle_link lay cv tnode apst lkst = (\<lambda>(vals, cl).
    let its = fill_fstates cv apst lkst vals
    in Option.bind (bst_search_m tnode its) (\<lambda>search_results.
       if search_results = Absent then Some (destroy_item_list its, cl)
       else map_option (\<lambda>cl1. (destroy_item_list its, cl1\<lparr>skfd := False\<rparr>)) (read_flows lay 10 lkst cl)))"

fun handle_links :: "layout \<Rightarrow> 'f conversions \<Rightarrow> 'f::{linorder,zero} ctree \<Rightarrow> apstates \<Rightarrow> linkstates list \<Rightarrow>
    'f items \<times> client \<Rightarrow> ('f items \<times> client) option" where
  "handle_links lay cv tnode apst [] s = Some s"
| "handle_links lay cv tnode apst (k # ks) s =
    Option.bind (handle_link lay cv tnode apst k s) (handle_links lay cv tnode apst ks)"

text \<open>The eight bytes of \<^verbatim>\<open>nonedata\<close>.\<close>

definition nonedata :: bytes where
  "nonedata = map (\<lambda>c. of_nat (of_char c)) ''nonedata''"

definition main_linger :: "layout \<Rightarrow> 'f conversions \<Rightarrow> 'f::{linorder,zero} items \<Rightarrow> 'f ctree \<Rightarrow> client \<Rightarrow> client option" where
  "main_linger lay cv vals tnode cl =
    Option.bind (recvfrom (cl\<lparr>skfd := True, info := replicate MSG_LEN 0\<rparr>)) (\<lambda>cl1.
    if take 8 (info cl1) = nonedata then Some cl1
    else
      let apst = as_apstates lay (info cl1);
          n = unat (ap_station_count apst)
      in Option.bind (if n < 10 then read_links lay n cl1 else Some ([], cl1)) (\<lambda>(ks, cl2).
         map_option snd (handle_links lay cv tnode apst ks (vals, cl2))))"

text \<open>
  The text of the message: from its sixteenth byte to the first zero or its end.  The tree is gone
  afterwards.
\<close>

definition handle_msg :: "layout \<Rightarrow> 'f conversions \<Rightarrow> (string \<Rightarrow> 'f) \<Rightarrow> 'f::{linorder,zero} items \<Rightarrow> bytes \<Rightarrow>
    'f rawnode list \<times> client \<Rightarrow> ('f rawnode list \<times> client) option" where
  "handle_msg lay cv atof vals msg = (\<lambda>(node, cl).
    if length msg < 16 then None
    else
      Option.bind (init_linger_m atof (map (\<lambda>b. char_of (unat b)) (takeWhile (\<lambda>b. b \<noteq> 0) (drop 16 msg))) node) (\<lambda>(node', tnode).
      map_option (\<lambda>cl'. ([], cl')) (main_linger lay cv vals tnode cl)))"

section \<open>Lemmas\<close>

lemma position_nth: "x \<in> set xs \<Longrightarrow> position x xs < length xs \<and> xs ! position x xs = x"
  by (induction xs) auto

lemma sta_member: "s \<in> set all_sta_l"
  by (cases s) (simp_all add: all_sta_l_def)

lemma sta_index_range: "0 < sta_index s" "sta_index s < 31"
  using position_nth [OF sta_member, of s] by (simp_all add: sta_index_def, simp add: all_sta_l_def)

lemma sta_index_eq [simp]: "sta_index s = sta_index t \<longleftrightarrow> s = t"
proof
  assume "sta_index s = sta_index t"
  then have "all_sta_l ! position s all_sta_l = all_sta_l ! position t all_sta_l" by (simp add: sta_index_def)
  then show "s = t" by (simp add: position_nth [OF sta_member])
qed simp

definition assign :: "sta_l \<times> 'f \<times> sta_l \<Rightarrow> 'f items \<Rightarrow> 'f items" where
  "assign = (\<lambda>(i, v, s) its. assign_string s (set_value i v its))"

lemma fill_assign: "fill_fstates cv a k = fold assign (assignments cv a k)"
  by (simp add: fill_fstates_def assign_def fun_eq_iff)

lemma length_assign [simp]: "length (assign x its) = length its"
  by (cases x) (simp add: assign_def assign_string_def set_value_def)

lemma length_fold_assign [simp]: "length (fold assign xs its) = length its"
  by (induction xs arbitrary: its) simp_all

lemma assign_value:
  assumes "length its = 31"
  shows "snd (assign (i, v, s) its ! sta_index t) = (if i = t then v else snd (its ! sta_index t))"
  using assms sta_index_range [of t]
  by (cases "s = t") (simp_all add: assign_def assign_string_def set_value_def nth_list_update)

lemma assign_name:
  assumes "length its = 31"
  shows "fst (assign (i, v, s) its ! sta_index t) = (if s = t then int (sta_index t) else fst (its ! sta_index t))"
  using assms sta_index_range [of t]
  by (cases "i = t") (simp_all add: assign_def assign_string_def set_value_def nth_list_update)

text \<open>The value and the name of an entry are those of the last assignment to it.\<close>

lemma fold_assign:
  "length its = 31 \<Longrightarrow>
   snd (fold assign xs its ! sta_index t) =
     (case find (\<lambda>x. fst x = t) (rev xs) of None \<Rightarrow> snd (its ! sta_index t) | Some (i, v, s) \<Rightarrow> v) \<and>
   fst (fold assign xs its ! sta_index t) =
     (if t \<in> set (map (snd \<circ> snd) xs) then int (sta_index t) else fst (its ! sta_index t))"
proof (induction xs rule: rev_induct)
  case Nil
  then show ?case by simp
next
  case (snoc x xs)
  obtain i v s where x: "x = (i, v, s)" by (cases x)
  from snoc show ?case
    using assign_value [of "fold assign xs its" i v s t] assign_name [of "fold assign xs its" i v s t] x by simp
qed

lemma recvfrom_open: "skfd cl \<Longrightarrow> replies cl = m # ms \<Longrightarrow> recvfrom cl = Some (cl\<lparr>info := m, replies := ms\<rparr>)"
  by (simp add: recvfrom_def)

lemma read_flows_step:
  "recvfrom cl = Some cl1 \<Longrightarrow>
   read_flows lay (Suc n) k cl = read_flows lay n k (cl1\<lparr>sent := sent cl1 @ report_flow k (as_tcp_flow lay (info cl1))\<rparr>)"
  by simp

lemma read_flows_open:
  "skfd cl \<Longrightarrow> replies cl = ms @ rest \<Longrightarrow>
   \<exists>cl'. read_flows lay (length ms) lkst cl = Some cl' \<and> replies cl' = rest \<and> skfd cl' \<and>
     sent cl' = sent cl @ concat (map (\<lambda>m. report_flow lkst (as_tcp_flow lay m)) ms)"
proof (induction ms arbitrary: cl)
  case Nil
  then show ?case by simp
next
  case (Cons m ms)
  let ?cl = "cl\<lparr>info := m, replies := ms @ rest, sent := sent cl @ report_flow lkst (as_tcp_flow lay m)\<rparr>"
  from Cons.prems have "recvfrom cl = Some (cl\<lparr>info := m, replies := ms @ rest\<rparr>)" by (simp add: recvfrom_def)
  then have "read_flows lay (length (m # ms)) lkst cl = read_flows lay (length ms) lkst ?cl" by simp
  with Cons.IH [of ?cl] Cons.prems show ?case by simp
qed

lemma read_flows_last:
  "skfd cl \<Longrightarrow> replies cl = (ms @ [m]) @ rest \<Longrightarrow>
   \<exists>cl'. read_flows lay (Suc (length ms)) lkst cl = Some cl' \<and> replies cl' = rest \<and> info cl' = m \<and>
     sent cl' = sent cl @ concat (map (\<lambda>m. report_flow lkst (as_tcp_flow lay m)) (ms @ [m]))"
proof (induction ms arbitrary: cl)
  case Nil
  then show ?case by (simp add: recvfrom_def)
next
  case (Cons n ms)
  let ?cl = "cl\<lparr>info := n, replies := (ms @ [m]) @ rest, sent := sent cl @ report_flow lkst (as_tcp_flow lay n)\<rparr>"
  from Cons.prems have "recvfrom cl = Some (cl\<lparr>info := n, replies := (ms @ [m]) @ rest\<rparr>)" by (simp add: recvfrom_def)
  from read_flows_step [OF this] have
    "read_flows lay (Suc (length (n # ms))) lkst cl = read_flows lay (Suc (length ms)) lkst ?cl"
    by (simp del: read_flows.simps)
  with Cons.IH [of ?cl] Cons.prems show ?case by simp
qed

lemma read_flows_closed:
  "\<not> skfd cl \<Longrightarrow>
   read_flows lay n lkst cl =
     Some (cl\<lparr>sent := sent cl @ concat (replicate n (report_flow lkst (as_tcp_flow lay (info cl))))\<rparr>)"
proof (induction n arbitrary: cl)
  case 0
  then show ?case by simp
next
  case (Suc n)
  then show ?case by (simp add: recvfrom_def)
qed

lemma address_text_dot: "strpbrk (address_text ip) ''192.168.11.'' \<noteq> None"
proof -
  have "CHR ''.'' \<in> set (address_text ip)" by (simp add: address_text_def dotted_def)
  then have "dropWhile (\<lambda>c. c \<notin> set ''192.168.11.'') (address_text ip) \<noteq> []" by auto
  then show ?thesis by (simp add: strpbrk_def split: list.split)
qed

lemma compare_addresses:
  "length s = 6 \<Longrightarrow> length t = 6 \<Longrightarrow> strcmp_linger s t = (if s = t then 0 else 1)"
proof -
  assume l: "length s = 6" "length t = 6"
  have "length (filter (\<lambda>(a, b). a = b) (zip s t)) = length (zip s t) \<longleftrightarrow>
      (\<forall>x\<in>set (zip s t). case x of (a, b) \<Rightarrow> a = b)"
    by (metis (no_types, lifting) filter_id_conv length_filter_less nat_neq_iff)
  also have "\<dots> \<longleftrightarrow> s = t" using l by (auto simp: list_eq_iff_nth_eq set_zip)
  finally show ?thesis using l by (simp add: strcmp_linger_def)
qed

lemma report_flow_station:
  assumes "length (lk_station k) = 6" "length (tf_eth_src f) = 6" "length (tf_eth_dst f) = 6"
  shows "report_flow k f =
    (if tf_packets f \<noteq> 0 \<and> (tf_eth_src f = lk_station k) \<noteq> (tf_eth_dst f = lk_station k) then [tcpinfo f] else [])"
proof -
  have "strcmp_linger (tf_eth_src f) (lk_station k) + strcmp_linger (tf_eth_dst f) (lk_station k) = 1 \<longleftrightarrow>
      (tf_eth_src f = lk_station k) \<noteq> (tf_eth_dst f = lk_station k)"
    using assms by (simp add: compare_addresses)
  then show ?thesis using address_text_dot [of "tf_ip_src f"] unfolding report_flow_def by simp
qed

lemma read_links_open:
  "skfd cl \<Longrightarrow> replies cl = ls @ rest \<Longrightarrow>
   \<exists>cl'. read_links lay (length ls) cl = Some (map (as_linkstates lay) ls, cl') \<and>
     replies cl' = rest \<and> skfd cl' \<and> sent cl' = sent cl"
proof (induction ls arbitrary: cl)
  case Nil
  then show ?case by simp
next
  case (Cons l ls)
  let ?cl = "cl\<lparr>info := l, replies := ls @ rest\<rparr>"
  from Cons.prems have r: "recvfrom (cl\<lparr>info := replicate MSG_LEN 0\<rparr>) = Some ?cl" by (simp add: recvfrom_def)
  from Cons.prems have "skfd ?cl" "replies ?cl = ls @ rest" by simp_all
  from Cons.IH [OF this] obtain cl' where
    "read_links lay (length ls) ?cl = Some (map (as_linkstates lay) ls, cl')"
    "replies cl' = rest" "skfd cl'" "sent cl' = sent ?cl" by blast
  with r show ?case by simp
qed

lemma search_loop_some: "p \<noteq> Absent \<Longrightarrow> search_loop its b p t \<noteq> None"
  by (induction t arbitrary: b p) (auto split: option.split)

lemma bst_search_m_some: "t \<noteq> Absent \<Longrightarrow> bst_search_m t its \<noteq> None"
  by (simp add: bst_search_m_def search_loop_some)

lemma length_fill [simp]: "length (fill_fstates cv a k vals) = length vals"
  by (simp add: fill_assign)

lemma destroy_fill: "length vals = 31 \<Longrightarrow> destroy_item_list (fill_fstates cv a k vals) = replicate 31 (0, 0)"
  by (simp add: destroy_item_list_def)

text \<open>Whether the search answers for a station that is measured on top of given values.\<close>

definition decides :: "'f conversions \<Rightarrow> 'f::linorder ctree \<Rightarrow> apstates \<Rightarrow> 'f items \<Rightarrow> linkstates \<Rightarrow> bool" where
  "decides cv tnode apst vals k = (bst_search_m tnode (fill_fstates cv apst k vals) \<notin> {None, Some Absent})"

lemma handle_link_undecided:
  assumes "length vals = 31" "tnode \<noteq> Absent" "\<not> decides cv tnode apst vals k"
  shows "handle_link lay cv tnode apst k (vals, cl) = Some (replicate 31 (0, 0), cl)"
  using assms bst_search_m_some [OF assms(2), of "fill_fstates cv apst k vals"]
  by (simp add: handle_link_def decides_def destroy_fill)

lemma handle_link_decided:
  assumes "length vals = 31" "decides cv tnode apst vals k" "read_flows lay 10 k cl = Some cl'"
  shows "handle_link lay cv tnode apst k (vals, cl) = Some (replicate 31 (0, 0), cl'\<lparr>skfd := False\<rparr>)"
  using assms by (auto simp: handle_link_def decides_def destroy_fill)

lemma handle_links_closed:
  assumes "tnode \<noteq> Absent"
  shows "\<not> skfd cl \<Longrightarrow>
   \<exists>its. handle_links lay cv tnode apst ks (replicate 31 (0, 0), cl) = Some (its, cl\<lparr>sent := sent cl @
     concat (map (\<lambda>k. concat (replicate 10 (report_flow k (as_tcp_flow lay (info cl)))))
       (filter (decides cv tnode apst (replicate 31 (0, 0))) ks))\<rparr>)"
proof (induction ks arbitrary: cl)
  case Nil
  then show ?case by simp
next
  case (Cons k ks)
  show ?case
  proof (cases "decides cv tnode apst (replicate 31 (0, 0)) k")
    case True
    let ?cl = "cl\<lparr>sent := sent cl @ concat (replicate 10 (report_flow k (as_tcp_flow lay (info cl))))\<rparr>"
    from Cons.prems have "?cl\<lparr>skfd := False\<rparr> = ?cl" by simp
    with handle_link_decided [OF _ True read_flows_closed [OF Cons.prems], of lay]
    have "handle_link lay cv tnode apst k (replicate 31 (0, 0), cl) = Some (replicate 31 (0, 0), ?cl)" by simp
    with Cons.IH [of ?cl] Cons.prems True show ?thesis by simp
  next
    case False
    with handle_link_undecided [OF _ assms False, of lay cl] Cons show ?thesis by simp
  qed
qed

text \<open>What the first station that the tree decides on sends.\<close>

lemma handle_link_sends:
  assumes "length vals = 31" "skfd cl" "replies cl = ms @ rest" "length ms = 10" "decides cv tnode apst vals k"
  shows "\<exists>cl'. handle_link lay cv tnode apst k (vals, cl) = Some (replicate 31 (0, 0), cl') \<and> replies cl' = rest \<and>
    \<not> skfd cl' \<and> sent cl' = sent cl @ concat (map (\<lambda>m. report_flow k (as_tcp_flow lay m)) ms)"
proof -
  from read_flows_open [OF assms(2,3), of lay k] assms(4) obtain cl' where
    "read_flows lay 10 k cl = Some cl'" "replies cl' = rest"
    "sent cl' = sent cl @ concat (map (\<lambda>m. report_flow k (as_tcp_flow lay m)) ms)" by auto
  with handle_link_decided [OF assms(1,5)] show ?thesis by simp
qed

text \<open>The flows with packets that have the station at one of their two ends.\<close>

definition flows_at :: "linkstates \<Rightarrow> tcp_flow list \<Rightarrow> tcp_flow list" where
  "flows_at k = filter (\<lambda>f. tf_packets f \<noteq> 0 \<and> (tf_eth_src f = lk_station k) \<noteq> (tf_eth_dst f = lk_station k))"

lemma report_flows_at:
  assumes "length (lk_station k) = 6"
  shows "\<forall>m\<in>set ms. length (tf_eth_src (as_tcp_flow lay m)) = 6 \<and> length (tf_eth_dst (as_tcp_flow lay m)) = 6 \<Longrightarrow>
   concat (map (\<lambda>m. report_flow k (as_tcp_flow lay m)) ms) = map tcpinfo (flows_at k (map (as_tcp_flow lay) ms))"
  by (induction ms) (simp_all add: report_flow_station [OF assms] flows_at_def)

section \<open>Properties\<close>

text \<open>
  For the first station the tree decides on, exactly the flows with packets that have the station
  at one of their two ends are reported, whatever their addresses are: the search for the network
  192.168.11 in the address always succeeds, because it accepts any of its characters.
\<close>

theorem flows_of_station_reported:
  assumes "length vals = 31" "skfd cl" "replies cl = ms @ rest" "length ms = 10"
    and "decides cv tnode apst vals k" "length (lk_station k) = 6"
    and "\<forall>m\<in>set ms. length (tf_eth_src (as_tcp_flow lay m)) = 6 \<and> length (tf_eth_dst (as_tcp_flow lay m)) = 6"
  shows "\<exists>its cl'. handle_link lay cv tnode apst k (vals, cl) = Some (its, cl') \<and> replies cl' = rest \<and> \<not> skfd cl' \<and>
    sent cl' = sent cl @ map tcpinfo (filter (\<lambda>f. tf_packets f \<noteq> 0 \<and>
      (tf_eth_src f = lk_station k) \<noteq> (tf_eth_dst f = lk_station k)) (map (as_tcp_flow lay) ms))"
  using handle_link_sends [OF assms(1-5), of lay] report_flows_at [OF assms(6,7)]
  by (auto simp: flows_at_def)

text \<open>
  The socket is closed after the first station the tree decides on, and every later one that it
  decides on is reported the last flow of the first, ten times.
\<close>

theorem later_stations_repeat_last_flow:
  assumes "length vals = 31" "tnode \<noteq> Absent" "replies cl = m0 # (l # ls) @ (ms @ [m]) @ rest" "take 8 m0 \<noteq> nonedata"
    and "unat (ap_station_count (as_apstates lay m0)) = length (l # ls)" "length (l # ls) < 10" "length ms = 9"
    and "decides cv tnode (as_apstates lay m0) vals (as_linkstates lay l)"
  shows "\<exists>cl'. main_linger lay cv vals tnode cl = Some cl' \<and> replies cl' = rest \<and>
    sent cl' = sent cl @
      concat (map (\<lambda>f. report_flow (as_linkstates lay l) (as_tcp_flow lay f)) (ms @ [m])) @
      concat (map (\<lambda>k. concat (replicate 10 (report_flow k (as_tcp_flow lay m))))
        (filter (decides cv tnode (as_apstates lay m0) (replicate 31 (0, 0))) (map (as_linkstates lay) ls)))"
proof -
  let ?a = "as_apstates lay m0" and ?k = "as_linkstates lay l"
  let ?cl = "cl\<lparr>skfd := True, info := m0, replies := (l # ls) @ (ms @ [m]) @ rest\<rparr>"
  have r: "recvfrom (cl\<lparr>skfd := True, info := replicate MSG_LEN 0\<rparr>) = Some ?cl"
    using assms(3) by (simp add: recvfrom_def)
  have "skfd ?cl" "replies ?cl = (l # ls) @ (ms @ [m]) @ rest" by simp_all
  from read_links_open [OF this, of lay] obtain cl2 where
    c2: "read_links lay (length (l # ls)) ?cl = Some (?k # map (as_linkstates lay) ls, cl2)"
      "replies cl2 = (ms @ [m]) @ rest" "skfd cl2" "sent cl2 = sent cl" by auto
  from read_flows_last [OF c2(3,2), of lay ?k] assms(7) obtain cl3 where
    c3: "read_flows lay 10 ?k cl2 = Some cl3" "replies cl3 = rest" "info cl3 = m"
      "sent cl3 = sent cl @ concat (map (\<lambda>f. report_flow ?k (as_tcp_flow lay f)) (ms @ [m]))"
    using c2(4) by auto
  from handle_link_decided [OF assms(1,8) c3(1)]
  have h: "handle_link lay cv tnode ?a ?k (vals, cl2) = Some (replicate 31 (0, 0), cl3\<lparr>skfd := False\<rparr>)" .
  show ?thesis
    using handle_links_closed [OF assms(2), of "cl3\<lparr>skfd := False\<rparr>" lay cv ?a "map (as_linkstates lay) ls"]
      r c2(1) h c3 assms(4-6)
    by (auto simp: main_linger_def Let_def)
qed

text \<open>The value that belongs to an entry, when the code ever puts it there.\<close>

fun measured :: "'f conversions \<Rightarrow> apstates \<Rightarrow> linkstates \<Rightarrow> sta_l \<Rightarrow> 'f option" where
  "measured cv a k Congestion = Some (scaled cv (uint (ap_congestion a)))"
| "measured cv a k Noncongestion = Some (scaled cv (uint (ap_noncongestion a)))"
| "measured cv a k Time_busy = Some (scaled cv (uint (ap_time_busy a)))"
| "measured cv a k Time_rx = Some (scaled cv (uint (ap_time_rx a)))"
| "measured cv a k Time_tx = Some (scaled cv (uint (ap_time_tx a)))"
| "measured cv a k Noise = Some (plain cv (sint (ap_noise a)))"
| "measured cv a k Q3bytes = Some (scaled cv (uint (ap_q3bytes a)))"
| "measured cv a k Q3packets = Some (scaled cv (uint (ap_q3packets a)))"
| "measured cv a k Q3qlen = Some (plain cv (uint (ap_q3qlen a)))"
| "measured cv a k Q3backlog = Some (plain cv (uint (ap_q3backlog a)))"
| "measured cv a k Q3drops = Some (plain cv (uint (ap_q3drops a)))"
| "measured cv a k Q3requeues = Some (scaled cv (uint (ap_q3requeues a)))"
| "measured cv a k Qfbytes = Some (scaled cv (uint (ap_qfbytes a)))"
| "measured cv a k Qfpackets = Some (scaled cv (uint (ap_qfpackets a)))"
| "measured cv a k Qfqlen = Some (plain cv (uint (ap_qfqlen a)))"
| "measured cv a k Qfbacklog = Some (plain cv (uint (ap_qfbacklog a)))"
| "measured cv a k Qfdrops = Some (plain cv (uint (ap_qfdrops a)))"
| "measured cv a k Signal = Some (plain cv (sint (lk_signal k)))"
| "measured cv a k Signal_avg = Some (plain cv (sint (lk_signal_avg k)))"
| "measured cv a k _ = None"

text \<open>
  What the search sees.  The counters of a station after its signal are written over the count of
  requeues and over the number of stations; their own entries have names but the values of before.
\<close>

theorem values_seen:
  assumes "length vals = 31"
  shows "fill_fstates cv a k vals ! sta_index s =
    (int (sta_index s),
     case measured cv a k s of Some x \<Rightarrow> x
     | None \<Rightarrow>
         if s = Qfrequeues then scaled cv (uint (lk_tx_failed k))
         else if s = Station_count then plain cv (uint (lk_expected_throughput k))
         else snd (vals ! sta_index s))"
  using fold_assign [OF assms, of "assignments cv a k" s]
  by (cases s; simp add: fill_assign assignments_def prod_eq_iff)

section \<open>Witnesses\<close>

text \<open>A tree with one decision on the congestion, and messages that carry what the examples need.\<close>

definition example_conversions :: "int conversions" where
  "example_conversions = \<lparr>scaled = (\<lambda>x. x), plain = (\<lambda>x. x)\<rparr>"

definition example_ctree :: "int ctree" where
  "example_ctree = Branch 0 2 0 0 (Branch 1 0 0 1 Absent Absent) (Branch 2 0 0 2 Absent Absent)"

definition example_layout :: layout where
  "example_layout = \<lparr>as_apstates = (\<lambda>b. zero_apstates\<lparr>ap_station_count := 2\<rparr>),
     as_linkstates = (\<lambda>b. zero_link\<lparr>lk_station := replicate 6 (b ! 0)\<rparr>),
     as_tcp_flow = (\<lambda>b. zero_tcp_flow\<lparr>tf_packets := ucast (b ! 0), tf_eth_src := replicate 6 (b ! 1), tf_eth_dst := replicate 6 (b ! 2)\<rparr>)\<rparr>"

lemma example_decides: "decides example_conversions example_ctree (zero_apstates\<lparr>ap_station_count := 2\<rparr>)
    (replicate 31 (0, 0)) (zero_link\<lparr>lk_station := replicate 6 s\<rparr>)"
  by (simp add: decides_def example_conversions_def example_ctree_def fill_fstates_def assignments_def
      bst_search_m_def assign_string_def set_value_def sta_index_def all_sta_l_def zero_apstates_def zero_link_def eval_nat_numeral)

lemma example_layout_simps [simp]:
  "as_apstates example_layout m = zero_apstates\<lparr>ap_station_count := 2\<rparr>"
  "as_linkstates example_layout (s # r) = zero_link\<lparr>lk_station := replicate 6 s\<rparr>"
  "tf_packets (as_tcp_flow example_layout (x # y # z # r)) = ucast x"
  "tf_eth_src (as_tcp_flow example_layout (x # y # z # r)) = replicate 6 y"
  "tf_eth_dst (as_tcp_flow example_layout (x # y # z # r)) = replicate 6 z"
  by (simp_all add: example_layout_def)

theorem flows_of_station_reported_witness:
  "\<exists>its cl'. handle_link example_layout example_conversions example_ctree (zero_apstates\<lparr>ap_station_count := 2\<rparr>)
     (zero_link\<lparr>lk_station := replicate 6 1\<rparr>)
     (replicate 31 (0, 0), \<lparr>skfd = True, info = [], replies = [3, 1, 2] # replicate 9 [3, 2, 2] @ [[9]], sent = []\<rparr>) = Some (its, cl') \<and>
     replies cl' = [[9]] \<and> \<not> skfd cl' \<and> sent cl' = [tcpinfo (as_tcp_flow example_layout [3, 1, 2])]"
  using flows_of_station_reported [of "replicate 31 (0, 0)"
      "\<lparr>skfd = True, info = [], replies = [3, 1, 2] # replicate 9 [3, 2, 2] @ [[9]], sent = []\<rparr>"
      "[3, 1, 2] # replicate 9 [3, 2, 2]" "[[9]]" example_conversions example_ctree "zero_apstates\<lparr>ap_station_count := 2\<rparr>"
      "zero_link\<lparr>lk_station := replicate 6 1\<rparr>" example_layout]
  by (simp add: example_decides)

theorem later_stations_repeat_last_flow_witness:
  "\<exists>cl'. main_linger example_layout example_conversions (replicate 31 (0, 0)) example_ctree
      \<lparr>skfd = False, info = [], replies = [0] # [[1], [2]] @ (replicate 9 [0, 0, 0] @ [[3, 2, 5]]) @ [], sent = []\<rparr> = Some cl' \<and>
     replies cl' = [] \<and> sent cl' = replicate 10 (tcpinfo (as_tcp_flow example_layout [3, 2, 5]))"
proof -
  have d: "decides example_conversions example_ctree (as_apstates example_layout [0]) (replicate 31 (0, 0))
      (as_linkstates example_layout [s])" for s
    using example_decides [of s] by simp
  have f: "report_flow (as_linkstates example_layout [1]) (as_tcp_flow example_layout [0, 0, 0]) = []"
    "report_flow (as_linkstates example_layout [1]) (as_tcp_flow example_layout [3, 2, 5]) = []"
    "report_flow (as_linkstates example_layout [2]) (as_tcp_flow example_layout [3, 2, 5]) =
      [tcpinfo (as_tcp_flow example_layout [3, 2, 5])]"
    by (simp_all add: report_flow_station)
  have t: "example_ctree \<noteq> Absent" by (simp add: example_ctree_def)
  from later_stations_repeat_last_flow [of "replicate 31 (0, 0)" example_ctree
      "\<lparr>skfd = False, info = [], replies = [0] # [[1], [2]] @ (replicate 9 [0, 0, 0] @ [[3, 2, 5]]) @ [], sent = []\<rparr>"
      "[0]" "[1]" "[[2]]" "replicate 9 [0, 0, 0]" "[3, 2, 5]" "[]" example_layout example_conversions, OF _ t _ _ _ _ _ d]
  show ?thesis using d f by (simp add: nonedata_def zero_apstates_def)
qed

theorem values_seen_witness:
  "fill_fstates example_conversions zero_apstates (zero_link\<lparr>lk_tx_failed := 7, lk_rx_bytes := 5\<rparr>) (replicate 31 (0, 0)) !
     sta_index Qfrequeues = (18, 7)"
  using values_seen [of "replicate 31 (0, 0)" example_conversions zero_apstates "zero_link\<lparr>lk_tx_failed := 7, lk_rx_bytes := 5\<rparr>" Qfrequeues]
  by (simp add: example_conversions_def sta_index_def all_sta_l_def zero_link_def)

end
