(* ===== verification/Tree_Text.thy ===== *)
theory Tree_Text
  imports Decision_Tree Receiver
begin

text \<open>
  The text protocol of the decision tree of \<^verbatim>\<open>create_tree/createtree.c\<close> end to end: a controller that
  writes the records of a tree in preorder, fields between commas and records between bars, is
  understood, and so is the list of measured values that \<^verbatim>\<open>create_items\<close> reads, as long as it is short
  enough for the local array of tokens.  The printing of the values is an argument.
\<close>

section \<open>Numbers and separators\<close>

definition show_int :: "int \<Rightarrow> string" where
  "show_int n = (if n < 0 then CHR ''-'' # dec_digits (nat (- n)) else dec_digits (nat n))"

fun join :: "char \<Rightarrow> string list \<Rightarrow> string" where
  "join d [] = []"
| "join d [x] = x"
| "join d (x # y # ys) = x @ d # join d (y # ys)"

definition token_ok :: "char \<Rightarrow> string \<Rightarrow> bool" where
  "token_ok d s \<longleftrightarrow> s \<noteq> [] \<and> d \<notin> set s"

lemma tokens_single: "token_ok d s \<Longrightarrow> tokens d s = [s]"
proof (cases s)
  case (Cons a list)
  moreover assume "token_ok d s"
  ultimately have a: "a \<noteq> d" "\<forall>x\<in>set list. x \<noteq> d" by (auto simp: token_ok_def)
  then have "dropWhile (\<lambda>x. x \<noteq> d) list = []" "takeWhile (\<lambda>x. x \<noteq> d) list = list"
    by (simp_all only: dropWhile_eq_Nil_conv takeWhile_eq_all_conv)
  then have "tokens d (dropWhile (\<lambda>x. x \<noteq> d) list) = []" "takeWhile (\<lambda>x. x \<noteq> d) list = list"
    by (simp_all only: tokens.simps)
  with Cons a(1) show ?thesis by simp
qed (simp add: token_ok_def)

lemma tokens_join: "list_all (token_ok d) xs \<Longrightarrow> tokens d (join d xs) = xs"
proof (induction d xs rule: join.induct)
  case (1 d)
  then show ?case by simp
next
  case (2 d x)
  then show ?case by (simp add: tokens_single)
next
  case (3 d x y ys)
  then have "tokens d (x @ d # join d (y # ys)) = x # tokens d (d # join d (y # ys))"
    by (intro tokens_head) (auto simp: token_ok_def list_all_iff)
  with 3 show ?case by simp
qed

lemma hex_digit_decimal:
  "d < 10 \<Longrightarrow> is_digit (hex_digit d) \<and> digit_value (hex_digit d) = int d"
proof -
  assume "d < 10"
  then have "d \<in> {0, 1, 2, 3, 4, 5, 6, 7, 8, 9}" by auto
  then show ?thesis by (auto simp: hex_digit_def is_digit_def digit_value_def)
qed

lemma dec_digits_digits: "list_all is_digit (dec_digits n) \<and> dec_digits n \<noteq> []"
proof (induction n rule: dec_digits.induct)
  case (1 n)
  then show ?case by (subst (1 2) dec_digits.simps) (simp add: hex_digit_decimal)
qed

lemma digits_value_dec_digits: "Decision_Tree.digits_value (dec_digits n) = int n"
proof -
  have "foldl (\<lambda>n c. 10 * n + digit_value c) 0 (dec_digits n) = int n"
  proof (induction n rule: dec_digits.induct)
    case (1 n)
    show ?case
    proof (cases "n < 10")
      case True
      then show ?thesis by (subst dec_digits.simps) (simp add: hex_digit_decimal)
    next
      case False
      with 1 have "foldl (\<lambda>n c. 10 * n + digit_value c) 0 (dec_digits n) = 10 * int (n div 10) + int (n mod 10)"
        by (subst dec_digits.simps) (simp add: hex_digit_decimal)
      also have "\<dots> = int n" by (metis mult_div_mod_eq of_nat_add of_nat_mult of_nat_numeral)
      finally show ?thesis .
    qed
  qed
  moreover have "takeWhile is_digit (dec_digits n) = dec_digits n"
    using dec_digits_digits [of n] by (simp add: takeWhile_eq_all_conv list_all_iff)
  ultimately show ?thesis unfolding Decision_Tree.digits_value_def by metis
qed

lemma is_digit_not: "\<not> is_digit CHR '' ''" "\<not> is_digit CHR ''-''" "\<not> is_digit CHR ''+''"
  "\<not> is_digit CHR '',''" "\<not> is_digit CHR ''|''" "\<not> is_digit CHR '';''"
  by (simp_all add: is_digit_def)

lemma atoi_show_int: "atoi (show_int n) = n"
proof (cases "n < 0")
  case True
  then show ?thesis by (simp add: atoi_def show_int_def digits_value_dec_digits)
next
  case False
  obtain c cs where c: "dec_digits (nat n) = c # cs" "is_digit c"
    using dec_digits_digits [of "nat n"] by (cases "dec_digits (nat n)") auto
  then have "c \<noteq> CHR '' ''" "c \<noteq> CHR ''-''" "c \<noteq> CHR ''+''" using is_digit_not by auto
  with c False digits_value_dec_digits [of "nat n"] show ?thesis by (simp add: atoi_def show_int_def)
qed

lemma show_int_ok: "token_ok CHR '','' (show_int n)" "CHR ''|'' \<notin> set (show_int n)"
  using dec_digits_digits [of "nat n"] dec_digits_digits [of "nat (- n)"] is_digit_not
  by (auto simp: token_ok_def show_int_def list_all_iff)

section \<open>Records and trees\<close>

definition record_text :: "('f \<Rightarrow> string) \<Rightarrow> 'f rawdata \<Rightarrow> string" where
  "record_text show_float r = join CHR '',''
     [show_int (rd_father r), show_int (rd_itself r), the (rd_name r), show_float (rd_value r), show_int (rd_class r)]"

definition tree_text :: "('f \<Rightarrow> string) \<Rightarrow> int \<Rightarrow> 'f treenode \<Rightarrow> string" where
  "tree_text show_float p t = join CHR ''|'' (map (record_text show_float) (flatten p t))"

text \<open>Texts that can stand between the separators.\<close>

definition field_text :: "string \<Rightarrow> bool" where
  "field_text s \<longleftrightarrow> token_ok CHR '','' s \<and> CHR ''|'' \<notin> set s"

fun tree_names :: "'f treenode \<Rightarrow> string list" where
  "tree_names Null = []"
| "tree_names (Node i nm v c l r) = nm # tree_names l @ tree_names r"

lemma record_text_ok:
  assumes "\<And>v. field_text (show_float v)" "rd_name r = Some nm" "field_text nm"
  shows "token_ok CHR ''|'' (record_text show_float r)"
  using assms show_int_ok by (auto simp: record_text_def token_ok_def field_text_def)

lemma parse_record_text:
  assumes "\<And>v. field_text (show_float v)" "\<And>v. atof (show_float v) = v" "rd_name r = Some nm" "field_text nm"
  shows "parse_record atof (record_text show_float r) = r"
proof -
  have "tokens CHR '','' (record_text show_float r) =
      [show_int (rd_father r), show_int (rd_itself r), nm, show_float (rd_value r), show_int (rd_class r)]"
    unfolding record_text_def using assms show_int_ok by (subst tokens_join) (simp_all add: field_text_def)
  then show ?thesis
    using assms(2,3) by (cases r) (simp add: parse_record_def set_field_def atoi_show_int)
qed

lemma flatten_record_names: "r \<in> set (flatten p t) \<Longrightarrow> \<exists>nm \<in> set (tree_names t). rd_name r = Some nm"
  by (induction t arbitrary: p) auto

lemma init_rawdata_text:
  assumes "\<And>v. field_text (show_float v)" "\<And>v. atof (show_float v) = v" "list_all field_text (tree_names t)"
  shows "init_rawdata atof (tree_text show_float p t) = flatten p t"
proof -
  have ok: "\<exists>nm. rd_name r = Some nm \<and> field_text nm" if "r \<in> set (flatten p t)" for r
    using flatten_record_names [OF that] assms(3) by (auto simp: list_all_iff)
  have "list_all (token_ok CHR ''|'') (map (record_text show_float) (flatten p t))"
    using ok record_text_ok [of show_float] assms(1) by (fastforce simp: list_all_iff)
  then have "tokens CHR ''|'' (tree_text show_float p t) = map (record_text show_float) (flatten p t)"
    unfolding tree_text_def by (rule tokens_join)
  then have "init_rawdata atof (tree_text show_float p t) = map (parse_record atof \<circ> record_text show_float) (flatten p t)"
    by (simp add: init_rawdata_def)
  also have "\<dots> = map id (flatten p t)"
  proof (rule map_cong [OF refl])
    fix r assume "r \<in> set (flatten p t)"
    with ok obtain nm where "rd_name r = Some nm" "field_text nm" by blast
    from parse_record_text [OF assms(1,2) this] show "(parse_record atof \<circ> record_text show_float) r = id r" by simp
  qed
  finally show ?thesis by simp
qed


definition show_unary :: "nat \<Rightarrow> string" where
  "show_unary n = replicate (Suc n) CHR ''1''"

definition read_unary :: "string \<Rightarrow> nat" where
  "read_unary s = length s - 1"

lemma show_unary_ok: "field_text (show_unary n)" "read_unary (show_unary n) = n"
  by (simp_all add: show_unary_def read_unary_def field_text_def token_ok_def)


section \<open>Measured values\<close>

definition ITEM_AMOUNT :: nat where
  "ITEM_AMOUNT = 100"

text \<open>The tokens of \<^verbatim>\<open>create_items\<close>: items between semicolons, their parts between commas.\<close>

definition item_tokens :: "string \<Rightarrow> string list" where
  "item_tokens buffer = concat (map (tokens CHR '','') (tokens CHR '';'' buffer))"

text \<open>Names at even positions, values at odd ones; the bound is checked after the write.\<close>

fun fill_items :: "(string \<Rightarrow> 'f) \<Rightarrow> nat \<Rightarrow> nat \<Rightarrow> string list \<Rightarrow> 'f item_value list \<Rightarrow> 'f item_value list option" where
  "fill_items atof j index [] items_list = Some items_list"
| "fill_items atof j index (p # ps) items_list =
    (if length items_list \<le> index then None
     else if even j then
       fill_items atof (j + 1) index ps (items_list[index := (items_list ! index)\<lparr>it_name := Some p\<rparr>])
     else if ITEM_AMOUNT \<le> index then None
     else fill_items atof (j + 1) (index + 1) ps (items_list[index := (items_list ! index)\<lparr>it_value := atof p\<rparr>]))"

text \<open>
  The local array has forty places, and the null pointer behind the last token needs one of them.
\<close>

definition create_items :: "(string \<Rightarrow> 'f) \<Rightarrow> 'f item_value list \<Rightarrow> string \<Rightarrow> 'f item_value list option" where
  "create_items atof items_list buffer =
    (let p = item_tokens buffer in if 40 \<le> length p then None else fill_items atof 0 0 p items_list)"

text \<open>The lower bound of the values is an argument.\<close>

definition init_linger :: "(string \<Rightarrow> 'f::zero) \<Rightarrow> 'f \<Rightarrow> string \<Rightarrow> string \<Rightarrow> ('f treenode \<times> 'f item_value list) option" where
  "init_linger atof low inputtxt item =
    Option.bind (create_tree (init_rawdata atof inputtxt)) (\<lambda>tnode.
    map_option (\<lambda>its. (tnode, its))
      (create_items atof (replicate ITEM_AMOUNT \<lparr>it_name = None, it_value = low\<rparr>) item))"

definition items_text :: "('f \<Rightarrow> string) \<Rightarrow> (string \<times> 'f) list \<Rightarrow> string" where
  "items_text show_float its = join CHR '';'' (map (\<lambda>(nm, v). join CHR '','' [nm, show_float v]) its)"

definition item_text :: "string \<Rightarrow> bool" where
  "item_text s \<longleftrightarrow> token_ok CHR '','' s \<and> CHR '';'' \<notin> set s"

lemma item_tokens_text:
  assumes "\<And>v. item_text (show_float v)" "list_all (item_text \<circ> fst) its"
  shows "item_tokens (items_text show_float its) = concat (map (\<lambda>(nm, v). [nm, show_float v]) its)"
proof -
  have "list_all (token_ok CHR '';'') (map (\<lambda>(nm, v). join CHR '','' [nm, show_float v]) its)"
    using assms by (auto simp: list_all_iff item_text_def token_ok_def)
  then have "item_tokens (items_text show_float its) =
      concat (map (tokens CHR '','' \<circ> (\<lambda>(nm, v). join CHR '','' [nm, show_float v])) its)"
    by (simp add: item_tokens_def items_text_def tokens_join)
  also have "\<dots> = concat (map (\<lambda>(nm, v). [nm, show_float v]) its)"
  proof (rule arg_cong [where f = concat], rule map_cong [OF refl], clarsimp simp del: join.simps)
    fix nm v assume "(nm, v) \<in> set its"
    with assms(2) have "item_text nm" by (auto simp: list_all_iff)
    with assms(1) [of v] show "tokens CHR '','' (join CHR '','' [nm, show_float v]) = [nm, show_float v]"
      by (intro tokens_join) (simp add: item_text_def)
  qed
  finally show ?thesis .
qed

lemma item_overwrite: "r\<lparr>it_name := n, it_value := v\<rparr> = \<lparr>it_name = n, it_value = v\<rparr>" for r :: "'f item_value"
  by (cases r) simp

lemma fill_items_pairs:
  assumes "\<And>v. atof (show_float v) = v"
  shows "even j \<Longrightarrow> index + length its \<le> length items_list \<Longrightarrow> index + length its \<le> ITEM_AMOUNT \<Longrightarrow>
   fill_items atof j index (concat (map (\<lambda>(nm, v). [nm, show_float v]) its)) items_list =
     Some (take index items_list @ map (\<lambda>(nm, v). \<lparr>it_name = Some nm, it_value = v\<rparr>) its @
       drop (index + length its) items_list)"
proof (induction its arbitrary: j index items_list)
  case Nil
  then show ?case by simp
next
  case (Cons x its)
  obtain nm v where x: "x = (nm, v)" by (cases x)
  let ?il = "items_list[index := \<lparr>it_name = Some nm, it_value = v\<rparr>]"
  have "fill_items atof j index (concat (map (\<lambda>(nm, v). [nm, show_float v]) (x # its))) items_list =
      fill_items atof (j + 2) (index + 1) (concat (map (\<lambda>(nm, v). [nm, show_float v]) its)) ?il"
    using Cons.prems assms x by (simp add: item_overwrite)
  also have "\<dots> = Some (take (index + 1) ?il @ map (\<lambda>(nm, v). \<lparr>it_name = Some nm, it_value = v\<rparr>) its @
      drop (index + 1 + length its) ?il)"
    using Cons.prems by (intro Cons.IH) simp_all
  also have "take (index + 1) ?il = take index items_list @ [\<lparr>it_name = Some nm, it_value = v\<rparr>]"
    using Cons.prems(2) by (simp add: take_Suc_conv_app_nth)
  finally show ?case using x by simp
qed



end
