(* ===== verification/Window_Server.thy ===== *)
theory Window_Server
  imports Flow_Control Tree_Text
begin

text \<open>
  How a flow reported by the switch daemon becomes a command: \<^verbatim>\<open>udp/server_local.c\<close> passes the flow
  on to the host it comes from, where \<^verbatim>\<open>udp/server.c\<close> looks it up in the output of \<^verbatim>\<open>ss -4 -t -i\<close>
  and answers with congestion window and segment size, and prints the command that sets their
  product as the window.

  A buffer is the list of its characters, and reading past its end is the value None; the string in
  it ends at the character zero.  The lines of \<^verbatim>\<open>ss\<close> are those that \<^verbatim>\<open>fgets\<close> delivers, each shorter
  than the buffer.  The server copies parts of a line into blocks without a terminator, so what
  lies behind such a block is an argument.
\<close>

section \<open>Searching in a string\<close>

definition NUL :: char where
  "NUL = CHR 0x00"

definition c_string :: "string \<Rightarrow> string" where
  "c_string s = s @ [NUL]"

text \<open>The inner loop: whether the second string is a prefix of the first.\<close>

fun starts_with :: "string \<Rightarrow> string \<Rightarrow> bool option" where
  "starts_with bp [] = None"
| "starts_with bp (c # sp) =
    (if c = NUL then Some True
     else (case bp of [] \<Rightarrow> None | b # bp' \<Rightarrow> if b = c then starts_with bp' sp else Some False))"

fun strlinger_from :: "string \<Rightarrow> string \<Rightarrow> int \<Rightarrow> int option" where
  "strlinger_from [] sub ind = None"
| "strlinger_from (b # buf) sub ind =
    (if b = NUL then Some (-1)
     else Option.bind (starts_with (b # buf) sub) (\<lambda>found.
       if found then Some ind else strlinger_from buf sub (ind + 1)))"

definition strlinger :: "string \<Rightarrow> string \<Rightarrow> int option" where
  "strlinger buf sub =
    (case sub of [] \<Rightarrow> None | c # _ \<Rightarrow> if c = NUL then Some (-1) else strlinger_from buf sub 0)"

text \<open>A search from a position on; the result is counted from there.\<close>

definition search_at :: "string \<Rightarrow> int \<Rightarrow> string \<Rightarrow> int option" where
  "search_at line i s = (if i < 0 \<or> int (length line) < i then None else strlinger (drop (nat i) line) (c_string s))"

section \<open>The host of the flow\<close>

record host =
  ss_output :: "string list"
  stack_line :: string
  behind :: "string \<Rightarrow> string"

definition fgets :: "string \<Rightarrow> string \<Rightarrow> string" where
  "fgets l line = c_string l @ drop (Suc (length l)) line"

definition block :: "string \<Rightarrow> int \<Rightarrow> int \<Rightarrow> string" where
  "block line i k = take (nat k) (drop (nat i) line)"

text \<open>The text from position i to the next blank, when there is any, and where it ends.\<close>

definition word_at :: "string \<Rightarrow> int \<Rightarrow> (string option \<times> int) option" where
  "word_at line i = map_option (\<lambda>k. (if 0 < k then Some (block line i k) else None, k + i)) (search_at line i '' '')"

definition c_text :: "string \<Rightarrow> string" where
  "c_text s = takeWhile (\<lambda>c. c \<noteq> NUL) s"

definition dst_port :: "(string \<Rightarrow> string) \<Rightarrow> string \<Rightarrow> int" where
  "dst_port bh str =
    (if c_text (str @ bh str) = ''http'' then 80
     else if c_text (str @ bh str) = ''https'' then 8089
     else atoi (str @ bh str))"

text \<open>Whether a line is about the flow: both addresses in it, and its two ports.\<close>

definition flow_line :: "(string \<Rightarrow> string) \<Rightarrow> tcp_ss \<Rightarrow> string \<Rightarrow> bool option" where
  "flow_line bh tmp line =
    Option.bind (strlinger line (c_string (ss_ip_src tmp))) (\<lambda>index1.
    Option.bind (strlinger line (c_string (ss_ip_dst tmp))) (\<lambda>index2.
    if 0 < index1 \<and> 0 < index2 then
      Option.bind (search_at line index1 '':'') (\<lambda>k.
      Option.bind (word_at line (k + 1 + index1)) (\<lambda>(src, index4).
      case src of
        None \<Rightarrow> Some False
      | Some str \<Rightarrow>
         if atoi (str @ bh str) \<noteq> uint (ss_src_port tmp) then Some False
         else
           Option.bind (search_at line index4 '':'') (\<lambda>k'.
           map_option (\<lambda>(dst, _). case dst of None \<Rightarrow> False | Some str' \<Rightarrow> dst_port bh str' = uint (ss_dst_port tmp))
             (word_at line (k' + index4 + 1)))))
    else Some False))"

text \<open>Congestion window and segment size on a line, as far as they are found.\<close>

definition window_line :: "(string \<Rightarrow> string) \<Rightarrow> string \<Rightarrow> (int option \<times> int option) option" where
  "window_line bh line =
    Option.bind (strlinger line (c_string ''cwnd'')) (\<lambda>k.
    Option.bind (word_at line (k + 5)) (\<lambda>(cw, _).
    case cw of
      None \<Rightarrow> Some (None, None)
    | Some str \<Rightarrow>
       Option.bind (strlinger line (c_string ''mss'')) (\<lambda>k'.
       map_option (\<lambda>(ms, _). (Some (atoi (str @ bh str)), map_option (\<lambda>s. atoi (s @ bh s)) ms))
         (word_at line (k' + 4)))))"

record cwnd_mss =
  cm_cwnd :: int
  cm_mss :: int

text \<open>
  The lines of the output.  The state is what was found; a line that is about the flow is followed by
  one with the window, and after that the search goes on.
\<close>

fun scan_lines :: "(string \<Rightarrow> string) \<Rightarrow> tcp_ss \<Rightarrow> string \<Rightarrow> string list \<Rightarrow> bool \<times> cwnd_mss \<Rightarrow> (bool \<times> cwnd_mss) option" where
  "scan_lines bh tmp line [] s = Some s"
| "scan_lines bh tmp line (l # ls) (found, w) =
    (let line1 = fgets l line
     in Option.bind (flow_line bh tmp line1) (\<lambda>hit.
        if \<not> hit then scan_lines bh tmp line1 ls (found, w)
        else
          (case ls of
             [] \<Rightarrow> Some (found, w)
           | l2 # ls2 \<Rightarrow>
              (let line2 = fgets l2 line1
               in Option.bind (window_line bh line2) (\<lambda>(cw, ms).
                  case cw of
                    None \<Rightarrow> Some (found, w)
                  | Some c \<Rightarrow>
                     (case ms of
                        None \<Rightarrow> Some (True, w\<lparr>cm_cwnd := c\<rparr>)
                      | Some m \<Rightarrow> scan_lines bh tmp line2 ls2 (True, \<lparr>cm_cwnd = c, cm_mss = m\<rparr>)))))))"

definition server_answer :: "host \<Rightarrow> tcp_ss \<Rightarrow> cwnd_mss option" where
  "server_answer hst tmp =
    map_option (\<lambda>(found, w). if found then w else \<lparr>cm_cwnd = -1, cm_mss = -1\<rparr>)
      (scan_lines (behind hst) tmp (stack_line hst) (ss_output hst) (False, \<lparr>cm_cwnd = 0, cm_mss = 0\<rparr>))"

section \<open>The command\<close>

text \<open>The product of two 32-bit integers wraps.\<close>

definition show_window :: "cwnd_mss \<Rightarrow> int" where
  "show_window w = signed_take_bit 31 (cm_cwnd w * cm_mss w)"

definition window_command :: "tcp_ss \<Rightarrow> int \<Rightarrow> string" where
  "window_command t window =
    ''ovs-ofctl add-flow br0 -O openflow13 tcp,nw_src='' @ ss_ip_src t @ '',nw_dst='' @ ss_ip_dst t @
    '',tcp_src='' @ show_int (uint (ss_src_port t)) @ '',tcp_dst='' @ show_int (uint (ss_dst_port t)) @
    '',actions=mod_tp_dst:'' @ show_int window"

text \<open>The flow is asked for at the host with its source address; a host that is not there stays silent.\<close>

definition local_command :: "(string \<Rightarrow> host option) \<Rightarrow> tcp_ss \<Rightarrow> string option" where
  "local_command hosts t =
    Option.bind (hosts (ss_ip_src t)) (\<lambda>hst.
    map_option (\<lambda>w. window_command t (show_window w)) (server_answer hst t))"

section \<open>The search is a search\<close>

definition nul_free :: "string \<Rightarrow> bool" where
  "nul_free s \<longleftrightarrow> NUL \<notin> set s"

text \<open>The first position at which a string occurs.\<close>

definition index_of :: "string \<Rightarrow> string \<Rightarrow> nat option" where
  "index_of s t = find (\<lambda>i. take (length t) (drop i s) = t) [0..<length s]"

definition found_at :: "nat option \<Rightarrow> int" where
  "found_at k = (case k of None \<Rightarrow> -1 | Some i \<Rightarrow> int i)"

lemma found_at_simps [simp]: "found_at None = -1" "found_at (Some i) = int i"
  by (simp_all add: found_at_def)

lemma starts_with_take:
  "nul_free s \<Longrightarrow> nul_free t \<Longrightarrow> starts_with (s @ NUL # r) (c_string t) = Some (take (length t) s = t)"
proof (induction t arbitrary: s)
  case Nil
  then show ?case by (simp add: c_string_def)
next
  case (Cons c t)
  then show ?case by (cases s) (auto simp: c_string_def nul_free_def)
qed

lemma find_map: "find P (map f xs) = map_option f (find (P \<circ> f) xs)"
  by (induction xs) auto

lemma index_of_Cons:
  "index_of (c # s) t = (if take (length t) (c # s) = t then Some 0 else map_option Suc (index_of s t))"
proof -
  have "[0..<length (c # s)] = 0 # map Suc [0..<length s]" 
    by (simp add: map_Suc_upt upt_conv_Cons del: upt_Suc)
  then show ?thesis by (simp add: index_of_def find_map comp_def del: upt_Suc)
qed

lemma strlinger_from_index:
  "nul_free s \<Longrightarrow> nul_free t \<Longrightarrow>
   strlinger_from (s @ NUL # r) (c_string t) ind =
     Some (case index_of s t of None \<Rightarrow> -1 | Some i \<Rightarrow> ind + int i)"
proof (induction s arbitrary: ind)
  case Nil
  then show ?case by (simp add: index_of_def)
next
  case (Cons c s)
  then have "c \<noteq> NUL" "nul_free s" by (auto simp: nul_free_def)
  with Cons starts_with_take [OF Cons.prems, of r] show ?case
    by (auto simp: index_of_Cons split: option.split)
qed

lemma strlinger_index:
  assumes "nul_free s" "nul_free t" "t \<noteq> []"
  shows "strlinger (s @ NUL # r) (c_string t) = Some (found_at (index_of s t))"
proof -
  obtain c t' where t: "t = c # t'" "c \<noteq> NUL" using assms by (cases t) (auto simp: nul_free_def)
  then have "strlinger (s @ NUL # r) (c_string t) = strlinger_from (s @ NUL # r) (c_string t) 0"
    by (simp add: strlinger_def c_string_def)
  with strlinger_from_index [OF assms(1,2)] show ?thesis by (simp add: found_at_def split: option.split)
qed

lemma index_of_char: "c \<notin> set u \<Longrightarrow> index_of (u @ c # v) [c] = Some (length u)"
  by (induction u) (auto simp: index_of_Cons)

lemma index_of_occurs: "t \<noteq> [] \<Longrightarrow> \<exists>i\<le>length u. index_of (u @ t @ v) t = Some i"
proof (induction u)
  case Nil
  then show ?case by (cases t) (auto simp: index_of_Cons)
next
  case (Cons c u)
  then obtain i where "i \<le> length u" "index_of (u @ t @ v) t = Some i" by blast
  then show ?case by (auto simp: index_of_Cons)
qed

lemma index_of_Some:
  assumes "t \<noteq> []" "index_of s t = Some i"
  shows "(\<exists>x y. s = x @ t @ y \<and> length x = i) \<and> (\<forall>x y. s = x @ t @ y \<longrightarrow> i \<le> length x)"
proof -
  have i: "i < length s" "take (length t) (drop i s) = t" "\<forall>j<i. take (length t) (drop j s) \<noteq> t"
    using assms(2) by (auto simp: index_of_def find_Some_iff)
  then have "s = take i s @ t @ drop (i + length t) s" "length (take i s) = i"
    by (metis append_take_drop_id drop_drop add.commute, simp)
  moreover have "i \<le> length x" if "s = x @ t @ y" for x y
    using i(3) that by (metis append_eq_conv_conj not_le)
  ultimately show ?thesis by blast
qed

lemma index_of_None:
  assumes "t \<noteq> []" "index_of s t = None"
  shows "s \<noteq> x @ t @ y"
  using index_of_occurs [OF assms(1), of x y] assms(2) by auto

section \<open>Lines of the output\<close>

definition harmless :: "(string \<Rightarrow> string) \<Rightarrow> bool" where
  "harmless bh \<longleftrightarrow> (\<forall>s. bh s = [] \<or> \<not> is_digit (hd (bh s)))"

lemma atoi_block: "harmless bh \<Longrightarrow> atoi (dec_digits n @ bh s) = int n"
proof -
  assume h: "harmless bh"
  obtain c cs where c: "dec_digits n = c # cs" "is_digit c"
    using dec_digits_digits [of n] by (cases "dec_digits n") auto
  then have ns: "c \<noteq> CHR '' ''" "c \<noteq> CHR ''-''" "c \<noteq> CHR ''+''" using is_digit_not by auto
  have "takeWhile is_digit (bh s) = []" using h by (cases "bh s") (auto simp: harmless_def dest: spec [of _ s])
  moreover have d: "\<forall>x\<in>set (dec_digits n). is_digit x" using dec_digits_digits [of n] by (simp add: list_all_iff)
  moreover have "takeWhile is_digit (dec_digits n @ bh s) = dec_digits n @ takeWhile is_digit (bh s)"
    by (rule takeWhile_append2) (use d in blast)
  moreover have "takeWhile is_digit (dec_digits n) = dec_digits n" using d by (rule takeWhile_eq_all_conv [THEN iffD2])
  ultimately have "takeWhile is_digit (dec_digits n @ bh s) = takeWhile is_digit (dec_digits n)" by (metis append_Nil2)
  then have "Decision_Tree.digits_value (dec_digits n @ bh s) = int n"
    using digits_value_dec_digits [of n] by (simp add: Decision_Tree.digits_value_def)
  with ns c show ?thesis by (simp add: atoi_def)
qed

lemma dec_digits_no: "\<not> is_digit c \<Longrightarrow> c \<notin> set (dec_digits n)"
  using dec_digits_digits [of n] by (auto simp: list_all_iff)

lemma search_at_index:
  "nul_free l \<Longrightarrow> nul_free t \<Longrightarrow> t \<noteq> [] \<Longrightarrow> i \<le> length l \<Longrightarrow>
   search_at (l @ NUL # r) (int i) t = Some (found_at (index_of (drop i l) t))"
  using strlinger_index [of "drop i l" t r] by (simp add: search_at_def nul_free_def) (meson in_set_dropD)

text \<open>A number between a position and a blank.\<close>

lemma word_at_number:
  assumes "l = u @ dec_digits n @ CHR '' '' # v" "nul_free l"
  shows "word_at (l @ NUL # r) (int (length u)) = Some (Some (dec_digits n), int (length u + length (dec_digits n)))"
proof -
  have "index_of (dec_digits n @ CHR '' '' # v) '' '' = Some (length (dec_digits n))"
    by (rule index_of_char) (simp add: dec_digits_no is_digit_not)
  moreover have "dec_digits n \<noteq> []" using dec_digits_digits by blast
  ultimately show ?thesis
    using search_at_index [OF assms(2), of "'' ''" "length u" r]
    by (simp add: assms(1) word_at_def block_def nul_free_def NUL_def)
qed

lemma word_at_offset:
  "l = u @ dec_digits n @ '' '' @ v \<Longrightarrow> nul_free l \<Longrightarrow> i = int (length u) \<Longrightarrow>
   word_at (l @ NUL # r) i = Some (Some (dec_digits n), i + int (length (dec_digits n)))"
  using word_at_number [of l u n v r] by simp

lemma flow_line_other:
  assumes "nul_free l" "index_of l (ss_ip_src t) = None" "nul_free (ss_ip_src t)" "ss_ip_src t \<noteq> []"
    and "nul_free (ss_ip_dst t)" "ss_ip_dst t \<noteq> []"
  shows "flow_line bh t (fgets l line) = Some False"
  using strlinger_index [of l "ss_ip_src t"] strlinger_index [of l "ss_ip_dst t"] assms
  by (simp add: flow_line_def fgets_def c_string_def)

text \<open>The line of \<^verbatim>\<open>ss\<close> that is about a flow.\<close>

definition flow_text :: "tcp_ss \<Rightarrow> string \<Rightarrow> string \<Rightarrow> string \<Rightarrow> string" where
  "flow_text t pre mid post =
    pre @ ss_ip_src t @ '':'' @ dec_digits (unat (ss_src_port t)) @ '' '' @ mid @
    ss_ip_dst t @ '':'' @ dec_digits (unat (ss_dst_port t)) @ '' '' @ post"

definition flow_text_ok :: "tcp_ss \<Rightarrow> string \<Rightarrow> string \<Rightarrow> string \<Rightarrow> bool" where
  "flow_text_ok t pre mid post \<longleftrightarrow>
     nul_free (flow_text t pre mid post) \<and> ss_ip_src t \<noteq> [] \<and> ss_ip_dst t \<noteq> [] \<and>
     CHR '':'' \<notin> set (pre @ ss_ip_src t @ mid @ ss_ip_dst t) \<and>
     index_of (flow_text t pre mid post) (ss_ip_src t) \<noteq> Some 0 \<and>
     index_of (flow_text t pre mid post) (ss_ip_dst t) \<noteq> Some 0"

lemma dst_port_number: "harmless bh \<Longrightarrow> dst_port bh (dec_digits n) = int n"
proof -
  assume h: "harmless bh"
  obtain c cs where c: "dec_digits n = c # cs" "is_digit c"
    using dec_digits_digits [of n] by (cases "dec_digits n") auto
  then have "c \<noteq> CHR ''h''" by (auto simp: is_digit_def)
  with c have "c_text (dec_digits n @ s) \<noteq> ''http''" "c_text (dec_digits n @ s) \<noteq> ''https''" for s
    by (auto simp: c_text_def)
  with atoi_block [OF h] show ?thesis by (simp add: dst_port_def)
qed

lemma flow_lineI:
  assumes "strlinger line (c_string (ss_ip_src t)) = Some i" "strlinger line (c_string (ss_ip_dst t)) = Some j" "0 < i" "0 < j"
    and "search_at line i '':'' = Some k" "word_at line w = Some (Some str, e)" "w = k + 1 + i"
    and "atoi (str @ bh str) = uint (ss_src_port t)"
    and "search_at line e '':'' = Some k'" "word_at line w' = Some (Some str', e')" "w' = k' + e + 1"
    and "dst_port bh str' = uint (ss_dst_port t)"
  shows "flow_line bh t line = Some True"
  using assms by (simp add: flow_line_def)

lemma flow_line_hit:
  assumes ok: "flow_text_ok t pre mid post" and h: "harmless bh"
  shows "flow_line bh t (fgets (flow_text t pre mid post) line) = Some True"
proof -
  let ?l = "flow_text t pre mid post" and ?sp = "dec_digits (unat (ss_src_port t))" and ?dp = "dec_digits (unat (ss_dst_port t))"
  let ?r = "drop (Suc (length ?l)) line"
  let ?a = "length (pre @ ss_ip_src t) + 1"
  let ?u = "pre @ ss_ip_src t @ '':'' @ ?sp @ '' '' @ mid @ ss_ip_dst t @ '':''"
  from ok have n: "nul_free ?l" "nul_free (ss_ip_src t)" "nul_free (ss_ip_dst t)" "ss_ip_src t \<noteq> []" "ss_ip_dst t \<noteq> []"
    and c: "CHR '':'' \<notin> set (pre @ ss_ip_src t @ mid @ ss_ip_dst t)"
    by (auto simp: flow_text_ok_def flow_text_def nul_free_def)
  have buf: "fgets ?l line = ?l @ NUL # ?r" by (simp add: fgets_def c_string_def)
  obtain i where i: "index_of ?l (ss_ip_src t) = Some i" "i \<le> length pre" "0 < i"
    using index_of_occurs [OF n(4), of pre] ok by (force simp: flow_text_def flow_text_ok_def)
  obtain j where j: "index_of ?l (ss_ip_dst t) = Some j" "0 < j"
    using index_of_occurs [OF n(5), of "pre @ ss_ip_src t @ '':'' @ ?sp @ '' '' @ mid"] ok
    by (force simp: flow_text_def flow_text_ok_def)
  have "index_of (drop i ?l) '':'' = Some (length (drop i (pre @ ss_ip_src t)))"
    using index_of_char [of "CHR '':''" "drop i (pre @ ss_ip_src t)"] c i(2) in_set_dropD
    by (fastforce simp: flow_text_def)
  with search_at_index [OF n(1), of "'':''" i ?r] i
  have colon1: "search_at (?l @ NUL # ?r) (int i) '':'' = Some (int (?a - 1 - i))"
    by (simp add: nul_free_def NUL_def flow_text_def)
  have word1: "word_at (?l @ NUL # ?r) (int ?a) = Some (Some ?sp, int (?a + length ?sp))"
    using word_at_number [of ?l "pre @ ss_ip_src t @ '':''" "unat (ss_src_port t)" _ ?r, OF _ n(1)]
    by (simp add: flow_text_def)
  have "index_of (drop (?a + length ?sp) ?l) '':'' = Some (length ('' '' @ mid @ ss_ip_dst t))"
    using index_of_char [of "CHR '':''" "'' '' @ mid @ ss_ip_dst t"] c by (simp add: flow_text_def)
  with search_at_index [OF n(1), of "'':''" "?a + length ?sp" ?r]
  have colon2: "search_at (?l @ NUL # ?r) (int (?a + length ?sp)) '':'' = Some (int (length ('' '' @ mid @ ss_ip_dst t)))"
    by (simp add: nul_free_def NUL_def flow_text_def)
  have word2: "word_at (?l @ NUL # ?r) (int (length ?u)) = Some (Some ?dp, int (length ?u + length ?dp))"
    by (rule word_at_number [OF _ n(1)]) (simp add: flow_text_def)
  show ?thesis
    unfolding buf
  proof (rule flow_lineI [OF _ _ _ _ colon1 word1 _ _ colon2 word2])
    show "strlinger (?l @ NUL # ?r) (c_string (ss_ip_src t)) = Some (int i)"
      "strlinger (?l @ NUL # ?r) (c_string (ss_ip_dst t)) = Some (int j)"
      using strlinger_index [OF n(1,2,4), of ?r] strlinger_index [OF n(1,3,5), of ?r] i j by simp_all
    show "int ?a = int (?a - 1 - i) + 1 + int i"
      "int (length ?u) = int (length ('' '' @ mid @ ss_ip_dst t)) + int (?a + length ?sp) + 1" using i(2) by simp_all
    show "atoi (?sp @ bh ?sp) = uint (ss_src_port t)" "dst_port bh ?dp = uint (ss_dst_port t)"
      by (simp_all add: atoi_block [OF h] dst_port_number [OF h])
  qed (use i j in simp_all)
qed

text \<open>The line after it, with the window: a word and a colon before each number.\<close>

definition window_text_ok :: "string \<Rightarrow> nat \<Rightarrow> nat \<Rightarrow> bool" where
  "window_text_ok l c m \<longleftrightarrow> nul_free l \<and>
     (\<exists>x y. l = x @ ''cwnd:'' @ dec_digits c @ '' '' @ y \<and> index_of l ''cwnd'' = Some (length x)) \<and>
     (\<exists>x y. l = x @ ''mss:'' @ dec_digits m @ '' '' @ y \<and> index_of l ''mss'' = Some (length x))"

lemma window_line_hit:
  assumes ok: "window_text_ok l c m" and h: "harmless bh"
  shows "window_line bh (fgets l line) = Some (Some (int c), Some (int m))"
proof -
  let ?r = "drop (Suc (length l)) line"
  obtain x y x' y' where n: "nul_free l"
    and x: "l = x @ ''cwnd:'' @ dec_digits c @ '' '' @ y" "index_of l ''cwnd'' = Some (length x)"
    and x': "l = x' @ ''mss:'' @ dec_digits m @ '' '' @ y'" "index_of l ''mss'' = Some (length x')"
    using ok unfolding window_text_ok_def by blast
  have "strlinger (l @ NUL # ?r) (c_string ''cwnd'') = Some (int (length x))"
    "strlinger (l @ NUL # ?r) (c_string ''mss'') = Some (int (length x'))"
    using strlinger_index [OF n, of "''cwnd''" ?r] strlinger_index [OF n, of "''mss''" ?r] x(2) x'(2)
    by (simp_all add: nul_free_def NUL_def)
  moreover have "word_at (l @ NUL # ?r) (int (length x) + 5) = Some (Some (dec_digits c), int (length x) + 5 + int (length (dec_digits c)))"
    by (rule word_at_offset [of _ "x @ ''cwnd:''", OF _ n]) (use x(1) in simp_all)
  moreover have "word_at (l @ NUL # ?r) (int (length x') + 4) = Some (Some (dec_digits m), int (length x') + 4 + int (length (dec_digits m)))"
    by (rule word_at_offset [of _ "x' @ ''mss:''", OF _ n]) (use x'(1) in simp_all)
  ultimately show ?thesis by (simp add: window_line_def fgets_def c_string_def atoi_block [OF h])
qed

section \<open>The answers\<close>

text \<open>Lines on which the source address of a flow does not occur.\<close>

definition other_lines :: "tcp_ss \<Rightarrow> string list \<Rightarrow> bool" where
  "other_lines t ls \<longleftrightarrow> (\<forall>l\<in>set ls. nul_free l \<and> index_of l (ss_ip_src t) = None)"

definition addresses_ok :: "tcp_ss \<Rightarrow> bool" where
  "addresses_ok t \<longleftrightarrow> nul_free (ss_ip_src t) \<and> ss_ip_src t \<noteq> [] \<and> nul_free (ss_ip_dst t) \<and> ss_ip_dst t \<noteq> []"

text \<open>They are passed over; what follows is read with another content of the buffer.\<close>

lemma scan_lines_other:
  assumes "other_lines t ls" "addresses_ok t"
  shows "\<exists>line'. \<forall>rest. scan_lines bh t line (ls @ rest) s = scan_lines bh t line' rest s"
  using assms(1)
proof (induction ls arbitrary: line)
  case Nil
  then show ?case by auto
next
  case (Cons l ls)
  obtain found w where s: "s = (found, w)" by (cases s)
  have "flow_line bh t (fgets l line) = Some False"
    using flow_line_other [of l t] Cons.prems assms(2) by (simp add: other_lines_def addresses_ok_def)
  moreover have "other_lines t ls" using Cons.prems by (simp add: other_lines_def)
  ultimately show ?case using Cons.IH [of "fgets l line"] by (simp add: s Let_def)
qed

lemma scan_lines_only_other:
  "other_lines t ls \<Longrightarrow> addresses_ok t \<Longrightarrow> scan_lines bh t line ls s = Some s"
  using scan_lines_other [of t ls bh line s] by (metis append_Nil2 scan_lines.simps(1) surj_pair)

lemma scan_lines_hit:
  assumes "flow_text_ok t pre mid post" "window_text_ok win c m" "harmless bh"
  shows "\<exists>line'. scan_lines bh t line (flow_text t pre mid post # win # rest) s =
           scan_lines bh t line' rest (True, \<lparr>cm_cwnd = int c, cm_mss = int m\<rparr>)"
  using flow_line_hit [OF assms(1,3)] window_line_hit [OF assms(2,3)]
  by (cases s) (auto simp: Let_def)

text \<open>The host has the flow, with its window and segment size, and no other socket with its source.\<close>

definition serves :: "host \<Rightarrow> tcp_ss \<Rightarrow> nat \<Rightarrow> nat \<Rightarrow> bool" where
  "serves hst t c m \<longleftrightarrow> harmless (behind hst) \<and> int c * int m < 2 ^ 31 \<and>
     (\<exists>before pre mid post win after. ss_output hst = before @ [flow_text t pre mid post, win] @ after \<and>
        other_lines t before \<and> other_lines t after \<and> flow_text_ok t pre mid post \<and> window_text_ok win c m)"

lemma server_answer_serves:
  assumes "serves hst t c m"
  shows "server_answer hst t = Some \<lparr>cm_cwnd = int c, cm_mss = int m\<rparr>"
proof -
  from assms obtain before pre mid post win after where
    o: "ss_output hst = before @ [flow_text t pre mid post, win] @ after" "other_lines t before" "other_lines t after"
      "flow_text_ok t pre mid post" "window_text_ok win c m" and h: "harmless (behind hst)"
    unfolding serves_def by blast
  have a: "addresses_ok t" using o(4) by (auto simp: flow_text_ok_def addresses_ok_def flow_text_def nul_free_def)
  let ?w = "\<lparr>cm_cwnd = int c, cm_mss = int m\<rparr>" and ?bh = "behind hst" and ?s0 = "(False, \<lparr>cm_cwnd = 0, cm_mss = 0\<rparr>)"
  obtain line1 where "scan_lines ?bh t (stack_line hst) (ss_output hst) ?s0 =
      scan_lines ?bh t line1 (flow_text t pre mid post # win # after) ?s0"
    using scan_lines_other [OF o(2) a, of ?bh "stack_line hst" ?s0] o(1) by auto
  moreover obtain line2 where "scan_lines ?bh t line1 (flow_text t pre mid post # win # after) ?s0 =
      scan_lines ?bh t line2 after (True, ?w)"
    using scan_lines_hit [OF o(4,5) h] by blast
  ultimately have "scan_lines ?bh t (stack_line hst) (ss_output hst) ?s0 = Some (True, ?w)"
    using scan_lines_only_other [OF o(3) a] by simp
  then show ?thesis by (simp add: server_answer_def)
qed

lemma local_command_serves:
  assumes "serves hst t c m" "hosts (ss_ip_src t) = Some hst"
  shows "local_command hosts t = Some (window_command t (int c * int m))"
proof -
  have "- (2 ^ 31) \<le> int c * int m" by (rule order.trans [of _ 0]) simp_all
  moreover have "int c * int m < 2 ^ 31" using assms(1) by (simp add: serves_def)
  ultimately have "signed_take_bit 31 (int c * int m) = int c * int m" by (rule signed_take_bit_int_eq_self)
  with server_answer_serves [OF assms(1)] assms(2) show ?thesis by (simp add: local_command_def show_window_def)
qed

text \<open>
  The function that finds one string in another (the server's \<^verbatim>\<open>strlinger\<close>, which it uses
  for addresses, ports, windows and blanks) gives the first position at which the string occurs, and
  -1 when it occurs nowhere, whatever the buffer holds behind the terminator; so a result i that is
  not negative splits the text at an occurrence with none before.
\<close>

theorem strlinger_finds:
  assumes "nul_free s" "nul_free t" "t \<noteq> []"
  shows "\<exists>i. strlinger (s @ NUL # r) (c_string t) = Some i \<and>
    (i = -1 \<longleftrightarrow> (\<nexists>x y. s = x @ t @ y)) \<and>
    (i \<noteq> -1 \<longrightarrow> (\<exists>x y. s = x @ t @ y \<and> int (length x) = i) \<and>
       (\<forall>x y. s = x @ t @ y \<longrightarrow> i \<le> int (length x)))"
proof (cases "index_of s t")
  case None
  then show ?thesis
    using strlinger_index [OF assms, of r] index_of_None [OF assms(3), of s] by simp
next
  case (Some i)
  then show ?thesis
    using strlinger_index [OF assms, of r] index_of_Some [OF assms(3), of s i] by auto
qed

lemma strlinger_finds_witness:
  "\<exists>i. strlinger (''ab:cd:e'' @ NUL # ''zz'') (c_string '':'') = Some i \<and> (\<forall>x y. ''ab:cd:e'' = x @ '':'' @ y \<longrightarrow> i \<le> int (length x))"
proof -
  have "''ab:cd:e'' = ''ab'' @ '':'' @ ''cd:e''" by simp
  then show ?thesis
    using strlinger_finds [of "''ab:cd:e''" "'':''" "''zz''"] by (force simp: nul_free_def NUL_def)
qed

text \<open>
  When the sockets of the host contain the flow, and the line of no other socket contains its
  source address, the answer is the window and the segment size of exactly that flow, wherever its
  line stands in the output and whatever was in the buffers, and the command that is printed sets
  their product as the window of the flow.
\<close>

theorem server_answers:
  assumes "ss_output hst = before @ [flow_text t pre mid post, win] @ after"
    and "other_lines t before" "other_lines t after"
    and "flow_text_ok t pre mid post" "window_text_ok win c m" "harmless (behind hst)"
    and "hosts (ss_ip_src t) = Some hst" "int c * int m < 2 ^ 31"
  shows "server_answer hst t = Some \<lparr>cm_cwnd = int c, cm_mss = int m\<rparr>
    \<and> local_command hosts t = Some (window_command t (int c * int m))"
proof -
  have "serves hst t c m" unfolding serves_def using assms(1-6,8) by blast
  then show ?thesis using server_answer_serves local_command_serves assms(7) by blast
qed


definition sample_flow :: tcp_ss where
  "sample_flow = \<lparr>ss_state = 0, ss_ip_src = ''10.0.0.7'', ss_ip_dst = ''10.0.0.9'', ss_src_port = 80, ss_dst_port = 443, ss_cwnd = 0\<rparr>"

definition sample_host :: "string list \<Rightarrow> host" where
  "sample_host ls = \<lparr>ss_output = ls, stack_line = [], behind = (\<lambda>_. [])\<rparr>"

definition sample_output :: "string list" where
  "sample_output = [''State''] @ [flow_text sample_flow ''ESTAB '' [] [], '' cubic mss:1448 cwnd:10 rtt''] @ [''LISTEN 127.0.0.1:22'']"

lemma sample_texts:
  "window_text_ok '' cubic mss:1448 cwnd:10 rtt'' 10 1448" "flow_text_ok sample_flow ''ESTAB '' [] []"
  "other_lines sample_flow [''State'']" "other_lines sample_flow [''LISTEN 127.0.0.1:22'']"
proof -
  have d: "dec_digits 10 = ''10''" "dec_digits 1448 = ''1448''" by code_simp+
  show "window_text_ok '' cubic mss:1448 cwnd:10 rtt'' 10 1448"
    unfolding window_text_ok_def d
  proof (intro conjI exI)
    show "'' cubic mss:1448 cwnd:10 rtt'' = '' cubic mss:1448 '' @ ''cwnd:'' @ ''10'' @ '' '' @ ''rtt''"
      "'' cubic mss:1448 cwnd:10 rtt'' = '' cubic '' @ ''mss:'' @ ''1448'' @ '' '' @ ''cwnd:10 rtt''" by simp_all
  qed code_simp+
  show "flow_text_ok sample_flow ''ESTAB '' [] []" "other_lines sample_flow [''State'']"
    "other_lines sample_flow [''LISTEN 127.0.0.1:22'']" by code_simp+
qed

lemma server_answers_witness:
  "local_command [''10.0.0.7'' \<mapsto> sample_host sample_output] sample_flow = Some (window_command sample_flow (10 * 1448))"
  using server_answers [of "sample_host sample_output" "[''State'']" sample_flow "''ESTAB ''" "[]" "[]"
      "'' cubic mss:1448 cwnd:10 rtt''" "[''LISTEN 127.0.0.1:22'']" 10 1448 "[''10.0.0.7'' \<mapsto> sample_host sample_output]"]
    sample_texts
  by (simp add: sample_host_def sample_output_def harmless_def sample_flow_def)

text \<open>
  A flow that no socket of the host belongs to is answered with -1 for both numbers; the
  client multiplies them, so the command for it sets a window of 1.
\<close>

theorem unknown_flow_window_one:
  assumes "hosts (ss_ip_src t) = Some hst" "other_lines t (ss_output hst)" "addresses_ok t"
  shows "server_answer hst t = Some \<lparr>cm_cwnd = -1, cm_mss = -1\<rparr> \<and> local_command hosts t = Some (window_command t 1)"
proof -
  have a: "server_answer hst t = Some \<lparr>cm_cwnd = -1, cm_mss = -1\<rparr>"
    using scan_lines_only_other [OF assms(2,3)] by (simp add: server_answer_def)
  then show ?thesis using assms(1) by (simp add: local_command_def show_window_def)
qed

lemma unknown_flow_window_one_witness:
  "local_command [''10.0.0.7'' \<mapsto> sample_host [''LISTEN 127.0.0.1:22'']] sample_flow = Some (window_command sample_flow 1)"
proof -
  have "other_lines sample_flow [''LISTEN 127.0.0.1:22'']" "addresses_ok sample_flow" by code_simp+
  then show ?thesis
    using unknown_flow_window_one [of "[''10.0.0.7'' \<mapsto> sample_host [''LISTEN 127.0.0.1:22'']]" sample_flow "sample_host [''LISTEN 127.0.0.1:22'']"]
    by (simp add: sample_host_def sample_flow_def)
qed

text \<open>The flow of the example as the kernel reports it: the addresses in network order.\<close>

definition sample_layout :: layout where
  "sample_layout = example_layout\<lparr>as_tcp_flow := (\<lambda>b. zero_tcp_flow\<lparr>tf_packets := ucast (b ! 0), tf_eth_src := replicate 6 (b ! 1),
     tf_eth_dst := replicate 6 (b ! 2), tf_ip_src := 0x0A000007, tf_ip_dst := 0x0A000009, tf_sourceaddr := 0x5000, tf_destination := 0xBB01\<rparr>)\<rparr>"

lemma sample_serves: "serves (sample_host sample_output) sample_flow 10 1448"
  unfolding serves_def
proof (intro conjI exI)
  show "ss_output (sample_host sample_output) = [''State''] @ [flow_text sample_flow ''ESTAB '' [] [], '' cubic mss:1448 cwnd:10 rtt''] @
      [''LISTEN 127.0.0.1:22'']" by (simp add: sample_host_def sample_output_def)
qed (use sample_texts in \<open>simp_all add: sample_host_def harmless_def\<close>)

lemma sample_tcpinfo: "tcpinfo (as_tcp_flow sample_layout [3, 1, 2]) = sample_flow"
  by code_simp


end
