(* ===== verification/Window_Query.thy ===== *)
theory Window_Query
  imports Window_Server
begin

text \<open>
  How \<^verbatim>\<open>create_tree/createtree.c\<close> acts on its decision: it asks the host of the chosen flow for its
  window over a TCP connection and prints the command that sets it, round after round with the
  same connection.

  The messages that the kernel sends are a list, decoded by the layout of the structures, which is an
  argument like the servers that can be connected to.  None is a round that does not end: the
  program waits for a message, exits because it cannot connect, or the tree is not a tree.
\<close>

section \<open>The command\<close>

definition set_cwnd :: "user_flow \<Rightarrow> int \<Rightarrow> string \<times> user_flow" where
  "set_cwnd tflow window =
    (let f = tflow\<lparr>uf_winsize := reversebytes_be16t (uf_winsize tflow),
           uf_sourceaddr := reversebytes_be16t (uf_sourceaddr tflow), uf_destination := reversebytes_be16t (uf_destination tflow)\<rparr>;
         buff = ''ovs-ofctl add-flow br0 -O openflow13 tcp,nw_dst='' @ dotted (rev (be_bytes 4 (uf_ip_src tflow))) @
           '',nw_dst='' @ dotted (rev (be_bytes 4 (uf_ip_dst tflow))) @ '',tcp_src='' @ show_int (uint (uf_sourceaddr f)) @
           '',tcp_dst='' @ show_int (uint (uf_destination f)) @ '',actions=mod_tp_dst:'' @ show_int window
     in (take 200 buff, f))"

section \<open>The connection\<close>

type_synonym servers = "string \<Rightarrow> u16 \<Rightarrow> (tcp_ss \<Rightarrow> cwnd_mss option) option"

record query_state =
  sock :: "(string \<times> u16) option"
  queries :: "((string \<times> u16) \<times> tcp_ss) list"
  commands :: "string list"

definition query_init :: query_state where
  "query_init = \<lparr>sock = None, queries = [], commands = []\<rparr>"

definition ppp :: "servers \<Rightarrow> u16 \<Rightarrow> string \<Rightarrow> (string \<times> u16) option" where
  "ppp srv port_linger ip_linger = (if srv ip_linger port_linger = None then None else Some (ip_linger, port_linger))"

text \<open>The product of the answer, or 0 when nothing is read.\<close>

definition check_cwnd :: "servers \<Rightarrow> string \<times> u16 \<Rightarrow> tcp_ss \<Rightarrow> int" where
  "check_cwnd srv s q =
    (case srv (fst s) (snd s) of
       None \<Rightarrow> 0
     | Some answer \<Rightarrow> (case answer q of None \<Rightarrow> 0 | Some w \<Rightarrow> show_window w))"

definition flow_query :: "user_flow \<Rightarrow> tcp_ss" where
  "flow_query f = \<lparr>ss_state = 0, ss_ip_src = dotted (be_bytes 4 (uf_ip_src f)), ss_ip_dst = dotted (be_bytes 4 (uf_ip_dst f)),
     ss_src_port = uf_sourceaddr f, ss_dst_port = uf_destination f, ss_cwnd = 0\<rparr>"

definition control_flow :: "servers \<Rightarrow> user_flow \<Rightarrow> query_state \<Rightarrow> query_state option" where
  "control_flow srv f s =
    (if uf_sec f = 0 then Some s
     else
       map_option (\<lambda>sk.
         s\<lparr>sock := Some sk, queries := queries s @ [(sk, flow_query f)],
           commands := commands s @ [fst (set_cwnd f (check_cwnd srv sk (flow_query f)))]\<rparr>)
       (case sock s of None \<Rightarrow> ppp srv (uf_sourceaddr f) (ss_ip_src (flow_query f)) | Some sk \<Rightarrow> Some sk))"

section \<open>A round\<close>

record user_layout =
  as_states :: "bytes \<Rightarrow> user_apstates"
  as_flow :: "bytes \<Rightarrow> user_flow"

record 'f user_floats =
  uf_atof :: "string \<Rightarrow> 'f"
  uf_scaled :: "int \<Rightarrow> 'f"
  uf_plain :: "int \<Rightarrow> 'f"

text \<open>
  The answer to \<^verbatim>\<open>states\<close>; when the tree decides, ten flows, the fastest station and the flows with
  their windows, of which the last two are printed only.
\<close>

definition main_round ::
  "user_layout \<Rightarrow> 'f user_floats \<Rightarrow> servers \<Rightarrow> 'f::{linorder,zero} treenode \<Rightarrow> bytes list \<times> query_state \<Rightarrow> (bytes list \<times> query_state) option"
where
  "main_round lay fl srv tnode = (\<lambda>(ms, s).
    case ms of
      [] \<Rightarrow> None
    | m # ms1 \<Rightarrow>
        if take 8 m = nonedata then Some (ms1, s)
        else
          Option.bind (bst_search tnode (fstates (uf_scaled fl) (uf_plain fl) (as_states lay m))) (\<lambda>search_results.
            if search_results = Null then Some (ms1, s)
            else if length ms1 < 12 then None
            else map_option (\<lambda>s'. (drop 12 ms1, s')) (control_flow srv (max_flow (map (as_flow lay) (take 10 ms1))) s)))"

text \<open>
  The loop of \<^verbatim>\<open>main\<close>: a tree is read and used in every round; the servers may answer differently
  from round to round.
\<close>

fun main_loop ::
  "user_layout \<Rightarrow> 'f::{linorder,zero} user_floats \<Rightarrow> (servers \<times> string) list \<Rightarrow> bytes list \<times> query_state \<Rightarrow> (bytes list \<times> query_state) option"
where
  "main_loop lay fl [] st = Some st"
| "main_loop lay fl ((srv, txt) # rounds) st =
    Option.bind (create_tree (init_rawdata (uf_atof fl) txt)) (\<lambda>tnode.
    Option.bind (main_round lay fl srv tnode st) (main_loop lay fl rounds))"

section \<open>The length of a command\<close>

lemma length_dec_digits: "n < 10 ^ k \<Longrightarrow> 0 < k \<Longrightarrow> length (dec_digits n) \<le> k"
proof (induction k arbitrary: n)
  case (Suc k)
  show ?case
  proof (cases "n < 10")
    case True
    then show ?thesis by (subst dec_digits.simps) simp
  next
    case False
    then have "0 < k" using Suc.prems by (cases k) auto
    moreover have "n div 10 < 10 ^ k" using Suc.prems by (simp add: less_mult_imp_div_less mult.commute)
    ultimately have "length (dec_digits (n div 10)) \<le> k" by (rule Suc.IH [rotated])
    with False show ?thesis by (subst dec_digits.simps) simp
  qed
qed simp

lemma length_octet: "length (dec_digits (unat (b :: u8))) \<le> 3"
proof (rule length_dec_digits)
  show "unat b < 10 ^ 3" using unsigned_less [of b, where ?'a = nat] by simp
qed simp

lemma length_dotted: "length (dotted b) \<le> 15"
  using length_octet [of "b ! 0"] length_octet [of "b ! 1"] length_octet [of "b ! 2"] length_octet [of "b ! 3"]
  by (simp add: dotted_def)

lemma length_show_int: "\<bar>n\<bar> < 10 ^ k \<Longrightarrow> 0 < k \<Longrightarrow> length (show_int n) \<le> k + (if n < 0 then 1 else 0)"
  using length_dec_digits [of "nat \<bar>n\<bar>" k] by (auto simp: show_int_def nat_less_iff abs_if split: if_splits)

lemma length_port: "length (show_int (uint (p :: u16))) \<le> 5"
  using length_show_int [of "uint p" 5] unsigned_less [of p, where ?'a = int] by (simp add: not_less)

lemma length_window: "- (2 ^ 31) \<le> w \<Longrightarrow> w < 2 ^ 31 \<Longrightarrow> length (show_int w) \<le> 11"
proof -
  assume "- (2 ^ 31) \<le> w" "w < 2 ^ 31"
  then have "\<bar>w\<bar> < 10 ^ 10" by (simp add: abs_less_iff)
  then show ?thesis using length_show_int [of w 10] by (simp split: if_splits)
qed

text \<open>The text with the octets of the addresses as they are printed.\<close>

definition command_text :: "string \<Rightarrow> string \<Rightarrow> u16 \<Rightarrow> u16 \<Rightarrow> int \<Rightarrow> string" where
  "command_text a b sp dp w =
    ''ovs-ofctl add-flow br0 -O openflow13 tcp,nw_dst='' @ a @ '',nw_dst='' @ b @ '',tcp_src='' @ show_int (uint sp) @
    '',tcp_dst='' @ show_int (uint dp) @ '',actions=mod_tp_dst:'' @ show_int w"

lemma length_command_text:
  assumes "- (2 ^ 31) \<le> w" "w < 2 ^ 31" "length a \<le> 15" "length b \<le> 15"
  shows "length (command_text a b sp dp w) < 200"
  using length_window [OF assms(1,2)] length_port [of sp] length_port [of dp] assms(3,4) by (simp add: command_text_def)

section \<open>Rounds\<close>

lemma max_flow_max:
  "(max_flow fs = zero_flow \<or> max_flow fs \<in> set fs) \<and> (\<forall>g\<in>set fs. uf_packets g \<le> uf_packets (max_flow fs))"
proof (induction fs rule: rev_induct)
  case (snoc f fs)
  have "max_flow (fs @ [f]) = (if uf_packets (max_flow fs) < uf_packets f then f else max_flow fs)"
    by (simp add: max_flow_def)
  with snoc show ?case by force
qed (simp add: max_flow_def)

text \<open>The connection is that of the first flow, and everything is asked there.\<close>

definition one_server :: "query_state \<Rightarrow> bool" where
  "one_server s \<longleftrightarrow>
     (case sock s of
        None \<Rightarrow> queries s = [] \<and> commands s = []
      | Some sk \<Rightarrow> queries s \<noteq> [] \<and> length (commands s) = length (queries s) \<and> (\<forall>q\<in>set (queries s). fst q = sk) \<and>
          sk = (ss_ip_src (snd (hd (queries s))), ss_src_port (snd (hd (queries s)))))"

lemma control_flow_one_server:
  "control_flow srv f s = Some s' \<Longrightarrow> one_server s \<Longrightarrow> one_server s'"
  by (auto simp: control_flow_def one_server_def ppp_def flow_query_def split: if_splits option.splits) fastforce+

lemma main_round_one_server:
  "main_round lay fl srv tnode (ms, s) = Some (ms', s') \<Longrightarrow> one_server s \<Longrightarrow> one_server s'"
  by (auto simp: main_round_def bind_eq_Some_conv split: list.splits if_splits dest: control_flow_one_server)

lemma main_loop_one_server:
  "main_loop lay fl rounds (ms, s) = Some (ms', s') \<Longrightarrow> one_server s \<Longrightarrow> one_server s'"
proof (induction rounds arbitrary: ms s)
  case (Cons r rounds)
  then show ?case by (cases r) (auto simp: bind_eq_Some_conv dest: main_round_one_server)
qed simp

section \<open>Properties\<close>


text \<open>
  C29.  Whatever is decided in later rounds, the connection of the first round is kept: every flow is
  asked for at the host of the first flow that was controlled.
\<close>

theorem later_rounds_ask_first_host:
  assumes "main_loop lay fl rounds (ms, query_init) = Some (ms', s)" "q \<in> set (queries s)"
  shows "fst q = (ss_ip_src (snd (hd (queries s))), ss_src_port (snd (hd (queries s))))"
proof -
  have "one_server s" using main_loop_one_server [OF assms(1)] by (simp add: one_server_def query_init_def)
  with assms(2) show ?thesis by (auto simp: one_server_def split: option.splits)
qed

text \<open>
  The program as it is never sets a window: with the tree that is built in every round takes
  the one message with the state, asks no host and prints no command.
\<close>

theorem builtin_rounds_do_nothing:
  assumes "length rounds \<le> length ms" "\<forall>r\<in>set rounds. snd r = get_openflow_input"
  shows "main_loop lay fl rounds (ms, s) = Some (drop (length rounds) ms, s)"
  using assms
proof (induction rounds arbitrary: ms)
  case (Cons r rounds)
  obtain srv where r: "r = (srv, get_openflow_input)" using Cons.prems(2) by (cases r) auto
  obtain m ms1 where m: "ms = m # ms1" using Cons.prems(1) by (cases ms) auto
  obtain l rr where t: "create_tree (init_rawdata (uf_atof fl) get_openflow_input) =
      Some (Node 0 ''requeues_3'' (uf_atof fl ''5158.975'') 0 l rr)"
    using builtin_root [of "uf_atof fl"] builtin_tree_built [of "uf_atof fl"] by auto
  have "main_round lay fl srv (Node 0 ''requeues_3'' (uf_atof fl ''5158.975'') 0 l rr) (ms, s) = Some (ms1, s)"
    by (simp add: m main_round_def bst_search_def fstates_def named_def)
  with Cons m t show ?case by (simp add: r)
qed simp

text \<open>Instances: a tree that always decides, flows that are told apart by the first byte of their message.\<close>

definition sample_layout :: user_layout where
  "sample_layout = \<lparr>as_states = (\<lambda>_. \<lparr>ua_sec = 1, ua_usec = 0, ua_drop_count = 0, ua_time = 0, ua_time_busy = 0,
       ua_time_ext_busy = 0, ua_time_rx = 0, ua_time_tx = 0, ua_time_scan = 0, ua_noise = 0, ua_stations = 0,
       ua_packets = 0, ua_bytes = 0, ua_qlen = 3, ua_backlog = 0, ua_drops = 0, ua_requeues = 0, ua_overlimits = 0, ua_pad = 0\<rparr>),
     as_flow = (\<lambda>b. zero_flow\<lparr>uf_ip_src := ucast (hd b), uf_sec := 1, uf_packets := 5\<rparr>)\<rparr>"

definition sample_floats :: "int user_floats" where
  "sample_floats = \<lparr>uf_atof = (\<lambda>_. 0), uf_scaled = id, uf_plain = id\<rparr>"

definition sample_tree_text :: string where
  "sample_tree_text = ''0,0,qlen,1,0|0,1,leaf,0,1|0,2,leaf,0,1''"

definition sample_messages :: "u8 \<Rightarrow> bytes list" where
  "sample_messages b = [0] # replicate 10 [b] @ [[], []]"

definition sample_servers :: servers where
  "sample_servers = (\<lambda>_ _. Some (\<lambda>_. Some \<lparr>cm_cwnd = 10, cm_mss = 1448\<rparr>))"

lemma sample_tree:
  "create_tree (init_rawdata (uf_atof sample_floats) sample_tree_text) =
    Some (Node 0 ''qlen'' 0 0 (Node 1 ''leaf'' 0 1 Null Null) (Node 2 ''leaf'' 0 1 Null Null))"
  by code_simp

lemma sample_search:
  "bst_search (Node 0 ''qlen'' 0 0 (Node 1 ''leaf'' 0 1 Null Null) (Node 2 ''leaf'' 0 1 Null Null))
     (fstates (uf_scaled sample_floats) (uf_plain sample_floats) (as_states sample_layout m)) =
   Some (Node 2 ''leaf'' 0 1 Null Null)"
  by (simp add: bst_search_def fstates_def named_def sample_floats_def sample_layout_def)

lemma max_flow_replicate: "0 < uf_packets f \<Longrightarrow> max_flow (replicate (Suc n) f) = f"
proof -
  have "foldl (\<lambda>m tmp. if uf_packets m < uf_packets tmp then tmp else m) f (replicate n f) = f" by (induction n) auto
  then show "0 < uf_packets f \<Longrightarrow> max_flow (replicate (Suc n) f) = f" by (simp add: max_flow_def zero_flow_def)
qed

lemma sample_max: "max_flow (map (as_flow sample_layout) (replicate 10 [b])) = as_flow sample_layout [b]"
  using max_flow_replicate [of "as_flow sample_layout [b]" 9] by (simp add: sample_layout_def del: replicate.simps)

lemma sample_round:
  "main_round sample_layout sample_floats srv (Node 0 ''qlen'' 0 0 (Node 1 ''leaf'' 0 1 Null Null) (Node 2 ''leaf'' 0 1 Null Null))
     (sample_messages b @ rest, s) = map_option (Pair rest) (control_flow srv (as_flow sample_layout [b]) s)"
proof -
  have "take 8 [0] \<noteq> nonedata" by (simp add: nonedata_def)
  then show ?thesis by (simp add: main_round_def sample_messages_def sample_search sample_max del: replicate_Suc map_replicate)
qed


theorem later_rounds_ask_first_host_witness:
  "\<exists>ms s. main_loop sample_layout sample_floats [(sample_servers, sample_tree_text), (sample_servers, sample_tree_text)]
      (sample_messages 7 @ sample_messages 9, query_init) = Some (ms, s) \<and> length (queries s) = 2 \<and>
    fst (queries s ! 1) = (ss_ip_src (snd (hd (queries s))), ss_src_port (snd (hd (queries s))))"
proof -
  let ?rounds = "[(sample_servers, sample_tree_text), (sample_servers, sample_tree_text)]"
  obtain s where r: "main_loop sample_layout sample_floats ?rounds (sample_messages 7 @ sample_messages 9, query_init) = Some ([], s)"
    and n: "length (queries s) = 2"
    using sample_round [of sample_servers 7 "sample_messages 9"] sample_round [of sample_servers 9 "[]"]
    by (simp add: sample_tree control_flow_def sample_servers_def ppp_def query_init_def sample_layout_def)
  have "queries s ! 1 \<in> set (queries s)" using n by simp
  from later_rounds_ask_first_host [OF r this] r n show ?thesis by blast
qed

theorem builtin_rounds_do_nothing_witness:
  "main_loop sample_layout sample_floats [(sample_servers, get_openflow_input)] ([[1]], query_init) = Some ([], query_init)"
  using builtin_rounds_do_nothing [of "[(sample_servers, get_openflow_input)]" "[[1]]" sample_layout sample_floats query_init] by simp

end
