(* ===== verification/Log_Files.thy ===== *)
theory Log_Files
  imports Window_Server
begin

text \<open>
  The names of the log files: \<^verbatim>\<open>start_threads\<close> and \<^verbatim>\<open>get_file_name\<close> of \<^verbatim>\<open>EXP/receive.c\<close>, and
  \<^verbatim>\<open>start_threads\<close> of \<^verbatim>\<open>6667.c\<close>, read the output of the command \<^verbatim>\<open>date\<close> into an array, replace blanks,
  cut the newline off and put a suffix in its place.  A write outside the array is the value None.
  The dump of a buffer in hexadecimal, \<^verbatim>\<open>f_print_string\<close> of \<^verbatim>\<open>new_receiver.c\<close>, is here as well.
\<close>

section \<open>Reading and cleaning\<close>

definition NEWLINE :: char where
  "NEWLINE = CHR 0x0A"

text \<open>A call of \<open>fgets\<close> with a size: up to a newline, and at most one character less than the size.\<close>

definition fgets_chunk :: "nat \<Rightarrow> string \<Rightarrow> string" where
  "fgets_chunk sz s =
    take (sz - 1) (takeWhile (\<lambda>c. c \<noteq> NEWLINE) s @ take 1 (dropWhile (\<lambda>c. c \<noteq> NEWLINE) s))"

lemma fgets_chunk_pos: "s \<noteq> [] \<Longrightarrow> 1 < sz \<Longrightarrow> 0 < length (fgets_chunk sz s)"
  by (cases s) (auto simp: fgets_chunk_def)

text \<open>The loop that reads all of it: every line overwrites the one before.\<close>

function read_all :: "nat \<Rightarrow> string \<Rightarrow> string \<Rightarrow> string" where
  "read_all sz s buf =
    (if s = [] \<or> sz < 2 then buf
     else read_all sz (drop (length (fgets_chunk sz s)) s) (fgets (fgets_chunk sz s) buf))"
  by pat_completeness auto
termination
proof (relation "measure (\<lambda>(sz, s, buf). length s)")
  fix sz :: nat and s buf :: string
  assume "\<not> (s = [] \<or> sz < 2)"
  then have "s \<noteq> []" "0 < length (fgets_chunk sz s)" using fgets_chunk_pos [of s sz] by simp_all
  then show "((sz, drop (length (fgets_chunk sz s)) s, fgets (fgets_chunk sz s) buf), sz, s, buf)
      \<in> measure (\<lambda>(sz, s, buf). length s)" by simp
qed simp

declare read_all.simps [simp del]

text \<open>The walk to the terminator that replaces characters; its result has the index of the terminator.\<close>

fun underscores :: "(char \<Rightarrow> bool) \<Rightarrow> string \<Rightarrow> (string \<times> nat) option" where
  "underscores blank [] = None"
| "underscores blank (c # cs) =
    (if c = NUL then Some (c # cs, 0)
     else map_option (\<lambda>(b, n). ((if blank c then CHR ''_'' else c) # b, n + 1)) (underscores blank cs))"

definition blank_or_colon :: "char \<Rightarrow> bool" where
  "blank_or_colon c \<longleftrightarrow> c = CHR '' '' \<or> c = CHR '':''"

section \<open>Putting the suffix\<close>

definition put_at :: "int \<Rightarrow> string \<Rightarrow> string \<Rightarrow> string option" where
  "put_at i s buf =
    (if 0 \<le> i \<and> i + int (length s) \<le> int (length buf)
     then Some (take (nat i) buf @ s @ drop (nat i + length s) buf) else None)"

text \<open>The suffix is copied when it ends before the 128th byte, and the terminator written in any case.\<close>

definition put_suffix :: "int \<Rightarrow> string \<Rightarrow> string \<Rightarrow> string option" where
  "put_suffix i appendix buf =
    Option.bind (if i + int (length appendix) < 128 then put_at i appendix buf else Some buf)
      (put_at (i + int (length appendix)) [NUL])"

definition get_file_name :: "string \<Rightarrow> string \<Rightarrow> string \<Rightarrow> string option" where
  "get_file_name date buf appendix =
    Option.bind (underscores blank_or_colon (read_all 100 date buf)) (\<lambda>(b, n). put_suffix (int n - 1) appendix b)"

text \<open>
  The two names of \<^verbatim>\<open>start_threads\<close>.  The pointer for the second stays null when the first suffix was
  not copied; the test before the second copy is made with the first suffix.
\<close>

definition start_names :: "string \<Rightarrow> string \<Rightarrow> (string \<times> string) option" where
  "start_names date buf =
    Option.bind (underscores blank_or_colon (read_all 128 date buf)) (\<lambda>(b, n).
      let i = int n - 1; appendix = ''_winsize.txt''; appendix1 = ''_other.txt''
      in Option.bind (put_suffix i appendix b) (\<lambda>b1.
         if i + int (length appendix) < 128
         then Option.bind (put_at i appendix1 b1) (\<lambda>b2.
           map_option (\<lambda>b3. (c_text b1, c_text b3)) (put_at (i + int (length appendix1)) [NUL] b2))
         else None))"

text \<open>The older receiver replaces blanks only.\<close>

definition older_name :: "string \<Rightarrow> string \<Rightarrow> string option" where
  "older_name date buf =
    Option.bind (underscores (\<lambda>c. c = CHR '' '') (read_all 128 date buf)) (\<lambda>(b, n).
      map_option c_text (put_suffix (int n - 1) ''_other.txt'' b))"

section \<open>Dumping a buffer\<close>

text \<open>A line is printed when sixteen bytes are in it.\<close>

fun dump_loop :: "string \<Rightarrow> nat \<Rightarrow> bytes \<Rightarrow> string list" where
  "dump_loop buf i [] = []"
| "dump_loop buf i (b # bs) =
    (let buf' = buf @ hex_byte b @ '' ''
     in if (i + 1) mod 16 = 0 then buf' # dump_loop [] (i + 1) bs else dump_loop buf' (i + 1) bs)"

definition f_print_string :: "bytes \<Rightarrow> string list" where
  "f_print_string str = replicate 55 CHR ''='' # dump_loop [] 0 str"

section \<open>Lemmas\<close>

text \<open>A line of output: no terminator and no newline in it.\<close>

definition one_line :: "string \<Rightarrow> bool" where
  "one_line d \<longleftrightarrow> nul_free d \<and> NEWLINE \<notin> set d"

definition clean :: "(char \<Rightarrow> bool) \<Rightarrow> string \<Rightarrow> string" where
  "clean blank d = map (\<lambda>c. if blank c then CHR ''_'' else c) d"

lemma length_clean [simp]: "length (clean blank d) = length d"
  by (simp add: clean_def)

lemma nul_free_clean: "nul_free d \<Longrightarrow> nul_free (clean blank d)"
  by (auto simp: nul_free_def clean_def NUL_def)

lemma read_all_line:
  assumes "one_line d" "length d + 1 < sz"
  shows "read_all sz (d @ [NEWLINE]) buf = fgets (d @ [NEWLINE]) buf"
proof -
  have w: "takeWhile (\<lambda>c. c \<noteq> NEWLINE) (d @ [NEWLINE]) = d" "dropWhile (\<lambda>c. c \<noteq> NEWLINE) (d @ [NEWLINE]) = [NEWLINE]"
    using assms(1) by (auto simp: one_line_def takeWhile_append dropWhile_append)
  then have c: "fgets_chunk sz (d @ [NEWLINE]) = d @ [NEWLINE]"
    using assms(2) by (simp add: fgets_chunk_def)
  have "read_all sz [] b = b" for b by (simp add: read_all.simps)
  with assms(2) show ?thesis by (subst read_all.simps) (simp add: c)
qed

lemma underscores_line:
  "nul_free d \<Longrightarrow> underscores blank (d @ NUL # r) = Some (clean blank d @ NUL # r, length d)"
  by (induction d) (auto simp: clean_def nul_free_def)

lemma put_at_end:
  "i = int (length x) \<Longrightarrow> length s \<le> length y \<Longrightarrow> put_at i s (x @ y) = Some (x @ s @ drop (length s) y)"
  by (simp add: put_at_def)

lemma put_suffix_end:
  assumes "i = int (length x)" "length x + length s < 128"
  shows "put_suffix i s (x @ y) =
    (if length s < length y then Some (x @ s @ NUL # drop (length s + 1) y) else None)"
proof (cases "length s < length y")
  case True
  then have "put_at i s (x @ y) = Some (x @ s @ drop (length s) y)" using assms(1) by (intro put_at_end) simp_all
  moreover have "put_at (i + int (length s)) [NUL] ((x @ s) @ drop (length s) y) = Some ((x @ s) @ [NUL] @ drop 1 (drop (length s) y))"
    using True assms(1) put_at_end [of "i + int (length s)" "x @ s" "[NUL]" "drop (length s) y"] by simp
  ultimately show ?thesis using True assms by (simp add: put_suffix_def)
next
  case False
  then show ?thesis using assms by (auto simp: put_suffix_def put_at_def)
qed

text \<open>The array after the date is read and cleaned: the newline is the character before the terminator.\<close>

lemma date_in_array:
  assumes "one_line d" "length d + 1 < sz"
  shows "underscores blank (read_all sz (d @ [NEWLINE]) buf) =
    Some (clean blank d @ clean blank [NEWLINE] @ NUL # drop (length d + 2) buf, length d + 1)"
proof -
  have "nul_free (d @ [NEWLINE])" using assms(1) by (simp add: one_line_def nul_free_def NUL_def NEWLINE_def)
  from underscores_line [OF this] show ?thesis
    by (simp add: read_all_line [OF assms] fgets_def c_string_def clean_def)
qed

lemma clean_typed: "one_line d \<Longrightarrow> c \<in> set (clean blank_or_colon d) \<Longrightarrow> \<not> blank_or_colon c \<and> c \<noteq> NEWLINE"
  by (auto simp: clean_def one_line_def blank_or_colon_def NEWLINE_def split: if_splits)

lemma c_text_prefix: "nul_free x \<Longrightarrow> c_text (x @ NUL # y) = x"
  by (simp add: c_text_def nul_free_def takeWhile_append)

lemma nul_free_append [simp]: "nul_free (x @ y) \<longleftrightarrow> nul_free x \<and> nul_free y"
  by (auto simp: nul_free_def)

section \<open>Properties\<close>

text \<open>
  When \<^verbatim>\<open>date\<close> prints one line of at most 115 characters, the two files of \<^verbatim>\<open>start_threads\<close> are
  named after it, with every blank and colon replaced and a suffix in place of the newline, whatever
  the array held; the names differ, and neither holds a blank, a colon or a newline.
\<close>

theorem start_names_from_date:
  assumes "one_line d" "length d \<le> 115" "length buf = 128"
  shows "\<exists>w t. start_names (d @ [NEWLINE]) buf = Some (w, t) \<and>
    w = clean blank_or_colon d @ ''_winsize.txt'' \<and> t = clean blank_or_colon d @ ''_other.txt'' \<and> w \<noteq> t \<and>
    (\<forall>c\<in>set w \<union> set t. \<not> blank_or_colon c \<and> c \<noteq> NEWLINE)"
proof -
  let ?c = "clean blank_or_colon d" and ?w = "''_winsize.txt''" and ?o = "''_other.txt''"
  let ?y = "clean blank_or_colon [NEWLINE] @ NUL # drop (length d + 2) buf"
  let ?r = "drop (length ?w + 1) ?y"
  have y: "length ?y = 128 - length d" using assms(2,3) by simp
  have n: "nul_free ?c" using assms(1) by (simp add: one_line_def nul_free_clean)
  have b1: "put_suffix (int (length d)) ?w (?c @ ?y) = Some (?c @ ?w @ NUL # ?r)"
    using put_suffix_end [of "int (length d)" ?c ?w ?y] assms(2) y by simp
  have b2: "put_at (int (length d)) ?o (?c @ ?w @ NUL # ?r) = Some (?c @ ?o @ drop (length ?o) (?w @ NUL # ?r))"
    by (rule put_at_end) simp_all
  have b3: "put_at (int (length d) + int (length ?o)) [NUL] ((?c @ ?o) @ drop (length ?o) (?w @ NUL # ?r)) =
      Some ((?c @ ?o) @ [NUL] @ drop (length [NUL]) (drop (length ?o) (?w @ NUL # ?r)))"
    by (rule put_at_end) simp_all
  have t: "c_text (?c @ ?w @ NUL # ?r) = ?c @ ?w"
    "c_text ((?c @ ?o) @ [NUL] @ drop (length [NUL]) (drop (length ?o) (?w @ NUL # ?r))) = ?c @ ?o"
    using c_text_prefix [of "?c @ ?w"] c_text_prefix [of "?c @ ?o"] n by (simp_all add: nul_free_def NUL_def)
  have "start_names (d @ [NEWLINE]) buf = Some (?c @ ?w, ?c @ ?o)"
    using date_in_array [OF assms(1), of 128 blank_or_colon buf] assms(2) b1 b2 b3 t
    by (simp add: start_names_def Let_def)
  moreover have "\<not> blank_or_colon c \<and> c \<noteq> NEWLINE" if "c \<in> set (?c @ ?w) \<union> set (?c @ ?o)" for c
    using that clean_typed [OF assms(1), of c] by (auto simp: blank_or_colon_def NEWLINE_def)
  ultimately show ?thesis by auto
qed

text \<open>
  C39.  The array that \<^verbatim>\<open>get_file_name\<close> is given by its callers has 100 bytes, and its test is made
  against 128: the name of the file of retransmissions is right for a line of at most 87
  characters, and for a line of 88 to 98 characters it is written outside the array.
\<close>

theorem retrans_name_bound:
  assumes "one_line d" "length d \<le> 98" "length buf = 100"
  shows "map_option c_text (get_file_name (d @ [NEWLINE]) buf ''_retrans.txt'') =
    (if length d \<le> 87 then Some (clean blank_or_colon d @ ''_retrans.txt'') else None)"
proof -
  let ?c = "clean blank_or_colon d" and ?y = "clean blank_or_colon [NEWLINE] @ NUL # drop (length d + 2) buf"
  have y: "length ?y = 100 - length d" using assms(2,3) by simp
  have n: "nul_free (?c @ ''_retrans.txt'')" using assms(1) by (simp add: one_line_def nul_free_clean) (simp add: nul_free_def NUL_def)
  have "get_file_name (d @ [NEWLINE]) buf ''_retrans.txt'' = put_suffix (int (length d)) ''_retrans.txt'' (?c @ ?y)"
    using date_in_array [OF assms(1), of 100 blank_or_colon buf] assms(2) by (simp add: get_file_name_def)
  also have "\<dots> = (if length d \<le> 87 then Some (?c @ ''_retrans.txt'' @ NUL # drop (length ''_retrans.txt'' + 1) ?y) else None)"
    using put_suffix_end [of "int (length d)" ?c "''_retrans.txt''" ?y] assms(2) y by auto
  finally show ?thesis using c_text_prefix [OF n] by simp
qed

text \<open>The older receiver keeps the colons.\<close>

lemma older_name_from_date:
  assumes "one_line d" "length d \<le> 117" "length buf = 128"
  shows "older_name (d @ [NEWLINE]) buf = Some (clean (\<lambda>c. c = CHR '' '') d @ ''_other.txt'')"
proof -
  let ?p = "\<lambda>c. c = CHR '' ''"
  let ?c = "clean ?p d" and ?y = "clean ?p [NEWLINE] @ NUL # drop (length d + 2) buf"
  have n: "nul_free (?c @ ''_other.txt'')" using assms(1) by (simp add: one_line_def nul_free_clean) (simp add: nul_free_def NUL_def)
  have "length ?y = 128 - length d" using assms(2,3) by simp
  then have "put_suffix (int (length d)) ''_other.txt'' (?c @ ?y) = Some (?c @ ''_other.txt'' @ NUL # drop (length ''_other.txt'' + 1) ?y)"
    using put_suffix_end [of "int (length d)" ?c "''_other.txt''" ?y] assms(2) by simp
  with date_in_array [OF assms(1), of 128 ?p buf] assms(2) c_text_prefix [OF n] show ?thesis by (simp add: older_name_def)
qed

text \<open>The dump shows the whole groups of sixteen bytes, and none of the bytes after the last group.\<close>

definition dump_line :: "bytes \<Rightarrow> string" where
  "dump_line bs = concat (map (\<lambda>b. hex_byte b @ '' '') bs)"

lemma dump_loop_step: "length bs + i mod 16 < 16 \<Longrightarrow> dump_loop buf i (bs @ cs) = dump_loop (buf @ dump_line bs) (i + length bs) cs"
proof (induction bs arbitrary: buf i)
  case (Cons b bs)
  then have "(i + 1) mod 16 = i mod 16 + 1" by (simp add: mod_Suc)
  with Cons.IH [of "Suc i" "buf @ hex_byte b @ '' ''"] Cons.prems show ?case by (simp add: dump_line_def)
qed (simp add: dump_line_def)

lemma dump_whole_groups:
  assumes "list_all (\<lambda>g. length g = 16) groups" "length rest < 16"
  shows "f_print_string (concat groups @ rest) = replicate 55 CHR ''='' # map dump_line groups"
proof -
  have "i mod 16 = 0 \<Longrightarrow> dump_loop [] i (concat groups @ rest) = map dump_line groups" for i
    using assms(1)
  proof (induction groups arbitrary: i)
    case Nil
    with dump_loop_step [of rest i "[]" "[]"] assms(2) show ?case by simp
  next
    case (Cons g groups)
    then obtain bs b where g: "g = bs @ [b]" "length bs = 15" by (cases g rule: rev_cases) auto
    have "dump_loop [] i (concat (g # groups) @ rest) = dump_loop (dump_line bs) (i + 15) (b # (concat groups @ rest))"
      using dump_loop_step [of bs i "[]" "b # (concat groups @ rest)"] Cons.prems(1) g by simp
    also have "\<dots> = (dump_line bs @ hex_byte b @ '' '') # dump_loop [] (i + 16) (concat groups @ rest)"
      using Cons.prems(1) by (simp add: Let_def mod_Suc mod_add_eq add.commute [of i 16])
    finally show ?case using Cons.IH [of "i + 16"] Cons.prems g by (simp add: dump_line_def add.commute [of i 16])
  qed
  then show ?thesis by (simp add: f_print_string_def)
qed

section \<open>Examples\<close>

definition example_date :: string where
  "example_date = ''Tue Oct 16 10:12:13 UTC 2018''"

lemma example_date_ok: "one_line example_date" "length example_date = 28"
  by (simp_all add: example_date_def one_line_def nul_free_def NUL_def NEWLINE_def)

theorem start_names_from_date_witness:
  "start_names (example_date @ [NEWLINE]) (replicate 128 CHR ''x'') =
     Some (''Tue_Oct_16_10_12_13_UTC_2018_winsize.txt'', ''Tue_Oct_16_10_12_13_UTC_2018_other.txt'')"
  using start_names_from_date [of example_date "replicate 128 CHR ''x''"] example_date_ok
  by (simp add: clean_def example_date_def blank_or_colon_def)

theorem retrans_name_bound_witness:
  "map_option c_text (get_file_name (example_date @ [NEWLINE]) (replicate 100 CHR ''x'') ''_retrans.txt'') =
     Some (''Tue_Oct_16_10_12_13_UTC_2018_retrans.txt'')"
  using retrans_name_bound [of example_date "replicate 100 CHR ''x''"] example_date_ok
  by (simp add: clean_def example_date_def blank_or_colon_def)

end
