(* ===== verification/Hash_Memory.thy ===== *)
theory Hash_Memory
  imports Hash_Table Kept_Lists
begin

text \<open>
  The hash table of \<^verbatim>\<open>EXP/hash_lin.h\<close> with its pointers: the chains of Hash_Table are linked lists in
  the heap of Drop_Log, and insertion, removal, look-up, printing and release follow the pointers.
  An access to null or freed memory, or outside a key, is the value None.  The pointer program
  refines the lists of Hash_Table, prints without its check failing, and releases every node.
\<close>

section \<open>Operations on pointers\<close>

record hash_memory =
  hm_table :: "nat \<Rightarrow> nat option"
  hm_heap :: "HashNode heap"
  hm_size :: int

definition mem_init :: hash_memory where
  "mem_init = \<lparr>hm_table = (\<lambda>_. None), hm_heap = Map.empty, hm_size = 0\<rparr>"

text \<open>The search along a chain: the node before the one found, and the one found.\<close>

partial_function (option) seek ::
  "(bytes \<Rightarrow> int option) \<Rightarrow> HashNode heap \<Rightarrow> nat option \<Rightarrow> nat option \<Rightarrow> (nat option \<times> nat option) option"
where
  "seek cmp h pLast pHead =
    (case pHead of
       None \<Rightarrow> Some (pLast, None)
     | Some a \<Rightarrow>
        (case h a of
           None \<Rightarrow> None
         | Some n \<Rightarrow>
            (case cmp (sKey (nval n)) of
               None \<Rightarrow> None
             | Some r \<Rightarrow> if r = 0 then Some (pLast, pHead) else seek cmp h pHead (nnext n))))"

definition mem_insert :: "(HashNode heap \<Rightarrow> nat) \<Rightarrow> bytes \<Rightarrow> u32 \<Rightarrow> u64 \<Rightarrow> hash_memory \<Rightarrow> hash_memory option" where
  "mem_insert alloc skey nvalue time m =
    (if hm_size m \<ge> int HASH_TABLE_MAX_SIZE then Some m
     else Option.bind (bucket_of skey) (\<lambda>pos.
       Option.bind (seek (\<lambda>k. strcmp_lin k skey) (hm_heap m) None (hm_table m pos)) (\<lambda>(_, found).
         case found of
           Some a \<Rightarrow>
             map_option (\<lambda>n. m\<lparr>hm_heap := (hm_heap m)(a \<mapsto> n\<lparr>nval := (nval n)\<lparr>nValue := nvalue, node_time := time\<rparr>\<rparr>)\<rparr>)
               (hm_heap m a)
         | None \<Rightarrow>
             map_option (\<lambda>k. let a = alloc (hm_heap m) in
               \<lparr>hm_table = (hm_table m)(pos := Some a),
                hm_heap = (hm_heap m)(a \<mapsto> \<lparr>nval = \<lparr>sKey = k, node_time = time, nValue = nvalue\<rparr>, nnext = hm_table m pos\<rparr>),
                hm_size = hm_size m + 1\<rparr>) (key_copy skey))))"

definition mem_remove :: "bytes \<Rightarrow> hash_memory \<Rightarrow> hash_memory option" where
  "mem_remove skey m =
    Option.bind (bucket_of skey) (\<lambda>pos.
      Option.bind (seek (\<lambda>k. strcmp_lin skey k) (hm_heap m) None (hm_table m pos)) (\<lambda>(pLast, pRemove).
        case pRemove of
          None \<Rightarrow> Some m
        | Some a \<Rightarrow>
            Option.bind (hm_heap m a) (\<lambda>n.
              case pLast of
                None \<Rightarrow> Some \<lparr>hm_table = (hm_table m)(pos := nnext n), hm_heap = (hm_heap m)(a := None), hm_size = hm_size m - 1\<rparr>
              | Some l \<Rightarrow>
                  map_option (\<lambda>pl. m\<lparr>hm_heap := (hm_heap m)(l \<mapsto> pl\<lparr>nnext := nnext n\<rparr>, a := None), hm_size := hm_size m - 1\<rparr>)
                    (hm_heap m l))))"

definition mem_lookup :: "bytes \<Rightarrow> hash_memory \<Rightarrow> nat option option" where
  "mem_lookup skey m =
    Option.bind (bucket_of skey) (\<lambda>pos.
      map_option snd (seek (\<lambda>k. strcmp_lin skey k) (hm_heap m) None (hm_table m pos)))"

text \<open>What is printed: each chain that is not empty, and whether the check of the counter fails.\<close>

fun print_buckets :: "(nat \<Rightarrow> nat option) \<Rightarrow> HashNode heap \<Rightarrow> nat list \<Rightarrow> (nat \<times> HashNode list) list option" where
  "print_buckets tbl h [] = Some []"
| "print_buckets tbl h (i # js) =
    (if tbl i = None then print_buckets tbl h js
     else Option.bind (walk h (tbl i) []) (\<lambda>ns. map_option ((#) (i, ns)) (print_buckets tbl h js)))"

definition hash_table_print :: "hash_memory \<Rightarrow> ((nat \<times> HashNode list) list \<times> bool) option" where
  "hash_table_print m =
    map_option (\<lambda>ls. (ls, int (length (concat (map snd ls))) \<noteq> hm_size m))
      (print_buckets (hm_table m) (hm_heap m) [0..<HASH_TABLE_MAX_SIZE])"

text \<open>Releasing frees the nodes; the table keeps its pointers to them.\<close>

fun release_buckets :: "(nat \<Rightarrow> nat option) \<Rightarrow> nat list \<Rightarrow> HashNode heap \<Rightarrow> HashNode heap option" where
  "release_buckets tbl [] h = Some h"
| "release_buckets tbl (i # js) h = Option.bind (destroy_list (tbl i) h) (release_buckets tbl js)"

definition hash_table_release :: "hash_memory \<Rightarrow> hash_memory option" where
  "hash_table_release m =
    map_option (\<lambda>h. m\<lparr>hm_heap := h\<rparr>) (release_buckets (hm_table m) [0..<HASH_TABLE_MAX_SIZE] (hm_heap m))"

definition delete_flow_chain :: "nat option \<Rightarrow> flow_chain heap \<Rightarrow> flow_chain heap option" where
  "delete_flow_chain = destroy_list"

section \<open>The search\<close>

text \<open>Whether the keys of a chain differ from the one that is looked for.\<close>

definition misses :: "(bytes \<Rightarrow> int option) \<Rightarrow> HashNode list \<Rightarrow> bool" where
  "misses cmp ns \<longleftrightarrow> (\<forall>n\<in>set ns. \<exists>c. cmp (sKey n) = Some c \<and> c \<noteq> 0)"

lemma misses_simps [simp]:
  "misses cmp []" "misses cmp (n # ns) \<longleftrightarrow> (\<exists>c. cmp (sKey n) = Some c \<and> c \<noteq> 0) \<and> misses cmp ns"
  by (auto simp: misses_def)

lemma seek_miss:
  "lseg h p xs \<Longrightarrow> misses cmp (map snd xs) \<Longrightarrow> \<exists>q. seek cmp h l p = Some (q, None)"
proof (induction xs arbitrary: l p)
  case Nil
  then show ?case by (subst seek.simps) simp
next
  case (Cons x xs)
  then show ?case by (cases x) (subst seek.simps, auto)
qed

lemma seek_hit:
  "lseg h p (us @ (a, n) # ws) \<Longrightarrow> misses cmp (map snd us) \<Longrightarrow> cmp (sKey n) = Some 0 \<Longrightarrow>
   seek cmp h l p = Some (if us = [] then l else last_ptr us, Some a)"
proof (induction us arbitrary: l p)
  case Nil
  then show ?case by (subst seek.simps) auto
next
  case (Cons x us)
  obtain b v where x: "x = (b, v)" by (cases x)
  with Cons.prems obtain q where q: "p = Some b" "h b = Some \<lparr>nval = v, nnext = q\<rparr>" "lseg h q (us @ (a, n) # ws)"
    "misses cmp (map snd us)" "\<exists>c. cmp (sKey v) = Some c \<and> c \<noteq> 0" by auto
  with Cons.IH [OF q(3,4) Cons.prems(3), of "Some b"] show ?case
    by (subst seek.simps) (auto simp: x last_ptr_def)
qed

text \<open>The operations on lists, at the node that is found.\<close>

definition hits :: "(bytes \<Rightarrow> int option) \<Rightarrow> HashNode list \<Rightarrow> HashNode list \<Rightarrow> HashNode \<Rightarrow> HashNode list \<Rightarrow> bool" where
  "hits cmp ns us n ws \<longleftrightarrow> ns = us @ n # ws \<and> misses cmp us \<and> cmp (sKey n) = Some 0"

lemma hits_here: "cmp (sKey n) = Some 0 \<Longrightarrow> hits cmp (n # ns) [] n ns"
  by (simp add: hits_def)

lemma hits_later: "cmp (sKey x) = Some r \<Longrightarrow> r \<noteq> 0 \<Longrightarrow> hits cmp ns us n ws \<Longrightarrow> hits cmp (x # ns) (x # us) n ws"
  by (simp add: hits_def)

lemma chain_update_split:
  "chain_update skey v t ns = Some (chain, found) \<Longrightarrow>
   (misses (\<lambda>k. strcmp_lin k skey) ns \<and> \<not> found \<and> chain = ns) \<or>
   (found \<and> (\<exists>us n ws. hits (\<lambda>k. strcmp_lin k skey) ns us n ws \<and> chain = us @ n\<lparr>nValue := v, node_time := t\<rparr> # ws))"
proof (induction ns arbitrary: chain found)
  case (Cons x ns)
  then obtain r where r: "strcmp_lin (sKey x) skey = Some r" by (auto split: option.splits)
  show ?case
  proof (cases "r = 0")
    case True
    with r Cons.prems hits_here [of "\<lambda>k. strcmp_lin k skey" x ns] show ?thesis by fastforce
  next
    case False
    with r Cons.prems obtain chain' where c: "chain_update skey v t ns = Some (chain', found)" "chain = x # chain'"
      by (auto split: option.splits)
    from Cons.IH [OF c(1)] show ?thesis
    proof (elim disjE exE conjE)
      fix us n ws assume "hits (\<lambda>k. strcmp_lin k skey) ns us n ws" "chain' = us @ n\<lparr>nValue := v, node_time := t\<rparr> # ws" found
      with hits_later [of "\<lambda>k. strcmp_lin k skey" x r ns us n ws] r False c(2) show ?thesis by fastforce
    qed (use r False c(2) in simp)
  qed
qed simp

lemma chain_remove_split:
  "chain_remove skey ns = Some (chain, removed) \<Longrightarrow>
   (misses (strcmp_lin skey) ns \<and> \<not> removed \<and> chain = ns) \<or>
   (removed \<and> (\<exists>us n ws. hits (strcmp_lin skey) ns us n ws \<and> chain = us @ ws))"
proof (induction ns arbitrary: chain removed)
  case (Cons x ns)
  then obtain r where r: "strcmp_lin skey (sKey x) = Some r" by (auto split: option.splits)
  show ?case
  proof (cases "r = 0")
    case True
    with r Cons.prems hits_here [of "strcmp_lin skey" x ns] show ?thesis by fastforce
  next
    case False
    with r Cons.prems obtain chain' where c: "chain_remove skey ns = Some (chain', removed)" "chain = x # chain'"
      by (auto split: option.splits)
    from Cons.IH [OF c(1)] show ?thesis
    proof (elim disjE exE conjE)
      fix us n ws assume "hits (strcmp_lin skey) ns us n ws" "chain' = us @ ws" removed
      with hits_later [of "strcmp_lin skey" x r ns us n ws] r False c(2) show ?thesis by fastforce
    qed (use r False c(2) in simp)
  qed
qed simp

lemma chain_lookup_split:
  "chain_lookup skey ns = Some r \<Longrightarrow>
   (misses (strcmp_lin skey) ns \<and> r = None) \<or> (\<exists>us n ws. hits (strcmp_lin skey) ns us n ws \<and> r = Some n)"
proof (induction ns)
  case (Cons x ns)
  then obtain c where c: "strcmp_lin skey (sKey x) = Some c" by (auto split: option.splits)
  show ?case
  proof (cases "c = 0")
    case True
    with c Cons.prems hits_here [of "strcmp_lin skey" x ns] show ?thesis by fastforce
  next
    case False
    with c Cons.prems have "chain_lookup skey ns = Some r" by simp
    from Cons.IH [OF this] show ?thesis
    proof (elim disjE exE conjE)
      fix us n ws assume "hits (strcmp_lin skey) ns us n ws" "r = Some n"
      with hits_later [of "strcmp_lin skey" x c ns us n ws] c False show ?thesis by fastforce
    qed (use c False in simp)
  qed
qed simp

section \<open>Pointers and lists\<close>

text \<open>
  The chains of the table are lists in the heap, no node is in two of them, and every node is in one.
\<close>

definition mem_rep :: "hash_memory \<Rightarrow> hash_state \<Rightarrow> (nat \<Rightarrow> (nat \<times> HashNode) list) \<Rightarrow> bool" where
  "mem_rep m st ks \<longleftrightarrow>
     (\<forall>p<HASH_TABLE_MAX_SIZE. lseg (hm_heap m) (hm_table m p) (ks p) \<and> map snd (ks p) = hashTable st p \<and>
        distinct (map fst (ks p))) \<and>
     (\<forall>p<HASH_TABLE_MAX_SIZE. \<forall>q<HASH_TABLE_MAX_SIZE. p \<noteq> q \<longrightarrow> fst ` set (ks p) \<inter> fst ` set (ks q) = {}) \<and>
     dom (hm_heap m) = (\<Union>p<HASH_TABLE_MAX_SIZE. fst ` set (ks p)) \<and>
     hm_size m = hash_table_size st"

lemma mem_rep_init: "mem_rep mem_init hash_table_init (\<lambda>_. [])"
  by (simp add: mem_rep_def mem_init_def hash_table_init_def)

lemma mem_rep_finite: "mem_rep m st ks \<Longrightarrow> finite (dom (hm_heap m))"
  by (simp add: mem_rep_def)

lemma union_minus:
  assumes "i \<in> I" "\<And>p q. p \<in> I \<Longrightarrow> q \<in> I \<Longrightarrow> p \<noteq> q \<Longrightarrow> K p \<inter> K q = {}"
  shows "(\<Union>p\<in>I. K p) - K i = (\<Union>p\<in>I - {i}. K p)"
proof -
  have "x \<notin> K i" if "x \<in> K p" "p \<in> I" "p \<noteq> i" for x p using assms(2) [of p i] assms(1) that by blast
  then show ?thesis by blast
qed

text \<open>A change of one chain that leaves the nodes of the others alone.\<close>

lemma mem_rep_bucket:
  assumes "mem_rep m st ks" "pos < HASH_TABLE_MAX_SIZE"
    and "lseg h (tbl pos) xs" "distinct (map fst xs)" "map snd xs = chain"
    and "\<And>a. a \<in> dom (hm_heap m) - fst ` set (ks pos) \<Longrightarrow> h a = hm_heap m a"
    and "dom h = (dom (hm_heap m) - fst ` set (ks pos)) \<union> fst ` set xs"
    and "fst ` set xs \<inter> (dom (hm_heap m) - fst ` set (ks pos)) = {}"
    and "\<And>p. p \<noteq> pos \<Longrightarrow> tbl p = hm_table m p"
  shows "mem_rep \<lparr>hm_table = tbl, hm_heap = h, hm_size = n\<rparr> \<lparr>hashTable = (hashTable st)(pos := chain), hash_table_size = n\<rparr>
    (ks(pos := xs))"
proof -
  let ?M = "HASH_TABLE_MAX_SIZE"
  from assms(1) have l: "\<And>p. p < ?M \<Longrightarrow> lseg (hm_heap m) (hm_table m p) (ks p) \<and> map snd (ks p) = hashTable st p \<and> distinct (map fst (ks p))"
    and d: "\<And>p q. p < ?M \<Longrightarrow> q < ?M \<Longrightarrow> p \<noteq> q \<Longrightarrow> fst ` set (ks p) \<inter> fst ` set (ks q) = {}"
    and dm: "dom (hm_heap m) = (\<Union>p<?M. fst ` set (ks p))" by (auto simp: mem_rep_def)
  have others: "dom (hm_heap m) - fst ` set (ks pos) = (\<Union>p\<in>{..<?M} - {pos}. fst ` set (ks p))"
    unfolding dm by (rule union_minus) (use d assms(2) in simp_all)
  have keep: "lseg h (tbl p) (ks p)" if "p < ?M" "p \<noteq> pos" for p
  proof (rule lseg_agree)
    show "lseg (hm_heap m) (tbl p) (ks p)" using l that assms(9) by simp
    show "h a = hm_heap m a" if "a \<in> fst ` set (ks p)" for a
      using assms(6) [of a] others that \<open>p < ?M\<close> \<open>p \<noteq> pos\<close> by blast
  qed
  have apart: "fst ` set xs \<inter> fst ` set (ks p) = {}" if "p < ?M" "p \<noteq> pos" for p
    using assms(8) that unfolding others by blast
  let ?ks = "ks(pos := xs)"
  have dh: "dom h = (\<Union>p<?M. fst ` set (?ks p))"
  proof -
    have "{..<?M} = insert pos ({..<?M} - {pos})" using assms(2) by auto
    then have "(\<Union>p<?M. fst ` set (?ks p)) = fst ` set xs \<union> (\<Union>p\<in>{..<?M} - {pos}. fst ` set (?ks p))"
      by (metis (no_types, lifting) UN_insert fun_upd_same)
    also have "(\<Union>p\<in>{..<?M} - {pos}. fst ` set (?ks p)) = (\<Union>p\<in>{..<?M} - {pos}. fst ` set (ks p))" by simp
    finally have "(\<Union>p<?M. fst ` set (?ks p)) = (\<Union>p\<in>{..<?M} - {pos}. fst ` set (ks p)) \<union> fst ` set xs"
      by (simp only: Un_commute)
    with assms(7) show ?thesis by (simp only: others)
  qed
  have chains: "lseg h (tbl p) (?ks p) \<and> map snd (?ks p) = ((hashTable st)(pos := chain)) p \<and> distinct (map fst (?ks p))"
    if "p < ?M" for p
    using that keep [of p] l [of p] assms(3-5) by (cases "p = pos") simp_all
  have disj: "fst ` set (?ks p) \<inter> fst ` set (?ks q) = {}" if "p < ?M" "q < ?M" "p \<noteq> q" for p q
  proof (cases "p = pos")
    case True
    then show ?thesis using apart [of q] that by simp
  next
    case p: False
    show ?thesis
    proof (cases "q = pos")
      case True
      then show ?thesis using apart [of p] p that(1) by (simp add: Int_commute)
    qed (use p d [OF that] in simp)
  qed
  show ?thesis
    unfolding mem_rep_def hash_memory.simps hash_state.simps using chains disj dh by blast
qed

text \<open>The node of a heap list that is hit, and what the search returns for it.\<close>

lemma hits_nodes:
  assumes "hits cmp (map snd xs) us n ws" "lseg h p xs"
  obtains us' a ws' where "xs = us' @ (a, n) # ws'" "map snd us' = us" "map snd ws' = ws"
    "seek cmp h None p = Some (last_ptr us', Some a)" "h a = Some \<lparr>nval = n, nnext = first_ptr ws'\<rparr>"
proof -
  from assms(1) have h: "map snd xs = us @ n # ws" "misses cmp us" "cmp (sKey n) = Some 0" by (auto simp: hits_def)
  from h(1) obtain us' r where r: "xs = us' @ r" "map snd us' = us" "map snd r = n # ws" by (auto simp: map_eq_append_conv)
  then obtain a ws' where a: "r = (a, n) # ws'" "map snd ws' = ws" by (cases r) auto
  have "seek cmp h None p = Some (last_ptr us', Some a)"
    using seek_hit [of h p us' a n ws' cmp None] assms(2) h(2,3) r(1,2) a(1) by (auto split: if_splits)
  moreover have "h a = Some \<lparr>nval = n, nnext = first_ptr ws'\<rparr>" using lseg_read assms(2) r(1) a(1) by metis
  ultimately show thesis using that r(1,2) a by blast
qed

lemma bucket_of_less: "bucket_of k = Some pos \<Longrightarrow> pos < HASH_TABLE_MAX_SIZE"
  by (auto simp: bucket_of_def HASH_TABLE_MAX_SIZE_def split: option.splits)

lemma mem_rep_chain:
  "mem_rep m st ks \<Longrightarrow> p < HASH_TABLE_MAX_SIZE \<Longrightarrow>
   lseg (hm_heap m) (hm_table m p) (ks p) \<and> hashTable st p = map snd (ks p) \<and> distinct (map fst (ks p)) \<and>
     fst ` set (ks p) \<subseteq> dom (hm_heap m)"
  by (auto simp: mem_rep_def)

lemma mem_rep_size: "mem_rep m st ks \<Longrightarrow> hm_size m = hash_table_size st"
  by (simp add: mem_rep_def)

lemma mem_insert_rep:
  assumes rep: "mem_rep m st ks" and al: "kmalloc alloc" and ins: "hash_table_insert skey v t st = Some st'"
  shows "\<exists>m' ks'. mem_insert alloc skey v t m = Some m' \<and> mem_rep m' st' ks'"
proof (cases "hash_table_size st \<ge> int HASH_TABLE_MAX_SIZE")
  case True
  with ins rep show ?thesis by (auto simp: hash_table_insert_def mem_insert_def mem_rep_size [OF rep])
next
  case room: False
  with ins obtain pos chain found where pos: "bucket_of skey = Some pos"
    and c: "chain_update skey v t (hashTable st pos) = Some (chain, found)"
    by (auto simp: hash_table_insert_def split: option.splits prod.splits)
  note P = bucket_of_less [OF pos] and x = mem_rep_chain [OF rep bucket_of_less [OF pos]] and sz = mem_rep_size [OF rep]
  from chain_update_split [OF c] show ?thesis
  proof (elim disjE exE conjE)
    assume miss: "misses (\<lambda>k. strcmp_lin k skey) (hashTable st pos)" "\<not> found" "chain = hashTable st pos"
    with ins room pos c obtain k where k: "key_copy skey = Some k"
      "st' = \<lparr>hashTable = (hashTable st)(pos := \<lparr>sKey = k, node_time = t, nValue = v\<rparr> # hashTable st pos), hash_table_size = hash_table_size st + 1\<rparr>"
      by (auto simp: hash_table_insert_def split: option.splits)
    let ?a = "alloc (hm_heap m)" and ?n = "\<lparr>sKey = k, node_time = t, nValue = v\<rparr>"
    let ?h = "(hm_heap m)(?a \<mapsto> \<lparr>nval = ?n, nnext = hm_table m pos\<rparr>)"
    have new: "?a \<notin> dom (hm_heap m)" using kmalloc.fresh [OF al mem_rep_finite [OF rep]] by auto
    then have "?a \<notin> fst ` set (ks pos)" using x by blast
    then have "lseg ?h (Some ?a) ((?a, ?n) # ks pos)" using x by simp
    moreover obtain q where "seek (\<lambda>k. strcmp_lin k skey) (hm_heap m) None (hm_table m pos) = Some (q, None)"
      using seek_miss [of "hm_heap m" "hm_table m pos" "ks pos" "\<lambda>k. strcmp_lin k skey" None] x miss(1) by auto
    with room pos k(1) sz have
      "mem_insert alloc skey v t m = Some \<lparr>hm_table = (hm_table m)(pos := Some ?a), hm_heap = ?h, hm_size = hm_size m + 1\<rparr>"
      by (simp add: mem_insert_def Let_def)
    moreover have "fst ` set ((?a, ?n) # ks pos) \<inter> (dom (hm_heap m) - fst ` set (ks pos)) = {}" using new by auto
    moreover have "dom ?h = dom (hm_heap m) - fst ` set (ks pos) \<union> fst ` set ((?a, ?n) # ks pos)" using x by auto
    ultimately show ?thesis
      using mem_rep_bucket [OF rep P, of ?h "(hm_table m)(pos := Some ?a)" "(?a, ?n) # ks pos" "?n # hashTable st pos" "hm_size m + 1"]
        x k(2) sz new \<open>?a \<notin> fst ` set (ks pos)\<close> by fastforce
  next
    fix us n ws assume found and hit: "hits (\<lambda>k. strcmp_lin k skey) (hashTable st pos) us n ws"
      and ch: "chain = us @ n\<lparr>nValue := v, node_time := t\<rparr> # ws"
    from hit x have "hits (\<lambda>k. strcmp_lin k skey) (map snd (ks pos)) us n ws" by simp
    then obtain us' a ws' where n: "ks pos = us' @ (a, n) # ws'" "map snd us' = us" "map snd ws' = ws"
      "seek (\<lambda>k. strcmp_lin k skey) (hm_heap m) None (hm_table m pos) = Some (last_ptr us', Some a)"
      "hm_heap m a = Some \<lparr>nval = n, nnext = first_ptr ws'\<rparr>" by (rule hits_nodes) (use x in auto)
    let ?n = "n\<lparr>nValue := v, node_time := t\<rparr>" and ?xs = "us' @ (a, n\<lparr>nValue := v, node_time := t\<rparr>) # ws'"
    let ?h = "(hm_heap m)(a \<mapsto> \<lparr>nval = ?n, nnext = first_ptr ws'\<rparr>)"
    have "lseg ?h (hm_table m pos) ?xs" using lseg_write [of "hm_heap m" "hm_table m pos" us' a n ws' ?n] x n(1) by simp
    moreover have "mem_insert alloc skey v t m = Some \<lparr>hm_table = hm_table m, hm_heap = ?h, hm_size = hm_size m\<rparr>"
      using room pos n(4,5) sz by (simp add: mem_insert_def)
    moreover have "st' = \<lparr>hashTable = (hashTable st)(pos := chain), hash_table_size = hash_table_size st\<rparr>"
      using ins room pos c \<open>found\<close> by (cases st) (simp add: hash_table_insert_def)
    moreover have "mem_rep \<lparr>hm_table = hm_table m, hm_heap = ?h, hm_size = hm_size m\<rparr>
        \<lparr>hashTable = (hashTable st)(pos := chain), hash_table_size = hm_size m\<rparr> (ks(pos := ?xs))"
    proof (rule mem_rep_bucket [OF rep P])
      have k: "fst ` set ?xs = fst ` set (ks pos)" "a \<in> fst ` set (ks pos)" using n(1) by auto
      show "dom ?h = dom (hm_heap m) - fst ` set (ks pos) \<union> fst ` set ?xs" using n(5) k x by auto
      show "fst ` set ?xs \<inter> (dom (hm_heap m) - fst ` set (ks pos)) = {}" using k(1) by blast
      show "?h b = hm_heap m b" if "b \<in> dom (hm_heap m) - fst ` set (ks pos)" for b using that k(2) by auto
    qed (use calculation n(1-3) ch x in auto)
    ultimately show ?thesis using sz by auto
  qed
qed

lemma mem_remove_rep:
  assumes rep: "mem_rep m st ks" and del: "hash_table_remove skey st = Some st'"
  shows "\<exists>m' ks'. mem_remove skey m = Some m' \<and> mem_rep m' st' ks'"
proof -
  from del obtain pos chain removed where pos: "bucket_of skey = Some pos"
    and c: "chain_remove skey (hashTable st pos) = Some (chain, removed)"
    by (auto simp: hash_table_remove_def split: option.splits prod.splits)
  note P = bucket_of_less [OF pos] and x = mem_rep_chain [OF rep bucket_of_less [OF pos]] and sz = mem_rep_size [OF rep]
  from chain_remove_split [OF c] show ?thesis
  proof (elim disjE exE conjE)
    assume miss: "misses (strcmp_lin skey) (hashTable st pos)" "\<not> removed" "chain = hashTable st pos"
    then obtain q where "seek (strcmp_lin skey) (hm_heap m) None (hm_table m pos) = Some (q, None)"
      using seek_miss [of "hm_heap m" "hm_table m pos" "ks pos" "strcmp_lin skey" None] x by auto
    with pos have "mem_remove skey m = Some m" by (simp add: mem_remove_def)
    moreover have "st' = st" using del pos c miss(2) by (simp add: hash_table_remove_def)
    ultimately show ?thesis using rep by blast
  next
    fix us n ws assume removed and hit: "hits (strcmp_lin skey) (hashTable st pos) us n ws" and ch: "chain = us @ ws"
    from hit x have "hits (strcmp_lin skey) (map snd (ks pos)) us n ws" by simp
    then obtain us' a ws' where n: "ks pos = us' @ (a, n) # ws'" "map snd us' = us" "map snd ws' = ws"
      "seek (strcmp_lin skey) (hm_heap m) None (hm_table m pos) = Some (last_ptr us', Some a)"
      "hm_heap m a = Some \<lparr>nval = n, nnext = first_ptr ws'\<rparr>" by (rule hits_nodes) (use x in auto)
    have st': "st' = \<lparr>hashTable = (hashTable st)(pos := chain), hash_table_size = hash_table_size st - 1\<rparr>"
      using del pos c \<open>removed\<close> by (simp add: hash_table_remove_def)
    have d: "distinct (map fst (us' @ (a, n) # ws'))" using x n(1) by simp
    have xs: "distinct (map fst (us' @ ws'))" "map snd (us' @ ws') = chain" "fst ` set (us' @ ws') = fst ` set (ks pos) - {a}"
      using d n(1-3) ch by auto
    have unlinked: "\<exists>tbl h. mem_remove skey m = Some \<lparr>hm_table = tbl, hm_heap = h, hm_size = hm_size m - 1\<rparr> \<and>
        lseg h (tbl pos) (us' @ ws') \<and> (\<forall>p. p \<noteq> pos \<longrightarrow> tbl p = hm_table m p) \<and>
        (\<forall>b. b \<notin> fst ` set (ks pos) \<longrightarrow> h b = hm_heap m b) \<and> dom h = dom (hm_heap m) - {a}"
    proof (cases us' rule: rev_cases)
      case Nil
      then have "lseg (hm_heap m) (first_ptr ws') ws'" using x n(1) n(5) by auto
      then have "lseg ((hm_heap m)(a := None)) (first_ptr ws') ws'" using d Nil by simp
      moreover have "mem_remove skey m =
          Some \<lparr>hm_table = (hm_table m)(pos := first_ptr ws'), hm_heap = (hm_heap m)(a := None), hm_size = hm_size m - 1\<rparr>"
        using Nil pos n(4,5) by (simp add: mem_remove_def)
      ultimately show ?thesis
        using Nil n(1)
        by (intro exI [of _ "(hm_table m)(pos := first_ptr ws')"] exI [of _ "(hm_heap m)(a := None)"]) auto
    next
      case (snoc vs y)
      obtain l w where y: "y = (l, w)" by (cases y)
      let ?h = "(hm_heap m)(l \<mapsto> \<lparr>nval = w, nnext = first_ptr ws'\<rparr>, a := None)"
      have "lseg (hm_heap m) (hm_table m pos) (vs @ (l, w) # (a, n) # ws')" using x n(1) snoc y by simp
      note l = lseg_read [OF this] and u = lseg_unlink [OF this]
      have "lseg ?h (hm_table m pos) (us' @ ws')" using u d snoc y by simp
      moreover have "mem_remove skey m = Some \<lparr>hm_table = hm_table m, hm_heap = ?h, hm_size = hm_size m - 1\<rparr>"
        using snoc y pos n(4,5) l by (simp add: mem_remove_def)
      moreover have "l \<in> fst ` set (ks pos)" "l \<in> dom (hm_heap m)" "a \<in> fst ` set (ks pos)" using n(1) snoc y l by auto
      ultimately show ?thesis by (intro exI [of _ "hm_table m"] exI [of _ ?h]) auto
    qed
    then obtain tbl h where u: "mem_remove skey m = Some \<lparr>hm_table = tbl, hm_heap = h, hm_size = hm_size m - 1\<rparr>"
      "lseg h (tbl pos) (us' @ ws')" "\<And>p. p \<noteq> pos \<Longrightarrow> tbl p = hm_table m p"
      "\<And>b. b \<notin> fst ` set (ks pos) \<Longrightarrow> h b = hm_heap m b" "dom h = dom (hm_heap m) - {a}" by blast
    have a: "a \<in> fst ` set (ks pos)" "fst ` set (ks pos) \<subseteq> dom (hm_heap m)" using n(1) x by auto
    have "mem_rep \<lparr>hm_table = tbl, hm_heap = h, hm_size = hm_size m - 1\<rparr> st' (ks(pos := us' @ ws'))"
      unfolding st' sz
      by (rule mem_rep_bucket [OF rep P]) (use u(2-5) xs a in auto)
    with u(1) show ?thesis by blast
  qed
qed

lemma mem_lookup_rep:
  assumes rep: "mem_rep m st ks" and l: "hash_table_lookup skey st = Some r"
  shows "case r of None \<Rightarrow> mem_lookup skey m = Some None
     | Some n \<Rightarrow> (\<exists>a q. mem_lookup skey m = Some (Some a) \<and> hm_heap m a = Some \<lparr>nval = n, nnext = q\<rparr>)"
proof -
  from l obtain pos where pos: "bucket_of skey = Some pos" and c: "chain_lookup skey (hashTable st pos) = Some r"
    by (auto simp: hash_table_lookup_def split: option.splits)
  note x = mem_rep_chain [OF rep bucket_of_less [OF pos]]
  from chain_lookup_split [OF c] show ?thesis
  proof (elim disjE exE conjE)
    assume "misses (strcmp_lin skey) (hashTable st pos)" "r = None"
    then show ?thesis
      using seek_miss [of "hm_heap m" "hm_table m pos" "ks pos" "strcmp_lin skey" None] x pos by (auto simp: mem_lookup_def)
  next
    fix us n ws assume "hits (strcmp_lin skey) (hashTable st pos) us n ws" and r: "r = Some n"
    with x have "hits (strcmp_lin skey) (map snd (ks pos)) us n ws" by simp
    then obtain us' a ws' where "ks pos = us' @ (a, n) # ws'" "map snd us' = us" "map snd ws' = ws"
      "seek (strcmp_lin skey) (hm_heap m) None (hm_table m pos) = Some (last_ptr us', Some a)"
      "hm_heap m a = Some \<lparr>nval = n, nnext = first_ptr ws'\<rparr>" by (rule hits_nodes) (use x in auto)
    with pos r show ?thesis by (auto simp: mem_lookup_def)
  qed
qed

section \<open>Printing and releasing\<close>

lemma print_buckets_rep:
  "mem_rep m st ks \<Longrightarrow> set js \<subseteq> {..<HASH_TABLE_MAX_SIZE} \<Longrightarrow>
   print_buckets (hm_table m) (hm_heap m) js =
     Some (map (\<lambda>p. (p, hashTable st p)) (filter (\<lambda>p. hashTable st p \<noteq> []) js))"
proof (induction js)
  case (Cons i js)
  then have x: "lseg (hm_heap m) (hm_table m i) (ks i)" "hashTable st i = map snd (ks i)" using mem_rep_chain [of m st ks i] by auto
  then have "hm_table m i = None \<longleftrightarrow> ks i = []" by (cases "ks i") (auto simp: lseg_None)
  with Cons x walk_lseg [OF x(1), of "[]"] show ?case by simp
qed simp

lemma length_buckets:
  "length (concat (map snd (map (\<lambda>p. (p, T p)) (filter (\<lambda>p. T p \<noteq> []) js)))) = sum_list (map (\<lambda>p. length (T p)) js)"
  by (induction js) auto

lemma hash_table_print_rep:
  assumes "mem_rep m st ks" "hash_wf st"
  shows "hash_table_print m =
    Some (map (\<lambda>p. (p, hashTable st p)) (filter (\<lambda>p. hashTable st p \<noteq> []) [0..<HASH_TABLE_MAX_SIZE]), False)"
proof -
  have "hash_table_size st = (\<Sum>p<HASH_TABLE_MAX_SIZE. int (length (hashTable st p)))" using assms(2) by (simp add: hash_wf_def)
  also have "\<dots> = int (sum_list (map (\<lambda>p. length (hashTable st p)) [0..<HASH_TABLE_MAX_SIZE]))"
    by (simp add: interv_sum_list_conv_sum_set_nat atLeast0LessThan)
  finally have n: "hm_size m = int (sum_list (map (\<lambda>p. length (hashTable st p)) [0..<HASH_TABLE_MAX_SIZE]))"
    by (simp only: mem_rep_size [OF assms(1)])
  have "print_buckets (hm_table m) (hm_heap m) [0..<HASH_TABLE_MAX_SIZE] =
      Some (map (\<lambda>p. (p, hashTable st p)) (filter (\<lambda>p. hashTable st p \<noteq> []) [0..<HASH_TABLE_MAX_SIZE]))"
    by (rule print_buckets_rep [OF assms(1)]) auto
  then show ?thesis unfolding hash_table_print_def by (simp only: option.map length_buckets n) simp
qed

lemma release_buckets_lseg:
  assumes "distinct js" "\<And>p. p \<in> set js \<Longrightarrow> lseg h (tbl p) (ks p) \<and> distinct (map fst (ks p))"
    and "\<And>p q. p \<in> set js \<Longrightarrow> q \<in> set js \<Longrightarrow> p \<noteq> q \<Longrightarrow> fst ` set (ks p) \<inter> fst ` set (ks q) = {}"
  shows "release_buckets tbl js h = Some (\<lambda>a. if a \<in> (\<Union>p\<in>set js. fst ` set (ks p)) then None else h a)"
  using assms
proof (induction js arbitrary: h)
  case (Cons i js)
  let ?h = "\<lambda>a. if a \<in> fst ` set (ks i) then None else h a"
  have "destroy_list (tbl i) h = Some ?h" using destroy_list_lseg [of h "tbl i" "ks i"] Cons.prems(2) by simp
  moreover have "release_buckets tbl js ?h = Some (\<lambda>a. if a \<in> (\<Union>p\<in>set js. fst ` set (ks p)) then None else ?h a)"
  proof (rule Cons.IH)
    fix p assume p: "p \<in> set js"
    then have d: "fst ` set (ks p) \<inter> fst ` set (ks i) = {}" using Cons.prems(1,3) by (metis distinct.simps(2) list.set_intros)
    have "lseg h (tbl p) (ks p)" using Cons.prems(2) p by simp
    then have "lseg ?h (tbl p) (ks p)" by (rule lseg_agree) (use d in auto)
    then show "lseg ?h (tbl p) (ks p) \<and> distinct (map fst (ks p))" using Cons.prems(2) p by simp
  qed (use Cons.prems in auto)
  moreover have "(\<lambda>a. if a \<in> (\<Union>p\<in>set js. fst ` set (ks p)) then None else ?h a) =
      (\<lambda>a. if a \<in> (\<Union>p\<in>set (i # js). fst ` set (ks p)) then None else h a)" by (auto simp: fun_eq_iff)
  ultimately show ?case by simp
qed simp

lemma hash_table_release_rep:
  assumes "mem_rep m st ks"
  shows "hash_table_release m = Some (m\<lparr>hm_heap := Map.empty\<rparr>)"
proof -
  have "release_buckets (hm_table m) [0..<HASH_TABLE_MAX_SIZE] (hm_heap m) =
      Some (\<lambda>a. if a \<in> (\<Union>p\<in>set [0..<HASH_TABLE_MAX_SIZE]. fst ` set (ks p)) then None else hm_heap m a)"
    by (rule release_buckets_lseg) (use assms in \<open>auto simp: mem_rep_def\<close>)
  moreover have "(\<lambda>a. if a \<in> (\<Union>p\<in>set [0..<HASH_TABLE_MAX_SIZE]. fst ` set (ks p)) then None else hm_heap m a) = Map.empty"
  proof
    fix a
    have "dom (hm_heap m) = (\<Union>p\<in>set [0..<HASH_TABLE_MAX_SIZE]. fst ` set (ks p))"
      using assms by (simp add: mem_rep_def atLeast0LessThan)
    then show "(if a \<in> (\<Union>p\<in>set [0..<HASH_TABLE_MAX_SIZE]. fst ` set (ks p)) then None else hm_heap m a) = None"
      by (metis domIff)
  qed
  ultimately show ?thesis by (simp add: hash_table_release_def)
qed

section \<open>Runs\<close>

definition mem_ins :: "(HashNode heap \<Rightarrow> nat) \<Rightarrow> bytes \<Rightarrow> u32 \<times> u64 \<Rightarrow> hash_memory \<Rightarrow> hash_memory option" where
  "mem_ins alloc k v m = mem_insert alloc k (fst v) (snd v) m"

lemma mem_run_rep:
  assumes al: "kmalloc alloc"
  shows "list_all (\<lambda>x. key_ok (op_key x)) ops \<Longrightarrow> hash_wf st \<Longrightarrow> mem_rep m st ks \<Longrightarrow>
   \<exists>st' m' ks'. run_store hash_ins hash_table_remove ops st = Some st' \<and> hash_wf st' \<and>
     run_store (mem_ins alloc) mem_remove ops m = Some m' \<and> mem_rep m' st' ks'"
proof (induction ops arbitrary: st m ks)
  case Nil
  then show ?case by auto
next
  case (Cons x ops)
  show ?case
  proof (cases x)
    case (Put k v)
    with Cons.prems hash.ins_content [of st k v] obtain st1 where s: "hash_ins k v st = Some st1" "hash_wf st1" by auto
    then have "hash_table_insert k (fst v) (snd v) st = Some st1" by (simp add: hash_ins_def)
    from mem_insert_rep [OF Cons.prems(3) al this] obtain m1 ks1 where
      "mem_ins alloc k v m = Some m1" "mem_rep m1 st1 ks1" by (auto simp: mem_ins_def)
    with Cons.IH [of st1 m1 ks1] Cons.prems(1) s Put show ?thesis by simp
  next
    case (Del k)
    with Cons.prems hash.del_content [of st k] obtain st1 where s: "hash_table_remove k st = Some st1" "hash_wf st1" by auto
    from mem_remove_rep [OF Cons.prems(3) s(1)] obtain m1 ks1 where "mem_remove k m = Some m1" "mem_rep m1 st1 ks1" by auto
    with Cons.IH [of st1 m1 ks1] Cons.prems(1) s Del show ?thesis by simp
  qed
qed

section \<open>Properties\<close>

text \<open>
  C21.  The table with its pointers does what the lists of Hash_Table do: any sequence of insertions
  and removals with admissible keys touches neither null nor freed memory, whatever addresses
  the allocator gives; a look-up points to a node with the value of the list model or to null;
  printing lists exactly the entries and its check of the counter never ends the program; and
  releasing the table frees every node once and leaves nothing allocated.
\<close>

theorem hash_memory_refines:
  assumes "kmalloc alloc" "list_all (\<lambda>x. key_ok (op_key x)) ops" "key_ok k"
  shows "\<exists>st m. run_store hash_ins hash_table_remove ops hash_table_init = Some st \<and>
    run_store (mem_ins alloc) mem_remove ops mem_init = Some m \<and>
    (case hash_table_lookup k st of
       Some None \<Rightarrow> mem_lookup k m = Some None
     | Some (Some n) \<Rightarrow> (\<exists>a q. mem_lookup k m = Some (Some a) \<and> hm_heap m a = Some \<lparr>nval = n, nnext = q\<rparr>)
     | None \<Rightarrow> False) \<and>
    hash_table_print m =
      Some (map (\<lambda>p. (p, hashTable st p)) (filter (\<lambda>p. hashTable st p \<noteq> []) [0..<HASH_TABLE_MAX_SIZE]), False) \<and>
    hash_table_release m = Some (m\<lparr>hm_heap := Map.empty\<rparr>)"
proof -
  from mem_run_rep [OF assms(1,2) hash_wf_init mem_rep_init] obtain st m ks where
    r: "run_store hash_ins hash_table_remove ops hash_table_init = Some st" "hash_wf st"
      "run_store (mem_ins alloc) mem_remove ops mem_init = Some m" "mem_rep m st ks" by blast
  from hash.look_content [OF r(2) assms(3)] obtain x where x: "hash_table_lookup k st = Some x"
    by (auto simp: hash_look_def)
  with mem_lookup_rep [OF r(4) x] hash_table_print_rep [OF r(4,2)] hash_table_release_rep [OF r(4)] r(1,3)
  show ?thesis by (intro exI [of _ st] exI [of _ m]) (auto split: option.splits)
qed

theorem hash_memory_refines_witness:
  "\<exists>m. run_store (mem_ins bump_alloc) mem_remove
      [Put [4, 161, 81, 163, 87, 26, 0] (7, 100), Del [4, 161, 81, 163, 87, 27, 0]] mem_init = Some m \<and>
    hash_table_release m = Some (m\<lparr>hm_heap := Map.empty\<rparr>)"
  using hash_memory_refines [OF bump.kmalloc_axioms, of
      "[Put [4, 161, 81, 163, 87, 26, 0] (7, 100), Del [4, 161, 81, 163, 87, 27, 0]]" "[4, 161, 81, 163, 87, 26, 0]"]
  by (auto simp: key_ok_def c_strlen_def)

text \<open>
  The table still points to the nodes that were released: the next look-up in a bucket that had an
  entry reads freed memory.
\<close>

theorem release_leaves_pointers:
  assumes "mem_rep m st ks" "bucket_of k = Some p" "hashTable st p \<noteq> []"
  shows "\<exists>m'. hash_table_release m = Some m' \<and> mem_lookup k m' = None"
proof -
  from mem_rep_chain [OF assms(1) bucket_of_less [OF assms(2)]] assms(3) obtain a where "hm_table m p = Some a"
    by (cases "ks p") auto
  then have "mem_lookup k (m\<lparr>hm_heap := Map.empty\<rparr>) = None"
    using assms(2) by (simp add: mem_lookup_def) (subst seek.simps, simp)
  with hash_table_release_rep [OF assms(1)] show ?thesis by blast
qed

end
