(* ===== verification/State_Machine.thy ===== *)
theory State_Machine
  imports Prelude
begin

text \<open>
  The hierarchical state machine of \<^verbatim>\<open>stateMachine/src/stateMachine.c\<close> and the keyboard machine of
  \<^verbatim>\<open>stateMachine/examples/stateMachineExample.c\<close>.  States live in a store from names to structs;
  a pointer to a state is a name or null (None).  \<open>'v\<close> is the type of the \<open>void *\<close> values and \<open>'w\<close> the
  world that actions change.  Parent and entry chains are followed without a bound in the code,
  so both loops are partial functions: None is an event that is never answered.
\<close>

section \<open>Data\<close>

record 'v event =
  ev_type :: int
  ev_data :: 'v

record ('s, 'v, 'w) transition =
  eventType :: int
  condition :: 'v
  guard :: "('v \<Rightarrow> 'v event \<Rightarrow> bool) option"
  action :: "('v \<Rightarrow> 'v event \<Rightarrow> 'v \<Rightarrow> 'w \<Rightarrow> 'w) option"
  nextState :: "'s option"

record ('s, 'v, 'w) state =
  parentState :: "'s option"
  entryState :: "'s option"
  transitions :: "('s, 'v, 'w) transition list"
  data :: 'v
  entryAction :: "('v \<Rightarrow> 'v event \<Rightarrow> 'w \<Rightarrow> 'w) option"
  exitAction :: "('v \<Rightarrow> 'v event \<Rightarrow> 'w \<Rightarrow> 'w) option"

type_synonym ('s, 'v, 'w) store = "'s \<Rightarrow> ('s, 'v, 'w) state"

record 's fsm =
  currentState :: "'s option"
  previousState :: "'s option"
  errorState :: "'s option"

datatype retval = ErrArg | ErrorStateReached | StateChanged | StateLoopSelf | NoStateChange | FinalStateReached

definition retval_int :: "retval \<Rightarrow> int" where
  "retval_int r = (case r of ErrArg \<Rightarrow> -2 | ErrorStateReached \<Rightarrow> -1 | StateChanged \<Rightarrow> 0
     | StateLoopSelf \<Rightarrow> 1 | NoStateChange \<Rightarrow> 2 | FinalStateReached \<Rightarrow> 3)"

section \<open>Operations\<close>

definition stateM_init :: "'s fsm option \<Rightarrow> 's option \<Rightarrow> 's option \<Rightarrow> 's fsm option" where
  "stateM_init fsm initialState errState =
    map_option (\<lambda>_. \<lparr>currentState = initialState, previousState = None, errorState = errState\<rparr>) fsm"

fun scan_transitions :: "('s, 'v, 'w) transition list \<Rightarrow> 'v event \<Rightarrow> ('s, 'v, 'w) transition option" where
  "scan_transitions [] e = None"
| "scan_transitions (t # ts) e =
     (if eventType t = ev_type e then
        (case guard t of
           None \<Rightarrow> Some t
         | Some g \<Rightarrow> if g (condition t) e then Some t else scan_transitions ts e)
      else scan_transitions ts e)"

definition getTransition :: "('s, 'v, 'w) store \<Rightarrow> 's \<Rightarrow> 'v event \<Rightarrow> ('s, 'v, 'w) transition option" where
  "getTransition st s e = scan_transitions (transitions (st s)) e"

definition goToErrorState :: "('s, 'v, 'w) store \<Rightarrow> 'v event \<Rightarrow> 's fsm \<Rightarrow> 'w \<Rightarrow> 's fsm \<times> 'w" where
  "goToErrorState st e fsm w =
    (let fsm' = fsm\<lparr>previousState := currentState fsm, currentState := errorState fsm\<rparr>
     in (fsm', case currentState fsm' of
                 None \<Rightarrow> w
               | Some s \<Rightarrow> (case entryAction (st s) of None \<Rightarrow> w | Some f \<Rightarrow> f (data (st s)) e w)))"

text \<open>The walk to the parents until a transition is found, and the walk down the entry states.\<close>

partial_function (option) find_transition ::
  "('s, 'v, 'w) store \<Rightarrow> 'v event \<Rightarrow> 's \<Rightarrow> ('s, 'v, 'w) transition option option"
where
  "find_transition st e s =
    (case getTransition st s e of
       Some t \<Rightarrow> Some (Some t)
     | None \<Rightarrow> (case parentState (st s) of None \<Rightarrow> Some None | Some p \<Rightarrow> find_transition st e p))"

partial_function (option) descend :: "('s, 'v, 'w) store \<Rightarrow> 's \<Rightarrow> 's option" where
  "descend st s = (case entryState (st s) of None \<Rightarrow> Some s | Some c \<Rightarrow> descend st c)"

definition run_optional :: "('v \<Rightarrow> 'v event \<Rightarrow> 'w \<Rightarrow> 'w) option \<Rightarrow> 'v \<Rightarrow> 'v event \<Rightarrow> 'w \<Rightarrow> 'w" where
  "run_optional f v e w = (case f of None \<Rightarrow> w | Some g \<Rightarrow> g v e w)"

definition perform ::
  "('s, 'v, 'w) store \<Rightarrow> 'v event \<Rightarrow> 's \<Rightarrow> ('s, 'v, 'w) transition \<Rightarrow> 's \<Rightarrow> 'w \<Rightarrow> 'w"
where
  "perform st e cur t next w =
    (let w1 = (if next \<noteq> cur then run_optional (exitAction (st cur)) (data (st cur)) e w else w);
         w2 = (case action t of None \<Rightarrow> w1 | Some a \<Rightarrow> a (data (st cur)) e (data (st next)) w1)
     in if next \<noteq> cur then run_optional (entryAction (st next)) (data (st next)) e w2 else w2)"

definition stateM_handleEvent ::
  "('s, 'v, 'w) store \<Rightarrow> 's fsm option \<Rightarrow> 'v event option \<Rightarrow> 'w \<Rightarrow> (retval \<times> 's fsm option \<times> 'w) option"
where
  "stateM_handleEvent st fsmo eo w =
    (case (fsmo, eo) of
       (Some fsm, Some e) \<Rightarrow>
         (case currentState fsm of
            None \<Rightarrow> (let (fsm', w') = goToErrorState st e fsm w in Some (ErrorStateReached, Some fsm', w'))
          | Some cur \<Rightarrow>
              if transitions (st cur) = [] then Some (NoStateChange, Some fsm, w)
              else (case find_transition st e cur of
                 None \<Rightarrow> None
               | Some None \<Rightarrow> Some (NoStateChange, Some fsm, w)
               | Some (Some t) \<Rightarrow>
                   (case nextState t of
                      None \<Rightarrow> (let (fsm', w') = goToErrorState st e fsm w
                               in Some (ErrorStateReached, Some fsm', w'))
                    | Some n \<Rightarrow>
                        (case descend st n of
                           None \<Rightarrow> None
                         | Some next \<Rightarrow>
                             let w' = perform st e cur t next w;
                                 fsm' = fsm\<lparr>previousState := Some cur, currentState := Some next\<rparr>
                             in Some (if next = cur then StateLoopSelf
                                      else if Some next = errorState fsm then ErrorStateReached
                                      else if transitions (st next) = [] then FinalStateReached
                                      else StateChanged, Some fsm', w')))))
     | _ \<Rightarrow> Some (ErrArg, fsmo, w))"

definition stateM_currentState :: "'s fsm option \<Rightarrow> 's option" where
  "stateM_currentState fsmo = (case fsmo of None \<Rightarrow> None | Some fsm \<Rightarrow> currentState fsm)"

definition stateM_previousState :: "'s fsm option \<Rightarrow> 's option" where
  "stateM_previousState fsmo = (case fsmo of None \<Rightarrow> None | Some fsm \<Rightarrow> previousState fsm)"

text \<open>The current state is dereferenced without a test, so a null current state is None.\<close>

definition stateM_stopped :: "('s, 'v, 'w) store \<Rightarrow> 's fsm option \<Rightarrow> bool option" where
  "stateM_stopped st fsmo = (case fsmo of
     None \<Rightarrow> Some True
   | Some fsm \<Rightarrow> (case currentState fsm of None \<Rightarrow> None | Some s \<Rightarrow> Some (transitions (st s) = [])))"

section \<open>Termination\<close>

text \<open>A store is well founded when parents and entry states are ranked.\<close>

definition ranked :: "('s, 'v, 'w) store \<Rightarrow> ('s \<Rightarrow> nat) \<Rightarrow> ('s \<Rightarrow> nat) \<Rightarrow> bool" where
  "ranked st up down \<longleftrightarrow>
    (\<forall>s p. parentState (st s) = Some p \<longrightarrow> up p < up s) \<and>
    (\<forall>s c. entryState (st s) = Some c \<longrightarrow> down c < down s)"

lemma find_transition_total:
  "ranked st up down \<Longrightarrow> \<exists>r. find_transition st e s = Some r"
proof (induction "up s" arbitrary: s rule: less_induct)
  case less
  show ?case
  proof (cases "getTransition st s e")
    case None
    show ?thesis
    proof (cases "parentState (st s)")
      case (Some p)
      then have "up p < up s" using less.prems by (simp add: ranked_def)
      with less.hyps [of p] less.prems None Some show ?thesis
        by (subst find_transition.simps) simp
    qed (use None in \<open>subst find_transition.simps, simp\<close>)
  qed (subst find_transition.simps, simp)
qed

lemma descend_total:
  "ranked st up down \<Longrightarrow> \<exists>r. descend st s = Some r"
proof (induction "down s" arbitrary: s rule: less_induct)
  case less
  show ?case
  proof (cases "entryState (st s)")
    case (Some c)
    then have "down c < down s" using less.prems by (simp add: ranked_def)
    with less.hyps [of c] less.prems Some show ?thesis by (subst descend.simps) simp
  qed (subst descend.simps, simp)
qed

lemma descend_leaf: "descend st s = Some r \<Longrightarrow> entryState (st r) = None"
proof (induction rule: descend.raw_induct [rotated, consumes 1, case_names step])
  case (step f s r)
  then show ?case by (auto split: option.splits)
qed

text \<open>
  C33.  On a store whose parent and entry chains are well founded, every event is answered: the
  search through the parents and the walk down the entry states both end.
\<close>

theorem stateM_handleEvent_answers:
  assumes "ranked st up down"
  shows "\<exists>r fsm' w'. stateM_handleEvent st fsmo eo w = Some (r, fsm', w')"
proof (cases "\<exists>fsm e cur. fsmo = Some fsm \<and> eo = Some e \<and> currentState fsm = Some cur \<and> transitions (st cur) \<noteq> []")
  case True
  then obtain fsm e cur where
    c: "fsmo = Some fsm" "eo = Some e" "currentState fsm = Some cur" "transitions (st cur) \<noteq> []" by blast
  obtain t where t: "find_transition st e cur = Some t"
    using find_transition_total [OF assms] by blast
  show ?thesis
  proof (cases "\<exists>tr n. t = Some tr \<and> nextState tr = Some n")
    case True
    then obtain tr n where "t = Some tr" "nextState tr = Some n" by blast
    moreover obtain nx where "descend st n = Some nx"
      using descend_total [OF assms] by blast
    ultimately show ?thesis using c t by (simp add: stateM_handleEvent_def Let_def)
  next
    case False
    with c t show ?thesis
      by (auto simp: stateM_handleEvent_def Let_def split: option.splits prod.splits)
  qed
next
  case False
  then show ?thesis
    by (cases fsmo; cases eo)
      (auto simp: stateM_handleEvent_def Let_def split: option.splits prod.splits)
qed

section \<open>Where the machine can be\<close>

text \<open>
  A state the machine may rest in: none, the error state, the initial state, or a state without
  an entry state of its own.
\<close>

definition resting :: "('s, 'v, 'w) store \<Rightarrow> 's option \<Rightarrow> 's fsm \<Rightarrow> bool" where
  "resting st init fsm \<longleftrightarrow>
    (case currentState fsm of
       None \<Rightarrow> True
     | Some s \<Rightarrow> Some s = errorState fsm \<or> Some s = init \<or> entryState (st s) = None)"

lemma errorState_handleEvent:
  "stateM_handleEvent st (Some fsm) eo w = Some (r, Some fsm', w') \<Longrightarrow> errorState fsm' = errorState fsm"
  by (auto simp: stateM_handleEvent_def goToErrorState_def Let_def split: option.splits if_splits)

lemma resting_handleEvent:
  assumes "stateM_handleEvent st (Some fsm) eo w = Some (r, Some fsm', w')" and "resting st init fsm"
  shows "resting st init fsm'"
  using assms
  by (auto simp: stateM_handleEvent_def goToErrorState_def resting_def Let_def
      dest: descend_leaf split: option.splits if_splits)

text \<open>What each answer says about the state before and after.\<close>

definition answer_ok ::
  "('s, 'v, 'w) store \<Rightarrow> 's fsm \<Rightarrow> 'w \<Rightarrow> retval \<Rightarrow> 's fsm \<Rightarrow> 'w \<Rightarrow> bool"
where
  "answer_ok st fsm w r fsm' w' = (case r of
     ErrArg \<Rightarrow> fsm' = fsm \<and> w' = w
   | NoStateChange \<Rightarrow> fsm' = fsm \<and> w' = w
   | StateLoopSelf \<Rightarrow> currentState fsm' = currentState fsm \<and> currentState fsm \<noteq> None
   | ErrorStateReached \<Rightarrow> currentState fsm' = errorState fsm
   | FinalStateReached \<Rightarrow> (\<exists>s. currentState fsm' = Some s \<and> transitions (st s) = []) \<and>
       currentState fsm' \<noteq> currentState fsm \<and> currentState fsm' \<noteq> errorState fsm
   | StateChanged \<Rightarrow> (\<exists>s. currentState fsm' = Some s \<and> transitions (st s) \<noteq> []) \<and>
       currentState fsm' \<noteq> currentState fsm \<and> currentState fsm' \<noteq> errorState fsm)"

text \<open>
  C32.  Every answer of \<^verbatim>\<open>stateM_handleEvent\<close> describes the change it made: no change and erroneous
  arguments leave machine and world alone, a loop keeps the state, the error answer means the
  machine is in its error state, a final answer that the new state has no transitions, and a
  change that it is a different state with transitions.
\<close>

theorem stateM_handleEvent_answer:
  assumes "stateM_handleEvent st (Some fsm) eo w = Some (r, Some fsm', w')"
  shows "answer_ok st fsm w r fsm' w' \<and>
    (fsm' = fsm \<or> previousState fsm' = currentState fsm)"
  using assms
  by (auto simp: stateM_handleEvent_def goToErrorState_def answer_ok_def Let_def
      split: option.splits if_splits)

section \<open>Runs\<close>

inductive machine_run ::
  "('s, 'v, 'w) store \<Rightarrow> 's fsm \<Rightarrow> 'w \<Rightarrow> 's fsm \<Rightarrow> 'w \<Rightarrow> bool"
  for st :: "('s, 'v, 'w) store" and fsm0 :: "'s fsm" and w0 :: 'w
where
  start: "machine_run st fsm0 w0 fsm0 w0"
| step: "machine_run st fsm0 w0 fsm w \<Longrightarrow>
    stateM_handleEvent st (Some fsm) (Some e) w = Some (r, Some fsm', w') \<Longrightarrow>
    machine_run st fsm0 w0 fsm' w'"

text \<open>
  After any sequence of events from initialisation the machine rests in a state without an
  entry state: it never stays in a group state, unless the user made a group state the initial or
  the error state.
\<close>

theorem machine_run_rests:
  assumes "machine_run st \<lparr>currentState = i, previousState = None, errorState = err\<rparr> w0 fsm w"
  shows "errorState fsm = err \<and> resting st i fsm"
  using assms
proof (induction rule: machine_run.induct)
  case start
  then show ?case by (simp add: resting_def split: option.splits)
next
  case (step fsm w e r fsm' w')
  then show ?case
    using errorState_handleEvent resting_handleEvent by metis
qed

text \<open>
  Without an error state, an event in a null state leaves the machine in a null state, and
  asking whether it has stopped then dereferences the null pointer.
\<close>

theorem stateM_stopped_null:
  assumes "currentState fsm = None" and "errorState fsm = None"
  shows "\<exists>fsm'. stateM_handleEvent st (Some fsm) (Some e) w = Some (ErrorStateReached, Some fsm', w) \<and>
    stateM_stopped st (Some fsm') = None"
  using assms by (auto simp: stateM_handleEvent_def goToErrorState_def stateM_stopped_def Let_def)

end
