(* ===== verification/Keyboard_Machine.thy ===== *)
theory Keyboard_Machine
  imports State_Machine
begin

text \<open>
  The example of the state machine library: keyboard input is checked against "ha" and "hi".  The
  six states with their transitions and actions are the tables of
  \<^verbatim>\<open>stateMachine/examples/stateMachineExample.c\<close>; the world is the list of printed lines.  The
  machine is shown to behave as a four-state automaton.
\<close>

datatype key_state = CheckCharsGroup | IdleState | HState | IState | AState | ErrorState

datatype vptr = VNull | VInt int | VStr string

definition char_text :: "vptr \<Rightarrow> string" where
  "char_text v = (case v of VInt c \<Rightarrow> [char_of (nat (c mod 256))] | _ \<Rightarrow> [])"

definition str_text :: "vptr \<Rightarrow> string" where
  "str_text v = (case v of VStr s \<Rightarrow> s | _ \<Rightarrow> [])"

type_synonym screen = "string list"

section \<open>Actions and guard\<close>

definition compareKeyboardChar :: "vptr \<Rightarrow> vptr event \<Rightarrow> bool" where
  "compareKeyboardChar ch e = (if ev_type e \<noteq> 0 then False else ch = ev_data e)"

definition printEnterMsg :: "vptr \<Rightarrow> vptr event \<Rightarrow> screen \<Rightarrow> screen" where
  "printEnterMsg d e w = w @ [''Entering '' @ str_text d @ '' state'']"

definition printExitMsg :: "vptr \<Rightarrow> vptr event \<Rightarrow> screen \<Rightarrow> screen" where
  "printExitMsg d e w = w @ [''Exiting '' @ str_text d @ '' state'']"

definition printRecognisedChar :: "vptr \<Rightarrow> vptr event \<Rightarrow> screen \<Rightarrow> screen" where
  "printRecognisedChar d e w = printEnterMsg d e w @ [''parsed: '' @ char_text (ev_data e)]"

definition printUnrecognisedChar :: "vptr \<Rightarrow> vptr event \<Rightarrow> vptr \<Rightarrow> screen \<Rightarrow> screen" where
  "printUnrecognisedChar d e d' w = w @ [''unrecognised character: '' @ char_text (ev_data e)]"

definition printReset :: "vptr \<Rightarrow> vptr event \<Rightarrow> vptr \<Rightarrow> screen \<Rightarrow> screen" where
  "printReset d e d' w = w @ [''Resetting'']"

definition printHiMsg :: "vptr \<Rightarrow> vptr event \<Rightarrow> vptr \<Rightarrow> screen \<Rightarrow> screen" where
  "printHiMsg d e d' w = w @ [''Hi!'']"

definition printHaMsg :: "vptr \<Rightarrow> vptr event \<Rightarrow> vptr \<Rightarrow> screen \<Rightarrow> screen" where
  "printHaMsg d e d' w = w @ [''Ha-ha'']"

definition printErrMsg :: "vptr \<Rightarrow> vptr event \<Rightarrow> screen \<Rightarrow> screen" where
  "printErrMsg d e w = w @ [''ENTERED ERROR STATE!'']"

section \<open>The tables\<close>

definition on_char ::
  "int \<Rightarrow> (vptr \<Rightarrow> vptr event \<Rightarrow> vptr \<Rightarrow> screen \<Rightarrow> screen) option \<Rightarrow> key_state \<Rightarrow> (key_state, vptr, screen) transition"
where
  "on_char c a n = \<lparr>eventType = 0, condition = VInt c, guard = Some compareKeyboardChar,
     action = a, nextState = Some n\<rparr>"

fun key_store :: "(key_state, vptr, screen) store" where
  "key_store CheckCharsGroup = \<lparr>parentState = None, entryState = Some IdleState,
     transitions = [on_char 33 (Some printReset) IdleState,
       \<lparr>eventType = 0, condition = VNull, guard = None, action = Some printUnrecognisedChar,
        nextState = Some IdleState\<rparr>],
     data = VStr ''group'', entryAction = Some printEnterMsg, exitAction = Some printExitMsg\<rparr>"
| "key_store IdleState = \<lparr>parentState = Some CheckCharsGroup, entryState = None,
     transitions = [on_char 104 None HState],
     data = VStr ''idle'', entryAction = Some printEnterMsg, exitAction = Some printExitMsg\<rparr>"
| "key_store HState = \<lparr>parentState = Some CheckCharsGroup, entryState = None,
     transitions = [on_char 97 None AState, on_char 105 None IState],
     data = VStr ''H'', entryAction = Some printRecognisedChar, exitAction = Some printExitMsg\<rparr>"
| "key_store IState = \<lparr>parentState = Some CheckCharsGroup, entryState = None,
     transitions = [on_char 10 (Some printHiMsg) IdleState],
     data = VStr ''I'', entryAction = Some printRecognisedChar, exitAction = Some printExitMsg\<rparr>"
| "key_store AState = \<lparr>parentState = Some CheckCharsGroup, entryState = None,
     transitions = [on_char 10 (Some printHaMsg) IdleState],
     data = VStr ''A'', entryAction = Some printRecognisedChar, exitAction = Some printExitMsg\<rparr>"
| "key_store ErrorState = \<lparr>parentState = None, entryState = None, transitions = [],
     data = VNull, entryAction = Some printErrMsg, exitAction = None\<rparr>"

definition key_machine :: "key_state fsm" where
  "key_machine = \<lparr>currentState = Some IdleState, previousState = None, errorState = Some ErrorState\<rparr>"

definition key_event :: "int \<Rightarrow> vptr event" where
  "key_event ch = \<lparr>ev_type = 0, ev_data = VInt ch\<rparr>"

text \<open>The loop of \<^verbatim>\<open>main\<close> over the characters read.\<close>

fun feed :: "int list \<Rightarrow> key_state fsm \<Rightarrow> screen \<Rightarrow> (key_state fsm \<times> screen) option" where
  "feed [] m w = Some (m, w)"
| "feed (ch # chs) m w =
     (case stateM_handleEvent key_store (Some m) (Some (key_event ch)) w of
        Some (r, Some m', w') \<Rightarrow> feed chs m' w'
      | _ \<Rightarrow> None)"

section \<open>The automaton\<close>

datatype mode = Start | SeenH | SeenHa | SeenHi

fun mode_state :: "mode \<Rightarrow> key_state" where
  "mode_state Start = IdleState"
| "mode_state SeenH = HState"
| "mode_state SeenHa = AState"
| "mode_state SeenHi = IState"

text \<open>The next mode, and the greeting that the character completes.\<close>

definition next_mode :: "mode \<Rightarrow> int \<Rightarrow> mode \<times> string list" where
  "next_mode q ch =
    (if q = Start \<and> ch = 104 then (SeenH, [])
     else if q = SeenH \<and> ch = 97 then (SeenHa, [])
     else if q = SeenH \<and> ch = 105 then (SeenHi, [])
     else if q = SeenHa \<and> ch = 10 then (Start, [''Ha-ha''])
     else if q = SeenHi \<and> ch = 10 then (Start, [''Hi!''])
     else (Start, []))"

fun modes :: "mode \<Rightarrow> int list \<Rightarrow> mode \<times> string list" where
  "modes q [] = (q, [])"
| "modes q (ch # chs) =
     (let (q', g) = next_mode q ch; (q'', gs) = modes q' chs in (q'', g @ gs))"

definition greeting :: "string \<Rightarrow> bool" where
  "greeting l \<longleftrightarrow> l = ''Ha-ha'' \<or> l = ''Hi!''"

lemma key_ranked:
  "ranked key_store
    (\<lambda>s. if s = CheckCharsGroup then 0 else 1) (\<lambda>s. if s = CheckCharsGroup then 1 else 0)"
proof -
  have "(parentState (key_store s) = Some p \<longrightarrow>
      (if p = CheckCharsGroup then 0 else 1) < (if s = CheckCharsGroup then 0 else (1 :: nat))) \<and>
    (entryState (key_store s) = Some c \<longrightarrow>
      (if c = CheckCharsGroup then 1 else 0) < (if s = CheckCharsGroup then 1 else (0 :: nat)))" for s p c
    by (cases s) auto
  then show ?thesis unfolding ranked_def by blast
qed

lemma descend_key: "q \<noteq> CheckCharsGroup \<Longrightarrow> descend key_store q = Some q"
  by (subst descend.simps) (cases q; simp)

lemma find_key:
  "find_transition key_store (key_event ch) (mode_state q) =
    Some (case getTransition key_store (mode_state q) (key_event ch) of
       Some t \<Rightarrow> Some t
     | None \<Rightarrow> getTransition key_store CheckCharsGroup (key_event ch))"
proof -
  have "find_transition key_store e CheckCharsGroup = Some (getTransition key_store CheckCharsGroup e)" for e
    by (subst find_transition.simps) (auto split: option.split)
  then show ?thesis
    by (subst find_transition.simps) (cases q; auto split: option.split)
qed

lemmas key_simps =
  getTransition_def on_char_def compareKeyboardChar_def key_event_def perform_def run_optional_def
  printEnterMsg_def printExitMsg_def printRecognisedChar_def printUnrecognisedChar_def
  printReset_def printHiMsg_def printHaMsg_def

lemma key_step:
  assumes "currentState m = Some (mode_state q)"
  shows "\<exists>r m' out. stateM_handleEvent key_store (Some m) (Some (key_event ch)) w = Some (r, Some m', w @ out) \<and>
    currentState m' = Some (mode_state (fst (next_mode q ch))) \<and>
    filter greeting out = snd (next_mode q ch)"
proof (cases q)
  case Start
  with assms show ?thesis
    by (auto simp: stateM_handleEvent_def find_key [of _ Start, simplified, unfolded key_event_def] descend_key next_mode_def greeting_def
        key_simps str_text_def Let_def)
next
  case SeenH
  with assms show ?thesis
    by (auto simp: stateM_handleEvent_def find_key [of _ SeenH, simplified, unfolded key_event_def] descend_key next_mode_def greeting_def
        key_simps str_text_def Let_def)
next
  case SeenHa
  with assms show ?thesis
    by (auto simp: stateM_handleEvent_def find_key [of _ SeenHa, simplified, unfolded key_event_def] descend_key next_mode_def greeting_def
        key_simps str_text_def Let_def)
next
  case SeenHi
  with assms show ?thesis
    by (auto simp: stateM_handleEvent_def find_key [of _ SeenHi, simplified, unfolded key_event_def] descend_key next_mode_def greeting_def
        key_simps str_text_def Let_def)
qed

text \<open>
  On every input the keyboard machine answers every character, is afterwards in the state of
  a four-state automaton, and has printed exactly the greetings of that automaton: "Ha-ha" for
  each h, a, newline read from the idle state and "Hi!" for each h, i, newline, where any other
  character falls back to the idle state.
\<close>

theorem keyboard_machine_is_automaton:
  "\<exists>m' out. feed chs key_machine [] = Some (m', out) \<and>
     currentState m' = Some (mode_state (fst (modes Start chs))) \<and>
     filter greeting out = snd (modes Start chs)"
proof -
  have "\<exists>m' out. feed chs m w = Some (m', w @ out) \<and>
      currentState m' = Some (mode_state (fst (modes q chs))) \<and>
      filter greeting out = snd (modes q chs)"
    if "currentState m = Some (mode_state q)" for q m w
    using that
  proof (induction chs arbitrary: q m w)
    case Nil
    then show ?case by simp
  next
    case (Cons ch chs)
    from key_step [OF Cons.prems, of ch w] obtain r m1 o1 where
      s: "stateM_handleEvent key_store (Some m) (Some (key_event ch)) w = Some (r, Some m1, w @ o1)"
        "currentState m1 = Some (mode_state (fst (next_mode q ch)))"
        "filter greeting o1 = snd (next_mode q ch)" by blast
    from Cons.IH [OF s(2), of "w @ o1"] obtain m2 o2 where
      "feed chs m1 (w @ o1) = Some (m2, (w @ o1) @ o2)"
      "currentState m2 = Some (mode_state (fst (modes (fst (next_mode q ch)) chs)))"
      "filter greeting o2 = snd (modes (fst (next_mode q ch)) chs)" by blast
    with s show ?case by (intro exI [of _ m2] exI [of _ "o1 @ o2"]) (simp add: Let_def split_beta)
  qed
  from this [of key_machine Start "[]"] show ?thesis by (simp add: key_machine_def)
qed

text \<open>The library's theorems at the keyboard machine.\<close>

theorem stateM_handleEvent_answers_witness:
  "\<exists>r fsm' w'. stateM_handleEvent key_store (Some key_machine) (Some (key_event 104)) [] = Some (r, fsm', w')"
  by (rule stateM_handleEvent_answers [OF key_ranked])

lemma key_first_step:
  "\<exists>r m' out. stateM_handleEvent key_store (Some key_machine) (Some (key_event 104)) [] = Some (r, Some m', out)"
proof -
  have "currentState key_machine = Some (mode_state Start)" by (simp add: key_machine_def)
  from key_step [OF this, of 104 "[]"] show ?thesis by (simp, elim exE conjE, intro exI)
qed

theorem stateM_handleEvent_answer_witness:
  "\<exists>r m' out. stateM_handleEvent key_store (Some key_machine) (Some (key_event 104)) [] = Some (r, Some m', out) \<and>
     answer_ok key_store key_machine [] r m' out \<and>
     (m' = key_machine \<or> previousState m' = currentState key_machine)"
proof -
  obtain r m' out where
    s: "stateM_handleEvent key_store (Some key_machine) (Some (key_event 104)) [] = Some (r, Some m', out)"
    using key_first_step by (elim exE)
  from s stateM_handleEvent_answer [OF s] show ?thesis
    by (intro exI [of _ r] exI [of _ m'] exI [of _ out]) simp
qed

theorem machine_run_rests_witness:
  "\<exists>m' out. machine_run key_store
      \<lparr>currentState = Some IdleState, previousState = None, errorState = Some ErrorState\<rparr> [] m' out \<and>
     errorState m' = Some ErrorState \<and> resting key_store (Some IdleState) m'"
proof -
  obtain r m' out where
    s: "stateM_handleEvent key_store (Some key_machine) (Some (key_event 104)) [] = Some (r, Some m', out)"
    using key_first_step by (elim exE)
  have run: "machine_run key_store
      \<lparr>currentState = Some IdleState, previousState = None, errorState = Some ErrorState\<rparr> [] m' out"
    using machine_run.step [OF machine_run.start s] by (simp only: key_machine_def)
  from run machine_run_rests [OF run] show ?thesis
    by (intro exI [of _ m'] exI [of _ out]) simp
qed

theorem stateM_stopped_null_witness:
  "\<exists>fsm'. stateM_handleEvent key_store (Some \<lparr>currentState = None, previousState = None, errorState = None\<rparr>)
      (Some (key_event 104)) [] = Some (ErrorStateReached, Some fsm', []) \<and>
    stateM_stopped key_store (Some fsm') = None"
  by (rule stateM_stopped_null) simp_all

end
