(* ===== verification/Nested_Machine.thy ===== *)
theory Nested_Machine
  imports State_Machine
begin

text \<open>
  The test program of the state machine library, \<^verbatim>\<open>stateMachine/tests/nestedTest.c\<close>: a machine with
  ten states nested four deep, and a list of events, each with the state it is expected to lead
  to.  The world is the printed lines and the exit code, once there is one.  Seen from its leaves
  the machine is a flat automaton, and the program returns 0 exactly for the lists of events that
  this automaton follows to its final state.
\<close>

section \<open>Payloads and the world\<close>

datatype nptr = NNull | NChar char | NStr string | NPayload char string

datatype nested_state = S1 | S2 | S3 | S4 | S5 | S6 | S9 | S10 | S11 | SE

record nested_world =
  printed :: "string list"
  exit_code :: "int option"

definition puts :: "string \<Rightarrow> nested_world \<Rightarrow> nested_world" where
  "puts l w = (if exit_code w = None then w\<lparr>printed := printed w @ [l]\<rparr> else w)"

definition exit_with :: "int \<Rightarrow> nested_world \<Rightarrow> nested_world" where
  "exit_with c w = (if exit_code w = None then w\<lparr>exit_code := Some c\<rparr> else w)"

fun state_name :: "nptr \<Rightarrow> string" where
  "state_name (NStr s) = s"
| "state_name _ = []"

fun payload_char :: "nptr \<Rightarrow> char" where
  "payload_char (NPayload c s) = c"
| "payload_char _ = CHR 0x00"

fun expectedState :: "nptr \<Rightarrow> string" where
  "expectedState (NPayload c s) = s"
| "expectedState _ = []"

section \<open>Actions and guard\<close>

definition entry_action :: "nptr \<Rightarrow> nptr event \<Rightarrow> nested_world \<Rightarrow> nested_world" where
  "entry_action d e = puts (''Entering '' @ state_name d)"

definition exit_action :: "nptr \<Rightarrow> nptr event \<Rightarrow> nested_world \<Rightarrow> nested_world" where
  "exit_action d e = puts (''Exiting '' @ state_name d)"

text \<open>The message about an unexpected state goes to another stream and is left out.\<close>

definition transAction :: "nptr \<Rightarrow> nptr event \<Rightarrow> nptr \<Rightarrow> nested_world \<Rightarrow> nested_world" where
  "transAction d e d' w =
    (let w' = puts (''Event '' @ [CHR 0x27, payload_char (ev_data e), CHR 0x27]) w
     in if state_name d' \<noteq> expectedState (ev_data e) then exit_with 1 w' else w')"

definition nested_guard :: "nptr \<Rightarrow> nptr event \<Rightarrow> bool" where
  "nested_guard cond e \<longleftrightarrow> cond = NChar (payload_char (ev_data e))"

section \<open>The tables\<close>

definition on_data :: "char \<Rightarrow> nested_state \<Rightarrow> (nested_state, nptr, nested_world) transition" where
  "on_data c n = \<lparr>eventType = 0, condition = NChar c, guard = Some nested_guard, action = Some transAction, nextState = Some n\<rparr>"

definition nested ::
  "string \<Rightarrow> nested_state option \<Rightarrow> nested_state option \<Rightarrow> (nested_state, nptr, nested_world) transition list \<Rightarrow>
   (nested_state, nptr, nested_world) state"
where
  "nested name parent entry ts = \<lparr>parentState = parent, entryState = entry, transitions = ts, data = NStr name,
     entryAction = Some entry_action, exitAction = Some exit_action\<rparr>"

fun nested_store :: "(nested_state, nptr, nested_world) store" where
  "nested_store S1 = nested ''1'' (Some S9) None [on_data CHR ''d'' S3]"
| "nested_store S2 = nested ''2'' None None [on_data CHR ''b'' S1]"
| "nested_store S3 = nested ''3'' (Some S10) None [on_data CHR ''e'' S11]"
| "nested_store S4 = nested ''4'' (Some S11) None [on_data CHR ''h'' S5, on_data CHR ''j'' S9]"
| "nested_store S5 = nested ''5'' (Some S11) None
    [\<lparr>eventType = 0, condition = NNull, guard = None, action = Some transAction, nextState = Some S10\<rparr>]"
| "nested_store S6 = nested ''6'' None None []"
| "nested_store S9 = nested ''9'' None (Some S4) [on_data CHR ''a'' S3]"
| "nested_store S10 = nested ''10'' (Some S9) (Some S9) [on_data CHR ''f'' S2, on_data CHR ''i'' S6]"
| "nested_store S11 = nested ''11'' (Some S10) (Some S5) [on_data CHR ''g'' S2]"
| "nested_store SE = (nested ''ERROR'' None None [])\<lparr>exitAction := None\<rparr>"

section \<open>The program\<close>

definition nested_event :: "char \<Rightarrow> string \<Rightarrow> nptr event" where
  "nested_event c s = \<lparr>ev_type = 0, ev_data = NPayload c s\<rparr>"

definition nested_fsm :: "nested_state fsm" where
  "nested_fsm = \<lparr>currentState = Some S1, previousState = None, errorState = Some SE\<rparr>"

text \<open>
  What the loop does with the answer to an event; the expected state of the event before it is the
  first argument, None for the first event.
\<close>

definition check_answer :: "string option \<Rightarrow> nptr event \<Rightarrow> retval \<Rightarrow> nested_world \<Rightarrow> nested_world" where
  "check_answer prev e res w =
    (if res = StateLoopSelf then
       (case prev of
          None \<Rightarrow> exit_with 4 w
        | Some p \<Rightarrow> if expectedState (ev_data e) = p then puts ''State changed back to itself'' w else exit_with 5 w)
     else if res \<noteq> StateChanged then exit_with 2 w
     else w)"

definition check_last :: "retval \<Rightarrow> nested_world \<Rightarrow> nested_world" where
  "check_last res w =
    (if res \<noteq> FinalStateReached then exit_with 3 w
     else exit_with 0 (puts ''A final state was reached (as expected)'' w))"

fun hand_events :: "string option \<Rightarrow> nptr event list \<Rightarrow> nested_state fsm \<Rightarrow> nested_world \<Rightarrow> nested_world option" where
  "hand_events prev [] m w = Some w"
| "hand_events prev [e] m w =
    map_option (\<lambda>(res, _, w'). check_last res w') (stateM_handleEvent nested_store (Some m) (Some e) w)"
| "hand_events prev (e # e' # es) m w =
    (case stateM_handleEvent nested_store (Some m) (Some e) w of
       Some (res, Some m', w') \<Rightarrow>
         (let w'' = check_answer prev e res w'
          in if exit_code w'' \<noteq> None then Some w'' else hand_events (Some (expectedState (ev_data e))) (e' # es) m' w'')
     | _ \<Rightarrow> None)"

definition nested_events :: "nptr event list" where
  "nested_events = map (\<lambda>(c, s). nested_event c s)
    [(CHR ''d'', ''3''), (CHR ''e'', ''5''), (CHR ''*'', ''4''), (CHR ''j'', ''4''), (CHR ''g'', ''2''), (CHR ''b'', ''1''),
     (CHR ''d'', ''3''), (CHR ''e'', ''5''), (CHR ''k'', ''4''), (CHR ''h'', ''5''), (CHR ''*'', ''4''), (CHR ''f'', ''2''),
     (CHR ''b'', ''1''), (CHR ''a'', ''3''), (CHR ''f'', ''2''), (CHR ''b'', ''1''), (CHR ''d'', ''3''), (CHR ''i'', ''6'')]"

definition nested_main :: "nptr event list \<Rightarrow> nested_world option" where
  "nested_main es = hand_events None es nested_fsm \<lparr>printed = [], exit_code = None\<rparr>"

section \<open>The flat automaton\<close>

fun leaf_next :: "nested_state \<Rightarrow> char \<Rightarrow> nested_state option" where
  "leaf_next S1 c = (if c = CHR ''d'' \<or> c = CHR ''a'' then Some S3 else None)"
| "leaf_next S2 c = (if c = CHR ''b'' then Some S1 else None)"
| "leaf_next S3 c =
    (if c = CHR ''e'' then Some S5 else if c = CHR ''f'' then Some S2 else if c = CHR ''i'' then Some S6
     else if c = CHR ''a'' then Some S3 else None)"
| "leaf_next S4 c =
    (if c = CHR ''h'' then Some S5 else if c = CHR ''j'' then Some S4 else if c = CHR ''g'' \<or> c = CHR ''f'' then Some S2
     else if c = CHR ''i'' then Some S6 else if c = CHR ''a'' then Some S3 else None)"
| "leaf_next S5 c = Some S4"
| "leaf_next _ c = None"

definition leaf :: "nested_state \<Rightarrow> bool" where
  "leaf s \<longleftrightarrow> s \<in> {S1, S2, S3, S4, S5, S6}"

definition name_of :: "nested_state \<Rightarrow> string" where
  "name_of s = state_name (data (nested_store s))"

text \<open>The events that the automaton follows to its final state, as they expect.\<close>

fun follows :: "nested_state \<Rightarrow> nptr event list \<Rightarrow> bool" where
  "follows s [] \<longleftrightarrow> False"
| "follows s (e # es) \<longleftrightarrow>
    (case leaf_next s (payload_char (ev_data e)) of
       None \<Rightarrow> False
     | Some t \<Rightarrow> name_of t = expectedState (ev_data e) \<and> (if es = [] then t = S6 else t \<noteq> S6 \<and> follows t es))"

lemma leaf_next_leaf: "leaf_next s c = Some t \<Longrightarrow> leaf t"
  by (cases s) (auto simp: leaf_def split: if_splits)

lemma nested_scan:
  "scan_transitions (on_data c n # ts) e =
    (if ev_type e = 0 \<and> payload_char (ev_data e) = c then Some (on_data c n) else scan_transitions ts e)"
  by (auto simp: on_data_def nested_guard_def)

lemma nested_descend:
  "leaf s \<Longrightarrow> descend nested_store s = Some s" "descend nested_store S9 = Some S4" "descend nested_store S10 = Some S4"
  "descend nested_store S11 = Some S5"
proof -
  have l: "descend nested_store s = Some s" if "leaf s" for s
    using that by (subst descend.simps) (auto simp: leaf_def nested_def)
  then show "leaf s \<Longrightarrow> descend nested_store s = Some s" .
  show s9: "descend nested_store S9 = Some S4" using l [of S4] by (subst descend.simps) (simp add: nested_def leaf_def)
  show "descend nested_store S10 = Some S4" using s9 by (subst descend.simps) (simp add: nested_def)
  show "descend nested_store S11 = Some S5" using l [of S5] by (subst descend.simps) (simp add: nested_def leaf_def)
qed

text \<open>The search through the parents: the target of the transition that is found leads to the next leaf.\<close>

lemma nested_find_up:
  assumes "ev_type e = 0"
  shows "find_transition nested_store e S9 = Some (if payload_char (ev_data e) = CHR ''a'' then Some (on_data CHR ''a'' S3) else None)"
    "find_transition nested_store e S10 = Some (if payload_char (ev_data e) = CHR ''f'' then Some (on_data CHR ''f'' S2)
       else if payload_char (ev_data e) = CHR ''i'' then Some (on_data CHR ''i'' S6)
       else if payload_char (ev_data e) = CHR ''a'' then Some (on_data CHR ''a'' S3) else None)"
    "find_transition nested_store e S11 = Some (if payload_char (ev_data e) = CHR ''g'' then Some (on_data CHR ''g'' S2)
       else if payload_char (ev_data e) = CHR ''f'' then Some (on_data CHR ''f'' S2)
       else if payload_char (ev_data e) = CHR ''i'' then Some (on_data CHR ''i'' S6)
       else if payload_char (ev_data e) = CHR ''a'' then Some (on_data CHR ''a'' S3) else None)"
proof -
  show s9: "find_transition nested_store e S9 = Some (if payload_char (ev_data e) = CHR ''a'' then Some (on_data CHR ''a'' S3) else None)"
    using assms by (subst find_transition.simps) (simp add: getTransition_def nested_def nested_scan del: scan_transitions.simps(2))
  show s10: "find_transition nested_store e S10 = Some (if payload_char (ev_data e) = CHR ''f'' then Some (on_data CHR ''f'' S2)
       else if payload_char (ev_data e) = CHR ''i'' then Some (on_data CHR ''i'' S6)
       else if payload_char (ev_data e) = CHR ''a'' then Some (on_data CHR ''a'' S3) else None)"
    using assms s9 by (subst find_transition.simps) (simp add: getTransition_def nested_def nested_scan del: scan_transitions.simps(2))
  show "find_transition nested_store e S11 = Some (if payload_char (ev_data e) = CHR ''g'' then Some (on_data CHR ''g'' S2)
       else if payload_char (ev_data e) = CHR ''f'' then Some (on_data CHR ''f'' S2)
       else if payload_char (ev_data e) = CHR ''i'' then Some (on_data CHR ''i'' S6)
       else if payload_char (ev_data e) = CHR ''a'' then Some (on_data CHR ''a'' S3) else None)"
    using assms s10 by (subst find_transition.simps) (simp add: getTransition_def nested_def nested_scan del: scan_transitions.simps(2))
qed

lemma on_data_simps [simp]: "nextState (on_data c n) = Some n" "action (on_data c n) = Some transAction"
  by (simp_all add: on_data_def)

lemma nested_descend_leaf [simp]:
  "descend nested_store S1 = Some S1" "descend nested_store S2 = Some S2" "descend nested_store S3 = Some S3"
  "descend nested_store S4 = Some S4" "descend nested_store S5 = Some S5" "descend nested_store S6 = Some S6"
  by (rule nested_descend, simp add: leaf_def)+

lemma nested_find:
  assumes "leaf s" "ev_type e = 0"
  shows "case leaf_next s (payload_char (ev_data e)) of
      None \<Rightarrow> find_transition nested_store e s = Some None
    | Some t \<Rightarrow> (\<exists>tr n. find_transition nested_store e s = Some (Some tr) \<and> nextState tr = Some n \<and>
        descend nested_store n = Some t \<and> action tr = Some transAction)"
proof (cases s)
  case S1
  show ?thesis
    unfolding S1 using assms(2)
    by (subst (1 2) find_transition.simps)
      (simp add: getTransition_def nested_def nested_scan nested_find_up nested_descend del: scan_transitions.simps(2))
next
  case S2
  show ?thesis
    unfolding S2 using assms(2)
    by (subst (1 2) find_transition.simps)
      (simp add: getTransition_def nested_def nested_scan nested_find_up nested_descend del: scan_transitions.simps(2))
next
  case S3
  show ?thesis
    unfolding S3 using assms(2)
    by (subst (1 2) find_transition.simps)
      (simp add: getTransition_def nested_def nested_scan nested_find_up nested_descend del: scan_transitions.simps(2))
next
  case S4
  show ?thesis
    unfolding S4 using assms(2)
    by (subst (1 2) find_transition.simps)
      (simp add: getTransition_def nested_def nested_scan nested_find_up nested_descend del: scan_transitions.simps(2))
next
  case S5
  show ?thesis
    unfolding S5 using assms(2)
    by (subst (1 2) find_transition.simps)
      (simp add: getTransition_def nested_def nested_scan nested_find_up nested_descend)
next
  case S6
  show ?thesis
    unfolding S6 using assms(2)
    by (subst (1 2) find_transition.simps)
      (simp add: getTransition_def nested_def nested_scan nested_find_up nested_descend del: scan_transitions.simps(2))
qed (use assms(1) in \<open>simp_all add: leaf_def\<close>)

section \<open>Steps\<close>

lemma exit_puts [simp]: "exit_code (puts l w) = exit_code w"
  by (simp add: puts_def)

lemma exit_exit_with [simp]: "exit_code (exit_with c w) = (if exit_code w = None then Some c else exit_code w)"
  by (simp add: exit_with_def)

lemma exit_run [simp]:
  "exit_code (run_optional (exitAction (nested_store s)) d e w) = exit_code w"
  "exit_code (run_optional (entryAction (nested_store s)) d e w) = exit_code w"
  by (cases s; simp add: run_optional_def nested_def entry_action_def exit_action_def)+

lemma name_of_inj: "leaf s \<Longrightarrow> leaf t \<Longrightarrow> name_of s = name_of t \<longleftrightarrow> s = t"
  by (cases s; cases t) (simp_all add: leaf_def name_of_def nested_def)

lemma nested_step:
  assumes "leaf s" "ev_type e = 0" "currentState m = Some s" "errorState m = Some SE" "exit_code w = None"
  shows "case leaf_next s (payload_char (ev_data e)) of
      None \<Rightarrow> stateM_handleEvent nested_store (Some m) (Some e) w = Some (NoStateChange, Some m, w)
    | Some t \<Rightarrow> (\<exists>m' w'. stateM_handleEvent nested_store (Some m) (Some e) w =
        Some (if t = s then StateLoopSelf else if t = S6 then FinalStateReached else StateChanged, Some m', w') \<and>
        currentState m' = Some t \<and> errorState m' = Some SE \<and>
        exit_code w' = (if name_of t = expectedState (ev_data e) then None else Some 1))"
proof (cases "leaf_next s (payload_char (ev_data e))")
  case None
  with nested_find [OF assms(1,2)] assms(3) show ?thesis by (simp add: stateM_handleEvent_def)
next
  case (Some t)
  with nested_find [OF assms(1,2)] obtain tr n where f: "find_transition nested_store e s = Some (Some tr)"
    "nextState tr = Some n" "descend nested_store n = Some t" "action tr = Some transAction" by auto
  have t: "leaf t" using Some leaf_next_leaf by simp
  have "transitions (nested_store s) \<noteq> []" using Some by (cases s) (simp_all add: nested_def)
  moreover have "transitions (nested_store t) = [] \<longleftrightarrow> t = S6" "t \<noteq> SE" using t by (auto simp: leaf_def nested_def)
  moreover have "exit_code (perform nested_store e s tr t w) = (if name_of t = expectedState (ev_data e) then None else Some 1)"
    using f(4) assms(5) by (simp add: perform_def transAction_def name_of_def Let_def)
  ultimately show ?thesis using Some f(1-3) assms(3,4) by (simp add: stateM_handleEvent_def Let_def)
qed

section \<open>Properties\<close>

text \<open>
  Where the loop stands: the expectation of the event before is the name of the state.
\<close>

lemma hand_events_follows:
  assumes "leaf s" "currentState m = Some s" "errorState m = Some SE" "exit_code w = None"
    and "prev = None \<longrightarrow> s = S1" "\<And>p. prev = Some p \<Longrightarrow> p = name_of s" "es \<noteq> []" "\<forall>e\<in>set es. ev_type e = 0"
  shows "\<exists>w'. hand_events prev es m w = Some w' \<and> exit_code w' \<noteq> None \<and> (exit_code w' = Some 0 \<longleftrightarrow> follows s es)"
  using assms
proof (induction es arbitrary: prev m w s)
  case (Cons e es)
  then have "ev_type e = 0" by simp
  note step = nested_step [OF Cons.prems(1) this Cons.prems(2-4)]
  show ?case
  proof (cases "leaf_next s (payload_char (ev_data e))")
    case None
    with step Cons.prems(4) show ?thesis by (cases es) (simp_all add: check_answer_def check_last_def Let_def)
  next
    case (Some t)
    with step obtain m' w' where h: "stateM_handleEvent nested_store (Some m) (Some e) w =
        Some (if t = s then StateLoopSelf else if t = S6 then FinalStateReached else StateChanged, Some m', w')"
      "currentState m' = Some t" "errorState m' = Some SE"
      "exit_code w' = (if name_of t = expectedState (ev_data e) then None else Some 1)" by auto
    have s: "s \<noteq> S6" "s = S1 \<Longrightarrow> t \<noteq> S1" using Some by (cases s; simp split: if_splits)+
    show ?thesis
    proof (cases "es = [] \<or> name_of t \<noteq> expectedState (ev_data e) \<or> t = S6")
      case True
      then show ?thesis
        using h(1,4) s(1) Some by (cases es) (auto simp: check_last_def check_answer_def puts_def exit_with_def Let_def split: option.splits)
    next
      case False
      let ?res = "if t = s then StateLoopSelf else StateChanged"
      let ?w = "check_answer prev e ?res w'"
      from False have n: "es \<noteq> []" "name_of t = expectedState (ev_data e)" "t \<noteq> S6" by auto
      have w: "exit_code ?w = None"
        using Cons.prems(5,6) n(2) h(4) s(2) by (auto simp: check_answer_def split: option.split)
      have "\<exists>w2. hand_events (Some (expectedState (ev_data e))) es m' ?w = Some w2 \<and> exit_code w2 \<noteq> None \<and>
          (exit_code w2 = Some 0 \<longleftrightarrow> follows t es)"
        by (rule Cons.IH [OF leaf_next_leaf [OF Some] h(2,3) w]) (use n Cons.prems(8) in auto)
      moreover have "hand_events prev (e # es) m w = hand_events (Some (expectedState (ev_data e))) es m' ?w"
        using n(1,3) h(1) w by (cases es) (auto simp: Let_def)
      ultimately show ?thesis using Some n by simp
    qed
  qed
qed simp

text \<open>
  C30.  For every list of events the test program ends with an exit code, and the code is 0 exactly
  when the flat automaton of the leaves has a transition for each event, to the state the event
  expects, and reaches the final state with the last event and not before.
\<close>

theorem nested_test_decides:
  assumes "es \<noteq> []" "\<forall>e\<in>set es. ev_type e = 0"
  shows "\<exists>w. nested_main es = Some w \<and> exit_code w \<noteq> None \<and> (exit_code w = Some 0 \<longleftrightarrow> follows S1 es)"
  unfolding nested_main_def
  by (rule hand_events_follows) (use assms in \<open>simp_all add: leaf_def nested_fsm_def\<close>)

text \<open>The events of the program itself pass.\<close>

theorem nested_test_decides_witness: "\<exists>w. nested_main nested_events = Some w \<and> exit_code w = Some 0"
proof -
  have "follows S1 nested_events" by (simp add: nested_events_def nested_event_def name_of_def nested_def)
  then show ?thesis using nested_test_decides [of nested_events] by (auto simp: nested_events_def nested_event_def)
qed

end
