(* ===== verification/Reverse_Files.thy ===== *)
theory Reverse_Files
  imports Prelude
begin

text \<open>
  The four programs of \<^verbatim>\<open>reverse/\<close>: printing a file backwards (\<open>reverse1.c\<close>), copying it backwards
  (\<open>filel2.c\<close>), copying records with a length in the opposite order (\<open>reverse3.c\<close>), and reversing every
  line in place (\<open>reverseafile.c\<close>).  A file is a list of bytes with a position; the files can be opened
  and memory can be allocated.  Writing outside a block and using bytes of a block that were never
  written is the value None.
\<close>

section \<open>Streams\<close>

record stream =
  content :: bytes
  position :: nat
  at_end :: bool

text \<open>Seeking before the start fails and changes nothing.\<close>

definition seek_to :: "int \<Rightarrow> stream \<Rightarrow> stream" where
  "seek_to k f = (if k < 0 then f else f\<lparr>position := nat k, at_end := False\<rparr>)"

definition fseek_end :: "int \<Rightarrow> stream \<Rightarrow> stream" where
  "fseek_end k f = seek_to (int (length (content f)) + k) f"

definition fseek_cur :: "int \<Rightarrow> stream \<Rightarrow> stream" where
  "fseek_cur k f = seek_to (int (position f) + k) f"

definition fgetc :: "stream \<Rightarrow> int \<times> stream" where
  "fgetc f =
    (if position f < length (content f) then (uint (content f ! position f), f\<lparr>position := position f + 1\<rparr>)
     else (- 1, f\<lparr>at_end := True\<rparr>))"

definition open_file :: "bytes \<Rightarrow> stream" where
  "open_file bs = \<lparr>content = bs, position = 0, at_end = False\<rparr>"

section \<open>Printing and copying backwards\<close>

text \<open>The size is kept in an \<open>int\<close>; a character is printed as an unsigned byte.\<close>

function tac_loop :: "int \<Rightarrow> int \<Rightarrow> stream \<Rightarrow> bytes" where
  "tac_loop cnt i f =
    (if i < cnt
     then (let (c, f') = fgetc (fseek_end (- (i + 1)) f) in word_of_int c # tac_loop cnt (i + 1) f')
     else [])"
  by auto
termination by (relation "measure (\<lambda>(cnt, i, f). nat (cnt - i))") auto

declare tac_loop.simps [simp del]

definition reverse1 :: "bytes \<Rightarrow> bytes" where
  "reverse1 bs =
    (let f = fseek_end 0 (open_file bs)
     in tac_loop (sint (of_nat (position f) :: 32 word)) 0 f @ [10])"

definition count_characters :: "stream \<Rightarrow> nat \<times> stream" where
  "count_characters f = (let f' = fseek_end (- 1) f in (position f' + 1, f'))"

text \<open>A result of -1 is stored in a char and written as the byte 255.\<close>

fun copy_loop :: "nat \<Rightarrow> stream \<Rightarrow> bytes" where
  "copy_loop 0 f = []"
| "copy_loop (Suc cnt) f = (let (c, f') = fgetc f in word_of_int c # copy_loop cnt (fseek_cur (- 2) f'))"

definition copy_reversed :: "bytes \<Rightarrow> bytes" where
  "copy_reversed bs = (let (cnt, f) = count_characters (open_file bs) in copy_loop cnt (fseek_end (- 1) f))"

section \<open>Records with a length\<close>

text \<open>
  A block is a list of bytes that are None until they are written.  \<open>fread\<close> of one object of n bytes
  writes what the file still has of it.
\<close>

type_synonym block = "u8 option list"

definition put_block :: "bytes \<Rightarrow> block \<Rightarrow> block option" where
  "put_block bs b = (if length bs \<le> length b then Some (map Some bs @ drop (length bs) b) else None)"

definition get_block :: "nat \<Rightarrow> block \<Rightarrow> bytes option" where
  "get_block n b = (if n \<le> length b \<and> None \<notin> set (take n b) then Some (map the (take n b)) else None)"

definition fread :: "nat \<Rightarrow> block \<Rightarrow> stream \<Rightarrow> (block \<times> stream) option" where
  "fread n b f =
    (let got = take n (drop (position f) (content f))
     in map_option (\<lambda>b'. (b', f\<lparr>position := position f + length got, at_end := at_end f \<or> length got < n\<rparr>)) (put_block got b))"

text \<open>The variables of \<open>main\<close>: the length as its eight bytes, and the buffer.\<close>

record reader =
  str_length :: block
  buffer :: block
  pInFile :: stream

definition read_length :: "reader \<Rightarrow> reader option" where
  "read_length r = map_option (\<lambda>(b, f). r\<lparr>str_length := b, pInFile := f\<rparr>) (fread 8 (str_length r) (pInFile r))"

definition length_of :: "reader \<Rightarrow> nat option" where
  "length_of r = map_option (\<lambda>bs. unat (le_word bs :: u64)) (get_block 8 (str_length r))"

definition read_string :: "reader \<Rightarrow> reader option" where
  "read_string r = Option.bind (length_of r) (\<lambda>n.
     map_option (\<lambda>(b, f). r\<lparr>buffer := b, pInFile := f\<rparr>) (fread n (buffer r) (pInFile r)))"

text \<open>The buffer is replaced when the string is longer; the new size is computed with 64 bits.\<close>

definition grow_buffer :: "reader \<Rightarrow> reader option" where
  "grow_buffer r = map_option (\<lambda>n.
     if length (buffer r) < n then r\<lparr>buffer := replicate ((n + 1) mod 2 ^ 64) None\<rparr> else r) (length_of r)"

lemma read_length_advances:
  "read_length r = Some r' \<Longrightarrow> \<not> at_end (pInFile r') \<Longrightarrow>
   content (pInFile r') = content (pInFile r) \<and> position (pInFile r) + 8 = position (pInFile r') \<and>
   position (pInFile r') \<le> length (content (pInFile r))"
  by (auto simp: read_length_def fread_def Let_def split: if_splits)

lemma read_string_keeps:
  "read_string r = Some r' \<Longrightarrow> content (pInFile r') = content (pInFile r) \<and> position (pInFile r) \<le> position (pInFile r')"
  by (auto simp: read_string_def fread_def Let_def bind_eq_Some_conv)

lemma grow_buffer_keeps: "grow_buffer r = Some r' \<Longrightarrow> pInFile r' = pInFile r \<and> str_length r' = str_length r"
  by (auto simp: grow_buffer_def)

text \<open>The first pass counts the strings and finds the size of the buffer.\<close>

function count_loop :: "nat \<Rightarrow> reader \<Rightarrow> (nat \<times> reader) option" where
  "count_loop str_count r =
    (case read_length r of
       None \<Rightarrow> None
     | Some r1 \<Rightarrow>
         if at_end (pInFile r1) then Some (str_count, r1)
         else (case Option.bind (grow_buffer r1) read_string of
                 None \<Rightarrow> None
               | Some r2 \<Rightarrow> count_loop (str_count + 1) r2))"
  by auto
termination
proof (relation "measure (\<lambda>(n, r). length (content (pInFile r)) - position (pInFile r))")
  fix n r r1 r2
  assume "read_length r = Some r1" "\<not> at_end (pInFile r1)" "Option.bind (grow_buffer r1) read_string = Some r2"
  then show "((n + 1, r2), n, r) \<in> measure (\<lambda>(n, r). length (content (pInFile r)) - position (pInFile r))"
    using read_length_advances [of r r1] grow_buffer_keeps read_string_keeps
    by (fastforce simp: bind_eq_Some_conv)
qed simp

declare count_loop.simps [simp del]

text \<open>The second pass notes where each of them starts.\<close>

fun positions_loop :: "nat \<Rightarrow> reader \<Rightarrow> (nat list \<times> reader) option" where
  "positions_loop 0 r = Some ([], r)"
| "positions_loop (Suc k) r =
    Option.bind (Option.bind (read_length r) read_string) (\<lambda>r'.
      map_option (\<lambda>(ps, r''). (position (pInFile r) # ps, r'')) (positions_loop k r'))"

text \<open>The third writes them from the last to the first.\<close>

fun write_loop :: "nat list \<Rightarrow> bytes \<Rightarrow> reader \<Rightarrow> (bytes \<times> reader) option" where
  "write_loop [] out r = Some (out, r)"
| "write_loop (p # ps) out r =
    Option.bind (read_length (r\<lparr>pInFile := seek_to (int p) (pInFile r)\<rparr>)) (\<lambda>r1.
    Option.bind (get_block 8 (str_length r1)) (\<lambda>len.
    Option.bind (read_string r1) (\<lambda>r2.
    Option.bind (Option.bind (length_of r2) (\<lambda>n. get_block n (buffer r2))) (\<lambda>s.
      write_loop ps (out @ len @ s) r2))))"

text \<open>The last one lists the new file; the string is terminated in the buffer and printed up to the first zero.\<close>

fun text_of :: "block \<Rightarrow> bytes option" where
  "text_of [] = None"
| "text_of (c # b) = Option.bind c (\<lambda>c. if c = 0 then Some [] else map_option ((#) c) (text_of b))"

fun list_loop :: "nat \<Rightarrow> reader \<Rightarrow> bytes list option" where
  "list_loop 0 r = Some []"
| "list_loop (Suc k) r =
    Option.bind (Option.bind (read_length r) read_string) (\<lambda>r1.
    Option.bind (length_of r1) (\<lambda>n.
      if length (buffer r1) \<le> n then None
      else (let b = (buffer r1)[n := Some 0]
            in Option.bind (text_of b) (\<lambda>s. map_option ((#) s) (list_loop k (r1\<lparr>buffer := b\<rparr>))))))"

definition reverse_records :: "bytes \<Rightarrow> (bytes \<times> bytes list) option" where
  "reverse_records bs =
    Option.bind (count_loop 0 \<lparr>str_length = map Some (replicate 8 0), buffer = replicate 50 None, pInFile = open_file bs\<rparr>) (\<lambda>(k, r).
    Option.bind (positions_loop k (r\<lparr>pInFile := seek_to 0 (pInFile r)\<rparr>)) (\<lambda>(ps, r1).
    Option.bind (write_loop (rev ps) [] r1) (\<lambda>(out, r2).
      map_option (Pair out) (list_loop k (r2\<lparr>pInFile := open_file out\<rparr>)))))"

section \<open>Lines\<close>

text \<open>The two pointers of \<open>reverse_string\<close> move towards each other; for an empty line the second one starts before the first.\<close>

function reverse_loop :: "int \<Rightarrow> int \<Rightarrow> string \<Rightarrow> string" where
  "reverse_loop i j s =
    (if i < j then reverse_loop (i + 1) (j - 1) (s[nat i := s ! nat j, nat j := s ! nat i]) else s)"
  by auto
termination by (relation "measure (\<lambda>(i, j, s). nat (j - i))") auto

declare reverse_loop.simps [simp del]

definition reverse_string :: "string \<Rightarrow> string" where
  "reverse_string s = reverse_loop 0 (int (length s) - 1) s"

definition LF :: char where
  "LF = CHR 0x0a"

text \<open>Appending to a block of the given size, with the terminator.\<close>

definition strcat :: "nat \<Rightarrow> string \<Rightarrow> string \<Rightarrow> string option" where
  "strcat cap dest src = (if length dest + length src < cap then Some (dest @ src) else None)"

definition process_line :: "nat \<Rightarrow> string \<Rightarrow> string \<Rightarrow> string option" where
  "process_line cap output_content line = Option.bind (strcat cap output_content (reverse_string line)) (\<lambda>d. strcat cap d [LF])"

text \<open>\<open>strsep\<close>: the text up to the delimiter, and what is behind it if there is one.\<close>

definition strsep :: "string \<Rightarrow> string \<times> string option" where
  "strsep s = (takeWhile (\<lambda>c. c \<noteq> LF) s, (case dropWhile (\<lambda>c. c \<noteq> LF) s of [] \<Rightarrow> None | _ # rest \<Rightarrow> Some rest))"

lemma strsep_shorter: "strsep s = (line, Some rest) \<Longrightarrow> length rest < length s"
  using length_dropWhile_le [of "\<lambda>c. c \<noteq> LF" s] by (auto simp: strsep_def split: list.splits)

function lines_loop :: "nat \<Rightarrow> string option \<Rightarrow> string \<Rightarrow> string option" where
  "lines_loop cap None out = Some out"
| "lines_loop cap (Some s) out =
    (case process_line cap out (fst (strsep s)) of None \<Rightarrow> None | Some out' \<Rightarrow> lines_loop cap (snd (strsep s)) out')"
  by pat_completeness auto
termination
proof (relation "measure (\<lambda>(cap, r, out). case r of None \<Rightarrow> 0 | Some s \<Rightarrow> Suc (length s))")
  fix cap :: nat and s out out' :: string
  show "((cap, snd (strsep s), out'), cap, Some s, out) \<in> measure (\<lambda>(cap, r, out). case r of None \<Rightarrow> 0 | Some s \<Rightarrow> Suc (length s))"
    using strsep_shorter [of s "fst (strsep s)"] by (cases "strsep s") (auto split: option.split)
qed simp

text \<open>As many bytes are written back as the file had; the block of the output starts with the text and its terminator.\<close>

definition reverse_file :: "string \<Rightarrow> string option" where
  "reverse_file bs =
    Option.bind (lines_loop (length bs + 2) (Some (takeWhile (\<lambda>c. c \<noteq> CHR 0x00) bs)) []) (\<lambda>out.
      if length bs \<le> length out + 1 then Some (take (length bs) (out @ [CHR 0x00])) else None)"

section \<open>Bytes backwards\<close>

lemma content_seek [simp]:
  "content (seek_to k f) = content f" "content (fseek_end k f) = content f" "content (fseek_cur k f) = content f"
  by (simp_all add: seek_to_def fseek_end_def fseek_cur_def)

lemma fgetc_at: "position f < length (content f) \<Longrightarrow>
    fgetc f = (uint (content f ! position f), f\<lparr>position := position f + 1\<rparr>)"
  by (simp add: fgetc_def)

lemma tac_loop_rev:
  "n \<le> length (content f) \<Longrightarrow> tac_loop (int (length (content f))) (int (length (content f)) - int n) f = rev (take n (content f))"
proof (induction n arbitrary: f)
  case 0
  then show ?case by (simp add: tac_loop.simps)
next
  case (Suc n)
  let ?k = "length (content f)"
  let ?f = "fseek_end (- (int ?k - int (Suc n) + 1)) f"
  have p: "?f = f\<lparr>position := n, at_end := False\<rparr>" using Suc.prems by (simp add: fseek_end_def seek_to_def)
  have g: "fgetc ?f = (uint (content f ! n), ?f\<lparr>position := n + 1\<rparr>)" 
    unfolding p using Suc.prems by (simp add: fgetc_at)
  have "tac_loop (int ?k) (int ?k - int (Suc n)) f =
      word_of_int (uint (content f ! n)) # tac_loop (int ?k) (int ?k - int (Suc n) + 1) (?f\<lparr>position := n + 1\<rparr>)"
    by (subst tac_loop.simps) (simp only: g prod.case Let_def, simp)
  moreover have "tac_loop (int ?k) (int ?k - int n) (?f\<lparr>position := n + 1\<rparr>) = rev (take n (content f))"
    using Suc.IH [of "?f\<lparr>position := n + 1\<rparr>"] Suc.prems by simp
  moreover have "int ?k - int (Suc n) + 1 = int ?k - int n" by simp
  ultimately show ?case using Suc.prems by (simp add: take_Suc_conv_app_nth)
qed

text \<open>Files of less than 2 GB are printed backwards, and those of 2 to 4 GB not at all.\<close>

lemma reverse1_prints:
  assumes "length bs < 2 ^ 32"
  shows "reverse1 bs = (if length bs < 2 ^ 31 then rev bs else []) @ [10]"
proof -
  have p: "position (fseek_end 0 (open_file bs)) = length bs" "content (fseek_end 0 (open_file bs)) = bs"
    by (simp_all add: fseek_end_def seek_to_def open_file_def)
  show ?thesis
  proof (cases "length bs < 2 ^ 31")
    case True
    then have "sint (of_nat (length bs) :: 32 word) = int (length bs)"
      by (simp add: signed_of_nat signed_take_bit_int_eq_self)
    with True tac_loop_rev [of "length bs" "fseek_end 0 (open_file bs)"] p show ?thesis
      by (simp add: reverse1_def Let_def)
  next
    case False
    then have "int (length bs) div 2 ^ 31 = 1" using assms by simp
    then have "bit (int (length bs)) 31" by (simp add: bit_iff_odd)
    then have "sint (of_nat (length bs) :: 32 word) < 0" by (simp add: signed_of_nat)
    with False p show ?thesis by (simp add: reverse1_def Let_def tac_loop.simps)
  qed
qed

lemma copy_loop_rev:
  "n < length (content f) \<Longrightarrow> position f = n \<Longrightarrow> copy_loop (Suc n) f = rev (take (Suc n) (content f))"
proof (induction n arbitrary: f)
  case 0
  then show ?case by (simp add: fgetc_at) (simp add: take_Suc_conv_app_nth)
next
  case (Suc n)
  let ?f = "fseek_cur (- 2) (f\<lparr>position := Suc (Suc n)\<rparr>)"
  have p: "?f = f\<lparr>position := n, at_end := False\<rparr>" by (simp add: fseek_cur_def seek_to_def)
  have "copy_loop (Suc (Suc n)) f = (content f ! Suc n) # copy_loop (Suc n) ?f"
    using Suc.prems by (subst copy_loop.simps) (simp add: fgetc_at del: copy_loop.simps)
  also have "copy_loop (Suc n) ?f = rev (take (Suc n) (content f))"
    using Suc.IH [of ?f] Suc.prems by (simp add: p)
  finally show ?case using Suc.prems by (simp add: take_Suc_conv_app_nth [of "Suc n"])
qed

text \<open>An empty file becomes a file with one byte.\<close>

lemma copy_reversed_eq: "copy_reversed bs = (if bs = [] then [255] else rev bs)"
proof (cases "bs = []")
  case False
  then have f: "fseek_end (- 1) (open_file bs) = \<lparr>content = bs, position = length bs - 1, at_end = False\<rparr>"
    "fseek_end (- 1) \<lparr>content = bs, position = length bs - 1, at_end = False\<rparr> = \<lparr>content = bs, position = length bs - 1, at_end = False\<rparr>"
    by (cases bs; simp add: fseek_end_def seek_to_def open_file_def)+
  show ?thesis
    using False copy_loop_rev [of "length bs - 1" "\<lparr>content = bs, position = length bs - 1, at_end = False\<rparr>"] f
    by (simp add: copy_reversed_def count_characters_def)
qed (simp add: copy_reversed_def count_characters_def fseek_end_def seek_to_def open_file_def fgetc_def)

section \<open>Records\<close>

text \<open>The image of a string, and of a file of strings.\<close>

definition record_of :: "bytes \<Rightarrow> bytes" where
  "record_of s = le_bytes 8 (of_nat (length s) :: u64) @ s"

definition records_text :: "bytes list \<Rightarrow> bytes" where
  "records_text ss = concat (map record_of ss)"

definition final_size :: "bytes list \<Rightarrow> nat \<Rightarrow> nat" where
  "final_size ss n = fold (\<lambda>s n. if n < length s then length s + 1 else n) ss n"

definition reads_from :: "bytes \<Rightarrow> nat \<Rightarrow> reader \<Rightarrow> bool" where
  "reads_from bs p r \<longleftrightarrow> content (pInFile r) = bs \<and> position (pInFile r) = p \<and> \<not> at_end (pInFile r) \<and> length (str_length r) = 8"

definition short :: "bytes \<Rightarrow> bool" where
  "short s \<longleftrightarrow> length s + 1 < 2 ^ 64"

lemma get_put: "get_block (length bs) (map Some bs @ b) = Some bs"
  by (auto simp: get_block_def comp_def)

lemma read_length_record:
  assumes "reads_from bs p r" "drop p bs = record_of s @ rest" "short s"
  shows "\<exists>r'. read_length r = Some r' \<and> reads_from bs (p + 8) r' \<and> buffer r' = buffer r \<and>
    get_block 8 (str_length r') = Some (le_bytes 8 (of_nat (length s) :: u64)) \<and> length_of r' = Some (length s)"
proof -
  let ?l = "le_bytes 8 (of_nat (length s) :: u64)"
  have t: "take 8 (drop p bs) = ?l" using assms(2) by (simp add: record_of_def)
  have g: "get_block 8 (map Some ?l @ []) = Some ?l" using get_put [of ?l "[]"] by simp
  have "unat (of_nat (length s) :: u64) = length s" using assms(3) by (simp add: short_def unat_of_nat)
  then show ?thesis
    using assms(1) t g by (auto simp: read_length_def fread_def put_block_def reads_from_def Let_def length_of_def codec_simps)
qed

lemma read_string_record:
  assumes "reads_from bs (p + 8) r" "drop p bs = record_of s @ rest" "length_of r = Some (length s)" "length s \<le> length (buffer r)"
  shows "\<exists>r'. read_string r = Some r' \<and> reads_from bs (p + 8 + length s) r' \<and> str_length r' = str_length r \<and>
    buffer r' = map Some s @ drop (length s) (buffer r)"
proof -
  have "drop (p + 8) bs = drop 8 (drop p bs)" by (simp add: add.commute)
  then have t: "take (length s) (drop (p + 8) bs) = s" using assms(2) by (simp add: record_of_def)
  have "fread (length s) (buffer r) (pInFile r) =
      Some (map Some s @ drop (length s) (buffer r), (pInFile r)\<lparr>position := p + 8 + length s, at_end := False\<rparr>)"
    using assms(1,4) by (simp add: fread_def put_block_def reads_from_def t)
  then show ?thesis using assms(1,3) by (simp add: read_string_def reads_from_def)
qed

text \<open>A whole record.\<close>

lemma read_record:
  assumes "reads_from bs p r" "drop p bs = record_of s @ rest" "short s" "length s \<le> length (buffer r)"
  shows "\<exists>r1 r2. read_length r = Some r1 \<and> get_block 8 (str_length r1) = Some (le_bytes 8 (of_nat (length s) :: u64)) \<and>
    read_string r1 = Some r2 \<and> reads_from bs (p + 8 + length s) r2 \<and> length_of r2 = Some (length s) \<and>
    buffer r2 = map Some s @ drop (length s) (buffer r)"
proof -
  from read_length_record [OF assms(1-3)] obtain r1 where r1: "read_length r = Some r1" "reads_from bs (p + 8) r1"
    "buffer r1 = buffer r" "get_block 8 (str_length r1) = Some (le_bytes 8 (of_nat (length s) :: u64))" "length_of r1 = Some (length s)"
    by blast
  from read_string_record [OF r1(2) assms(2) r1(5)] assms(4) r1(3) obtain r2 where r2: "read_string r1 = Some r2"
    "reads_from bs (p + 8 + length s) r2" "str_length r2 = str_length r1" "buffer r2 = map Some s @ drop (length s) (buffer r)" by auto
  have "length_of r2 = Some (length s)" using r1(5) r2(3) by (simp add: length_of_def)
  with r1 r2 show ?thesis by blast
qed

lemma drop_record:
  assumes "drop p bs = record_of s @ rest"
  shows "drop (p + 8 + length s) bs = rest"
proof -
  have "drop (p + 8 + length s) bs = drop (8 + length s) (drop p bs)" by (simp add: ac_simps)
  then show ?thesis unfolding assms by (simp add: record_of_def)
qed

lemma count_loop_counts:
  "reads_from bs p r \<Longrightarrow> drop p bs = records_text ss \<Longrightarrow> list_all short ss \<Longrightarrow>
   \<exists>r'. count_loop k r = Some (k + length ss, r') \<and> content (pInFile r') = bs \<and> length (str_length r') = 8 \<and>
     length (buffer r') = final_size ss (length (buffer r))"
proof (induction ss arbitrary: k p r)
  case Nil
  then show ?case
    by (subst count_loop.simps)
      (auto simp: records_text_def reads_from_def read_length_def fread_def put_block_def final_size_def Let_def)
next
  case (Cons s ss)
  have d: "drop p bs = record_of s @ records_text ss" using Cons.prems(2) by (simp add: records_text_def)
  have sh: "short s" using Cons.prems(3) by simp
  from read_length_record [OF Cons.prems(1) d sh] obtain r1 where r1: "read_length r = Some r1" "reads_from bs (p + 8) r1"
    "buffer r1 = buffer r" "length_of r1 = Some (length s)" by blast
  let ?b = "if length (buffer r) < length s then replicate (length s + 1) None else buffer r"
  obtain r1' where g: "grow_buffer r1 = Some r1'" "buffer r1' = ?b" "reads_from bs (p + 8) r1'" "length_of r1' = Some (length s)"
    using r1(2-4) sh by (fastforce simp: grow_buffer_def reads_from_def length_of_def short_def)
  from read_string_record [OF g(3) d g(4)] g(2) obtain r2 where r2: "read_string r1' = Some r2" "reads_from bs (p + 8 + length s) r2"
    "buffer r2 = map Some s @ drop (length s) ?b" by (auto split: if_splits)
  have "count_loop k r = count_loop (k + 1) r2"
    using r1(1,2) g(1) r2(1) by (subst count_loop.simps) (simp add: reads_from_def)
  moreover have "length (buffer r2) = (if length (buffer r) < length s then length s + 1 else length (buffer r))" using r2(3) by simp
  ultimately show ?case
    using Cons.IH [OF r2(2) drop_record [OF d], of "k + 1"] Cons.prems(3) by (simp add: final_size_def)
qed

fun offsets :: "nat \<Rightarrow> bytes list \<Rightarrow> nat list" where
  "offsets p [] = []"
| "offsets p (s # ss) = p # offsets (p + 8 + length s) ss"

lemma positions_loop_offsets:
  "reads_from bs p r \<Longrightarrow> drop p bs = records_text ss \<Longrightarrow> list_all short ss \<Longrightarrow> list_all (\<lambda>s. length s \<le> length (buffer r)) ss \<Longrightarrow>
   \<exists>r'. positions_loop (length ss) r = Some (offsets p ss, r') \<and> content (pInFile r') = bs \<and> length (str_length r') = 8 \<and>
     length (buffer r') = length (buffer r)"
proof (induction ss arbitrary: p r)
  case Nil
  then show ?case by (auto simp: reads_from_def)
next
  case (Cons s ss)
  have d: "drop p bs = record_of s @ records_text ss" using Cons.prems(2) by (simp add: records_text_def)
  have sh: "short s" "length s \<le> length (buffer r)" using Cons.prems(3,4) by simp_all
  from read_record [OF Cons.prems(1) d sh] obtain r1 r2 where r2: "read_length r = Some r1" "read_string r1 = Some r2"
    "reads_from bs (p + 8 + length s) r2" "buffer r2 = map Some s @ drop (length s) (buffer r)" by blast
  have "length (buffer r2) = length (buffer r)" using r2(4) sh(2) by simp
  then show ?case
    using Cons.IH [OF r2(3) drop_record [OF d]] Cons.prems r2(1,2) by (auto simp: reads_from_def)
qed

lemma offsets_records:
  "drop p bs = records_text ss \<Longrightarrow> list_all2 (\<lambda>q s. \<exists>rest. drop q bs = record_of s @ rest) (offsets p ss) ss"
proof (induction ss arbitrary: p)
  case (Cons s ss)
  then have d: "drop p bs = record_of s @ records_text ss" by (simp add: records_text_def)
  with Cons.IH [OF drop_record [OF d]] show ?case by auto
qed simp

lemma write_loop_records:
  "list_all2 (\<lambda>q s. \<exists>rest. drop q bs = record_of s @ rest) ps ss \<Longrightarrow> content (pInFile r) = bs \<Longrightarrow> length (str_length r) = 8 \<Longrightarrow>
   list_all short ss \<Longrightarrow> list_all (\<lambda>s. length s \<le> length (buffer r)) ss \<Longrightarrow>
   \<exists>r'. write_loop ps out r = Some (out @ records_text ss, r') \<and> length (str_length r') = 8 \<and> length (buffer r') = length (buffer r)"
proof (induction ps ss arbitrary: r out rule: list_all2_induct)
  case Nil
  then show ?case by (simp add: records_text_def)
next
  case (Cons q ps s ss)
  let ?r = "r\<lparr>pInFile := seek_to (int q) (pInFile r)\<rparr>"
  from Cons.hyps(1) obtain rest where d: "drop q bs = record_of s @ rest" by blast
  have rf: "reads_from bs q ?r" using Cons.prems(1,2) by (simp add: reads_from_def seek_to_def)
  have sh: "short s" "length s \<le> length (buffer ?r)" using Cons.prems(3,4) by simp_all
  from read_record [OF rf d sh] obtain r1 r2 where r2: "read_length ?r = Some r1"
    "get_block 8 (str_length r1) = Some (le_bytes 8 (of_nat (length s) :: u64))" "read_string r1 = Some r2"
    "reads_from bs (q + 8 + length s) r2" "length_of r2 = Some (length s)" "buffer r2 = map Some s @ drop (length s) (buffer ?r)" by blast
  have l: "length (buffer r2) = length (buffer r)" using r2(6) sh(2) by simp
  have "write_loop (q # ps) out r = write_loop ps (out @ record_of s) r2"
    using r2 get_put [of s] by (simp add: record_of_def)
  with Cons.IH [of r2 "out @ record_of s"] r2(4) Cons.prems(3,4) l show ?case
    by (simp add: records_text_def reads_from_def)
qed

lemma text_of_terminated: "text_of (map Some s @ Some 0 # b) = Some (takeWhile (\<lambda>c. c \<noteq> 0) s)"
  by (induction s) auto

lemma list_loop_lists:
  "reads_from bs p r \<Longrightarrow> drop p bs = records_text ss \<Longrightarrow> list_all short ss \<Longrightarrow> list_all (\<lambda>s. length s \<le> length (buffer r)) ss \<Longrightarrow>
   list_loop (length ss) r =
     (if \<exists>s\<in>set ss. length s = length (buffer r) then None else Some (map (takeWhile (\<lambda>c. c \<noteq> 0)) ss))"
proof (induction ss arbitrary: p r)
  case (Cons s ss)
  have d: "drop p bs = record_of s @ records_text ss" using Cons.prems(2) by (simp add: records_text_def)
  have sh: "short s" "length s \<le> length (buffer r)" using Cons.prems(3,4) by simp_all
  from read_record [OF Cons.prems(1) d sh] obtain r1 r2 where r2: "read_length r = Some r1" "read_string r1 = Some r2"
    "reads_from bs (p + 8 + length s) r2" "length_of r2 = Some (length s)" "buffer r2 = map Some s @ drop (length s) (buffer r)" by blast
  show ?case
  proof (cases "length s = length (buffer r)")
    case True
    then show ?thesis using r2 by simp
  next
    case False
    let ?b = "(buffer r2)[length s := Some 0]"
    have b: "?b = map Some s @ Some 0 # drop (length s + 1) (buffer r)"
      using False sh(2) r2(5) by (simp add: list_update_append Cons_nth_drop_Suc [symmetric])
    have l: "length (buffer r2) = length (buffer r)" using r2(5) sh(2) by simp
    have "list_loop (length (s # ss)) r =
        map_option ((#) (takeWhile (\<lambda>c. c \<noteq> 0) s)) (list_loop (length ss) (r2\<lparr>buffer := ?b\<rparr>))"
      using r2(1,2,4) False l sh(2) text_of_terminated [of s "drop (length s + 1) (buffer r)"] b by simp
    moreover have "reads_from bs (p + 8 + length s) (r2\<lparr>buffer := ?b\<rparr>)" using r2(3) by (simp add: reads_from_def)
    ultimately show ?thesis using Cons.IH [OF _ drop_record [OF d], of "r2\<lparr>buffer := ?b\<rparr>"] Cons.prems(3,4) l False by simp
  qed
qed (simp add: records_text_def)

lemma final_size_bounds: "n \<le> final_size ss n" "s \<in> set ss \<Longrightarrow> length s \<le> final_size ss n"
proof -
  have g: "n \<le> final_size ss n" for n ss
  proof (induction ss arbitrary: n)
    case (Cons s ss)
    have "n \<le> (if n < length s then length s + 1 else n)" by simp
    also have "\<dots> \<le> final_size ss (if n < length s then length s + 1 else n)" by (rule Cons.IH)
    finally show ?case by (simp add: final_size_def)
  qed (simp add: final_size_def)
  then show "n \<le> final_size ss n" .
  show "s \<in> set ss \<Longrightarrow> length s \<le> final_size ss n"
  proof (induction ss arbitrary: n)
    case (Cons t ss)
    have f: "final_size (t # ss) n = final_size ss (if n < length t then length t + 1 else n)" by (simp add: final_size_def)
    have "length t \<le> (if n < length t then length t + 1 else n)" by simp
    also have "\<dots> \<le> final_size ss (if n < length t then length t + 1 else n)" by (rule g)
    finally show ?case using Cons f by auto
  qed simp
qed

text \<open>
  C40.  The records come out in the opposite order, and the strings of the new file are listed, unless one of them
  has the size of the buffer: its terminator is then written behind it.  The buffer has 50
  bytes, or one more than the last string that was longer than it.
\<close>

theorem records_reversed:
  assumes "list_all short ss"
  shows "reverse_records (records_text ss) =
    (if \<exists>s\<in>set ss. length s = final_size ss 50 then None
     else Some (records_text (rev ss), map (takeWhile (\<lambda>c. c \<noteq> 0)) (rev ss)))"
proof -
  let ?bs = "records_text ss"
  let ?r = "\<lparr>str_length = map Some (replicate 8 0), buffer = replicate 50 None, pInFile = open_file ?bs\<rparr>"
  have "reads_from ?bs 0 ?r" by (simp add: reads_from_def open_file_def)
  from count_loop_counts [OF this _ assms, of 0] obtain r where r: "count_loop 0 ?r = Some (length ss, r)"
    "content (pInFile r) = ?bs" "length (str_length r) = 8" "length (buffer r) = final_size ss 50" by auto
  let ?r1 = "r\<lparr>pInFile := seek_to 0 (pInFile r)\<rparr>"
  have fits: "list_all (\<lambda>s. length s \<le> final_size ss 50) ss" using final_size_bounds(2) by (auto simp: list_all_iff)
  have "reads_from ?bs 0 ?r1" using r(2,3) by (simp add: reads_from_def seek_to_def)
  from positions_loop_offsets [OF this _ assms] fits r(4) obtain r2 where r2: "positions_loop (length ss) ?r1 = Some (offsets 0 ss, r2)"
    "content (pInFile r2) = ?bs" "length (str_length r2) = 8" "length (buffer r2) = final_size ss 50" by auto
  have "list_all2 (\<lambda>q s. \<exists>rest. drop q ?bs = record_of s @ rest) (rev (offsets 0 ss)) (rev ss)"
    using offsets_records [of 0 ?bs ss] by (simp add: list_all2_rev)
  from write_loop_records [OF this r2(2,3), of "[]"] assms fits r2(4) obtain r3 where
    r3: "write_loop (rev (offsets 0 ss)) [] r2 = Some (records_text (rev ss), r3)" "length (str_length r3) = 8"
      "length (buffer r3) = final_size ss 50" by (auto simp: list_all_iff)
  let ?r4 = "r3\<lparr>pInFile := open_file (records_text (rev ss))\<rparr>"
  have "reads_from (records_text (rev ss)) 0 ?r4" using r3(2) by (simp add: reads_from_def open_file_def)
  from list_loop_lists [OF this, of "rev ss"] assms fits r3(3)
  have "list_loop (length ss) ?r4 = (if \<exists>s\<in>set ss. length s = final_size ss 50 then None
      else Some (map (takeWhile (\<lambda>c. c \<noteq> 0)) (rev ss)))" by (simp add: list_all_iff)
  with r(1) r2(1) r3(1) show ?thesis by (simp add: reverse_records_def)
qed

section \<open>Lines\<close>

lemma reverse_loop_nth:
  "0 \<le> i \<Longrightarrow> j < int (length s) \<Longrightarrow> length (reverse_loop i j s) = length s \<and>
   (\<forall>k<length s. reverse_loop i j s ! k = (if i \<le> int k \<and> int k \<le> j then s ! nat (i + j - int k) else s ! k))"
proof (induction i j s rule: reverse_loop.induct)
  case (1 i j s)
  show ?case
  proof (cases "i < j")
    case True
    let ?s = "s[nat i := s ! nat j, nat j := s ! nat i]"
    from 1 True have ih: "length (reverse_loop (i + 1) (j - 1) ?s) = length s"
      "\<And>k. k < length s \<Longrightarrow> reverse_loop (i + 1) (j - 1) ?s ! k =
        (if i + 1 \<le> int k \<and> int k \<le> j - 1 then ?s ! nat (i + j - int k) else ?s ! k)" by simp_all
    have e: "reverse_loop i j s = reverse_loop (i + 1) (j - 1) ?s" using True by (subst reverse_loop.simps) simp
    have "reverse_loop i j s ! k = (if i \<le> int k \<and> int k \<le> j then s ! nat (i + j - int k) else s ! k)" if "k < length s" for k
    proof -
      note len = 1(2,3) True that
      consider "k = nat i" | "k = nat j" | "i < int k" "int k < j" | "int k < i" | "j < int k" using len by linarith
      then show ?thesis
      proof cases
        case 3
        then have "nat i \<noteq> nat (i + j - int k)" "nat j \<noteq> nat (i + j - int k)" using len by linarith+
        with 3 show ?thesis unfolding e ih(2) [OF that] by simp
      next
        case 1
        then have "nat i \<noteq> nat j" "int k = i" "nat i < length s" using len by linarith+
        with 1 show ?thesis unfolding e ih(2) [OF that] using len by simp
      next
        case 2
        then have "nat i \<noteq> nat j" "int k = j" "nat j < length s" using len by linarith+
        with 2 show ?thesis unfolding e ih(2) [OF that] using len by simp
      next
        case 4
        then have "nat i \<noteq> k" "nat j \<noteq> k" using len by linarith+
        with 4 show ?thesis unfolding e ih(2) [OF that] using len by simp
      next
        case 5
        then have "nat i \<noteq> k" "nat j \<noteq> k" using len by linarith+
        with 5 show ?thesis unfolding e ih(2) [OF that] using len by simp
      qed
    qed
    with ih(1) e show ?thesis by simp
  next
    case False
    have "(if i \<le> int k \<and> int k \<le> j then s ! nat (i + j - int k) else s ! k) = s ! k" for k
      using False by (cases "int k = i") auto
    with False show ?thesis by (simp add: reverse_loop.simps)
  qed
qed

lemma reverse_string_rev [simp]: "reverse_string s = rev s"
proof (rule nth_equalityI)
  show l: "length (reverse_string s) = length (rev s)"
    using reverse_loop_nth [of 0 "int (length s) - 1" s] by (simp add: reverse_string_def)
  fix k assume k: "k < length (reverse_string s)"
  then have "nat (0 + (int (length s) - 1) - int k) = length s - Suc k" using l by simp
  with k l reverse_loop_nth [of 0 "int (length s) - 1" s] show "reverse_string s ! k = rev s ! k"
    by (simp add: reverse_string_def rev_nth)
qed

primrec join :: "string list \<Rightarrow> string" where
  "join [] = []"
| "join (l # ls) = (if ls = [] then l else l @ LF # join ls)"

definition line_ok :: "string \<Rightarrow> bool" where
  "line_ok l \<longleftrightarrow> LF \<notin> set l"

lemma strsep_join: "line_ok l \<Longrightarrow> strsep (join (l # ls)) = (l, if ls = [] then None else Some (join ls))"
proof -
  assume "line_ok l"
  then have "\<forall>c\<in>set l. c \<noteq> LF" by (auto simp: line_ok_def)
  then have "takeWhile (\<lambda>c. c \<noteq> LF) (l @ r) = l @ takeWhile (\<lambda>c. c \<noteq> LF) r"
    "dropWhile (\<lambda>c. c \<noteq> LF) (l @ r) = dropWhile (\<lambda>c. c \<noteq> LF) r" for r by simp_all
  from this [of "LF # join ls"] this [of "[]"] show ?thesis
    by (cases "ls = []") (simp_all add: strsep_def del: dropWhile_eq_Nil_conv takeWhile_eq_all_conv)
qed

lemma length_join_rev: "length (join (map rev ls)) = length (join ls)"
  by (induction ls) auto

text \<open>The block of the output, two bytes larger than the file, is never overrun.\<close>

lemma lines_loop_join:
  "list_all line_ok ls \<Longrightarrow> ls \<noteq> [] \<Longrightarrow> length out + length (join ls) + 1 < cap \<Longrightarrow>
   lines_loop cap (Some (join ls)) out = Some (out @ join (map rev ls) @ [LF])"
proof (induction ls arbitrary: out)
  case (Cons l ls)
  have "process_line cap out l = Some (out @ rev l @ [LF])"
    using Cons.prems(3) by (auto simp: process_line_def strcat_def split: if_splits)
  moreover have "line_ok l" using Cons.prems(1) by simp
  ultimately have "lines_loop cap (Some (join (l # ls))) out =
      lines_loop cap (if ls = [] then None else Some (join ls)) (out @ rev l @ [LF])"
    by (simp only: lines_loop.simps strsep_join fst_conv snd_conv option.case)
  then show ?case using Cons.IH [of "out @ rev l @ [LF]"] Cons.prems by (cases "ls = []") auto
qed simp

text \<open>A file without zero bytes is its lines, with or without a newline at the end; every line is reversed and nothing else changes.\<close>

lemma lines_exist: "\<exists>ls. ls \<noteq> [] \<and> list_all line_ok ls \<and> s = join ls"
proof (induction s)
  case Nil
  show ?case by (intro exI [of _ "[[]]"]) (simp add: line_ok_def)
next
  case (Cons c s)
  then obtain l ls where l: "list_all line_ok (l # ls)" "s = join (l # ls)" by (metis list.exhaust)
  show ?case
  proof (cases "c = LF")
    case True
    with l show ?thesis by (intro exI [of _ "[] # l # ls"]) (simp add: line_ok_def [of "[]"])
  next
    case False
    with l have "line_ok (c # l)" by (simp add: line_ok_def)
    with l show ?thesis by (intro exI [of _ "(c # l) # ls"]) simp
  qed
qed

lemma lines_reversed:
  assumes "ls \<noteq> []" "list_all line_ok ls" "CHR 0x00 \<notin> set (join ls)"
  shows "reverse_file (join ls) = Some (join (map rev ls))"
proof -
  have "takeWhile (\<lambda>c. c \<noteq> CHR 0x00) (join ls) = join ls" using assms(3) by (auto simp: takeWhile_eq_all_conv)
  moreover have "lines_loop (length (join ls) + 2) (Some (join ls)) [] = Some (join (map rev ls) @ [LF])"
    using lines_loop_join [OF assms(2,1), of "[]" "length (join ls) + 2"] by simp
  ultimately show ?thesis
    unfolding reverse_file_def using length_join_rev [of ls] by (simp only: bind.bind_lunit) simp
qed

text \<open>Running the program twice restores the file.\<close>

lemma join_rev_zero: "CHR 0x00 \<in> set (join (map rev ls)) \<longleftrightarrow> CHR 0x00 \<in> set (join ls)"
  by (induction ls) auto

lemma reverse_file_twice:
  assumes "CHR 0x00 \<notin> set s"
  shows "Option.bind (reverse_file s) reverse_file = Some s"
proof -
  obtain ls where ls: "ls \<noteq> []" "list_all line_ok ls" "s = join ls" using lines_exist by blast
  have "list_all line_ok (map rev ls)" using ls(2) by (simp add: list_all_iff line_ok_def)
  with lines_reversed [OF ls(1,2)] lines_reversed [of "map rev ls"] ls assms join_rev_zero [of ls] show ?thesis
    by (simp add: comp_def)
qed

section \<open>Examples\<close>

text \<open>Three strings; a string of fifty bytes is one too long for the terminator.\<close>

theorem records_reversed_witness:
  "reverse_records (records_text [[1, 2], [], [3, 0, 4]]) = Some (records_text [[3, 0, 4], [], [1, 2]], [[3], [], [1, 2]]) \<and>
   reverse_records (records_text [replicate 50 7]) = None"
  using records_reversed [of "[[1, 2], [], [3, 0, 4]]"] records_reversed [of "[replicate 50 7]"]
  by (simp add: short_def final_size_def)

end
