(* ===== verification/Codel.thy ===== *)
theory Codel
  imports Drop_Log "HOL-Library.Signed_Division"
begin

text \<open>
  The queue management algorithm of \<^verbatim>\<open>codel.h\<close>: its 32-bit clock, parameters and variables, the
  Newton step for the reciprocal square root of the drop count, \<^verbatim>\<open>codel_should_drop\<close> and
  \<^verbatim>\<open>codel_dequeue\<close> with the log of dropped TCP packets that the project adds.

  Kernel functions that are not part of the sources are the fields of a record \<^verbatim>\<open>kernel\<close>: the
  clocks, \<^verbatim>\<open>reciprocal_scale\<close>, the ECN marking of the type-of-service byte, and the allocator.  The
  queue behind \<^verbatim>\<open>codel_dequeue\<close> is the function pointer it gets, as in the code; what it has to
  satisfy is the locale \<^verbatim>\<open>packet_queue\<close>.  The loop over due drops is a partial function: None is a
  loop that does not end or an access to a null or freed object.
\<close>

section \<open>Time\<close>

definition CODEL_SHIFT :: nat where "CODEL_SHIFT = 10"

definition MS2TIME :: "u32 \<Rightarrow> u32" where
  "MS2TIME a = drop_bit CODEL_SHIFT (a * 1000000)"

definition codel_time_after :: "u32 \<Rightarrow> u32 \<Rightarrow> bool" where
  "codel_time_after a b \<longleftrightarrow> sint (a - b) > 0"

definition codel_time_before :: "u32 \<Rightarrow> u32 \<Rightarrow> bool" where
  "codel_time_before a b \<longleftrightarrow> codel_time_after b a"

definition codel_time_after_eq :: "u32 \<Rightarrow> u32 \<Rightarrow> bool" where
  "codel_time_after_eq a b \<longleftrightarrow> sint (a - b) \<ge> 0"

definition codel_time_before_eq :: "u32 \<Rightarrow> u32 \<Rightarrow> bool" where
  "codel_time_before_eq a b \<longleftrightarrow> codel_time_after_eq b a"

definition codel_time_to_us :: "u32 \<Rightarrow> u32" where
  "codel_time_to_us val = ucast ((push_bit CODEL_SHIFT (ucast val) :: u64) div 1000)"

text \<open>
  The time stamp of a dropped packet: \<^verbatim>\<open>tv_sec\<close> and \<^verbatim>\<open>tv_usec\<close> are \<^verbatim>\<open>long\<close>, 32 bits wide on the
  routers, and the product wraps before it is widened.
\<close>

definition get_systime_linger :: "u32 \<Rightarrow> u32 \<Rightarrow> u64" where
  "get_systime_linger tv_sec tv_usec = scast (tv_sec * 1000 + word_of_int (sint tv_usec sdiv 1000))"

section \<open>Packets and the scheduler seen by CoDel\<close>

record sk_buff =
  enqueue_time :: u32
  pkt_len :: u32
  priority :: u32
  tos :: u8
  protocol :: u8
  saddr :: u32
  daddr :: u32
  source :: u16
  dest :: u16
  seq :: u32
  ack_seq :: u32

record qdisc =
  backlog :: u32
  drops :: u32
  qlen :: u32

record codel_log_entry =
  cl_ip_src :: u32
  cl_ip_dst :: u32
  cl_systime :: u64
  cl_port_src :: u16
  cl_port_dst :: u16
  cl_sequence :: u32
  cl_ack_sequence :: u32
  cl_drop_count :: u32
  cl_dpl :: u16
  cl_pad :: u16
  cl_in_time :: u32
  cl_pad1 :: u32

text \<open>
  The kernel as CoDel uses it.  \<^verbatim>\<open>readings\<close> gives \<^verbatim>\<open>tv_sec\<close>, \<^verbatim>\<open>tv_usec\<close> and \<^verbatim>\<open>jiffies\<close> at the moment
  the packet with the given number among the drops is logged.
\<close>

record kernel =
  ktime_get_ns :: u64
  reciprocal_scale :: "u32 \<Rightarrow> u32 \<Rightarrow> u32"
  ecn_set_ce :: "u8 \<Rightarrow> bool \<times> u8"
  readings :: "u32 \<Rightarrow> u32 \<times> u32 \<times> u32"
  alloc_node :: "codel_log_entry heap \<Rightarrow> nat"

definition codel_get_time :: "kernel \<Rightarrow> u32" where
  "codel_get_time env = ucast (drop_bit CODEL_SHIFT (ktime_get_ns env))"

definition codel_set_enqueue_time :: "kernel \<Rightarrow> sk_buff \<Rightarrow> sk_buff" where
  "codel_set_enqueue_time env s = s\<lparr>enqueue_time := codel_get_time env\<rparr>"

definition INET_ECN_set_ce :: "kernel \<Rightarrow> sk_buff \<Rightarrow> bool \<times> sk_buff" where
  "INET_ECN_set_ce env s = (let (ok, t) = ecn_set_ce env (tos s) in (ok, s\<lparr>tos := t\<rparr>))"

section \<open>Parameters, variables, statistics\<close>

record codel_params =
  target :: u32
  ce_threshold :: u32
  interval :: u32
  mtu :: u32
  ecn :: bool

record codel_vars =
  count :: u32
  lastcount :: u32
  dropping :: bool
  rec_inv_sqrt :: u16
  first_above_time :: u32
  drop_next :: u32
  ldelay :: u32

record codel_stats =
  maxpacket :: u32
  drop_count :: u32
  drop_len :: u32
  ecn_mark :: u32
  ce_mark :: u32

definition CODEL_DISABLED_THRESHOLD :: u32 where "CODEL_DISABLED_THRESHOLD = 0x7fffffff"

definition codel_params_init :: "u32 \<Rightarrow> codel_params" where
  "codel_params_init psched_mtu = \<lparr>target = MS2TIME 5, ce_threshold = CODEL_DISABLED_THRESHOLD,
     interval = MS2TIME 100, mtu = psched_mtu, ecn = False\<rparr>"

definition codel_vars_init :: codel_vars where
  "codel_vars_init = \<lparr>count = 0, lastcount = 0, dropping = False, rec_inv_sqrt = 0,
     first_above_time = 0, drop_next = 0, ldelay = 0\<rparr>"

definition codel_stats_init :: "codel_stats \<Rightarrow> codel_stats" where
  "codel_stats_init st = st\<lparr>maxpacket := 0\<rparr>"

definition REC_INV_SQRT_SHIFT :: nat where "REC_INV_SQRT_SHIFT = 16"

definition codel_Newton_step :: "codel_vars \<Rightarrow> codel_vars" where
  "codel_Newton_step v =
    (let invsqrt = push_bit REC_INV_SQRT_SHIFT (ucast (rec_inv_sqrt v)) :: u32;
         invsqrt2 = ucast (drop_bit 32 (ucast invsqrt * ucast invsqrt :: u64)) :: u32;
         val = push_bit 32 3 - ucast (count v) * ucast invsqrt2 :: u64;
         val = drop_bit 2 val;
         val = drop_bit (32 - 2 + 1) (val * ucast invsqrt)
     in v\<lparr>rec_inv_sqrt := ucast (drop_bit REC_INV_SQRT_SHIFT val)\<rparr>)"

definition codel_control_law :: "kernel \<Rightarrow> u32 \<Rightarrow> u32 \<Rightarrow> u16 \<Rightarrow> u32" where
  "codel_control_law env t intv rec =
    t + reciprocal_scale env intv (push_bit REC_INV_SQRT_SHIFT (ucast rec))"

section \<open>Dequeueing\<close>

text \<open>
  What a call of \<^verbatim>\<open>codel_dequeue\<close> reads and writes: the scheduler, the variables of the flow, the
  shared statistics and the log of dropped packets.
\<close>

record 'q codel_run =
  sched :: "'q qdisc_scheme"
  vars :: codel_vars
  stats :: codel_stats
  log :: "codel_log_entry drop_log"

definition codel_should_drop ::
  "codel_params \<Rightarrow> u32 \<Rightarrow> sk_buff option \<Rightarrow> 'q codel_run \<Rightarrow> bool \<times> 'q codel_run"
where
  "codel_should_drop p now sk r =
    (case sk of
       None \<Rightarrow> (False, r\<lparr>vars := (vars r)\<lparr>first_above_time := 0\<rparr>\<rparr>)
     | Some s \<Rightarrow>
         let v = (vars r)\<lparr>ldelay := now - enqueue_time s\<rparr>;
             b = backlog (sched r) - pkt_len s;
             st = (if maxpacket (stats r) < pkt_len s then (stats r)\<lparr>maxpacket := pkt_len s\<rparr> else stats r);
             r' = r\<lparr>sched := (sched r)\<lparr>backlog := b\<rparr>, stats := st\<rparr>
         in if codel_time_before (ldelay v) (target p) \<or> b \<le> mtu p then
              (False, r'\<lparr>vars := v\<lparr>first_above_time := 0\<rparr>\<rparr>)
            else if first_above_time v = 0 then
              (False, r'\<lparr>vars := v\<lparr>first_above_time := now + interval p\<rparr>\<rparr>)
            else (codel_time_after now (first_above_time v), r'\<lparr>vars := v\<rparr>))"

definition drop_entry :: "kernel \<Rightarrow> u32 \<Rightarrow> sk_buff \<Rightarrow> codel_log_entry" where
  "drop_entry env n s =
    (let (sec, usec, jiffies) = readings env n
     in \<lparr>cl_ip_src = saddr s, cl_ip_dst = daddr s, cl_systime = get_systime_linger sec usec,
         cl_port_src = source s, cl_port_dst = dest s, cl_sequence = seq s,
         cl_ack_sequence = ack_seq s, cl_drop_count = 1, cl_dpl = 1777, cl_pad = 0,
         cl_in_time = jiffies, cl_pad1 = 0\<rparr>)"

text \<open>Dropping a packet: the log, the statistics and the drop counter of the queue discipline.\<close>

definition codel_drop :: "kernel \<Rightarrow> sk_buff \<Rightarrow> 'q codel_run \<Rightarrow> 'q codel_run option" where
  "codel_drop env s r =
    (let st = stats r;
         logged = (if protocol s = 6
                   then codel_log_drop (alloc_node env) (drop_entry env (drop_count st) s) (log r)
                   else Some (log r))
     in map_option (\<lambda>lg. r\<lparr>log := lg,
          stats := st\<lparr>drop_len := drop_len st + pkt_len s, drop_count := drop_count st + 1\<rparr>,
          sched := (sched r)\<lparr>drops := drops (sched r) + 1\<rparr>\<rparr>) logged)"

text \<open>The call of the function pointer.\<close>

definition call_dequeue ::
  "('q qdisc_scheme \<Rightarrow> sk_buff option \<times> 'q qdisc_scheme) \<Rightarrow> 'q codel_run \<Rightarrow> sk_buff option \<times> 'q codel_run"
where
  "call_dequeue deq r = (let (sk, q) = deq (sched r) in (sk, r\<lparr>sched := q\<rparr>))"

text \<open>The two successors of a dropped packet in the loop: leave the state, or schedule the next drop.\<close>

definition after_drop ::
  "kernel \<Rightarrow> codel_params \<Rightarrow> ('q qdisc_scheme \<Rightarrow> sk_buff option \<times> 'q qdisc_scheme) \<Rightarrow> u32 \<Rightarrow>
   'q codel_run \<Rightarrow> sk_buff option \<times> 'q codel_run"
where
  "after_drop env p deq now r =
    (let (sk, r1) = call_dequeue deq r;
         (ok, r2) = codel_should_drop p now sk r1
     in (sk, r2\<lparr>vars := (if \<not> ok then (vars r2)\<lparr>dropping := False\<rparr>
                 else (vars r2)\<lparr>drop_next := codel_control_law env (drop_next (vars r2)) (interval p)
                                               (rec_inv_sqrt (vars r2))\<rparr>)\<rparr>))"

definition ecn_marked :: "kernel \<Rightarrow> codel_params \<Rightarrow> sk_buff \<Rightarrow> bool \<times> sk_buff" where
  "ecn_marked env p s = (if ecn p then INET_ECN_set_ce env s else (False, s))"

definition count_and_step :: "'q codel_run \<Rightarrow> 'q codel_run" where
  "count_and_step r = r\<lparr>vars := codel_Newton_step ((vars r)\<lparr>count := count (vars r) + 1\<rparr>)\<rparr>"

definition mark_in_loop :: "kernel \<Rightarrow> codel_params \<Rightarrow> 'q codel_run \<Rightarrow> 'q codel_run" where
  "mark_in_loop env p r =
    r\<lparr>stats := (stats r)\<lparr>ecn_mark := ecn_mark (stats r) + 1\<rparr>,
      vars := (vars r)\<lparr>drop_next := codel_control_law env (drop_next (vars r)) (interval p)
                                      (rec_inv_sqrt (vars r))\<rparr>\<rparr>"

partial_function (option) drop_loop ::
  "kernel \<Rightarrow> codel_params \<Rightarrow> ('q qdisc_scheme \<Rightarrow> sk_buff option \<times> 'q qdisc_scheme) \<Rightarrow> u32 \<Rightarrow>
   sk_buff option \<Rightarrow> 'q codel_run \<Rightarrow> (sk_buff option \<times> 'q codel_run) option"
where
  "drop_loop env p deq now sk r =
    (if dropping (vars r) \<and> codel_time_after_eq now (drop_next (vars r)) then
       (case sk of
          None \<Rightarrow> None
        | Some s \<Rightarrow>
            if fst (ecn_marked env p s) then
              Some (Some (snd (ecn_marked env p s)), mark_in_loop env p (count_and_step r))
            else
              (case codel_drop env (snd (ecn_marked env p s)) (count_and_step r) of
                 None \<Rightarrow> None
               | Some r1 \<Rightarrow>
                   drop_loop env p deq now (fst (after_drop env p deq now r1)) (snd (after_drop env p deq now r1))))
     else Some (sk, r))"

text \<open>Entering the dropping state.\<close>

definition start_dropping :: "kernel \<Rightarrow> codel_params \<Rightarrow> u32 \<Rightarrow> codel_vars \<Rightarrow> codel_vars" where
  "start_dropping env p now v =
    (let delta = count v - lastcount v;
         v1 = v\<lparr>dropping := True\<rparr>;
         v2 = (if 1 < delta \<and> codel_time_before (now - drop_next v1) (16 * interval p)
               then codel_Newton_step (v1\<lparr>count := delta\<rparr>)
               else v1\<lparr>count := 1, rec_inv_sqrt := ucast (drop_bit REC_INV_SQRT_SHIFT (0xffffffff :: u32))\<rparr>)
     in v2\<lparr>lastcount := count v2, drop_next := codel_control_law env now (interval p) (rec_inv_sqrt v2)\<rparr>)"

definition first_drop ::
  "kernel \<Rightarrow> codel_params \<Rightarrow> ('q qdisc_scheme \<Rightarrow> sk_buff option \<times> 'q qdisc_scheme) \<Rightarrow> u32 \<Rightarrow>
   sk_buff \<Rightarrow> 'q codel_run \<Rightarrow> (sk_buff option \<times> 'q codel_run) option"
where
  "first_drop env p deq now s r =
    (let (marked, s') = ecn_marked env p s;
         taken =
           (if marked then Some (Some s', r\<lparr>stats := (stats r)\<lparr>ecn_mark := ecn_mark (stats r) + 1\<rparr>\<rparr>)
            else (case codel_drop env s' r of
                    None \<Rightarrow> None
                  | Some r1 \<Rightarrow>
                      let (sk, r2) = call_dequeue deq r1
                      in Some (sk, snd (codel_should_drop p now sk r2))))
     in map_option (\<lambda>(sk, r'). (sk, r'\<lparr>vars := start_dropping env p now (vars r')\<rparr>)) taken)"

definition codel_end ::
  "kernel \<Rightarrow> codel_params \<Rightarrow> sk_buff option \<times> 'q codel_run \<Rightarrow> sk_buff option \<times> 'q codel_run"
where
  "codel_end env p sr =
    (case sr of
       (None, r) \<Rightarrow> (None, r)
     | (Some s, r) \<Rightarrow>
         if codel_time_after (ldelay (vars r)) (ce_threshold p) then
           (let (ok, s') = INET_ECN_set_ce env s
            in (Some s', if ok then r\<lparr>stats := (stats r)\<lparr>ce_mark := ce_mark (stats r) + 1\<rparr>\<rparr> else r))
         else (Some s, r))"

definition codel_dequeue ::
  "kernel \<Rightarrow> codel_params \<Rightarrow> ('q qdisc_scheme \<Rightarrow> sk_buff option \<times> 'q qdisc_scheme) \<Rightarrow>
   'q codel_run \<Rightarrow> (sk_buff option \<times> 'q codel_run) option"
where
  "codel_dequeue env p deq r =
    (let (sk, r1) = call_dequeue deq r
     in case sk of
          None \<Rightarrow> Some (None, r1\<lparr>vars := (vars r1)\<lparr>dropping := False\<rparr>\<rparr>)
        | Some s \<Rightarrow>
            let now = codel_get_time env;
                (ok, r2) = codel_should_drop p now (Some s) r1
            in map_option (codel_end env p)
                 (if dropping (vars r2) then
                    (if \<not> ok then Some (Some s, r2\<lparr>vars := (vars r2)\<lparr>dropping := False\<rparr>\<rparr>)
                     else drop_loop env p deq now (Some s) r2)
                  else if ok then first_drop env p deq now s r2
                  else Some (Some s, r2)))"

section \<open>The clock\<close>

lemma sint_u32: "sint (w :: u32) = (if uint w < 2 ^ 31 then uint w else uint w - 2 ^ 32)"
proof -
  have *: "0 \<le> uint w" "uint w < 2 ^ 32" using uint_lt2p [of w] by simp_all
  then have "take_bit 32 (uint w) = uint w" by (simp add: take_bit_int_eq_self)
  then have "sint w = uint w - 2 ^ 32 * of_bool (bit (uint w) 31)"
    by (simp add: sint_uint signed_take_bit_eq_take_bit_minus)
  moreover have "bit (uint w) 31 \<longleftrightarrow> \<not> uint w < 2 ^ 31"
  proof -
    have "uint w div 2 ^ 31 = (if uint w < 2 ^ 31 then 0 else 1)" using * by (auto intro: div_pos_geq)
    then show ?thesis by (simp add: bit_iff_odd)
  qed
  ultimately show ?thesis by simp
qed

lemma codel_time_after_add:
  "codel_time_after (t + d) t \<longleftrightarrow> 0 < uint d \<and> uint d < 2 ^ 31"
  using uint_lt2p [of d] by (simp add: codel_time_after_def sint_u32)

lemma codel_time_after_eq_iff: "codel_time_after_eq a b \<longleftrightarrow> uint (a - b) < 2 ^ 31"
  using uint_lt2p [of "a - b"] by (auto simp: codel_time_after_eq_def sint_u32)

section \<open>The Newton step\<close>

lemma uint_drop_bit_div: "uint (drop_bit n w) = uint (w :: 'a::len word) div 2 ^ n"
  using uint_lt2p [of w] by (simp add: unsigned_drop_bit_eq drop_bit_eq_div [where 'a=int] take_bit_int_eq_self)

lemma newton_square:
  "uint (ucast (drop_bit 32 (ucast (push_bit 16 (ucast x) :: u32) *
           ucast (push_bit 16 (ucast x) :: u32) :: u64)) :: u32) = uint (x :: u16) ^ 2"
proof -
  have x: "0 \<le> uint x" "uint x < 2 ^ 16" using uint_lt2p [of x] by simp_all
  then have i: "uint (push_bit 16 (ucast x) :: u32) = uint x * 2 ^ 16"
    by (simp add: unsigned_push_bit_eq unsigned_ucast_eq push_bit_eq_mult [where 'a=int] take_bit_int_eq_self)
  have sq: "uint x ^ 2 < 2 ^ 32" using power_strict_mono [OF x(2,1), of 2] by simp
  have "uint (ucast (push_bit 16 (ucast x) :: u32) * ucast (push_bit 16 (ucast x) :: u32) :: u64) =
      uint x ^ 2 * 2 ^ 32"
    using x sq unfolding uint_word_ariths unsigned_ucast_eq i
    by (simp add: take_bit_int_eq_self power2_eq_square)
  then show ?thesis using sq
    by (simp add: unsigned_ucast_eq uint_drop_bit_div take_bit_int_eq_self)
qed

lemma newton_uint:
  assumes "uint (count v) * uint (rec_inv_sqrt v) ^ 2 \<le> 3 * 2 ^ 32"
  shows "uint (rec_inv_sqrt (codel_Newton_step v)) =
    take_bit 16 ((3 * 2 ^ 32 - uint (count v) * uint (rec_inv_sqrt v) ^ 2) div 4 * uint (rec_inv_sqrt v) div 2 ^ 31)"
proof -
  define x c where "x = rec_inv_sqrt v" and "c = count v"
  have x: "0 \<le> uint x" "uint x < 2 ^ 16" using uint_lt2p [of x] by simp_all
  have i0: "uint (push_bit 16 (ucast x) :: u32) = uint x * 2 ^ 16"
    using x by (simp add: unsigned_push_bit_eq unsigned_ucast_eq push_bit_eq_mult [where 'a=int] take_bit_int_eq_self)
  have i: "uint (ucast (push_bit 16 (ucast x) :: u32) :: u64) = uint x * 2 ^ 16"
    using x unfolding unsigned_ucast_eq i0 by (simp add: take_bit_int_eq_self)
  define y :: u32 where "y = ucast (drop_bit 32 (ucast (push_bit 16 (ucast x) :: u32) *
           ucast (push_bit 16 (ucast x) :: u32) :: u64))"
  have y: "uint y = uint x ^ 2" unfolding y_def by (rule newton_square)
  have P: "0 \<le> uint c * uint x ^ 2" "uint c * uint x ^ 2 \<le> 3 * 2 ^ 32"
    using assms by (simp_all add: x_def c_def)
  have m: "uint (ucast c * ucast y :: u64) = uint c * uint x ^ 2"
    unfolding uint_word_ariths using P x uint_lt2p [of c] uint_lt2p [of y]
    by (simp add: unsigned_ucast_eq y [symmetric] take_bit_int_eq_self)
  define w :: u64 where "w = push_bit 32 3 - ucast c * ucast y"
  have w: "uint w = 3 * 2 ^ 32 - uint c * uint x ^ 2"
  proof -
    have "(3 * 2 ^ 32 - z) mod 2 ^ 64 = 3 * 2 ^ 32 - z" if "0 \<le> z" "z \<le> 3 * 2 ^ 32" for z :: int
      using that by simp
    from this [OF P] show ?thesis unfolding w_def uint_word_ariths(2) m by (simp add: push_bit_eq_mult)
  qed
  have w4: "uint (drop_bit 2 w) = (3 * 2 ^ 32 - uint c * uint x ^ 2) div 4"
    by (simp add: uint_drop_bit_div w)
  define q where "q = (3 * 2 ^ 32 - uint c * uint x ^ 2) div 4"
  have "0 \<le> (3 * 2 ^ 32 - z) div 4 \<and> (3 * 2 ^ 32 - z) div 4 \<le> 3 * 2 ^ 30"
    if "0 \<le> z" "z \<le> 3 * 2 ^ 32" for z :: int
    using that zdiv_mono1 [of "3 * 2 ^ 32 - z" "3 * 2 ^ 32" 4] by (simp add: pos_imp_zdiv_nonneg_iff)
  from this [OF P] have q: "0 \<le> q" "q \<le> 3 * 2 ^ 30" by (simp_all add: q_def)
  have "q * (uint x * 2 ^ 16) \<le> 3 * 2 ^ 30 * (2 ^ 16 * 2 ^ 16)"
    using q x by (intro mult_mono) auto
  moreover have "0 \<le> q * (uint x * 2 ^ 16)" using q x by simp
  ultimately have p: "uint (drop_bit 2 w * ucast (push_bit 16 (ucast x) :: u32) :: u64) = q * uint x * 2 ^ 16"
    unfolding uint_word_ariths i w4 q_def [symmetric] by simp
  have "q * uint x * 2 ^ 16 div 2 ^ 31 div 2 ^ 16 = q * uint x div 2 ^ 31"
    by (simp add: zdiv_zmult2_eq [symmetric])
  then show ?thesis
    unfolding codel_Newton_step_def REC_INV_SQRT_SHIFT_def x_def [symmetric] c_def [symmetric] Let_def
      y_def [symmetric] w_def [symmetric] q_def [symmetric]
    by (simp add: unsigned_ucast_eq uint_drop_bit_div p)
qed

text \<open>The exact step never overshoots: \<open>s (3 - s)\<^sup>2 \<le> 4\<close> for a product \<open>s\<close> of at most three.\<close>

lemma newton_no_overshoot:
  fixes s n :: int
  assumes "0 \<le> s" "s \<le> 3 * n"
  shows "s * (3 * n - s) ^ 2 \<le> 4 * n ^ 3"
proof -
  have "0 \<le> (n - s) ^ 2 * (4 * n - s)" using assms by (intro mult_nonneg_nonneg) auto
  also have "\<dots> = 4 * n ^ 3 - s * (3 * n - s) ^ 2" by algebra
  finally show ?thesis by simp
qed

text \<open>After a step the product of the count and the square of the reciprocal is at most one.\<close>

lemma newton_bound:
  assumes c: "0 < uint (count v)" and P: "uint (count v) * uint (rec_inv_sqrt v) ^ 2 \<le> 3 * 2 ^ 32"
  shows "uint (count v) * uint (rec_inv_sqrt (codel_Newton_step v)) ^ 2 \<le> 2 ^ 32"
    and "uint (rec_inv_sqrt (codel_Newton_step v)) =
      (3 * 2 ^ 32 - uint (count v) * uint (rec_inv_sqrt v) ^ 2) div 4 * uint (rec_inv_sqrt v) div 2 ^ 31"
proof -
  define x d s where "x = uint (rec_inv_sqrt v)" and "d = uint (count v)" and "s = d * x ^ 2"
  define y where "y = (3 * 2 ^ 32 - s) div 4 * x div 2 ^ 31"
  have x: "0 \<le> x" and d: "0 < d" and s: "0 \<le> s" "s \<le> 3 * 2 ^ 32"
    using c P by (simp_all add: x_def d_def s_def)
  have "(3 * 2 ^ 32 - s) div 4 * x \<ge> 0" using s x by (simp add: pos_imp_zdiv_nonneg_iff)
  then have y0: "0 \<le> y" by (simp add: y_def)
  have "y * 2 ^ 31 \<le> (3 * 2 ^ 32 - s) div 4 * x" by (simp add: y_def)
  moreover have "(3 * 2 ^ 32 - s) div 4 * 4 \<le> 3 * 2 ^ 32 - s" by simp
  then have "(3 * 2 ^ 32 - s) div 4 * 4 * x \<le> (3 * 2 ^ 32 - s) * x" using x by (rule mult_right_mono)
  ultimately have y33: "y * 2 ^ 33 \<le> (3 * 2 ^ 32 - s) * x" by simp
  then have "(y * 2 ^ 33) ^ 2 \<le> ((3 * 2 ^ 32 - s) * x) ^ 2" using y0 by (intro power_mono) auto
  then have "d * (y * 2 ^ 33) ^ 2 \<le> d * ((3 * 2 ^ 32 - s) * x) ^ 2" using d by simp
  also have "\<dots> = s * (3 * 2 ^ 32 - s) ^ 2" by (simp add: s_def power_mult_distrib)
  also have "\<dots> \<le> 4 * (2 ^ 32) ^ 3" using newton_no_overshoot [of s "2 ^ 32"] s by simp
  finally have "d * y ^ 2 * 2 ^ 66 \<le> 2 ^ 98" by (simp add: power_mult_distrib)
  then have b: "d * y ^ 2 \<le> 2 ^ 32" by simp
  have "y < 2 ^ 16"
  proof -
    have x16: "x < 2 ^ 16" using uint_lt2p [of "rec_inv_sqrt v"] by (simp add: x_def)
    have "x ^ 2 \<le> s" using d mult_right_mono [of 1 d "x ^ 2"] by (simp add: s_def)
    then have "(3 * 2 ^ 32 - s) * x \<le> (3 * 2 ^ 32 - x ^ 2) * x" using x by (intro mult_right_mono) auto
    also have "\<dots> < 2 ^ 49"
    proof -
      have "0 < (2 ^ 16 - x) ^ 2 * (2 * 2 ^ 16 + x)" using x x16 by simp
      also have "\<dots> = 2 * (2 ^ 16) ^ 3 - (3 * (2 ^ 16) ^ 2 - x ^ 2) * x" by algebra
      finally show ?thesis by simp
    qed
    finally show ?thesis using y33 by simp
  qed
  then have "uint (rec_inv_sqrt (codel_Newton_step v)) = y"
    using newton_uint [OF P] y0 by (simp add: x_def d_def s_def y_def take_bit_int_eq_self)
  with b show "uint (count v) * uint (rec_inv_sqrt (codel_Newton_step v)) ^ 2 \<le> 2 ^ 32"
    and "uint (rec_inv_sqrt (codel_Newton_step v)) =
      (3 * 2 ^ 32 - uint (count v) * uint (rec_inv_sqrt v) ^ 2) div 4 * uint (rec_inv_sqrt v) div 2 ^ 31"
    by (simp_all add: x_def d_def s_def y_def)
qed

section \<open>The drop rate\<close>

text \<open>The stored reciprocal, of 16 fractional bits, is at most one over the root of the count.\<close>

definition rate_ok :: "codel_vars \<Rightarrow> bool" where
  "rate_ok v \<longleftrightarrow> uint (count v) * uint (rec_inv_sqrt v) ^ 2 \<le> 2 ^ 32 \<and> uint (lastcount v) \<le> uint (count v)"

lemma newton_fields [simp]:
  "count (codel_Newton_step v) = count v" "lastcount (codel_Newton_step v) = lastcount v"
  "dropping (codel_Newton_step v) = dropping v" "drop_next (codel_Newton_step v) = drop_next v"
  by (simp_all add: codel_Newton_step_def Let_def)

lemma rec_square: "uint (x :: u16) ^ 2 \<le> 2 ^ 32"
  using power_mono [of "uint x" "2 ^ 16" 2] uint_lt2p [of x] by simp

lemma rate_ok_step:
  assumes "rate_ok v" and "uint (count v) + 1 < 2 ^ 32"
  shows "uint (count v + 1) = uint (count v) + 1"
    and "rate_ok (codel_Newton_step (v\<lparr>count := count v + 1\<rparr>))"
    and "uint (count v + 1) * uint (rec_inv_sqrt v) ^ 2 \<le> 3 * 2 ^ 32"
proof -
  define c x where "c = uint (count v)" and "x = uint (rec_inv_sqrt v)"
  show c1: "uint (count v + 1) = uint (count v) + 1"
    unfolding uint_word_ariths using assms(2) by simp
  have "(c + 1) * x ^ 2 = c * x ^ 2 + x ^ 2" by (simp add: algebra_simps)
  also have "\<dots> \<le> 2 ^ 32 + 2 ^ 32"
    using assms(1) rec_square [of "rec_inv_sqrt v"] by (intro add_mono) (simp_all add: rate_ok_def c_def x_def)
  finally show P: "uint (count v + 1) * uint (rec_inv_sqrt v) ^ 2 \<le> 3 * 2 ^ 32"
    by (simp add: c1 c_def x_def)
  have "0 \<le> uint (count v)" by simp
  with newton_bound(1) [of "v\<lparr>count := count v + 1\<rparr>"] P assms(1) c1
  show "rate_ok (codel_Newton_step (v\<lparr>count := count v + 1\<rparr>))"
    by (simp add: rate_ok_def)
qed

lemma rate_ok_cong:
  "rate_ok v \<Longrightarrow> count v' = count v \<Longrightarrow> lastcount v' = lastcount v \<Longrightarrow> rec_inv_sqrt v' = rec_inv_sqrt v \<Longrightarrow>
   rate_ok v'"
  by (simp add: rate_ok_def)

lemma rate_ok_start_dropping:
  assumes "rate_ok v"
  shows "rate_ok (start_dropping env p now v)"
proof (cases "1 < count v - lastcount v \<and> codel_time_before (now - drop_next v) (16 * interval p)")
  case True
  define w where "w = v\<lparr>dropping := True, count := count v - lastcount v\<rparr>"
  have d: "uint (count v - lastcount v) = uint (count v) - uint (lastcount v)"
    using assms uint_sub_lem [of "lastcount v" "count v"] by (simp add: rate_ok_def)
  have pos: "0 < uint (count v - lastcount v)"
    using True by (simp add: word_less_def)
  have "uint (count v - lastcount v) * uint (rec_inv_sqrt v) ^ 2 \<le> uint (count v) * uint (rec_inv_sqrt v) ^ 2"
    unfolding d by (intro mult_right_mono) simp_all
  also have "\<dots> \<le> 2 ^ 32" using assms by (simp add: rate_ok_def)
  finally have "uint (count w) * uint (rec_inv_sqrt (codel_Newton_step w)) ^ 2 \<le> 2 ^ 32"
    using pos by (intro newton_bound(1)) (simp_all add: w_def)
  with True show ?thesis by (simp add: start_dropping_def Let_def rate_ok_def w_def)
next
  case False
  then show ?thesis
    by (auto simp: start_dropping_def Let_def rate_ok_def REC_INV_SQRT_SHIFT_def unsigned_ucast_eq)
qed

section \<open>Accounting\<close>

definition qbytes :: "sk_buff list \<Rightarrow> u32" where
  "qbytes ss = sum_list (map pkt_len ss)"

lemma qbytes_simps [simp]:
  "qbytes [] = 0" "qbytes (s # ss) = pkt_len s + qbytes ss" "qbytes (ss @ ts) = qbytes ss + qbytes ts"
  by (simp_all add: qbytes_def)

fun opt_list :: "'a option \<Rightarrow> 'a list" where
  "opt_list None = []"
| "opt_list (Some x) = [x]"

text \<open>Packets up to the byte that ECN marks.\<close>

definition unmarked :: "sk_buff \<Rightarrow> sk_buff" where
  "unmarked s = s\<lparr>tos := 0\<rparr>"

definition same_packets :: "sk_buff list \<Rightarrow> sk_buff list \<Rightarrow> bool" where
  "same_packets ss ts \<longleftrightarrow> map unmarked ss = map unmarked ts"

lemma unmarked_INET_ECN_set_ce [simp]: "unmarked (snd (INET_ECN_set_ce env s)) = unmarked s"
  by (simp add: INET_ECN_set_ce_def unmarked_def split: prod.splits)

lemma ecn_marked_packet [simp]:
  "unmarked (snd (ecn_marked env p s)) = unmarked s"
  "pkt_len (snd (ecn_marked env p s)) = pkt_len s" "protocol (snd (ecn_marked env p s)) = protocol s"
  "drop_entry env n (snd (ecn_marked env p s)) = drop_entry env n s"
  by (simp_all add: ecn_marked_def INET_ECN_set_ce_def unmarked_def drop_entry_def split: prod.splits)

text \<open>The log entries of the TCP packets among the dropped ones.\<close>

fun drop_entries :: "kernel \<Rightarrow> u32 \<Rightarrow> sk_buff list \<Rightarrow> codel_log_entry list" where
  "drop_entries env n [] = []"
| "drop_entries env n (s # ss) =
     (if protocol s = 6 then [drop_entry env n s] else []) @ drop_entries env (n + 1) ss"

lemma drop_entries_append:
  "drop_entries env n (ss @ ts) = drop_entries env n ss @ drop_entries env (n + of_nat (length ss)) ts"
  by (induction ss arbitrary: n) (simp_all add: ac_simps)

text \<open>A log that held \<open>es\<close>, of which \<open>k\<close> had been reported, after the given entries were added.\<close>

definition log_extended :: "codel_log_entry drop_log \<Rightarrow> codel_log_entry list \<Rightarrow> nat \<Rightarrow> codel_log_entry list \<Rightarrow> bool" where
  "log_extended lg es k new \<longleftrightarrow>
    (if new = [] then log_rep lg es k else log_rep lg (drop k es @ new) 0)"

lemma log_extended_put:
  assumes "kmalloc alloc" and "log_extended lg es k new"
  shows "\<exists>lg'. codel_log_drop alloc v lg = Some lg' \<and> log_extended lg' es k (new @ [v])"
  using assms(2) kmalloc.codel_log_drop_rep [OF assms(1), of lg _ _ v]
  by (fastforce simp: log_extended_def split: if_splits)

text \<open>What has happened between two states in which the packets \<open>ds\<close> were dropped.\<close>

definition drops_done ::
  "kernel \<Rightarrow> codel_log_entry list \<Rightarrow> nat \<Rightarrow> 'q codel_run \<Rightarrow> 'q codel_run \<Rightarrow> sk_buff list \<Rightarrow> bool"
where
  "drops_done env es k r r' ds \<longleftrightarrow>
     drop_count (stats r') = drop_count (stats r) + of_nat (length ds) \<and>
     drop_len (stats r') = drop_len (stats r) + qbytes ds \<and>
     drops (sched r') = drops (sched r) + of_nat (length ds) \<and>
     log_extended (log r') es k (drop_entries env (drop_count (stats r)) ds)"

lemma codel_drop_done:
  assumes "kmalloc (alloc_node env)" and "drops_done env es k r0 r ds"
  obtains r1 where "codel_drop env s r = Some r1" "drops_done env es k r0 r1 (ds @ [s])"
    "vars r1 = vars r" "sched r1 = (sched r)\<lparr>drops := drops (sched r) + 1\<rparr>"
proof -
  define new where "new = drop_entries env (drop_count (stats r0)) ds"
  define lg where "lg = (if protocol s = 6
    then codel_log_drop (alloc_node env) (drop_entry env (drop_count (stats r)) s) (log r) else Some (log r))"
  have "log_extended (log r) es k new" using assms(2) by (simp add: drops_done_def new_def)
  then obtain lg' where "lg = Some lg'" "log_extended lg' es k (drop_entries env (drop_count (stats r0)) (ds @ [s]))"
    using log_extended_put [OF assms(1), of "log r" es k new "drop_entry env (drop_count (stats r)) s"] assms(2)
    by (cases "protocol s = 6") (auto simp: lg_def new_def drop_entries_append drops_done_def)
  note lg = this
  define r1 where "r1 = r\<lparr>log := lg', stats := (stats r)\<lparr>drop_len := drop_len (stats r) + pkt_len s,
    drop_count := drop_count (stats r) + 1\<rparr>, sched := (sched r)\<lparr>drops := drops (sched r) + 1\<rparr>\<rparr>"
  show ?thesis
  proof (rule that)
    show "codel_drop env s r = Some r1"
      using lg(1) by (simp add: codel_drop_def Let_def lg_def [symmetric] r1_def)
    show "drops_done env es k r0 r1 (ds @ [s])"
      using lg(2) assms(2) by (simp add: drops_done_def r1_def ac_simps)
  qed (simp_all add: r1_def)
qed

section \<open>The queue behind CoDel\<close>

text \<open>
  The contract of the function pointer: it takes the first packet of the flow if there is one and
  leaves an empty flow alone, and neither depends on the counters that CoDel keeps itself.
\<close>

locale packet_queue =
  fixes deq :: "'q qdisc_scheme \<Rightarrow> sk_buff option \<times> 'q qdisc_scheme"
    and content :: "'q qdisc_scheme \<Rightarrow> sk_buff list"
    and follows :: "'q qdisc_scheme \<Rightarrow> 'q qdisc_scheme \<Rightarrow> bool"
  assumes deq_empty: "content q = [] \<Longrightarrow> deq q = (None, q)"
    and deq_head: "content q = s # ss \<Longrightarrow>
      \<exists>q'. deq q = (Some s, q') \<and> content q' = ss \<and> backlog q' = backlog q \<and> drops q' = drops q \<and> follows q q'"
    and content_frame [simp]: "content (q\<lparr>backlog := b\<rparr>) = content q" "content (q\<lparr>drops := d\<rparr>) = content q"
    and follows_frame: "follows q (q\<lparr>backlog := b\<rparr>)" "follows q (q\<lparr>drops := d\<rparr>)"
    and follows_refl: "follows q q"
    and follows_trans: "follows q q' \<Longrightarrow> follows q' q'' \<Longrightarrow> follows q q''"
begin

text \<open>The loop ends: a rule for it with an invariant and a postcondition.\<close>

lemma drop_loop_rule:
  assumes "Inv sk r"
    and none: "\<And>r. Inv None r \<Longrightarrow> \<not> dropping (vars r)"
    and mark: "\<And>s r. Inv (Some s) r \<Longrightarrow> fst (ecn_marked env p s) \<Longrightarrow>
      post (Some (snd (ecn_marked env p s))) (mark_in_loop env p (count_and_step r))"
    and step: "\<And>s r. Inv (Some s) r \<Longrightarrow> dropping (vars r) \<Longrightarrow> \<exists>r1.
      codel_drop env (snd (ecn_marked env p s)) (count_and_step r) = Some r1 \<and>
      sched r1 = (sched r)\<lparr>drops := drops (sched r) + 1\<rparr> \<and>
      Inv (fst (after_drop env p deq now r1)) (snd (after_drop env p deq now r1))"
    and stop: "\<And>sk r. Inv sk r \<Longrightarrow> post sk r"
  shows "\<exists>out r'. drop_loop env p deq now sk r = Some (out, r') \<and> post out r'"
  using assms(1)
proof (induction "(case sk of None \<Rightarrow> 0 | Some _ \<Rightarrow> 1) + length (content (sched r))"
    arbitrary: sk r rule: less_induct)
  case less
  show ?case
  proof (cases "dropping (vars r) \<and> codel_time_after_eq now (drop_next (vars r))")
    case False
    then have "drop_loop env p deq now sk r = Some (sk, r)" by (subst drop_loop.simps) auto
    with stop [OF less.prems] show ?thesis by simp
  next
    case True
    with none less.prems obtain s where sk: "sk = Some s" by (cases sk) auto
    show ?thesis
    proof (cases "fst (ecn_marked env p s)")
      case marked: True
      with True sk mark less.prems show ?thesis by (subst drop_loop.simps) simp
    next
      case False
      from step [of s r] less.prems True sk obtain r1 where r1:
        "codel_drop env (snd (ecn_marked env p s)) (count_and_step r) = Some r1"
        "sched r1 = (sched r)\<lparr>drops := drops (sched r) + 1\<rparr>"
        "Inv (fst (after_drop env p deq now r1)) (snd (after_drop env p deq now r1))" by auto
      have "(case fst (after_drop env p deq now r1) of None \<Rightarrow> 0 | Some _ \<Rightarrow> 1) +
          length (content (sched (snd (after_drop env p deq now r1)))) < 1 + length (content (sched r))"
      proof (cases "content (sched r)")
        case Nil
        then show ?thesis using r1(2)
          by (simp add: after_drop_def call_dequeue_def deq_empty codel_should_drop_def)
      next
        case (Cons t ts)
        with deq_head [of "sched r1" t ts] r1(2) show ?thesis
          by (auto simp: after_drop_def call_dequeue_def codel_should_drop_def Let_def)
      qed
      with less.hyps [OF _ r1(3)] sk have
        "\<exists>out r'. drop_loop env p deq now (fst (after_drop env p deq now r1)) (snd (after_drop env p deq now r1))
           = Some (out, r') \<and> post out r'" by simp
      with True False sk r1(1) show ?thesis by (subst drop_loop.simps) simp
    qed
  qed
qed

text \<open>The state \<open>r\<close>, with the packet \<open>sk\<close> in hand, against the state at the start.\<close>

definition codel_ok where
  "codel_ok env es k r0 sk r \<longleftrightarrow>
    (\<exists>ds. same_packets (content (sched r0)) (ds @ opt_list sk @ content (sched r)) \<and>
       drops_done env es k r0 r ds) \<and>
    backlog (sched r) - qbytes (content (sched r)) = backlog (sched r0) - qbytes (content (sched r0)) \<and>
    follows (sched r0) (sched r) \<and> (sk = None \<longrightarrow> content (sched r) = [])"

lemma codel_ok_cong:
  assumes "codel_ok env es k r0 sk r" "sched r' = sched r" "log r' = log r"
    "drop_count (stats r') = drop_count (stats r)" "drop_len (stats r') = drop_len (stats r)"
    "map_option unmarked sk' = map_option unmarked sk"
  shows "codel_ok env es k r0 sk' r'"
proof -
  have "map unmarked (opt_list sk') = map unmarked (opt_list sk)"
    using assms(6) by (cases sk; cases sk') auto
  with assms show ?thesis
    by (auto simp: codel_ok_def drops_done_def same_packets_def)
qed

lemma should_drop_None:
  "codel_should_drop p now None r = (False, r\<lparr>vars := (vars r)\<lparr>first_above_time := 0\<rparr>\<rparr>)"
  by (simp add: codel_should_drop_def)

definition same_rate :: "codel_vars \<Rightarrow> codel_vars \<Rightarrow> bool" where
  "same_rate v v' \<longleftrightarrow> count v' = count v \<and> lastcount v' = lastcount v \<and>
     rec_inv_sqrt v' = rec_inv_sqrt v \<and> dropping v' = dropping v"

lemma should_drop_effect:
  assumes "codel_should_drop p now (Some s) r = (ok, r')"
  shows "sched r' = (sched r)\<lparr>backlog := backlog (sched r) - pkt_len s\<rparr>" "log r' = log r"
    "drop_count (stats r') = drop_count (stats r)" "drop_len (stats r') = drop_len (stats r)"
    "same_rate (vars r) (vars r')" "ok \<Longrightarrow> backlog (sched r') \<noteq> 0"
  using assms by (auto simp: codel_should_drop_def Let_def same_rate_def split: if_splits)

lemma pop_and_judge:
  assumes acc: "same_packets (content (sched r0)) (ds @ content (sched r))"
    "drops_done env es k r0 r ds"
    "backlog (sched r) - qbytes (content (sched r)) = backlog (sched r0) - qbytes (content (sched r0))"
    "follows (sched r0) (sched r)"
    and pop: "call_dequeue deq r = (sk, r1)" and judge: "codel_should_drop p now sk r1 = (ok, r2)"
  shows "codel_ok env es k r0 sk r2"
    and "ok \<Longrightarrow> sk \<noteq> None \<and> backlog (sched r2) \<noteq> 0"
    and "sk = None \<Longrightarrow> sched r2 = sched r"
    and "same_rate (vars r) (vars r2)"
    and "length (content (sched r)) = length (opt_list sk @ content (sched r2))"
proof -
  have "codel_ok env es k r0 sk r2 \<and> (ok \<longrightarrow> sk \<noteq> None \<and> backlog (sched r2) \<noteq> 0) \<and>
    (sk = None \<longrightarrow> sched r2 = sched r) \<and> same_rate (vars r) (vars r2) \<and>
    length (content (sched r)) = length (opt_list sk @ content (sched r2))"
  proof (cases "content (sched r)")
    case Nil
    with pop have "sk = None" "r1 = r" by (auto simp: call_dequeue_def deq_empty)
    with judge Nil acc show ?thesis
      by (auto simp: codel_should_drop_def codel_ok_def drops_done_def same_rate_def)
  next
    case (Cons s ss)
    from deq_head [OF this] obtain q where q: "deq (sched r) = (Some s, q)" "content q = ss"
      "backlog q = backlog (sched r)" "drops q = drops (sched r)" "follows (sched r) q" by blast
    with pop have sk: "sk = Some s" and r1: "r1 = r\<lparr>sched := q\<rparr>" by (auto simp: call_dequeue_def)
    note eff = should_drop_effect [OF judge [unfolded sk]]
    have fol: "follows (sched r0) (sched r2)"
      unfolding eff(1) r1 using follows_trans [OF follows_trans [OF acc(4) q(5)] follows_frame(1)] by simp
    have cont: "content (sched r2) = ss" "backlog (sched r2) = backlog (sched r) - pkt_len s"
      "drops (sched r2) = drops (sched r)" using q by (simp_all add: eff(1) r1)
    have "codel_ok env es k r0 (Some s) r2"
      unfolding codel_ok_def using acc fol Cons eff(2-4)
      by (auto simp: cont drops_done_def r1 algebra_simps intro!: exI [of _ ds])
    with sk cont eff(5,6) Cons r1 show ?thesis by simp
  qed
  then show "codel_ok env es k r0 sk r2"
    and "ok \<Longrightarrow> sk \<noteq> None \<and> backlog (sched r2) \<noteq> 0"
    and "sk = None \<Longrightarrow> sched r2 = sched r"
    and "same_rate (vars r) (vars r2)"
    and "length (content (sched r)) = length (opt_list sk @ content (sched r2))" by blast+
qed

text \<open>Dropping the packet in hand and taking the next one.\<close>

lemma drop_and_pop:
  assumes mem: "kmalloc (alloc_node env)"
    and ok: "codel_ok env es k r0 (Some s) r"
  shows "\<exists>r1. codel_drop env (snd (ecn_marked env p s)) r = Some r1 \<and> vars r1 = vars r \<and>
    sched r1 = (sched r)\<lparr>drops := drops (sched r) + 1\<rparr> \<and>
    (\<forall>sk r2 good r3. call_dequeue deq r1 = (sk, r2) \<longrightarrow> codel_should_drop p now sk r2 = (good, r3) \<longrightarrow>
       codel_ok env es k r0 sk r3 \<and> (good \<longrightarrow> sk \<noteq> None \<and> backlog (sched r3) \<noteq> 0) \<and>
       (sk = None \<longrightarrow> backlog (sched r3) = backlog (sched r)) \<and> same_rate (vars r) (vars r3) \<and>
       length (content (sched r)) = length (opt_list sk @ content (sched r3)))"
proof -
  from ok obtain ds where ds: "same_packets (content (sched r0)) (ds @ s # content (sched r))"
    "drops_done env es k r0 r ds" by (auto simp: codel_ok_def)
  define t where "t = snd (ecn_marked env p s)"
  obtain r1 where r1: "codel_drop env t r = Some r1" "drops_done env es k r0 r1 (ds @ [t])"
    "vars r1 = vars r" "sched r1 = (sched r)\<lparr>drops := drops (sched r) + 1\<rparr>"
    by (rule codel_drop_done [OF mem ds(2)])
  have acc: "same_packets (content (sched r0)) ((ds @ [t]) @ content (sched r1))"
    "backlog (sched r1) - qbytes (content (sched r1)) = backlog (sched r0) - qbytes (content (sched r0))"
    "follows (sched r0) (sched r1)"
    using ds ok follows_trans [OF _ follows_frame(2)]
    by (auto simp: codel_ok_def r1(4) same_packets_def t_def)
  have judged: "codel_ok env es k r0 sk r3 \<and> (good \<longrightarrow> sk \<noteq> None \<and> backlog (sched r3) \<noteq> 0) \<and>
       (sk = None \<longrightarrow> backlog (sched r3) = backlog (sched r)) \<and> same_rate (vars r) (vars r3) \<and>
       length (content (sched r)) = length (opt_list sk @ content (sched r3))"
    if "call_dequeue deq r1 = (sk, r2)" "codel_should_drop p now sk r2 = (good, r3)" for sk r2 good r3
    using pop_and_judge [OF acc(1) r1(2) acc(2,3) that] by (auto simp: r1(3,4))
  show ?thesis
    by (intro exI [of _ r1] conjI allI impI r1(3,4) r1(1) [unfolded t_def] judged)
qed

text \<open>The count stays below the packets that may still be dropped.\<close>

definition rate_room where
  "rate_room n sk r \<longleftrightarrow> rate_ok (vars r) \<and>
    uint (count (vars r)) + int (length (opt_list sk @ content (sched r))) \<le> n"

lemma count_and_step_frame [simp]:
  "sched (count_and_step r) = sched r" "stats (count_and_step r) = stats r" "log (count_and_step r) = log r"
  "dropping (vars (count_and_step r)) = dropping (vars r)"
  by (simp_all add: count_and_step_def)

lemma drop_loop_spec:
  assumes mem: "kmalloc (alloc_node env)" and N: "n < 2 ^ 32"
    and ok: "codel_ok env es k r0 sk r" and bl: "backlog (sched r) \<noteq> 0" and sk: "sk \<noteq> None"
    and rate: "rt \<Longrightarrow> rate_room n sk r"
  shows "\<exists>out r'. drop_loop env p deq now sk r = Some (out, r') \<and> codel_ok env es k r0 out r' \<and>
    (out = None \<longrightarrow> backlog (sched r') \<noteq> 0) \<and> (rt \<longrightarrow> rate_ok (vars r'))"
proof -
  define I where "I sk r \<longleftrightarrow> codel_ok env es k r0 sk r \<and> (rt \<longrightarrow> rate_room n sk r) \<and>
    (sk = None \<longrightarrow> \<not> dropping (vars r)) \<and> (dropping (vars r) \<or> sk = None \<longrightarrow> backlog (sched r) \<noteq> 0)" for sk r
  define Q where "Q sk r \<longleftrightarrow> codel_ok env es k r0 sk r \<and> (sk = None \<longrightarrow> backlog (sched r) \<noteq> 0) \<and>
    (rt \<longrightarrow> rate_ok (vars r))" for sk r
  have counted: "rate_ok (vars (count_and_step r)) \<and>
      uint (count (vars (count_and_step r))) + int (length (content (sched r))) \<le> n"
    if "rate_room n (Some s) r" for s and r :: "'q codel_run"
  proof -
    from that N have "rate_ok (vars r)" "uint (count (vars r)) + 1 < 2 ^ 32"
      by (auto simp: rate_room_def)
    from rate_ok_step [OF this] that show ?thesis by (simp add: rate_room_def count_and_step_def)
  qed
  have "\<exists>out r'. drop_loop env p deq now sk r = Some (out, r') \<and> Q out r'"
  proof (rule drop_loop_rule [where Inv = I])
    show "I sk r" using ok bl sk rate by (cases sk) (simp_all add: I_def)
    show "\<not> dropping (vars r)" if "I None r" for r using that by (simp add: I_def)
    show "Q sk r" if "I sk r" for sk r using that unfolding I_def Q_def rate_room_def by blast
  next
    fix s r
    assume i: "I (Some s) r" and "fst (ecn_marked env p s)"
    have "codel_ok env es k r0 (Some (snd (ecn_marked env p s))) (mark_in_loop env p (count_and_step r))"
      by (rule codel_ok_cong [of env es k r0 "Some s" r]) (use i in \<open>simp_all add: I_def mark_in_loop_def\<close>)
    moreover have "rate_ok (vars (mark_in_loop env p (count_and_step r)))" if rt
      by (rule rate_ok_cong [of "vars (count_and_step r)"])
        (use counted [of s r] i that in \<open>auto simp: I_def mark_in_loop_def\<close>)
    ultimately show "Q (Some (snd (ecn_marked env p s))) (mark_in_loop env p (count_and_step r))"
      by (simp add: Q_def)
  next
    fix s r
    assume i: "I (Some s) r" and d: "dropping (vars r)"
    then have bl: "backlog (sched r) \<noteq> 0" and "codel_ok env es k r0 (Some s) (count_and_step r)"
      by (auto simp: I_def elim: codel_ok_cong)
    from drop_and_pop [OF mem this(2), of p now] obtain r1 where r1:
      "codel_drop env (snd (ecn_marked env p s)) (count_and_step r) = Some r1"
      "vars r1 = vars (count_and_step r)"
      "sched r1 = (sched r)\<lparr>drops := drops (sched r) + 1\<rparr>"
      and judged: "\<forall>sk r2 good r3. call_dequeue deq r1 = (sk, r2) \<longrightarrow>
         codel_should_drop p now sk r2 = (good, r3) \<longrightarrow>
         codel_ok env es k r0 sk r3 \<and> (good \<longrightarrow> sk \<noteq> None \<and> backlog (sched r3) \<noteq> 0) \<and>
         (sk = None \<longrightarrow> backlog (sched r3) = backlog (sched r)) \<and>
         same_rate (vars (count_and_step r)) (vars r3) \<and>
         length (content (sched r)) = length (opt_list sk @ content (sched r3))"
      unfolding count_and_step_frame(1) by (elim exE conjE) (rule that)
    obtain sk' r2 good r3 where pop: "call_dequeue deq r1 = (sk', r2)"
      and judge: "codel_should_drop p now sk' r2 = (good, r3)" by (meson surj_pair)
    note j = judged [rule_format, OF pop judge]
    define r4 where "r4 = r3\<lparr>vars := (if \<not> good then (vars r3)\<lparr>dropping := False\<rparr>
      else (vars r3)\<lparr>drop_next := codel_control_law env (drop_next (vars r3)) (interval p)
                                    (rec_inv_sqrt (vars r3))\<rparr>)\<rparr>"
    have a: "after_drop env p deq now r1 = (sk', r4)"
      by (simp add: after_drop_def pop judge r4_def)
    have "codel_ok env es k r0 sk' r4"
      by (rule codel_ok_cong [of env es k r0 sk' r3]) (use j in \<open>simp_all add: r4_def\<close>)
    moreover have "rate_room n sk' r4" if rt
    proof -
      from i that counted have c: "rate_ok (vars (count_and_step r))"
        "uint (count (vars (count_and_step r))) + int (length (content (sched r))) \<le> n"
        by (auto simp: I_def)
      have "rate_ok (vars r4)"
        by (rule rate_ok_cong [OF c(1)]) (use j in \<open>auto simp: r4_def same_rate_def\<close>)
      moreover have "count (vars r4) = count (vars (count_and_step r))" "sched r4 = sched r3"
        using j by (auto simp: r4_def same_rate_def)
      ultimately show ?thesis using c(2) j by (simp add: rate_room_def)
    qed
    moreover have "dropping (vars r4) \<longrightarrow> good" "sched r4 = sched r3" by (simp_all add: r4_def)
    ultimately have "I sk' r4" using j bl by (auto simp: I_def)
    with r1 a show "\<exists>r1. codel_drop env (snd (ecn_marked env p s)) (count_and_step r) = Some r1 \<and>
      sched r1 = (sched r)\<lparr>drops := drops (sched r) + 1\<rparr> \<and>
      I (fst (after_drop env p deq now r1)) (snd (after_drop env p deq now r1))" by simp
  qed
  then show ?thesis by (simp add: Q_def)
qed

lemma first_drop_spec:
  assumes mem: "kmalloc (alloc_node env)" and ok: "codel_ok env es k r0 (Some s) r"
    and bl: "backlog (sched r) \<noteq> 0"
  shows "\<exists>out r'. first_drop env p deq now s r = Some (out, r') \<and> codel_ok env es k r0 out r' \<and>
    (out = None \<longrightarrow> backlog (sched r') \<noteq> 0) \<and> (rate_ok (vars r) \<longrightarrow> rate_ok (vars r'))"
proof (cases "fst (ecn_marked env p s)")
  case True
  define r1 where "r1 = r\<lparr>stats := (stats r)\<lparr>ecn_mark := ecn_mark (stats r) + 1\<rparr>,
    vars := start_dropping env p now (vars r)\<rparr>"
  have "first_drop env p deq now s r = Some (Some (snd (ecn_marked env p s)), r1)"
    using True by (simp add: first_drop_def r1_def case_prod_beta Let_def)
  moreover have "codel_ok env es k r0 (Some (snd (ecn_marked env p s))) r1"
    using ok by (rule codel_ok_cong) (simp_all add: r1_def)
  ultimately show ?thesis using rate_ok_start_dropping by (auto simp: r1_def)
next
  case False
  from drop_and_pop [OF mem ok, of p now] obtain r1 where
    r1: "codel_drop env (snd (ecn_marked env p s)) r = Some r1" "vars r1 = vars r"
    and judged: "\<forall>sk r2 good r3. call_dequeue deq r1 = (sk, r2) \<longrightarrow>
       codel_should_drop p now sk r2 = (good, r3) \<longrightarrow>
       codel_ok env es k r0 sk r3 \<and> (good \<longrightarrow> sk \<noteq> None \<and> backlog (sched r3) \<noteq> 0) \<and>
       (sk = None \<longrightarrow> backlog (sched r3) = backlog (sched r)) \<and> same_rate (vars r) (vars r3) \<and>
       length (content (sched r)) = length (opt_list sk @ content (sched r3))"
    by (elim exE conjE) (rule that)
  obtain sk' r2 good r3 where pop: "call_dequeue deq r1 = (sk', r2)"
    and judge: "codel_should_drop p now sk' r2 = (good, r3)" by (meson surj_pair)
  note j = judged [rule_format, OF pop judge]
  define r4 where "r4 = r3\<lparr>vars := start_dropping env p now (vars r3)\<rparr>"
  have "first_drop env p deq now s r = Some (sk', r4)"
    using False r1 pop judge by (simp add: first_drop_def r4_def case_prod_beta Let_def)
  moreover have "codel_ok env es k r0 sk' r4"
    by (rule codel_ok_cong [of env es k r0 sk' r3]) (use j in \<open>simp_all add: r4_def\<close>)
  moreover have "rate_ok (vars r4)" if "rate_ok (vars r)"
    using j that rate_ok_start_dropping rate_ok_cong [of "vars r" "vars r3"]
    by (simp add: r4_def same_rate_def)
  ultimately show ?thesis using j bl by (auto simp: r4_def)
qed

lemma codel_end_spec:
  assumes "codel_ok env es k r0 out r" "codel_end env p (out, r) = (out', r')"
  shows "codel_ok env es k r0 out' r'" "out' = None \<longleftrightarrow> out = None" "sched r' = sched r" "vars r' = vars r"
proof -
  have "codel_ok env es k r0 out' r' \<and> (out' = None \<longleftrightarrow> out = None) \<and> sched r' = sched r \<and> vars r' = vars r"
  proof (cases out)
    case None
    with assms show ?thesis by (simp add: codel_end_def)
  next
    case (Some s)
    have "out' = Some s \<or> out' = Some (snd (INET_ECN_set_ce env s))" "sched r' = sched r"
      "vars r' = vars r" "log r' = log r" "drop_count (stats r') = drop_count (stats r)"
      "drop_len (stats r') = drop_len (stats r)"
      using assms(2) Some by (auto simp: codel_end_def Let_def split: if_splits prod.splits)
    with assms(1) Some show ?thesis
      by (auto intro!: codel_ok_cong [OF assms(1)])
  qed
  then show "codel_ok env es k r0 out' r'" "out' = None \<longleftrightarrow> out = None" "sched r' = sched r" "vars r' = vars r"
    by blast+
qed

lemma codel_dequeue_spec:
  assumes mem: "kmalloc (alloc_node env)" and log: "log_rep (log r) es k"
  shows "\<exists>out r'. codel_dequeue env p deq r = Some (out, r') \<and> codel_ok env es k r out r' \<and>
    (out = None \<longrightarrow> content (sched r) = [] \<or> backlog (sched r') \<noteq> 0) \<and>
    (rate_ok (vars r) \<longrightarrow> uint (count (vars r)) + int (length (content (sched r))) < 2 ^ 32 \<longrightarrow>
       rate_ok (vars r'))"
proof -
  define now where "now = codel_get_time env"
  obtain sk r1 where pop: "call_dequeue deq r = (sk, r1)" by (meson surj_pair)
  obtain good r2 where judge: "codel_should_drop p now sk r1 = (good, r2)" by (meson surj_pair)
  have start: "drops_done env es k r r []" using log by (simp add: drops_done_def log_extended_def)
  note j = pop_and_judge [of r "[]" r env es k, OF _ start refl follows_refl pop judge, simplified same_packets_def, simplified]
  show ?thesis
  proof (cases sk)
    case None
    define r3 where "r3 = r1\<lparr>vars := (vars r1)\<lparr>dropping := False\<rparr>\<rparr>"
    have deq: "codel_dequeue env p deq r = Some (None, r3)"
      using None pop by (simp add: codel_dequeue_def r3_def)
    have "content (sched r) = []" using deq_head [of "sched r"] pop None
      by (cases "content (sched r)") (auto simp: call_dequeue_def)
    moreover from this pop have "r1 = r" by (simp add: call_dequeue_def deq_empty)
    ultimately have "codel_ok env es k r None r3" "content (sched r) = []" "rate_ok (vars r) \<longrightarrow> rate_ok (vars r3)"
      using start follows_refl
      by (auto simp: codel_ok_def r3_def same_packets_def drops_done_def rate_ok_def)
    with deq show ?thesis by blast
  next
    case (Some s)
    define n where "n = uint (count (vars r)) + int (length (content (sched r)))"
    define rt where "rt \<longleftrightarrow> rate_ok (vars r) \<and> n < 2 ^ 32"
    define m where "m = (if rt then n else 0)"
    define body where "body = (if dropping (vars r2) then
        (if \<not> good then Some (Some s, r2\<lparr>vars := (vars r2)\<lparr>dropping := False\<rparr>\<rparr>)
         else drop_loop env p deq now (Some s) r2)
      else if good then first_drop env p deq now s r2 else Some (Some s, r2))"
    have deq: "codel_dequeue env p deq r = map_option (codel_end env p) body"
      using Some pop judge by (simp add: codel_dequeue_def now_def [symmetric] body_def Let_def)
    have room: "rate_room m (Some s) r2" if rt
      using that j(4,5) rate_ok_cong [of "vars r" "vars r2"] Some
      by (auto simp: rate_room_def same_rate_def m_def n_def rt_def)
    have ok2: "codel_ok env es k r (Some s) r2" using j(1) Some by simp
    have "\<exists>out r'. body = Some (out, r') \<and> codel_ok env es k r out r' \<and>
      (out = None \<longrightarrow> backlog (sched r') \<noteq> 0) \<and> (rt \<longrightarrow> rate_ok (vars r'))"
    proof (cases good)
      case False
      with ok2 room show ?thesis
        by (auto simp: body_def rate_room_def intro: codel_ok_cong rate_ok_cong)
    next
      case True
      with j(2) have bl: "backlog (sched r2) \<noteq> 0" by simp
      have "m < 2 ^ 32" by (simp add: m_def rt_def)
      from drop_loop_spec [OF mem this ok2 bl _ room] first_drop_spec [OF mem ok2 bl, of p now] room True
      show ?thesis by (auto simp: body_def rate_room_def)
    qed
    then obtain out r' where b: "body = Some (out, r')" "codel_ok env es k r out r'"
      "out = None \<longrightarrow> backlog (sched r') \<noteq> 0" "rt \<longrightarrow> rate_ok (vars r')" by blast
    obtain out' r'' where e: "codel_end env p (out, r') = (out', r'')" by (meson surj_pair)
    from codel_end_spec [OF b(2) e] b(1,3,4) deq e show ?thesis
      by (auto simp: rt_def n_def)
  qed
qed

end

section \<open>Dropping needs an interval above the target\<close>

text \<open>
  Calls of \<^verbatim>\<open>codel_should_drop\<close> at successive times, with whatever packet and scheduler state they
  find; the last answer is returned.
\<close>

type_synonym 'q observation = "u32 \<times> sk_buff option \<times> 'q qdisc_scheme"

fun observe :: "codel_params \<Rightarrow> 'q observation list \<Rightarrow> bool \<times> 'q codel_run \<Rightarrow> bool \<times> 'q codel_run" where
  "observe p [] b = b"
| "observe p ((now, sk, q) # obs) b = observe p obs (codel_should_drop p now sk ((snd b)\<lparr>sched := q\<rparr>))"

lemma observe_append: "observe p (obs @ obs') b = observe p obs' (observe p obs b)"
  by (induction p obs b rule: observe.induct) simp_all

text \<open>A packet that stayed for at least the target time, with more than an MTU behind it.\<close>

definition above_target :: "codel_params \<Rightarrow> 'q observation \<Rightarrow> bool" where
  "above_target p ob = (case ob of (now, sk, q) \<Rightarrow>
     (case sk of None \<Rightarrow> False
      | Some s \<Rightarrow> \<not> codel_time_before (now - enqueue_time s) (target p) \<and> mtu p < backlog q - pkt_len s))"

lemma should_drop_first_above:
  assumes "codel_should_drop p now sk (r\<lparr>sched := q\<rparr>) = (ok, r')"
  shows "first_above_time (vars r') = (if above_target p (now, sk, q) then
      (if first_above_time (vars r) = 0 then now + interval p else first_above_time (vars r)) else 0)"
    and "ok \<longleftrightarrow> above_target p (now, sk, q) \<and> first_above_time (vars r) \<noteq> 0 \<and>
      codel_time_after now (first_above_time (vars r))"
  using assms
  by (auto simp: codel_should_drop_def above_target_def Let_def not_le split: option.splits if_splits)

lemma observe_first_above:
  assumes "first_above_time (vars r) = 0"
  shows "let fat = first_above_time (vars (snd (observe p obs (b, r))))
    in fat = 0 \<or> (\<exists>i < length obs. fat = fst (obs ! i) + interval p \<and>
                    (\<forall>j. i \<le> j \<and> j < length obs \<longrightarrow> above_target p (obs ! j)))"
proof (induction obs rule: rev_induct)
  case Nil
  with assms show ?case by simp
next
  case (snoc ob obs)
  obtain now sk q where ob: "ob = (now, sk, q)" by (cases ob)
  define r1 where "r1 = snd (observe p obs (b, r))"
  define f where "f = first_above_time (vars r1)"
  obtain ok r2 where r2: "codel_should_drop p now sk (r1\<lparr>sched := q\<rparr>) = (ok, r2)" by (meson surj_pair)
  then have o: "snd (observe p (obs @ [ob]) (b, r)) = r2" by (simp add: observe_append ob r1_def)
  note f2 = should_drop_first_above(1) [OF r2, folded ob f_def]
  consider "first_above_time (vars r2) = 0" | "above_target p ob" "f = 0" "first_above_time (vars r2) = now + interval p"
    | "above_target p ob" "f \<noteq> 0" "first_above_time (vars r2) = f"
    using f2 by (auto split: if_splits)
  then show ?case
  proof cases
    case 1
    then show ?thesis by (simp add: o)
  next
    case 2
    then show ?thesis
      by (auto simp: o [unfolded ob] ob Let_def nth_append intro!: exI [of _ "length obs"])
  next
    case 3
    with snoc.IH obtain i where "i < length obs" "f = fst (obs ! i) + interval p"
      "\<forall>j. i \<le> j \<and> j < length obs \<longrightarrow> above_target p (obs ! j)"
      by (auto simp: Let_def f_def r1_def)
    with 3 show ?thesis
      by (auto simp: o [unfolded ob] ob Let_def nth_append less_Suc_eq intro!: exI [of _ i])
  qed
qed

section \<open>Properties\<close>

text \<open>
  C14.  CoDel drops a packet only after the queue was above target for an interval: if a judgement
  says drop, then at some earlier judgement, more than one interval ago, the packet had already
  stayed for the target time with more than an MTU behind it, and so at every judgement since.
\<close>

theorem codel_drop_needs_interval:
  assumes "first_above_time (vars r) = 0"
    and "fst (observe p (obs @ [(now, sk, q)]) (False, r))"
  shows "\<exists>i < length obs. codel_time_after now (fst (obs ! i) + interval p) \<and>
    (\<forall>j. i \<le> j \<and> j \<le> length obs \<longrightarrow> above_target p ((obs @ [(now, sk, q)]) ! j))"
proof -
  define r1 where "r1 = snd (observe p obs (False, r))"
  obtain ok r2 where r2: "codel_should_drop p now sk (r1\<lparr>sched := q\<rparr>) = (ok, r2)" by (meson surj_pair)
  with assms(2) have "above_target p (now, sk, q)" "first_above_time (vars r1) \<noteq> 0"
    "codel_time_after now (first_above_time (vars r1))"
    using should_drop_first_above(2) [OF r2] by (simp_all add: observe_append r1_def)
  moreover from this(2) observe_first_above [OF assms(1), of p obs False] obtain i where
    "i < length obs" "first_above_time (vars r1) = fst (obs ! i) + interval p"
    "\<forall>j. i \<le> j \<and> j < length obs \<longrightarrow> above_target p (obs ! j)"
    by (auto simp: Let_def r1_def)
  ultimately show ?thesis
    by (auto simp: nth_append intro!: exI [of _ i])
qed

definition demo_skb :: "u32 \<Rightarrow> u32 \<Rightarrow> sk_buff" where
  "demo_skb t n = \<lparr>enqueue_time = t, pkt_len = n, priority = 0, tos = 0, protocol = 6, saddr = 1,
     daddr = 2, source = 3, dest = 4, seq = n, ack_seq = 0\<rparr>"

definition demo_run :: "unit codel_run" where
  "demo_run = \<lparr>sched = \<lparr>backlog = 9000, drops = 0, qlen = 6\<rparr>, vars = codel_vars_init,
     stats = \<lparr>maxpacket = 0, drop_count = 0, drop_len = 0, ecn_mark = 0, ce_mark = 0\<rparr>, log = log_init\<rparr>"

definition demo_observations :: "unit observation list" where
  "demo_observations = [(200000, Some (demo_skb 0 1500), sched demo_run),
     (250000, Some (demo_skb 0 1500), sched demo_run)]"

lemma demo_observe:
  "fst (observe (codel_params_init 1514) (demo_observations @ [(300000, Some (demo_skb 0 1500), sched demo_run)])
     (False, demo_run))"
  by (simp add: demo_observations_def demo_run_def demo_skb_def codel_params_init_def MS2TIME_def
      codel_should_drop_def codel_time_before_def codel_time_after_def codel_vars_init_def CODEL_SHIFT_def
      drop_bit_eq_div sint_u32)

theorem codel_drop_needs_interval_witness:
  "\<exists>i < length demo_observations.
     codel_time_after 300000 (fst (demo_observations ! i) + interval (codel_params_init 1514)) \<and>
     (\<forall>j. i \<le> j \<and> j \<le> length demo_observations \<longrightarrow> above_target (codel_params_init 1514)
        ((demo_observations @ [(300000, Some (demo_skb 0 1500), sched demo_run)]) ! j))"
  by (rule codel_drop_needs_interval [OF _ demo_observe]) (simp add: demo_run_def codel_vars_init_def)

text \<open>
  As long as the stored reciprocal root is within its bound, which every step of CoDel keeps,
  the time to the next drop is at most the interval over the root of the drop count.
\<close>

theorem codel_drop_spacing:
  assumes "\<And>a b. reciprocal_scale env a b = ucast (drop_bit 32 (ucast a * ucast b :: u64))"
    and "rate_ok v"
  shows "uint (count v) * uint (codel_control_law env t i (rec_inv_sqrt v) - t) ^ 2 \<le> uint i ^ 2"
proof -
  define x a where "x = uint (rec_inv_sqrt v)" and "a = uint i"
  have x: "0 \<le> x" "x < 2 ^ 16" and a: "0 \<le> a" "a < 2 ^ 32"
    using uint_lt2p [of "rec_inv_sqrt v"] uint_lt2p [of i] by (simp_all add: x_def a_def)
  define y :: u32 where "y = push_bit 16 (ucast (rec_inv_sqrt v))"
  have y: "uint y = x * 2 ^ 16" using x
    by (simp add: y_def unsigned_push_bit_eq unsigned_ucast_eq push_bit_eq_mult [where 'a=int]
        take_bit_int_eq_self x_def)
  have ax: "a * x < 2 ^ 32 * 2 ^ 16" using a x by (intro mult_strict_mono') auto
  have "uint (ucast i * ucast y :: u64) = a * x * 2 ^ 16"
    using a x ax unfolding uint_word_ariths unsigned_ucast_eq y
    by (simp add: take_bit_int_eq_self a_def algebra_simps)
  then have "uint (reciprocal_scale env i y) = a * x div 2 ^ 16"
    using a x ax unfolding assms(1) unsigned_ucast_eq uint_drop_bit_div
    by (simp add: take_bit_int_eq_self zdiv_zmult2_eq [of "2 ^ 16" _ "2 ^ 16", simplified]
        div_pos_pos_trivial pos_imp_zdiv_nonneg_iff div_mult_mult2)
  moreover have "a * x div 2 ^ 16 * 2 ^ 16 \<le> a * x" by simp
  ultimately have "(uint (reciprocal_scale env i y) * 2 ^ 16) ^ 2 \<le> (a * x) ^ 2"
    using a x by (intro power_mono) (auto simp: pos_imp_zdiv_nonneg_iff)
  then have "uint (count v) * (uint (reciprocal_scale env i y) * 2 ^ 16) ^ 2 \<le> uint (count v) * (a * x) ^ 2"
    by (rule mult_left_mono) simp
  also have "\<dots> = a ^ 2 * (uint (count v) * x ^ 2)" by (simp add: power_mult_distrib)
  also have "\<dots> \<le> a ^ 2 * 2 ^ 32" using assms(2) by (intro mult_left_mono) (simp_all add: rate_ok_def x_def)
  finally have "uint (count v) * uint (reciprocal_scale env i y) ^ 2 * 2 ^ 32 \<le> a ^ 2 * 2 ^ 32"
    by (simp add: power_mult_distrib)
  then show ?thesis
    by (simp add: codel_control_law_def REC_INV_SQRT_SHIFT_def y_def a_def)
qed

definition demo_kernel :: kernel where
  "demo_kernel = \<lparr>ktime_get_ns = 0, reciprocal_scale = (\<lambda>a b. ucast (drop_bit 32 (ucast a * ucast b :: u64))),
     ecn_set_ce = (\<lambda>t. if t AND 3 = 0 then (False, t) else (True, t OR 3)), readings = (\<lambda>n. (1525592133, 0, n)),
     alloc_node = bump_alloc\<rparr>"

theorem codel_drop_spacing_witness:
  "uint (count (codel_Newton_step (codel_vars_init\<lparr>count := 2, rec_inv_sqrt := 65535\<rparr>))) *
     uint (codel_control_law demo_kernel 7 97656
       (rec_inv_sqrt (codel_Newton_step (codel_vars_init\<lparr>count := 2, rec_inv_sqrt := 65535\<rparr>))) - 7) ^ 2
   \<le> uint (97656 :: u32) ^ 2"
proof (rule codel_drop_spacing)
  show "rate_ok (codel_Newton_step (codel_vars_init\<lparr>count := 2, rec_inv_sqrt := 65535\<rparr>))"
    using rate_ok_step(2) [of "codel_vars_init\<lparr>count := 1, rec_inv_sqrt := 65535\<rparr>"]
    by (simp add: codel_vars_init_def rate_ok_def)
qed (simp add: demo_kernel_def)

text \<open>
  The signed comparison of CoDel's clock: of two instants less than half the range of the
  32-bit clock apart (2199 seconds), the later one is after the earlier one, also across a wrap.
\<close>

theorem codel_time_order:
  fixes n d :: nat
  assumes "0 < d" "d < 2 ^ 31"
  shows "codel_time_after (of_nat (n + d)) (of_nat n) \<and> \<not> codel_time_after (of_nat n) (of_nat (n + d))"
proof
  have d: "uint (of_nat d :: u32) = int d" using assms by (simp add: unsigned_of_nat take_bit_nat_eq_self)
  then show "codel_time_after (of_nat (n + d)) (of_nat n)"
    using codel_time_after_add [of "of_nat n" "of_nat d"] assms by simp
  have "(of_nat n :: u32) - of_nat (n + d) = - of_nat d" by simp
  moreover have "uint (- of_nat d :: u32) = 2 ^ 32 - int d"
    using assms d unfolding uint_word_ariths(4) by (simp add: zmod_zminus1_eq_if)
  ultimately show "\<not> codel_time_after (of_nat n) (of_nat (n + d))"
    using assms by (simp add: codel_time_after_def sint_u32)
qed

theorem codel_time_order_witness:
  "codel_time_after (of_nat (4294967290 + 20)) (of_nat 4294967290) \<and>
   \<not> codel_time_after (of_nat 4294967290) (of_nat (4294967290 + 20))"
  by (rule codel_time_order) simp_all

text \<open>
  The stamp of a dropped packet is never the time in milliseconds once the clock is past the
  first 25 days of 1970: the product of \<^verbatim>\<open>get_systime_linger\<close> is taken in 32 bits.
\<close>

theorem systime_never_epoch_ms:
  assumes "2147484 \<le> uint sec" "uint sec < 2 ^ 31"
  shows "uint (get_systime_linger sec usec) \<noteq> uint sec * 1000 + uint usec div 1000"
proof -
  define w :: u32 where "w = sec * 1000 + word_of_int (sint usec sdiv 1000)"
  have "uint (scast w :: u64) < 2 ^ 31 \<or> 2 ^ 64 - 2 ^ 31 \<le> uint (scast w :: u64)"
  proof -
    have "uint (of_int (sint w) :: u64) = sint w mod 2 ^ 64"
      by (simp only: unsigned_of_int take_bit_eq_mod) simp
    then have "uint (scast w :: u64) = sint w mod 2 ^ 64" by simp
    moreover have "sint w mod 2 ^ 64 = (if uint w < 2 ^ 31 then uint w else uint w - 2 ^ 32 + 2 ^ 64)"
    proof (cases "uint w < 2 ^ 31")
      case False
      then have "(uint w - 2 ^ 32 + 2 ^ 64) mod 2 ^ 64 = uint w - 2 ^ 32 + 2 ^ 64"
        using uint_lt2p [of w] by (intro mod_pos_pos_trivial) auto
      with False show ?thesis by (simp only: sint_u32 mod_add_self2 if_False)
    qed (simp add: sint_u32)
    ultimately show ?thesis using uint_lt2p [of w] by auto
  qed
  moreover have "uint usec div 1000 < 2 ^ 32" using uint_lt2p [of usec] by simp
  moreover have "0 \<le> uint usec div 1000" by (simp add: pos_imp_zdiv_nonneg_iff)
  moreover have "x \<noteq> a * 1000 + u" if "x < 2 ^ 31 \<or> 2 ^ 64 - 2 ^ 31 \<le> x" "u < 2 ^ 32" "0 \<le> u"
    "2147484 \<le> a" "a < 2 ^ 31" for x a u :: int using that by auto
  ultimately show ?thesis using assms unfolding get_systime_linger_def w_def [symmetric] by blast
qed

theorem systime_never_epoch_ms_witness:
  "uint (get_systime_linger 1525592133 250000) \<noteq> uint (1525592133 :: u32) * 1000 + uint (250000 :: u32) div 1000"
  by (rule systime_never_epoch_ms) simp_all

end
