(* ===== verification/Fq_Codel.thy ===== *)
theory Fq_Codel
  imports Codel
begin

text \<open>
  The queue discipline of \<^verbatim>\<open>sch_fq_codel.c\<close>: packets are classified into flows, every flow is a
  queue with CoDel variables of its own, and flows with packets are served round robin from two
  lists, new flows first.  A \<^verbatim>\<open>list_head\<close> is a list of flow numbers; a flow whose \<^verbatim>\<open>flowchain\<close> is
  empty is one that is in neither list.  An \<open>int\<close> is a 32-bit word read through \<open>sint\<close>.

  Kernel functions that are not part of the sources are the fields of \<^verbatim>\<open>fq_kernel\<close>.  The calls of
  \<^verbatim>\<open>qdisc_tree_reduce_backlog\<close>, which act on the parents of the queue discipline, are recorded in
  the order they are made.  None is a null pointer that is dereferenced or a loop that does not end.
\<close>

section \<open>Data\<close>

record fq_codel_flow =
  queue :: "sk_buff list"
  deficit :: u32
  flow_dropped :: u32
  cvars :: codel_vars

record tc_stats =
  tc_bytes :: u64
  tc_packets :: u32
  tc_qlen :: u32
  tc_backlog :: u32
  tc_drops :: u32
  tc_overlimits :: u32

record queue_report =
  qr_bytes :: u64
  qr_packets :: u32
  qr_systime :: u64
  qr_qlen :: u32
  qr_backlog :: u32
  qr_drops :: u32
  qr_overlimits :: u32

record fq_codel = qdisc +
  sch_limit :: u32
  handle :: u32
  can_bypass :: bool
  bstats :: "u64 \<times> u32"
  flows :: "fq_codel_flow list"
  backlogs :: "u32 list"
  flows_cnt :: u32
  perturbation :: u32
  quantum :: u32
  cparams :: codel_params
  cstats :: codel_stats
  drop_overlimit :: u32
  new_flow_count :: u32
  new_flows :: "nat list"
  old_flows :: "nat list"
  tree_reduced :: "(u32 \<times> u32) list"
  queue_global :: queue_report
  max_packets_keep :: u64

text \<open>
  The kernel: CoDel's part, the flow hash, the external classifier if there is one (the result and
  the class it found), the update of the basic statistics, and what the statistics object on the
  stack of \<^verbatim>\<open>fq_codel_dequeue\<close> holds after the three copies into it.
\<close>

record fq_kernel =
  core :: kernel
  skb_get_hash_perturb :: "sk_buff \<Rightarrow> u32 \<Rightarrow> u32"
  tc_classify :: "(sk_buff \<Rightarrow> int \<times> u32) option"
  qdisc_bstats_update :: "sk_buff \<Rightarrow> u64 \<times> u32 \<Rightarrow> u64 \<times> u32"
  gnet_stats_copy :: "fq_codel \<Rightarrow> tc_stats"
  report_time :: u64

definition NET_XMIT_SUCCESS :: int where "NET_XMIT_SUCCESS = 0"
definition NET_XMIT_CN :: int where "NET_XMIT_CN = 2"
definition NET_XMIT_STOLEN :: int where "NET_XMIT_STOLEN = 0x10000"
definition NET_XMIT_BYPASS :: int where "NET_XMIT_BYPASS = 0x20000"

definition TC_H_MAJ :: "u32 \<Rightarrow> u32" where "TC_H_MAJ h = h AND 0xFFFF0000"
definition TC_H_MIN :: "u32 \<Rightarrow> u32" where "TC_H_MIN h = h AND 0xFFFF"

section \<open>Classification\<close>

definition fq_codel_hash :: "fq_kernel \<Rightarrow> fq_codel \<Rightarrow> sk_buff \<Rightarrow> u32" where
  "fq_codel_hash env q s = reciprocal_scale (core env) (skb_get_hash_perturb env s (perturbation q)) (flows_cnt q)"

text \<open>The class, and the value of \<^verbatim>\<open>*qerr\<close> if it is set.\<close>

definition fq_codel_classify :: "fq_kernel \<Rightarrow> sk_buff \<Rightarrow> fq_codel \<Rightarrow> u32 \<times> int option" where
  "fq_codel_classify env s q =
    (if TC_H_MAJ (priority s) = handle q \<and> 0 < TC_H_MIN (priority s) \<and> TC_H_MIN (priority s) \<le> flows_cnt q
     then (TC_H_MIN (priority s), None)
     else (case tc_classify env of
             None \<Rightarrow> (fq_codel_hash env q s + 1, None)
           | Some classify \<Rightarrow>
               (let (result, classid) = classify s
                in if 0 \<le> result then
                     (if result = 4 \<or> result = 5 then (0, Some (or NET_XMIT_SUCCESS NET_XMIT_STOLEN))
                      else if result = 2 then (0, Some (or NET_XMIT_SUCCESS NET_XMIT_BYPASS))
                      else if TC_H_MIN classid \<le> flows_cnt q
                        then (TC_H_MIN classid, Some (or NET_XMIT_SUCCESS NET_XMIT_BYPASS))
                      else (0, Some (or NET_XMIT_SUCCESS NET_XMIT_BYPASS)))
                   else (0, Some (or NET_XMIT_SUCCESS NET_XMIT_BYPASS)))))"

section \<open>Flows\<close>

text \<open>The packets of a flow; \<^verbatim>\<open>dequeue_head\<close> dereferences the head without a test.\<close>

definition flow_packets :: "nat \<Rightarrow> fq_codel \<Rightarrow> sk_buff list" where
  "flow_packets i q = (if i < length (flows q) then queue (flows q ! i) else [])"

definition set_flow :: "nat \<Rightarrow> (fq_codel_flow \<Rightarrow> fq_codel_flow) \<Rightarrow> fq_codel \<Rightarrow> fq_codel" where
  "set_flow i f q = q\<lparr>flows := (flows q)[i := f (flows q ! i)]\<rparr>"

definition dequeue_head :: "nat \<Rightarrow> fq_codel \<Rightarrow> (sk_buff \<times> fq_codel) option" where
  "dequeue_head i q =
    (case flow_packets i q of
       [] \<Rightarrow> None
     | s # ss \<Rightarrow> Some (s, set_flow i (\<lambda>fl. fl\<lparr>queue := ss\<rparr>) q))"

definition flow_queue_add :: "nat \<Rightarrow> sk_buff \<Rightarrow> fq_codel \<Rightarrow> fq_codel" where
  "flow_queue_add i s = set_flow i (\<lambda>fl. fl\<lparr>queue := queue fl @ [s]\<rparr>)"

definition add_backlog :: "nat \<Rightarrow> u32 \<Rightarrow> fq_codel \<Rightarrow> fq_codel" where
  "add_backlog i n q = q\<lparr>backlogs := (backlogs q)[i := backlogs q ! i + n]\<rparr>"

text \<open>The scan for the flow with the largest backlog.\<close>

fun fattest :: "u32 list \<Rightarrow> nat \<Rightarrow> u32 \<Rightarrow> nat \<Rightarrow> nat" where
  "fattest [] i maxbacklog idx = idx"
| "fattest (b # bs) i maxbacklog idx =
     (if maxbacklog < b then fattest bs (i + 1) b i else fattest bs (i + 1) maxbacklog idx)"

definition fq_codel_drop :: "fq_codel \<Rightarrow> (nat \<times> fq_codel) option" where
  "fq_codel_drop q =
    (let idx = fattest (take (unat (flows_cnt q)) (backlogs q)) 0 0 0
     in case dequeue_head idx q of
          None \<Rightarrow> None
        | Some (s, q1) \<Rightarrow>
            Some (idx, set_flow idx (\<lambda>fl. fl\<lparr>flow_dropped := flow_dropped fl + 1\<rparr>)
              ((add_backlog idx (- pkt_len s) q1)\<lparr>qlen := qlen q1 - 1, drops := drops q1 + 1,
                 backlog := backlog q1 - pkt_len s\<rparr>)))"

definition fq_codel_qdisc_drop :: "fq_codel \<Rightarrow> (u32 \<times> fq_codel) option" where
  "fq_codel_qdisc_drop q =
    (case fq_codel_drop q of None \<Rightarrow> None | Some (idx, q') \<Rightarrow> Some (backlog q - backlog q', q'))"

definition tree_reduce_backlog :: "u32 \<Rightarrow> u32 \<Rightarrow> fq_codel \<Rightarrow> fq_codel" where
  "tree_reduce_backlog n len q = q\<lparr>tree_reduced := tree_reduced q @ [(n, len)]\<rparr>"

section \<open>Enqueueing\<close>

text \<open>A flow that is in neither list becomes a new flow.\<close>

definition activate :: "nat \<Rightarrow> fq_codel \<Rightarrow> fq_codel" where
  "activate i q =
    (if i \<notin> set (new_flows q) \<union> set (old_flows q) then
       set_flow i (\<lambda>fl. fl\<lparr>deficit := quantum q, flow_dropped := 0\<rparr>)
         (q\<lparr>new_flows := new_flows q @ [i], new_flow_count := new_flow_count q + 1\<rparr>)
     else q)"

definition enqueue_packet :: "fq_kernel \<Rightarrow> nat \<Rightarrow> sk_buff \<Rightarrow> fq_codel \<Rightarrow> fq_codel" where
  "enqueue_packet env i s q =
    (let q1 = flow_queue_add i (codel_set_enqueue_time (core env) s) q;
         q2 = (add_backlog i (pkt_len s) q1)\<lparr>backlog := backlog q1 + pkt_len s\<rparr>;
         q3 = activate i q2
     in q3\<lparr>qlen := qlen q3 + 1\<rparr>)"

definition fq_codel_enqueue :: "fq_kernel \<Rightarrow> sk_buff \<Rightarrow> fq_codel \<Rightarrow> (int \<times> fq_codel) option" where
  "fq_codel_enqueue env s q =
    (case fq_codel_classify env s q of
       (idx, ret) \<Rightarrow>
         if idx = 0 then
           (case ret of
              None \<Rightarrow> None
            | Some r \<Rightarrow> Some (r, if and r NET_XMIT_BYPASS \<noteq> 0 then q\<lparr>drops := drops q + 1\<rparr> else q))
         else
           (let q1 = enqueue_packet env (unat (idx - 1)) s q
            in if qlen q1 \<le> sch_limit q1 then Some (NET_XMIT_SUCCESS, q1)
               else (case fq_codel_drop (q1\<lparr>drop_overlimit := drop_overlimit q1 + 1\<rparr>) of
                       None \<Rightarrow> None
                     | Some (i, q2) \<Rightarrow>
                         if i = unat (idx - 1) then Some (NET_XMIT_CN, q2)
                         else Some (NET_XMIT_SUCCESS, tree_reduce_backlog 1 (backlog q1 - backlog q2) q2))))"

section \<open>Dequeueing\<close>

text \<open>The callback \<^verbatim>\<open>dequeue\<close> that CoDel gets for a flow.\<close>

definition fq_pop :: "nat \<Rightarrow> fq_codel \<Rightarrow> sk_buff option \<times> fq_codel" where
  "fq_pop i q =
    (case dequeue_head i q of
       None \<Rightarrow> (None, q)
     | Some (s, q1) \<Rightarrow> (Some s, (add_backlog i (- pkt_len s) q1)\<lparr>qlen := qlen q1 - 1\<rparr>))"

definition flow_run :: "nat \<Rightarrow> fq_codel \<Rightarrow> codel_log_entry drop_log \<Rightarrow> _ codel_run" where
  "flow_run i q lg = \<lparr>sched = q, vars = cvars (flows q ! i), stats = cstats q, log = lg\<rparr>"

definition write_back :: "nat \<Rightarrow> fq_codel \<Rightarrow> _ codel_run \<Rightarrow> fq_codel" where
  "write_back i q r =
    set_flow i (\<lambda>fl. fl\<lparr>cvars := vars r,
        flow_dropped := flow_dropped fl + (drop_count (stats r) - drop_count (cstats q))
                                        + (ecn_mark (stats r) - ecn_mark (cstats q))\<rparr>)
      ((sched r)\<lparr>cstats := stats r\<rparr>)"

text \<open>The first flow of the list that is served: its number and the rest of the two lists.\<close>

definition unlink_first :: "fq_codel \<Rightarrow> fq_codel" where
  "unlink_first q = (if new_flows q \<noteq> [] then q\<lparr>new_flows := tl (new_flows q)\<rparr>
                     else q\<lparr>old_flows := tl (old_flows q)\<rparr>)"

definition first_flow :: "fq_codel \<Rightarrow> nat" where
  "first_flow q = (if new_flows q \<noteq> [] then hd (new_flows q) else hd (old_flows q))"

definition move_first_to_old :: "nat \<Rightarrow> fq_codel \<Rightarrow> fq_codel" where
  "move_first_to_old i q = (let q1 = unlink_first q in q1\<lparr>old_flows := old_flows q1 @ [i]\<rparr>)"

definition recharge :: "nat \<Rightarrow> fq_codel \<Rightarrow> fq_codel" where
  "recharge i q = move_first_to_old i (set_flow i (\<lambda>fl. fl\<lparr>deficit := deficit fl + quantum q\<rparr>) q)"

text \<open>A flow that had nothing to send: a new flow goes through the old ones once, an old one leaves.\<close>

definition retire :: "nat \<Rightarrow> fq_codel \<Rightarrow> fq_codel" where
  "retire i q = (if new_flows q \<noteq> [] \<and> old_flows q \<noteq> [] then move_first_to_old i q else unlink_first q)"

definition report_queue :: "fq_kernel \<Rightarrow> fq_codel \<Rightarrow> fq_codel" where
  "report_queue env q =
    (let d = gnet_stats_copy env q
     in if max_packets_keep q \<le> ucast (tc_packets d) then
          q\<lparr>queue_global := (queue_global q)\<lparr>qr_bytes := tc_bytes d, qr_packets := tc_packets d,
               qr_qlen := tc_qlen d, qr_backlog := tc_backlog d, qr_drops := tc_drops d,
               qr_overlimits := tc_overlimits d, qr_systime := report_time env\<rparr>,
            max_packets_keep := ucast (tc_packets d)\<rparr>
        else q)"

definition deliver_packet :: "fq_kernel \<Rightarrow> nat \<Rightarrow> sk_buff \<Rightarrow> fq_codel \<Rightarrow> fq_codel" where
  "deliver_packet env i s q =
    (let q1 = set_flow i (\<lambda>fl. fl\<lparr>deficit := deficit fl - pkt_len s\<rparr>)
                (q\<lparr>bstats := qdisc_bstats_update env s (bstats q)\<rparr>);
         q2 = (if drop_count (cstats q1) \<noteq> 0 \<and> qlen q1 \<noteq> 0 then
                 (tree_reduce_backlog (drop_count (cstats q1)) (drop_len (cstats q1)) q1)
                   \<lparr>cstats := (cstats q1)\<lparr>drop_count := 0, drop_len := 0\<rparr>\<rparr>
               else q1)
     in report_queue env q2)"

partial_function (option) fq_codel_dequeue ::
  "fq_kernel \<Rightarrow> fq_codel \<Rightarrow> codel_log_entry drop_log \<Rightarrow>
   (sk_buff option \<times> fq_codel \<times> codel_log_entry drop_log) option"
where
  "fq_codel_dequeue env q lg =
    (if new_flows q = [] \<and> old_flows q = [] then Some (None, q, lg)
     else if sint (deficit (flows q ! first_flow q)) \<le> 0 then
       fq_codel_dequeue env (recharge (first_flow q) q) lg
     else
       (case codel_dequeue (core env) (cparams q) (fq_pop (first_flow q)) (flow_run (first_flow q) q lg) of
          None \<Rightarrow> None
        | Some (sk, r) \<Rightarrow>
            (case sk of
               None \<Rightarrow> fq_codel_dequeue env (retire (first_flow q) (write_back (first_flow q) q r)) (log r)
             | Some s \<Rightarrow>
                 Some (Some s, deliver_packet env (first_flow q) s (write_back (first_flow q) q r), log r))))"

section \<open>Reset, configuration and dumps\<close>

text \<open>Emptying a flow: every packet leaves the backlog of the discipline.\<close>

fun drain_flow :: "sk_buff list \<Rightarrow> u32 \<Rightarrow> u32" where
  "drain_flow [] b = b"
| "drain_flow (s # ss) b = drain_flow ss (b - pkt_len s)"

fun reset_flows :: "nat \<Rightarrow> fq_codel_flow list \<Rightarrow> u32 \<Rightarrow> fq_codel_flow list \<times> u32" where
  "reset_flows 0 fls b = (fls, b)"
| "reset_flows (Suc n) [] b = ([], b)"
| "reset_flows (Suc n) (fl # fls) b =
     (let (fls', b') = reset_flows n fls (drain_flow (queue fl) b)
      in (fl\<lparr>queue := [], cvars := codel_vars_init\<rparr> # fls', b'))"

definition fq_codel_reset :: "fq_codel \<Rightarrow> fq_codel" where
  "fq_codel_reset q =
    (let (fls, b) = reset_flows (unat (flows_cnt q)) (flows q) (backlog q)
     in q\<lparr>new_flows := [], old_flows := [], flows := fls, backlog := b,
         backlogs := map (\<lambda>_. 0) (take (unat (flows_cnt q)) (backlogs q)) @ drop (unat (flows_cnt q)) (backlogs q),
         qlen := 0\<rparr>)"

record fq_opts =
  opt_target :: "u32 option"
  opt_limit :: "u32 option"
  opt_interval :: "u32 option"
  opt_ecn :: "u32 option"
  opt_flows :: "u32 option"
  opt_quantum :: "u32 option"
  opt_ce_threshold :: "u32 option"

definition us_to_time :: "u32 \<Rightarrow> u32" where
  "us_to_time t = ucast (drop_bit CODEL_SHIFT (ucast t * 1000 :: u64))"

text \<open>The loop that brings the queue down to a new limit; a null packet is dereferenced.\<close>

partial_function (option) shrink ::
  "fq_kernel \<Rightarrow> fq_codel \<Rightarrow> codel_log_entry drop_log \<Rightarrow> (fq_codel \<times> codel_log_entry drop_log) option"
where
  "shrink env q lg =
    (if sch_limit q < qlen q then
       (case fq_codel_dequeue env q lg of
          None \<Rightarrow> None
        | Some (sk, q', lg') \<Rightarrow>
            (case sk of
               None \<Rightarrow> None
             | Some s \<Rightarrow>
                 shrink env (q'\<lparr>cstats := (cstats q')\<lparr>drop_len := drop_len (cstats q') + pkt_len s,
                                                  drop_count := drop_count (cstats q') + 1\<rparr>\<rparr>) lg'))
     else Some (q, lg))"

definition apply_opts :: "fq_opts \<Rightarrow> fq_codel \<Rightarrow> fq_codel" where
  "apply_opts os q =
    (let p = cparams q;
         p1 = (case opt_target os of None \<Rightarrow> p | Some t \<Rightarrow> p\<lparr>target := us_to_time t\<rparr>);
         p2 = (case opt_ce_threshold os of None \<Rightarrow> p1 | Some t \<Rightarrow> p1\<lparr>ce_threshold := us_to_time t\<rparr>);
         p3 = (case opt_interval os of None \<Rightarrow> p2 | Some t \<Rightarrow> p2\<lparr>interval := us_to_time t\<rparr>);
         p4 = (case opt_ecn os of None \<Rightarrow> p3 | Some e \<Rightarrow> p3\<lparr>ecn := (e \<noteq> 0)\<rparr>)
     in q\<lparr>cparams := p4,
         sch_limit := (case opt_limit os of None \<Rightarrow> sch_limit q | Some l \<Rightarrow> l),
         quantum := (case opt_quantum os of None \<Rightarrow> quantum q | Some n \<Rightarrow> max 256 n)\<rparr>)"

definition EINVAL :: int where "EINVAL = 22"
definition ENOMEM :: int where "ENOMEM = 12"

text \<open>The parsed options are an error code or the attributes that are present.\<close>

definition fq_codel_change ::
  "fq_kernel \<Rightarrow> (int + fq_opts) option \<Rightarrow> fq_codel \<Rightarrow> codel_log_entry drop_log \<Rightarrow>
   (int \<times> fq_codel \<times> codel_log_entry drop_log) option"
where
  "fq_codel_change env opt q lg =
    (case opt of
       None \<Rightarrow> Some (- EINVAL, q, lg)
     | Some (Inl err) \<Rightarrow> Some (err, q, lg)
     | Some (Inr os) \<Rightarrow>
         (let proceed = (\<lambda>q1.
                case shrink env (apply_opts os q1) lg of
                  None \<Rightarrow> None
                | Some (q2, lg2) \<Rightarrow>
                    Some (0, (tree_reduce_backlog (drop_count (cstats q2)) (drop_len (cstats q2)) q2)
                      \<lparr>cstats := (cstats q2)\<lparr>drop_count := 0, drop_len := 0\<rparr>\<rparr>, lg2))
          in case opt_flows os of
               None \<Rightarrow> proceed q
             | Some n \<Rightarrow>
                 if flows q \<noteq> [] then Some (- EINVAL, q, lg)
                 else if n = 0 \<or> 65536 < n then Some (- EINVAL, q\<lparr>flows_cnt := n\<rparr>, lg)
                 else proceed (q\<lparr>flows_cnt := n\<rparr>)))"

text \<open>\<^verbatim>\<open>allocated\<close> says whether each of the two allocations succeeds.\<close>

definition empty_flow :: fq_codel_flow where
  "empty_flow = \<lparr>queue = [], deficit = 0, flow_dropped = 0, cvars = codel_vars_init\<rparr>"

definition fq_codel_init ::
  "fq_kernel \<Rightarrow> u32 \<Rightarrow> u32 \<Rightarrow> bool \<times> bool \<Rightarrow> (int + fq_opts) option \<Rightarrow> fq_codel \<Rightarrow> codel_log_entry drop_log \<Rightarrow>
   (int \<times> fq_codel \<times> codel_log_entry drop_log) option"
where
  "fq_codel_init env psched_mtu random allocated opt q0 lg =
    (let q = q0\<lparr>sch_limit := 10 * 1024, flows_cnt := 1024, quantum := psched_mtu, perturbation := random,
               new_flows := [], old_flows := [], cparams := (codel_params_init psched_mtu)\<lparr>ecn := True\<rparr>,
               cstats := codel_stats_init (cstats q0)\<rparr>;
         configured = (case opt of None \<Rightarrow> Some (0, q, lg) | Some _ \<Rightarrow> fq_codel_change env opt q lg)
     in case configured of
          None \<Rightarrow> None
        | Some (err, q1, lg1) \<Rightarrow>
            if err \<noteq> 0 then Some (err, q1, lg1)
            else if flows q1 = [] \<and> \<not> fst allocated then Some (- ENOMEM, q1, lg1)
            else if flows q1 = [] \<and> \<not> snd allocated then Some (- ENOMEM, q1, lg1)
            else (let q2 = (if flows q1 = [] then
                              q1\<lparr>flows := replicate (unat (flows_cnt q1)) empty_flow,
                                 backlogs := replicate (unat (flows_cnt q1)) 0\<rparr>
                            else q1)
                  in Some (0, q2\<lparr>can_bypass := (1 \<le> sch_limit q2)\<rparr>, lg1)))"

text \<open>The attributes that \<^verbatim>\<open>fq_codel_dump\<close> puts into the message, in order.\<close>

datatype fq_attr = TCA_TARGET | TCA_LIMIT | TCA_INTERVAL | TCA_ECN | TCA_QUANTUM | TCA_FLOWS | TCA_CE_THRESHOLD

definition fq_codel_dump :: "fq_codel \<Rightarrow> (fq_attr \<times> u32) list" where
  "fq_codel_dump q =
    [(TCA_TARGET, codel_time_to_us (target (cparams q))), (TCA_LIMIT, sch_limit q),
     (TCA_INTERVAL, codel_time_to_us (interval (cparams q))), (TCA_ECN, of_bool (ecn (cparams q))),
     (TCA_QUANTUM, quantum q), (TCA_FLOWS, flows_cnt q)] @
    (if ce_threshold (cparams q) \<noteq> CODEL_DISABLED_THRESHOLD
     then [(TCA_CE_THRESHOLD, codel_time_to_us (ce_threshold (cparams q)))] else [])"

record qdisc_xstats =
  xs_maxpacket :: u32
  xs_drop_overlimit :: u32
  xs_ecn_mark :: u32
  xs_new_flow_count :: u32
  xs_new_flows_len :: u32
  xs_old_flows_len :: u32
  xs_ce_mark :: u32

definition fq_codel_dump_stats :: "fq_codel \<Rightarrow> qdisc_xstats" where
  "fq_codel_dump_stats q =
    \<lparr>xs_maxpacket = maxpacket (cstats q), xs_drop_overlimit = drop_overlimit q,
     xs_ecn_mark = ecn_mark (cstats q), xs_new_flow_count = new_flow_count q,
     xs_new_flows_len = of_nat (length (new_flows q)), xs_old_flows_len = of_nat (length (old_flows q)),
     xs_ce_mark = ce_mark (cstats q)\<rparr>"

record class_stats =
  cs_deficit :: u32
  cs_ldelay :: u32
  cs_count :: u32
  cs_lastcount :: u32
  cs_dropping :: bool
  cs_drop_next :: u32
  cs_qlen :: u32
  cs_backlog :: u32
  cs_drops :: u32

definition fq_codel_dump_class_stats :: "fq_kernel \<Rightarrow> u32 \<Rightarrow> fq_codel \<Rightarrow> class_stats option" where
  "fq_codel_dump_class_stats env cl q =
    (let idx = cl - 1
     in if idx < flows_cnt q then
          (let fl = flows q ! unat idx; v = cvars fl; delta = drop_next v - codel_get_time (core env)
           in Some \<lparr>cs_deficit = deficit fl, cs_ldelay = codel_time_to_us (ldelay v), cs_count = count v,
                cs_lastcount = lastcount v, cs_dropping = dropping v,
                cs_drop_next = (if \<not> dropping v then 0
                  else if 0 \<le> sint delta then codel_time_to_us delta else - codel_time_to_us (- delta)),
                cs_qlen = of_nat (length (queue fl)), cs_backlog = backlogs q ! unat idx,
                cs_drops = flow_dropped fl\<rparr>)
        else None)"

text \<open>
  The walk over the classes: \<^verbatim>\<open>fn\<close> is called with the number of a class and its answer stops the
  walk when it is negative.
\<close>

record walker =
  wk_stop :: bool
  wk_count :: u32
  wk_skip :: u32

fun walk_flows :: "(u32 \<Rightarrow> int) \<Rightarrow> fq_codel \<Rightarrow> nat \<Rightarrow> nat \<Rightarrow> walker \<Rightarrow> u32 list \<Rightarrow> walker \<times> u32 list" where
  "walk_flows fn q i 0 w visited = (w, visited)"
| "walk_flows fn q i (Suc n) w visited =
     (if i \<notin> set (new_flows q) \<union> set (old_flows q) \<or> wk_count w < wk_skip w then
        walk_flows fn q (i + 1) n (w\<lparr>wk_count := wk_count w + 1\<rparr>) visited
      else if fn (of_nat i + 1) < 0 then (w\<lparr>wk_stop := True\<rparr>, visited @ [of_nat i + 1])
      else walk_flows fn q (i + 1) n (w\<lparr>wk_count := wk_count w + 1\<rparr>) (visited @ [of_nat i + 1]))"

definition fq_codel_walk :: "(u32 \<Rightarrow> int) \<Rightarrow> fq_codel \<Rightarrow> walker \<Rightarrow> walker \<times> u32 list" where
  "fq_codel_walk fn q w = (if wk_stop w then (w, []) else walk_flows fn q 0 (unat (flows_cnt q)) w [])"

definition fq_codel_bind :: "fq_codel \<Rightarrow> fq_codel" where
  "fq_codel_bind q = q\<lparr>can_bypass := False\<rparr>"

section \<open>The well-formed states\<close>

definition all_packets :: "fq_codel \<Rightarrow> sk_buff list" where
  "all_packets q = concat (map queue (flows q))"

text \<open>
  Every backlog and counter is that of the packets present, and every flow with packets is in
  exactly one of the lists.
\<close>

definition counters_ok :: "fq_codel \<Rightarrow> bool" where
  "counters_ok q \<longleftrightarrow>
     length (flows q) = unat (flows_cnt q) \<and> length (backlogs q) = length (flows q) \<and>
     (\<forall>i < length (flows q). backlogs q ! i = qbytes (queue (flows q ! i))) \<and>
     backlog q = qbytes (all_packets q) \<and>
     qlen q = of_nat (length (all_packets q)) \<and> length (all_packets q) < 2 ^ 32"

definition lists_ok :: "fq_codel \<Rightarrow> bool" where
  "lists_ok q \<longleftrightarrow>
     distinct (new_flows q @ old_flows q) \<and>
     (\<forall>i \<in> set (new_flows q @ old_flows q). i < length (flows q)) \<and>
     (\<forall>i < length (flows q). queue (flows q ! i) \<noteq> [] \<longrightarrow> i \<in> set (new_flows q @ old_flows q))"

definition fq_ok :: "fq_codel \<Rightarrow> bool" where
  "fq_ok q \<longleftrightarrow> counters_ok q \<and> lists_ok q"

lemma qbytes_concat_update:
  "i < length fls \<Longrightarrow>
   qbytes (concat (map queue (fls[i := fl]))) =
     qbytes (concat (map queue fls)) - qbytes (queue (fls ! i)) + qbytes (queue fl)"
  by (induction fls arbitrary: i) (auto simp: algebra_simps split: nat.splits)

lemma length_concat_update:
  "i < length fls \<Longrightarrow>
   length (concat (map queue (fls[i := fl]))) + length (queue (fls ! i)) =
     length (concat (map queue fls)) + length (queue fl)"
  by (induction fls arbitrary: i) (auto split: nat.splits)

lemma length_queue_le: "i < length fls \<Longrightarrow> length (queue (fls ! i)) \<le> length (concat (map queue fls))"
  by (induction fls arbitrary: i) (auto simp: nth_Cons trans_le_add2 split: nat.splits)

lemma set_flow_frame [simp]:
  "new_flows (set_flow i f q) = new_flows q" "old_flows (set_flow i f q) = old_flows q"
  "backlogs (set_flow i f q) = backlogs q" "flows_cnt (set_flow i f q) = flows_cnt q"
  "backlog (set_flow i f q) = backlog q" "qlen (set_flow i f q) = qlen q" "drops (set_flow i f q) = drops q"
  "quantum (set_flow i f q) = quantum q" "sch_limit (set_flow i f q) = sch_limit q"
  "length (flows (set_flow i f q)) = length (flows q)" "cstats (set_flow i f q) = cstats q"
  "cparams (set_flow i f q) = cparams q"
  by (simp_all add: set_flow_def)

lemma flows_set_flow: "flows (set_flow i f q) = (flows q)[i := f (flows q ! i)]"
  by (simp add: set_flow_def)

section \<open>The queue that CoDel sees\<close>

text \<open>What stays the same, or moves with the packets, while CoDel works on a flow.\<close>

definition rest_of :: "fq_codel \<Rightarrow> fq_codel" where
  "rest_of q = q\<lparr>backlog := 0, drops := 0, qlen := 0, flows := [], backlogs := []\<rparr>"

definition follows :: "nat \<Rightarrow> fq_codel \<Rightarrow> fq_codel \<Rightarrow> bool" where
  "follows i q q' \<longleftrightarrow>
     rest_of q' = rest_of q \<and>
     length (flows q') = length (flows q) \<and> length (backlogs q') = length (backlogs q) \<and>
     (\<forall>j. j \<noteq> i \<longrightarrow> flows q' ! j = flows q ! j \<and> backlogs q' ! j = backlogs q ! j) \<and>
     (flows q' ! i)\<lparr>queue := []\<rparr> = (flows q ! i)\<lparr>queue := []\<rparr> \<and>
     (i < length (backlogs q) \<longrightarrow>
        backlogs q' ! i - qbytes (flow_packets i q') = backlogs q ! i - qbytes (flow_packets i q)) \<and>
     qlen q' - of_nat (length (flow_packets i q')) = qlen q - of_nat (length (flow_packets i q))"

lemma fq_pop_empty: "flow_packets i q = [] \<Longrightarrow> fq_pop i q = (None, q)"
  by (simp add: fq_pop_def dequeue_head_def)

lemma fq_pop_Cons:
  assumes "flow_packets i q = s # ss"
  shows "\<exists>q'. fq_pop i q = (Some s, q') \<and> flow_packets i q' = ss \<and> backlog q' = backlog q \<and>
    drops q' = drops q \<and> follows i q q'"
proof -
  from assms have i: "i < length (flows q)" by (simp add: flow_packets_def split: if_splits)
  define q1 where "q1 = set_flow i (\<lambda>fl. fl\<lparr>queue := ss\<rparr>) q"
  define q' where "q' = (add_backlog i (- pkt_len s) q1)\<lparr>qlen := qlen q1 - 1\<rparr>"
  have "fq_pop i q = (Some s, q')"
    by (simp add: fq_pop_def dequeue_head_def assms q1_def q'_def)
  moreover have "flow_packets i q' = ss" using i
    by (simp add: q'_def q1_def flow_packets_def add_backlog_def flows_set_flow)
  moreover have "follows i q q'" using i assms calculation(2)
    by (auto simp: follows_def rest_of_def q'_def q1_def add_backlog_def set_flow_def nth_list_update)
  ultimately show ?thesis by (simp add: q'_def q1_def add_backlog_def)
qed

interpretation fq_flow: packet_queue "fq_pop i" "flow_packets i" "follows i"
proof unfold_locales
  fix q :: fq_codel and s ss
  assume "flow_packets i q = s # ss"
  then show "\<exists>q'. fq_pop i q = (Some s, q') \<and> flow_packets i q' = ss \<and> backlog q' = backlog q \<and>
    drops q' = drops q \<and> follows i q q'" by (rule fq_pop_Cons)
next
  fix q q' q'' :: fq_codel
  assume "follows i q q'" "follows i q' q''"
  then show "follows i q q''" by (simp add: follows_def)
qed (simp_all add: fq_pop_empty flow_packets_def follows_def rest_of_def)

section \<open>Serving a flow\<close>

lemma rest_of_fields:
  assumes "rest_of q' = rest_of q"
  shows "new_flows q' = new_flows q" "old_flows q' = old_flows q" "flows_cnt q' = flows_cnt q"
    "quantum q' = quantum q" "sch_limit q' = sch_limit q" "cparams q' = cparams q" "cstats q' = cstats q"
proof -
  from assms have "new_flows (rest_of q') = new_flows (rest_of q)" "old_flows (rest_of q') = old_flows (rest_of q)"
    "flows_cnt (rest_of q') = flows_cnt (rest_of q)" "quantum (rest_of q') = quantum (rest_of q)"
    "sch_limit (rest_of q') = sch_limit (rest_of q)" "cparams (rest_of q') = cparams (rest_of q)"
    "cstats (rest_of q') = cstats (rest_of q)" by simp_all
  then show "new_flows q' = new_flows q" "old_flows q' = old_flows q" "flows_cnt q' = flows_cnt q"
    "quantum q' = quantum q" "sch_limit q' = sch_limit q" "cparams q' = cparams q" "cstats q' = cstats q"
    by (simp_all add: rest_of_def)
qed

lemma same_packets_length: "same_packets xs ys \<Longrightarrow> length xs = length ys"
  unfolding same_packets_def by (metis length_map)

lemma word_move_sub: "a + b = c + d \<Longrightarrow> a = c - b + (d :: u32)"
proof -
  assume "a + b = c + d"
  then have "a = c + d - b" by (metis add_diff_cancel_right')
  also have "\<dots> = c - b + d" by (simp only: diff_add_eq)
  finally show ?thesis .
qed

lemma all_packets_empty: "all_packets q = [] \<longleftrightarrow> (\<forall>j < length (flows q). queue (flows q ! j) = [])"
  by (auto simp: all_packets_def all_set_conv_all_nth)

lemma flows_decomposed:
  assumes "length fls' = length fls" "i < length fls" "\<forall>j. j \<noteq> i \<longrightarrow> fls' ! j = fls ! j"
  shows "fls' = fls[i := fls' ! i]"
  using assms by (auto intro!: nth_equalityI simp: nth_list_update)

lemma counters_ok_follows:
  assumes ok: "counters_ok q" and i: "i < length (flows q)" and fol: "follows i q q'"
    and bl: "backlog q' - qbytes (flow_packets i q') = backlog q - qbytes (flow_packets i q)"
    and len: "length (flow_packets i q') \<le> length (flow_packets i q)"
  shows "counters_ok q'"
proof -
  have fp: "flow_packets i q = queue (flows q ! i)" "flow_packets i q' = queue (flows q' ! i)"
    using i fol by (simp_all add: flow_packets_def follows_def)
  have dec: "flows q' = (flows q)[i := flows q' ! i]"
    using fol i by (intro flows_decomposed) (auto simp: follows_def)
  have bytes: "qbytes (all_packets q') =
      qbytes (all_packets q) - qbytes (flow_packets i q) + qbytes (flow_packets i q')"
    unfolding all_packets_def fp using qbytes_concat_update [OF i, of "flows q' ! i"] dec by simp
  have length_eq: "length (all_packets q') + length (flow_packets i q) =
      length (all_packets q) + length (flow_packets i q')"
    unfolding all_packets_def fp using length_concat_update [OF i, of "flows q' ! i"] dec by simp
  have sum: "(of_nat (length (all_packets q')) :: u32) + of_nat (length (flow_packets i q)) =
      of_nat (length (all_packets q)) + of_nat (length (flow_packets i q'))"
    using arg_cong [OF length_eq, of "of_nat :: nat \<Rightarrow> u32"] by (simp only: of_nat_add)
  have words: "(of_nat (length (all_packets q')) :: u32) =
      of_nat (length (all_packets q)) - of_nat (length (flow_packets i q)) + of_nat (length (flow_packets i q'))"
    by (fact word_move_sub [OF sum])
  have fields: "flows_cnt q' = flows_cnt q"
    using fol by (intro rest_of_fields(3)) (simp add: follows_def)
  have "backlogs q' ! j = qbytes (queue (flows q' ! j))" if "j < length (flows q')" for j
  proof (cases "j = i")
    case True
    with fol ok i fp that show ?thesis by (auto simp: follows_def counters_ok_def)
  next
    case False
    with fol ok that show ?thesis by (auto simp: follows_def counters_ok_def)
  qed
  moreover have "backlog q' = qbytes (all_packets q')"
    using bl ok by (simp add: bytes counters_ok_def algebra_simps)
  moreover have "qlen q' = of_nat (length (all_packets q'))"
    using fol ok by (simp add: follows_def counters_ok_def words algebra_simps)
  moreover have "length (all_packets q') < 2 ^ 32" using length_eq len ok by (simp add: counters_ok_def)
  ultimately show ?thesis using ok fol fields by (simp add: counters_ok_def follows_def)
qed

text \<open>What one step or a whole call does to the packets, up to ECN marks: it drops some at the
  heads of the flows and takes at most one.\<close>

definition served :: "fq_codel \<Rightarrow> fq_codel \<Rightarrow> sk_buff option \<Rightarrow> nat \<Rightarrow> bool" where
  "served q q' out owner \<longleftrightarrow>
    length (flows q') = length (flows q) \<and> (out \<noteq> None \<longrightarrow> owner < length (flows q)) \<and>
    (\<forall>i < length (flows q). \<exists>ds. same_packets (queue (flows q ! i))
       (ds @ (if i = owner then opt_list out else []) @ queue (flows q' ! i)))"

lemma served_trans:
  assumes "served q q' None k" "served q' q'' out owner"
  shows "served q q'' out owner"
  unfolding served_def
proof (intro conjI allI impI)
  show "length (flows q'') = length (flows q)" using assms by (simp add: served_def)
  show "owner < length (flows q)" if "out \<noteq> None" using that assms by (simp add: served_def)
  fix i assume i: "i < length (flows q)"
  obtain ds where "same_packets (queue (flows q ! i)) (ds @ queue (flows q' ! i))"
    using assms(1) i by (cases "i = k") (auto simp: served_def)
  moreover obtain es where "same_packets (queue (flows q' ! i))
      (es @ (if i = owner then opt_list out else []) @ queue (flows q'' ! i))"
    using assms i by (auto simp: served_def)
  ultimately have "same_packets (queue (flows q ! i))
      ((ds @ es) @ (if i = owner then opt_list out else []) @ queue (flows q'' ! i))"
    by (simp add: same_packets_def)
  then show "\<exists>ds. same_packets (queue (flows q ! i))
      (ds @ (if i = owner then opt_list out else []) @ queue (flows q'' ! i))" by blast
qed

lemma serve_flow:
  assumes ok: "counters_ok q" and i: "i < length (flows q)"
    and mem: "kmalloc (alloc_node (core env))" and log: "log_rep lg es k"
  shows "\<exists>sk r q1. codel_dequeue (core env) (cparams q) (fq_pop i) (flow_run i q lg) = Some (sk, r) \<and>
    q1 = write_back i q r \<and> counters_ok q1 \<and> served q q1 sk i \<and>
    (\<forall>j. queue (flows q1 ! j) \<noteq> [] \<longrightarrow> j < length (flows q) \<longrightarrow> queue (flows q ! j) \<noteq> []) \<and>
    (\<forall>j < length (flows q). deficit (flows q1 ! j) = deficit (flows q ! j)) \<and>
    new_flows q1 = new_flows q \<and> old_flows q1 = old_flows q \<and> flows_cnt q1 = flows_cnt q \<and>
    quantum q1 = quantum q \<and> sch_limit q1 = sch_limit q \<and> cparams q1 = cparams q \<and>
    (sk = None \<longrightarrow> queue (flows q1 ! i) = [] \<and> (all_packets q1 = [] \<longrightarrow> all_packets q = [])) \<and>
    drops q1 + qlen q1 + of_nat (length (opt_list sk)) = drops q + qlen q \<and>
    (\<exists>es' k'. log_rep (log r) es' k')"
proof -
  define r0 where "r0 = flow_run i q lg"
  have r0: "sched r0 = q" "log_rep (log r0) es k" using log by (simp_all add: r0_def flow_run_def)
  from fq_flow.codel_dequeue_spec [OF mem r0(2), of "cparams q" i] obtain sk r where
    d: "codel_dequeue (core env) (cparams q) (fq_pop i) r0 = Some (sk, r)"
    and c: "fq_flow.codel_ok i (core env) es k r0 sk r"
    and z: "sk = None \<longrightarrow> flow_packets i q = [] \<or> backlog (sched r) \<noteq> 0"
    unfolding r0(1) by blast
  from c obtain ds where ds: "same_packets (flow_packets i q) (ds @ opt_list sk @ flow_packets i (sched r))"
    "drops_done (core env) es k r0 r ds"
    and bl: "backlog (sched r) - qbytes (flow_packets i (sched r)) = backlog q - qbytes (flow_packets i q)"
    and fol: "follows i q (sched r)" and none: "sk = None \<longrightarrow> flow_packets i (sched r) = []"
    by (auto simp: fq_flow.codel_ok_def r0(1))
  define q1 where "q1 = write_back i q r"
  have len: "length (flow_packets i q) = length ds + length (opt_list sk) + length (flow_packets i (sched r))"
    using same_packets_length [OF ds(1)] by simp
  have ok': "counters_ok (sched r)"
    using counters_ok_follows [OF ok i fol bl] len by simp
  have lf: "length (flows (sched r)) = length (flows q)" using fol by (simp add: follows_def)
  have qs: "queue (flows q1 ! j) = queue (flows (sched r) ! j)"
    "deficit (flows q1 ! j) = deficit (flows (sched r) ! j)" if "j < length (flows q)" for j
    using that lf by (cases "j = i"; simp add: q1_def write_back_def flows_set_flow)+
  have maps: "map queue (flows q1) = map queue (flows (sched r))"
    using lf qs by (intro nth_equalityI) (auto simp: q1_def write_back_def)
  have all: "all_packets q1 = all_packets (sched r)" unfolding all_packets_def maps ..
  have len1: "length (flows q1) = length (flows q)" using lf by (simp add: q1_def write_back_def)
  have ok1: "counters_ok q1"
    using ok' qs all lf len1 by (simp add: counters_ok_def) (simp add: q1_def write_back_def)
  have fp: "flow_packets i q = queue (flows q ! i)" "flow_packets i (sched r) = queue (flows q1 ! i)"
    using i lf qs by (simp_all add: flow_packets_def)
  have other: "queue (flows q1 ! j) = queue (flows q ! j)" if "j \<noteq> i" "j < length (flows q)" for j
    using that fol qs by (simp add: follows_def)
  have "served q q1 sk i"
    unfolding served_def using len1 ds(1) other fp i
    by (auto simp: same_packets_def)
  moreover have "\<forall>j. queue (flows q1 ! j) \<noteq> [] \<longrightarrow> j < length (flows q) \<longrightarrow> queue (flows q ! j) \<noteq> []"
  proof (intro allI impI)
    fix j assume "queue (flows q1 ! j) \<noteq> []" "j < length (flows q)"
    with other [of j] len fp show "queue (flows q ! j) \<noteq> []" by (cases "j = i") auto
  qed
  moreover have "\<forall>j < length (flows q). deficit (flows q1 ! j) = deficit (flows q ! j)"
  proof (intro allI impI)
    fix j assume j: "j < length (flows q)"
    have "deficit ((flows (sched r) ! i)\<lparr>queue := []\<rparr>) = deficit ((flows q ! i)\<lparr>queue := []\<rparr>)"
      using fol by (simp only: follows_def)
    then have "deficit (flows (sched r) ! i) = deficit (flows q ! i)" by simp
    moreover have "flows (sched r) ! j = flows q ! j" if "j \<noteq> i" using fol that by (simp add: follows_def)
    ultimately show "deficit (flows q1 ! j) = deficit (flows q ! j)" using qs(2) [OF j] by (cases "j = i") auto
  qed
  moreover have "new_flows q1 = new_flows q \<and> old_flows q1 = old_flows q \<and> flows_cnt q1 = flows_cnt q \<and>
    quantum q1 = quantum q \<and> sch_limit q1 = sch_limit q \<and> cparams q1 = cparams q"
    using fol rest_of_fields [of "sched r" q] by (simp add: q1_def write_back_def follows_def)
  moreover have "sk = None \<longrightarrow> queue (flows q1 ! i) = [] \<and> (all_packets q1 = [] \<longrightarrow> all_packets q = [])"
  proof
    assume sk: "sk = None"
    have "all_packets q = []" if "all_packets q1 = []"
    proof -
      from that ok' have "backlog (sched r) = 0" by (simp add: all counters_ok_def)
      with z sk have "queue (flows q ! i) = []" by (simp add: fp)
      show ?thesis unfolding all_packets_empty
      proof (intro allI impI)
        fix j assume j: "j < length (flows q)"
        show "queue (flows q ! j) = []"
        proof (cases "j = i")
          case False
          with other [OF this j] that j len1 show ?thesis by (simp add: all_packets_empty)
        qed (simp add: \<open>queue (flows q ! i) = []\<close>)
      qed
    qed
    with none sk fp show "queue (flows q1 ! i) = [] \<and> (all_packets q1 = [] \<longrightarrow> all_packets q = [])" by simp
  qed
  moreover have "drops q1 + qlen q1 + of_nat (length (opt_list sk)) = drops q + qlen q"
  proof -
    have "drops q1 = drops q + of_nat (length ds)"
      using ds(2) by (simp add: drops_done_def r0(1) q1_def write_back_def)
    moreover have "qlen q1 - of_nat (length (flow_packets i (sched r))) = qlen q - of_nat (length (flow_packets i q))"
      using fol by (simp add: follows_def q1_def write_back_def)
    ultimately show ?thesis by (simp add: len algebra_simps)
  qed
  moreover have "\<exists>es' k'. log_rep (log r) es' k'"
    using ds(2) by (auto simp: drops_done_def log_extended_def split: if_splits)
  ultimately show ?thesis using d ok1 unfolding r0_def q1_def by blast
qed

section \<open>The round robin\<close>

lemma relink_frame [simp]:
  "flows (unlink_first q) = flows q" "flows (move_first_to_old i q) = flows q" "flows (retire i q) = flows q"
  "counters_ok (unlink_first q) = counters_ok q" "counters_ok (move_first_to_old i q) = counters_ok q"
  "counters_ok (retire i q) = counters_ok q"
  "quantum (unlink_first q) = quantum q" "quantum (move_first_to_old i q) = quantum q"
  "quantum (retire i q) = quantum q" "sch_limit (unlink_first q) = sch_limit q"
  "sch_limit (move_first_to_old i q) = sch_limit q" "sch_limit (retire i q) = sch_limit q"
  "drops (unlink_first q) = drops q" "drops (move_first_to_old i q) = drops q" "drops (retire i q) = drops q"
  "qlen (unlink_first q) = qlen q" "qlen (move_first_to_old i q) = qlen q" "qlen (retire i q) = qlen q"
  "all_packets (retire i q) = all_packets q" "cparams (unlink_first q) = cparams q"
  "cparams (move_first_to_old i q) = cparams q" "cparams (retire i q) = cparams q"
  by (simp_all add: retire_def move_first_to_old_def unlink_first_def Let_def counters_ok_def all_packets_def)

lemma served_same_queues:
  assumes "length (flows q') = length (flows q)" "\<forall>i < length (flows q). queue (flows q' ! i) = queue (flows q ! i)"
  shows "served q q' None k"
  using assms by (auto simp: served_def same_packets_def intro!: exI [of _ "[]"])

lemma recharge_flows: "flows (recharge i q) = (flows q)[i := (flows q ! i)\<lparr>deficit := deficit (flows q ! i) + quantum q\<rparr>]"
  by (simp add: recharge_def flows_set_flow)

lemma recharge_frame [simp]:
  "quantum (recharge i q) = quantum q" "sch_limit (recharge i q) = sch_limit q"
  "drops (recharge i q) = drops q" "qlen (recharge i q) = qlen q" "length (flows (recharge i q)) = length (flows q)"
  "cparams (recharge i q) = cparams q"
  by (simp_all add: recharge_def)

lemma recharge_queue [simp]: "queue (flows (recharge i q) ! j) = queue (flows q ! j)"
  by (cases "j = i"; cases "i < length (flows q)") (simp_all add: recharge_flows list_update_beyond)

lemma recharge_all_packets [simp]: "all_packets (recharge i q) = all_packets q"
proof -
  have "map queue (flows (recharge i q)) = map queue (flows q)"
    by (intro nth_equalityI) simp_all
  then show ?thesis by (simp add: all_packets_def)
qed

lemma recharge_counters [simp]: "counters_ok (recharge i q) = counters_ok q"
proof -
  have "backlogs (recharge i q) = backlogs q" "flows_cnt (recharge i q) = flows_cnt q"
    "backlog (recharge i q) = backlog q"
    by (simp_all add: recharge_def move_first_to_old_def unlink_first_def Let_def)
  then show ?thesis by (simp add: counters_ok_def)
qed

lemma first_flow_cases:
  assumes "new_flows q \<noteq> [] \<or> old_flows q \<noteq> []"
  obtains ns where "new_flows q = first_flow q # ns"
  | os where "new_flows q = []" "old_flows q = first_flow q # os"
  using assms that by (cases "new_flows q"; cases "old_flows q") (auto simp: first_flow_def)

lemma lists_move:
  assumes "lists_ok q" "new_flows q \<noteq> [] \<or> old_flows q \<noteq> []"
    and "flows q' = flows (move_first_to_old (first_flow q) q) \<or>
      (length (flows q') = length (flows q) \<and> (\<forall>j. queue (flows q' ! j) = queue (flows q ! j)))"
    and "new_flows q' = new_flows (move_first_to_old (first_flow q) q)"
    and "old_flows q' = old_flows (move_first_to_old (first_flow q) q)"
  shows "lists_ok q'"
  using assms(2)
proof (cases rule: first_flow_cases)
  case (1 ns)
  with assms show ?thesis
    by (auto simp: lists_ok_def move_first_to_old_def unlink_first_def Let_def)
next
  case (2 os)
  with assms show ?thesis
    by (auto simp: lists_ok_def move_first_to_old_def unlink_first_def Let_def)
qed

lemma recharge_lists:
  assumes "lists_ok q" "new_flows q \<noteq> [] \<or> old_flows q \<noteq> []"
  shows "lists_ok (recharge (first_flow q) q)"
proof (rule lists_move [OF assms])
  show "new_flows (recharge (first_flow q) q) = new_flows (move_first_to_old (first_flow q) q)"
    "old_flows (recharge (first_flow q) q) = old_flows (move_first_to_old (first_flow q) q)"
    by (simp_all add: recharge_def move_first_to_old_def unlink_first_def Let_def)
qed simp

lemma retire_lists:
  assumes ok: "lists_ok q" and ne: "new_flows q \<noteq> [] \<or> old_flows q \<noteq> []"
    and empty: "queue (flows q ! first_flow q) = []"
  shows "lists_ok (retire (first_flow q) q)"
proof (cases "new_flows q \<noteq> [] \<and> old_flows q \<noteq> []")
  case True
  then show ?thesis using lists_move [OF ok ne] by (simp add: retire_def)
next
  case False
  from ne show ?thesis
  proof (cases rule: first_flow_cases)
    case (1 ns)
    with False ok empty show ?thesis by (auto simp: lists_ok_def retire_def unlink_first_def)
  next
    case (2 os)
    with False ok empty show ?thesis by (auto simp: lists_ok_def retire_def unlink_first_def)
  qed
qed

text \<open>The measure: the positions in the lists, then the rounds that the deficits may still take.\<close>

definition round_measure :: "fq_codel \<Rightarrow> nat" where
  "round_measure q = 2 * length (new_flows q) + length (old_flows q)"

definition debt_measure :: "fq_codel \<Rightarrow> nat" where
  "debt_measure q = sum_list (map (\<lambda>i. nat (1 - sint (deficit (flows q ! i)))) (new_flows q @ old_flows q))"

lemma retire_measure:
  "new_flows q \<noteq> [] \<or> old_flows q \<noteq> [] \<Longrightarrow> round_measure (retire i q) < round_measure q"
  by (cases "new_flows q"; cases "old_flows q")
    (auto simp: round_measure_def retire_def move_first_to_old_def unlink_first_def Let_def)

lemma sint_recharge:
  assumes "sint (d :: u32) \<le> 0" "0 < sint n"
  shows "sint (d + n) = sint d + sint n"
proof -
  have "- (2 ^ 31) \<le> sint d" "sint n < 2 ^ 31" using sint_greater_eq [of d] sint_less [of n] by simp_all
  with assms have "- (2 ^ 31) \<le> sint d + sint n" "sint d + sint n < 2 ^ 31" by linarith+
  then show ?thesis by (simp add: sint_word_add signed_take_bit_int_eq_self)
qed

lemma recharge_measure:
  assumes ok: "lists_ok q" and ne: "new_flows q \<noteq> [] \<or> old_flows q \<noteq> []" and n: "0 < sint (quantum q)"
    and d: "sint (deficit (flows q ! first_flow q)) \<le> 0"
  shows "round_measure (recharge (first_flow q) q) < round_measure q \<or>
    round_measure (recharge (first_flow q) q) = round_measure q \<and>
    debt_measure (recharge (first_flow q) q) < debt_measure q"
  using ne
proof (cases rule: first_flow_cases)
  case (1 ns)
  then show ?thesis
    by (simp add: round_measure_def recharge_def move_first_to_old_def unlink_first_def Let_def)
next
  case (2 os)
  define i where "i = first_flow q"
  from 2 ok have i: "i < length (flows q)" "i \<notin> set os" by (auto simp: lists_ok_def i_def)
  have new: "new_flows (recharge i q) = []" "old_flows (recharge i q) = os @ [i]"
    using 2 by (simp_all add: recharge_def move_first_to_old_def unlink_first_def Let_def i_def)
  have "deficit (flows (recharge i q) ! j) = deficit (flows q ! j)" if "j \<in> set os" for j
    using that i by (auto simp: recharge_flows nth_list_update)
  then have same: "map (\<lambda>j. nat (1 - sint (deficit (flows (recharge i q) ! j)))) os =
      map (\<lambda>j. nat (1 - sint (deficit (flows q ! j)))) os" by simp
  have "sint (deficit (flows (recharge i q) ! i)) = sint (deficit (flows q ! i)) + sint (quantum q)"
    using i d n sint_recharge by (simp add: recharge_flows i_def)
  with d n have "nat (1 - sint (deficit (flows (recharge i q) ! i))) < nat (1 - sint (deficit (flows q ! i)))"
    by (simp add: i_def)
  moreover have "debt_measure (recharge i q) =
      sum_list (map (\<lambda>j. nat (1 - sint (deficit (flows (recharge i q) ! j)))) os) +
      nat (1 - sint (deficit (flows (recharge i q) ! i)))" by (simp add: debt_measure_def new)
  moreover have "debt_measure q = nat (1 - sint (deficit (flows q ! i))) +
      sum_list (map (\<lambda>j. nat (1 - sint (deficit (flows q ! j)))) os)"
    using 2 by (simp add: debt_measure_def i_def [symmetric])
  ultimately have "debt_measure (recharge i q) < debt_measure q" unfolding same by linarith
  moreover have "round_measure (recharge i q) = round_measure q"
    using 2 new by (simp add: round_measure_def i_def [symmetric])
  ultimately show ?thesis by (simp add: i_def)
qed

text \<open>\<^verbatim>\<open>fq_codel_dequeue\<close> ends, keeps the discipline well formed, and loses nothing silently.\<close>

definition dequeue_done where
  "dequeue_done q out q' \<longleftrightarrow> fq_ok q' \<and> (\<exists>owner. served q q' out owner) \<and>
    (out = None \<longrightarrow> all_packets q = []) \<and>
    drops q' + qlen q' + of_nat (length (opt_list out)) = drops q + qlen q \<and>
    quantum q' = quantum q \<and> sch_limit q' = sch_limit q \<and> cparams q' = cparams q"

lemma dequeue_done_step:
  assumes "served q q1 None k" "all_packets q1 = [] \<longrightarrow> all_packets q = []"
    "drops q1 + qlen q1 = drops q + qlen q" "quantum q1 = quantum q" "sch_limit q1 = sch_limit q"
    "cparams q1 = cparams q"
    and "dequeue_done q1 out q'"
  shows "dequeue_done q out q'"
  using assms served_trans by (auto simp: dequeue_done_def) blast+

lemma report_queue_frame [simp]:
  "flows (report_queue env q) = flows q" "counters_ok (report_queue env q) = counters_ok q"
  "lists_ok (report_queue env q) = lists_ok q" "drops (report_queue env q) = drops q"
  "qlen (report_queue env q) = qlen q" "quantum (report_queue env q) = quantum q"
  "sch_limit (report_queue env q) = sch_limit q" "cparams (report_queue env q) = cparams q"
  by (simp_all add: report_queue_def Let_def counters_ok_def lists_ok_def all_packets_def)

lemma deliver_packet_frame:
  "length (flows (deliver_packet env i s q)) = length (flows q)"
  "queue (flows (deliver_packet env i s q) ! j) = queue (flows q ! j)"
  "counters_ok (deliver_packet env i s q) = counters_ok q"
  "lists_ok (deliver_packet env i s q) = lists_ok q" "drops (deliver_packet env i s q) = drops q"
  "qlen (deliver_packet env i s q) = qlen q" "quantum (deliver_packet env i s q) = quantum q"
  "sch_limit (deliver_packet env i s q) = sch_limit q" "cparams (deliver_packet env i s q) = cparams q"
proof -
  define q1 where "q1 = set_flow i (\<lambda>fl. fl\<lparr>deficit := deficit fl - pkt_len s\<rparr>)
    (q\<lparr>bstats := qdisc_bstats_update env s (bstats q)\<rparr>)"
  define q2 where "q2 = (if drop_count (cstats q1) \<noteq> 0 \<and> qlen q1 \<noteq> 0 then
                 (tree_reduce_backlog (drop_count (cstats q1)) (drop_len (cstats q1)) q1)
                   \<lparr>cstats := (cstats q1)\<lparr>drop_count := 0, drop_len := 0\<rparr>\<rparr>
               else q1)"
  have d: "deliver_packet env i s q = report_queue env q2"
    by (simp add: deliver_packet_def Let_def q1_def [symmetric] q2_def [symmetric])
  have q2: "flows q2 = flows q1" "new_flows q2 = new_flows q" "old_flows q2 = old_flows q" "drops q2 = drops q"
    "qlen q2 = qlen q" "quantum q2 = quantum q" "sch_limit q2 = sch_limit q" "backlogs q2 = backlogs q"
    "flows_cnt q2 = flows_cnt q" "backlog q2 = backlog q" "cparams q2 = cparams q"
    by (simp_all add: q2_def q1_def tree_reduce_backlog_def)
  have l: "length (flows q1) = length (flows q)" by (simp add: q1_def)
  have qu: "queue (flows q1 ! j) = queue (flows q ! j)" for j
    by (cases "j = i"; cases "i < length (flows q)") (simp_all add: q1_def flows_set_flow list_update_beyond)
  have "map queue (flows q1) = map queue (flows q)" using l qu by (intro nth_equalityI) simp_all
  then have all: "all_packets q2 = all_packets q" by (simp add: all_packets_def q2)
  show "length (flows (deliver_packet env i s q)) = length (flows q)"
    "queue (flows (deliver_packet env i s q) ! j) = queue (flows q ! j)"
    "drops (deliver_packet env i s q) = drops q"
    "qlen (deliver_packet env i s q) = qlen q" "quantum (deliver_packet env i s q) = quantum q"
    "sch_limit (deliver_packet env i s q) = sch_limit q" "cparams (deliver_packet env i s q) = cparams q"
    by (simp_all add: d q2 l qu)
  show "counters_ok (deliver_packet env i s q) = counters_ok q"
    unfolding d report_queue_frame unfolding counters_ok_def by (simp add: q2 l qu all)
  show "lists_ok (deliver_packet env i s q) = lists_ok q"
    unfolding d report_queue_frame unfolding lists_ok_def by (simp add: q2 l qu)
qed

lemma fq_codel_dequeue_spec:
  assumes mem: "kmalloc (alloc_node (core env))"
    and ok: "fq_ok q" and n: "0 < sint (quantum q)" and log: "log_rep lg es k"
  shows "\<exists>out q' lg' es' k'. fq_codel_dequeue env q lg = Some (out, q', lg') \<and> dequeue_done q out q' \<and>
    log_rep lg' es' k'"
  using ok n log
proof (induction q arbitrary: lg es k rule: wf_induct_rule [OF wf_measures [of "[round_measure, debt_measure]"]])
  case (1 q)
  define i where "i = first_flow q"
  show ?case
  proof (cases "new_flows q = [] \<and> old_flows q = []")
    case True
    with "1.prems"(1) have "all_packets q = []"
      by (auto simp: fq_ok_def lists_ok_def all_packets_empty)
    moreover have "served q q None 0" by (rule served_same_queues) simp_all
    ultimately have "dequeue_done q None q" using "1.prems"(1) by (auto simp: dequeue_done_def)
    moreover have "fq_codel_dequeue env q lg = Some (None, q, lg)"
      using True by (subst fq_codel_dequeue.simps) simp
    ultimately show ?thesis using "1.prems"(3) by blast
  next
    case False
    then have ne: "new_flows q \<noteq> [] \<or> old_flows q \<noteq> []" by blast
    from "1.prems"(1) have cok: "counters_ok q" and lok: "lists_ok q" by (simp_all add: fq_ok_def)
    have i: "i < length (flows q)"
      using ne by (cases rule: first_flow_cases) (use lok in \<open>auto simp: lists_ok_def i_def\<close>)
    show ?thesis
    proof (cases "sint (deficit (flows q ! i)) \<le> 0")
      case True
      have again: "fq_codel_dequeue env q lg = fq_codel_dequeue env (recharge i q) lg"
        using True False by (subst fq_codel_dequeue.simps) (auto simp: i_def)
      have "fq_ok (recharge i q)"
        using cok recharge_lists [OF lok ne] by (simp add: fq_ok_def i_def)
      moreover have "(recharge i q, q) \<in> measures [round_measure, debt_measure]"
        using recharge_measure [OF lok ne "1.prems"(2)] True by (auto simp: i_def)
      ultimately obtain out q' lg' es' k' where
        "fq_codel_dequeue env (recharge i q) lg = Some (out, q', lg')" "dequeue_done (recharge i q) out q'"
        "log_rep lg' es' k'"
        using "1.IH" [of "recharge i q" lg es k] "1.prems" by auto
      moreover have "dequeue_done q out q'"
        by (rule dequeue_done_step [OF served_same_queues _ _ _ _ _ calculation(2)]) simp_all
      ultimately show ?thesis using again by auto
    next
      case deficit: False
      from serve_flow [OF cok i mem "1.prems"(3)] obtain sk r where
        d: "codel_dequeue (core env) (cparams q) (fq_pop i) (flow_run i q lg) = Some (sk, r)"
        and s: "counters_ok (write_back i q r)" "served q (write_back i q r) sk i"
          "\<forall>j. queue (flows (write_back i q r) ! j) \<noteq> [] \<longrightarrow> j < length (flows q) \<longrightarrow> queue (flows q ! j) \<noteq> []"
          "new_flows (write_back i q r) = new_flows q" "old_flows (write_back i q r) = old_flows q"
          "quantum (write_back i q r) = quantum q" "sch_limit (write_back i q r) = sch_limit q"
          "sk = None \<longrightarrow> queue (flows (write_back i q r) ! i) = [] \<and>
             (all_packets (write_back i q r) = [] \<longrightarrow> all_packets q = [])"
          "drops (write_back i q r) + qlen (write_back i q r) + of_nat (length (opt_list sk)) = drops q + qlen q"
          "cparams (write_back i q r) = cparams q"
        and log': "\<exists>es' k'. log_rep (log r) es' k'"
        by blast
      define q1 where "q1 = write_back i q r"
      note s = s [folded q1_def]
      have len: "length (flows q1) = length (flows q)" using s(2) by (simp add: served_def)
      have lok1: "lists_ok q1" using lok s(3) len by (auto simp: lists_ok_def s(4,5))
      show ?thesis
      proof (cases sk)
        case None
        have again: "fq_codel_dequeue env q lg = fq_codel_dequeue env (retire i q1) (log r)"
          using False deficit d None by (subst fq_codel_dequeue.simps) (auto simp: i_def q1_def)
        have ne1: "new_flows q1 \<noteq> [] \<or> old_flows q1 \<noteq> []" and i1: "first_flow q1 = i"
          using ne by (simp_all add: s(4,5) i_def first_flow_def)
        have "fq_ok (retire i q1)"
          using s(1,8) None retire_lists [OF lok1 ne1] i1 by (simp add: fq_ok_def)
        moreover have "(retire i q1, q) \<in> measures [round_measure, debt_measure]"
          using retire_measure [OF ne1, of i] by (simp add: round_measure_def s(4,5))
        moreover obtain es' k' where "log_rep (log r) es' k'" using log' by blast
        ultimately obtain out q' lg' es'' k'' where
          res: "fq_codel_dequeue env (retire i q1) (log r) = Some (out, q', lg')"
            "dequeue_done (retire i q1) out q'" "log_rep lg' es'' k''"
          using "1.IH" [of "retire i q1" "log r" es' k'] "1.prems"(2) s(6) by auto
        have "served q (retire i q1) None i" using s(2) None by (simp add: served_def)
        then have "dequeue_done q out q'"
          by (rule dequeue_done_step [OF _ _ _ _ _ _ res(2)]) (use s None in simp_all)
        with again res show ?thesis by auto
      next
        case (Some p)
        define q2 where "q2 = deliver_packet env i p q1"
        have deq: "fq_codel_dequeue env q lg = Some (Some p, q2, log r)"
          using False deficit d Some by (subst fq_codel_dequeue.simps) (auto simp: i_def q1_def q2_def)
        have "served q q2 sk i"
          using s(2) by (simp add: served_def q2_def deliver_packet_frame)
        then have "dequeue_done q sk q2"
          using s lok1 Some by (auto simp: dequeue_done_def fq_ok_def q2_def deliver_packet_frame)
        with deq Some log' show ?thesis by auto
      qed
    qed
  qed
qed

section \<open>Enqueueing keeps the discipline well formed\<close>

lemma fattest_spec:
  "let r = fattest bs i m idx in
     (r = idx \<and> (\<forall>b \<in> set bs. b \<le> m)) \<or>
     (i \<le> r \<and> r < i + length bs \<and> m < bs ! (r - i) \<and> (\<forall>b \<in> set bs. b \<le> bs ! (r - i)))"
proof (induction bs arbitrary: i m idx)
  case Nil
  then show ?case by simp
next
  case (Cons b bs)
  show ?case
  proof (cases "m < b")
    case True
    with Cons.IH [of "i + 1" b i] show ?thesis
      by (auto simp: Let_def nth_Cons' dest: less_trans)
  next
    case False
    with Cons.IH [of "i + 1" m idx] show ?thesis
      by (auto simp: Let_def nth_Cons' not_less dest: order_trans less_imp_le)
  qed
qed

lemma fattest_flow:
  fixes q :: fq_codel
  assumes "counters_ok q" and "\<exists>i < length (flows q). backlogs q ! i \<noteq> 0"
  defines "v \<equiv> fattest (take (unat (flows_cnt q)) (backlogs q)) 0 0 0"
  shows "v < length (flows q)" "queue (flows q ! v) \<noteq> []"
    "\<forall>i < length (flows q). backlogs q ! i \<le> backlogs q ! v"
proof -
  have take: "take (unat (flows_cnt q)) (backlogs q) = backlogs q" and len: "length (backlogs q) = length (flows q)"
    using assms(1) by (simp_all add: counters_ok_def)
  obtain i where i: "i < length (flows q)" "backlogs q ! i \<noteq> 0" using assms(2) by blast
  have "\<not> (\<forall>b \<in> set (backlogs q). b \<le> 0)" using i len nth_mem [of i "backlogs q"] by auto
  with fattest_spec [of "backlogs q" 0 0 0] have v: "v < length (flows q)" "0 < backlogs q ! v"
    "\<forall>b \<in> set (backlogs q). b \<le> backlogs q ! v"
    unfolding v_def take Let_def len by auto
  then show "v < length (flows q)" "\<forall>i < length (flows q). backlogs q ! i \<le> backlogs q ! v"
    using len by auto
  show "queue (flows q ! v) \<noteq> []" using v assms(1) by (auto simp: counters_ok_def)
qed

lemma same_lists_ok:
  assumes "lists_ok q" "new_flows q' = new_flows q" "old_flows q' = old_flows q" "length (flows q') = length (flows q)"
    and "\<forall>j < length (flows q). queue (flows q' ! j) \<noteq> [] \<longrightarrow> queue (flows q ! j) \<noteq> []"
  shows "lists_ok q'"
  using assms by (auto simp: lists_ok_def)

lemma counters_ok_update:
  assumes ok: "counters_ok q" and i: "i < length (flows q)"
    and fl: "flows q' = (flows q)[i := fl]" and bs: "backlogs q' = (backlogs q)[i := qbytes (queue fl)]"
    and b: "backlog q' = backlog q - qbytes (queue (flows q ! i)) + qbytes (queue fl)"
    and n: "qlen q' = qlen q - of_nat (length (queue (flows q ! i))) + of_nat (length (queue fl))"
    and cnt: "flows_cnt q' = flows_cnt q" and small: "length (all_packets q') < 2 ^ 32"
  shows "counters_ok q'"
proof -
  have "qbytes (all_packets q') = qbytes (all_packets q) - qbytes (queue (flows q ! i)) + qbytes (queue fl)"
    unfolding all_packets_def fl by (rule qbytes_concat_update [OF i])
  moreover have len: "length (all_packets q') + length (queue (flows q ! i)) = length (all_packets q) + length (queue fl)"
    unfolding all_packets_def fl by (rule length_concat_update [OF i])
  have "(of_nat (length (all_packets q')) :: u32) =
      of_nat (length (all_packets q)) - of_nat (length (queue (flows q ! i))) + of_nat (length (queue fl))"
    using arg_cong [OF len, of "of_nat :: nat \<Rightarrow> u32"] by (intro word_move_sub) (simp only: of_nat_add)
  moreover have "backlogs q' ! j = qbytes (queue (flows q' ! j))" if "j < length (flows q')" for j
    using ok i that by (cases "j = i") (auto simp: counters_ok_def fl bs)
  ultimately show ?thesis using ok small by (simp add: counters_ok_def fl bs b n cnt)
qed

text \<open>Dropping at the head of the fattest flow.\<close>

lemma fq_codel_drop_spec:
  assumes ok: "fq_ok q" and some: "\<exists>i < length (flows q). backlogs q ! i \<noteq> 0"
  shows "\<exists>v q'. fq_codel_drop q = Some (v, q') \<and> fq_ok q' \<and> v < length (flows q) \<and>
    (\<forall>i < length (flows q). backlogs q ! i \<le> backlogs q ! v) \<and>
    queue (flows q ! v) \<noteq> [] \<and> length (flows q') = length (flows q) \<and>
    (\<forall>i < length (flows q). queue (flows q' ! i) = (if i = v then tl (queue (flows q ! v)) else queue (flows q ! i))) \<and>
    length (all_packets q') + 1 = length (all_packets q) \<and> drops q' = drops q + 1 \<and>
    (\<forall>j. deficit (flows q' ! j) = deficit (flows q ! j)) \<and>
    new_flows q' = new_flows q \<and> old_flows q' = old_flows q \<and> flows_cnt q' = flows_cnt q \<and>
    quantum q' = quantum q \<and> sch_limit q' = sch_limit q"
proof -
  from ok have cok: "counters_ok q" and lok: "lists_ok q" by (simp_all add: fq_ok_def)
  define v where "v = fattest (take (unat (flows_cnt q)) (backlogs q)) 0 0 0"
  note f = fattest_flow [OF cok some, folded v_def]
  then obtain s ss where qv: "queue (flows q ! v) = s # ss" by (cases "queue (flows q ! v)") auto
  define fl where "fl = (flows q ! v)\<lparr>queue := ss, flow_dropped := flow_dropped (flows q ! v) + 1\<rparr>"
  define q' where "q' = q\<lparr>flows := (flows q)[v := fl], backlogs := (backlogs q)[v := backlogs q ! v - pkt_len s],
    qlen := qlen q - 1, drops := drops q + 1, backlog := backlog q - pkt_len s\<rparr>"
  have d: "fq_codel_drop q = Some (v, q')"
    using f(1) qv by (simp add: fq_codel_drop_def v_def [symmetric] dequeue_head_def flow_packets_def q'_def fl_def
        set_flow_def add_backlog_def)
  have qs: "queue (flows q' ! i) = (if i = v then tl (queue (flows q ! v)) else queue (flows q ! i))"
    if "i < length (flows q)" for i
    using that f(1) qv by (simp add: q'_def fl_def)
  have len: "length (all_packets q') + 1 = length (all_packets q)"
    using length_concat_update [OF f(1), of fl] qv by (simp add: all_packets_def q'_def fl_def)
  have "counters_ok q'"
  proof (rule counters_ok_update [OF cok f(1), of q' fl])
    show "length (all_packets q') < 2 ^ 32" using len cok by (simp add: counters_ok_def)
  qed (use cok f(1) qv in \<open>simp_all add: q'_def fl_def counters_ok_def\<close>)
  moreover have "lists_ok q'"
    by (rule same_lists_ok [OF lok]) (use qs qv in \<open>auto simp: q'_def\<close>)
  moreover have "deficit (flows q' ! j) = deficit (flows q ! j)" for j
    using f(1) by (cases "j = v") (simp_all add: q'_def fl_def)
  ultimately show ?thesis
    using d f qs len by (intro exI [of _ v] exI [of _ q']) (simp add: fq_ok_def q'_def)
qed

lemma enqueue_packet_spec:
  fixes env :: fq_kernel and s :: sk_buff
  assumes ok: "fq_ok q" and i: "i < length (flows q)" and room: "length (all_packets q) + 1 < 2 ^ 32"
  defines "q' \<equiv> enqueue_packet env i s q"
  shows "fq_ok q'" "length (flows q') = length (flows q)"
    "\<forall>j < length (flows q). queue (flows q' ! j) =
       (if j = i then queue (flows q ! i) @ [codel_set_enqueue_time (core env) s] else queue (flows q ! j))"
    "length (all_packets q') = length (all_packets q) + 1" "drops q' = drops q"
    "quantum q' = quantum q" "sch_limit q' = sch_limit q" "flows_cnt q' = flows_cnt q"
    "backlogs q' ! i = backlogs q ! i + pkt_len s"
    "i \<notin> set (new_flows q) \<union> set (old_flows q) \<Longrightarrow>
       new_flows q' = new_flows q @ [i] \<and> old_flows q' = old_flows q \<and> deficit (flows q' ! i) = quantum q"
proof -
  from ok have cok: "counters_ok q" and lok: "lists_ok q" by (simp_all add: fq_ok_def)
  define t where "t = codel_set_enqueue_time (core env) s"
  have t: "pkt_len t = pkt_len s" by (simp add: t_def codel_set_enqueue_time_def)
  define act where "act \<longleftrightarrow> i \<notin> set (new_flows q) \<union> set (old_flows q)"
  define fl where "fl = (let fl0 = (flows q ! i)\<lparr>queue := queue (flows q ! i) @ [t]\<rparr>
    in if act then fl0\<lparr>deficit := quantum q, flow_dropped := 0\<rparr> else fl0)"
  have q': "flows q' = (flows q)[i := fl]" "backlogs q' = (backlogs q)[i := backlogs q ! i + pkt_len s]"
    "backlog q' = backlog q + pkt_len s" "qlen q' = qlen q + 1" "flows_cnt q' = flows_cnt q" "drops q' = drops q"
    "quantum q' = quantum q" "sch_limit q' = sch_limit q" "old_flows q' = old_flows q"
    "new_flows q' = (if act then new_flows q @ [i] else new_flows q)"
    using i by (auto simp: q'_def enqueue_packet_def Let_def activate_def add_backlog_def flow_queue_add_def
        set_flow_def fl_def act_def t_def)
  have qfl: "queue fl = queue (flows q ! i) @ [t]" by (simp add: fl_def Let_def)
  show len: "length (all_packets q') = length (all_packets q) + 1"
    using length_concat_update [OF i, of fl] by (simp add: all_packets_def q' qfl)
  have cok': "counters_ok q'"
  proof (rule counters_ok_update [OF cok i q'(1)])
    show "length (all_packets q') < 2 ^ 32" using len room by simp
  qed (use cok i t in \<open>simp_all add: q' qfl counters_ok_def\<close>)
  show qs: "\<forall>j < length (flows q). queue (flows q' ! j) =
       (if j = i then queue (flows q ! i) @ [codel_set_enqueue_time (core env) s] else queue (flows q ! j))"
    using i by (auto simp: q' qfl t_def)
  have "lists_ok q'"
    using lok i qs by (auto simp: lists_ok_def q' act_def)
  with cok' show "fq_ok q'" by (simp add: fq_ok_def)
  show "backlogs q' ! i = backlogs q ! i + pkt_len s" using cok i by (simp add: q' counters_ok_def)
  show "new_flows q' = new_flows q @ [i] \<and> old_flows q' = old_flows q \<and> deficit (flows q' ! i) = quantum q"
    if "i \<notin> set (new_flows q) \<union> set (old_flows q)"
    using that i by (simp add: q' act_def fl_def Let_def)
  show "length (flows q') = length (flows q)" "drops q' = drops q" "quantum q' = quantum q"
    "sch_limit q' = sch_limit q" "flows_cnt q' = flows_cnt q" by (simp_all add: q')
qed

lemma unat_qbytes:
  assumes "\<forall>p \<in> set ss. unat (pkt_len p) \<le> m" and "length ss * m < 2 ^ 32"
  shows "unat (qbytes ss) = sum_list (map (\<lambda>p. unat (pkt_len p)) ss)"
  using assms
proof (induction ss)
  case (Cons p ss)
  have "sum_list (map (\<lambda>p. unat (pkt_len p)) ss) \<le> length ss * m"
    using Cons.prems(1) sum_list_mono [of ss "\<lambda>p. unat (pkt_len p)" "\<lambda>_. m"] by (simp add: sum_list_triv)
  moreover have "unat (qbytes ss) = sum_list (map (\<lambda>p. unat (pkt_len p)) ss)" using Cons by simp
  ultimately have "unat (pkt_len p) + unat (qbytes ss) < 2 ^ LENGTH(32)" using Cons.prems by simp
  then have "unat (pkt_len p + qbytes ss) = unat (pkt_len p) + unat (qbytes ss)"
    using unat_add_lem [of "pkt_len p" "qbytes ss"] by simp
  with Cons show ?case by simp
qed simp

lemma qbytes_nonzero:
  assumes "ss \<noteq> []" "\<forall>p \<in> set ss. 1 \<le> unat (pkt_len p) \<and> unat (pkt_len p) \<le> m" "length ss * m < 2 ^ 32"
  shows "qbytes ss \<noteq> 0"
proof
  assume "qbytes ss = 0"
  then have "sum_list (map (\<lambda>p. unat (pkt_len p)) ss) = 0" using unat_qbytes [of ss m] assms by simp
  with assms(1,2) show False by (cases ss) auto
qed

lemma fq_codel_enqueue_spec:
  assumes ok: "fq_ok q" and cls: "fq_codel_classify env s q = (idx, ret)" "idx \<noteq> 0" "idx \<le> flows_cnt q"
    and room: "length (all_packets q) + 1 < 2 ^ 32"
    and bytes: "backlogs q ! unat (idx - 1) + pkt_len s \<noteq> 0"
  defines "i \<equiv> unat (idx - 1)"
    and "full \<equiv> (\<lambda>j. queue (flows q ! j) @ (if j = unat (idx - 1) then [codel_set_enqueue_time (core env) s] else []))"
  shows "\<exists>r q'. fq_codel_enqueue env s q = Some (r, q') \<and> fq_ok q' \<and> i < length (flows q) \<and>
    length (flows q') = length (flows q) \<and> quantum q' = quantum q \<and> sch_limit q' = sch_limit q \<and>
    flows_cnt q' = flows_cnt q \<and>
    (i \<notin> set (new_flows q) \<union> set (old_flows q) \<longrightarrow>
       new_flows q' = new_flows q @ [i] \<and> old_flows q' = old_flows q \<and> deficit (flows q' ! i) = quantum q) \<and>
    (if qlen q + 1 \<le> sch_limit q then r = NET_XMIT_SUCCESS \<and> length (all_packets q') = length (all_packets q) + 1 \<and>
        (\<forall>j < length (flows q). queue (flows q' ! j) = full j)
     else length (all_packets q') = length (all_packets q) \<and>
        (\<exists>v < length (flows q). r = (if v = i then NET_XMIT_CN else NET_XMIT_SUCCESS) \<and> full v \<noteq> [] \<and>
           (\<forall>j < length (flows q). qbytes (full j) \<le> qbytes (full v)) \<and>
           (\<forall>j < length (flows q). queue (flows q' ! j) = (if j = v then tl (full v) else full j))))"
proof -
  have i: "i < length (flows q)"
  proof -
    have "unat (idx - 1) = unat idx - 1" using cls(2) by (simp add: unat_minus_one)
    moreover have "0 < unat idx" using cls(2) by (simp add: unat_gt_0)
    moreover have "unat idx \<le> unat (flows_cnt q)" using cls(3) by (simp add: word_le_nat_alt)
    ultimately show ?thesis using ok by (simp add: i_def fq_ok_def counters_ok_def)
  qed
  define q1 where "q1 = enqueue_packet env i s q"
  note e = enqueue_packet_spec [OF ok i room, of env s, folded q1_def]
  have full1: "queue (flows q1 ! j) = full j" if "j < length (flows q)" for j
    using e(3) that by (simp add: full_def i_def)
  have qlen1: "qlen q1 = qlen q + 1"
    using e(1,4) ok by (simp add: fq_ok_def counters_ok_def)
  show ?thesis
  proof (cases "qlen q + 1 \<le> sch_limit q")
    case True
    then have "fq_codel_enqueue env s q = Some (NET_XMIT_SUCCESS, q1)"
      using cls e(7) qlen1 by (simp add: fq_codel_enqueue_def i_def q1_def [unfolded i_def] Let_def)
    with True show ?thesis using e i full1 by auto
  next
    case False
    define q2 where "q2 = q1\<lparr>drop_overlimit := drop_overlimit q1 + 1\<rparr>"
    have fields: "flows q2 = flows q1" "backlogs q2 = backlogs q1" "all_packets q2 = all_packets q1"
      "new_flows q2 = new_flows q1" "old_flows q2 = old_flows q1" "sch_limit q2 = sch_limit q1"
      "quantum q2 = quantum q1" "flows_cnt q2 = flows_cnt q1"
      by (simp_all add: q2_def all_packets_def)
    have "counters_ok q2 = counters_ok q1" by (simp add: counters_ok_def all_packets_def q2_def)
    moreover have "lists_ok q2 = lists_ok q1" by (simp add: lists_ok_def q2_def)
    ultimately have ok2: "fq_ok q2" using e(1) by (simp add: fq_ok_def)
    have "\<exists>i < length (flows q2). backlogs q2 ! i \<noteq> 0"
      using i bytes e(2,9) by (auto simp: fields i_def)
    with ok2 obtain v q3 where d: "fq_codel_drop q2 = Some (v, q3)" "fq_ok q3" "v < length (flows q2)"
      "\<forall>i < length (flows q2). backlogs q2 ! i \<le> backlogs q2 ! v"
      "queue (flows q2 ! v) \<noteq> []" "length (flows q3) = length (flows q2)"
      "\<forall>i < length (flows q2). queue (flows q3 ! i) = (if i = v then tl (queue (flows q2 ! v)) else queue (flows q2 ! i))"
      "length (all_packets q3) + 1 = length (all_packets q2)"
      "\<forall>j. deficit (flows q3 ! j) = deficit (flows q2 ! j)" "new_flows q3 = new_flows q2"
      "old_flows q3 = old_flows q2" "flows_cnt q3 = flows_cnt q2" "quantum q3 = quantum q2"
      "sch_limit q3 = sch_limit q2"
      using fq_codel_drop_spec [of q2] by blast
    define q4 where "q4 = (if v = i then q3 else tree_reduce_backlog 1 (backlog q1 - backlog q3) q3)"
    have q4: "flows q4 = flows q3" "new_flows q4 = new_flows q3" "old_flows q4 = old_flows q3"
      "sch_limit q4 = sch_limit q3" "quantum q4 = quantum q3" "flows_cnt q4 = flows_cnt q3" "fq_ok q4 = fq_ok q3"
      by (simp_all add: q4_def tree_reduce_backlog_def fq_ok_def counters_ok_def lists_ok_def all_packets_def)
    have "fq_codel_enqueue env s q = Some (if v = i then NET_XMIT_CN else NET_XMIT_SUCCESS, q4)"
      using cls e(7) qlen1 False d(1)
      by (simp add: fq_codel_enqueue_def i_def q1_def [unfolded i_def] q2_def [unfolded q1_def i_def] q4_def Let_def)
    moreover have "fq_ok q4" "length (flows q4) = length (flows q)" "quantum q4 = quantum q"
      "sch_limit q4 = sch_limit q" "flows_cnt q4 = flows_cnt q"
      using d e by (simp_all add: q4 fields)
    moreover have "i \<notin> set (new_flows q) \<union> set (old_flows q) \<longrightarrow>
       new_flows q4 = new_flows q @ [i] \<and> old_flows q4 = old_flows q \<and> deficit (flows q4 ! i) = quantum q"
      using e(10) d(9-11) by (simp add: q4 fields)
    moreover have "length (all_packets q4) = length (all_packets q)"
    proof -
      have "all_packets q4 = all_packets q3" by (simp add: all_packets_def q4)
      then show ?thesis using d(8) e(4) by (simp add: fields)
    qed
    moreover have "\<exists>v' < length (flows q). (if v = i then NET_XMIT_CN else NET_XMIT_SUCCESS) =
         (if v' = i then NET_XMIT_CN else NET_XMIT_SUCCESS) \<and> full v' \<noteq> [] \<and>
       (\<forall>j < length (flows q). qbytes (full j) \<le> qbytes (full v')) \<and>
       (\<forall>j < length (flows q). queue (flows q4 ! j) = (if j = v' then tl (full v') else full j))"
    proof (intro exI [of _ v] conjI allI impI refl)
      have bl: "backlogs q2 ! j = qbytes (full j)" if "j < length (flows q)" for j
        using ok2 that full1 e(2) by (simp add: fq_ok_def counters_ok_def fields)
      show v: "v < length (flows q)" using d(3) e(2) by (simp add: fields)
      show "full v \<noteq> []" using d(5) full1 [OF v] by (simp add: fields)
      show "qbytes (full j) \<le> qbytes (full v)" if "j < length (flows q)" for j
        using d(4) that bl v e(2) by (simp add: fields)
      show "queue (flows q4 ! j) = (if j = v then tl (full v) else full j)" if "j < length (flows q)" for j
        using d(7) that full1 v e(2) by (simp add: fields q4)
    qed
    ultimately show ?thesis using False i by simp
  qed
qed

section \<open>Reachable states\<close>

text \<open>
  What the development assumes of the kernel: the allocator returns addresses that are not in use,
  and \<^verbatim>\<open>reciprocal_scale\<close> maps into the range it is given.
\<close>

definition good_kernel :: "fq_kernel \<Rightarrow> bool" where
  "good_kernel env \<longleftrightarrow> kmalloc (alloc_node (core env)) \<and>
     (\<forall>v n. 0 < n \<longrightarrow> reciprocal_scale (core env) v n < n)"

text \<open>
  A discipline initialised without options, then packets of 1 to \<open>m\<close> bytes arriving, packets being
  sent, and the log being collected, in any order; the kernel may answer differently every time.
\<close>

inductive fq_reach :: "u32 \<Rightarrow> nat \<Rightarrow> fq_codel \<Rightarrow> codel_log_entry drop_log \<Rightarrow> bool" for psched_mtu m where
  reach_init: "flows q0 = [] \<Longrightarrow> backlog q0 = 0 \<Longrightarrow> qlen q0 = 0 \<Longrightarrow>
    fq_codel_init env psched_mtu rnd (True, True) None q0 log_init = Some (0, q, lg) \<Longrightarrow> fq_reach psched_mtu m q lg"
| reach_enqueue: "fq_reach psched_mtu m q lg \<Longrightarrow> good_kernel env \<Longrightarrow> 1 \<le> unat (pkt_len s) \<Longrightarrow> unat (pkt_len s) \<le> m \<Longrightarrow>
    fq_codel_enqueue env s q = Some (ret, q') \<Longrightarrow> fq_reach psched_mtu m q' lg"
| reach_dequeue: "fq_reach psched_mtu m q lg \<Longrightarrow> good_kernel env \<Longrightarrow>
    fq_codel_dequeue env q lg = Some (out, q', lg') \<Longrightarrow> fq_reach psched_mtu m q' lg'"
| reach_collect: "fq_reach psched_mtu m q lg \<Longrightarrow> collect_queue lg = Some (es, lg') \<Longrightarrow> fq_reach psched_mtu m q lg'"

definition fq_inv :: "u32 \<Rightarrow> nat \<Rightarrow> fq_codel \<Rightarrow> codel_log_entry drop_log \<Rightarrow> bool" where
  "fq_inv psched_mtu m q lg \<longleftrightarrow>
    fq_ok q \<and> sch_limit q = 10240 \<and> quantum q = psched_mtu \<and> flows_cnt q = 1024 \<and>
    length (all_packets q) \<le> 10240 \<and>
    (\<forall>i < length (flows q). \<forall>p \<in> set (queue (flows q ! i)). 1 \<le> unat (pkt_len p) \<and> unat (pkt_len p) \<le> m) \<and>
    (\<exists>es k. log_rep lg es k)"

lemma fq_inv_init:
  assumes "flows q0 = []" "backlog q0 = 0" "qlen q0 = 0"
    and "fq_codel_init env psched_mtu rnd (True, True) None q0 log_init = Some (0, q, lg)"
  shows "fq_inv psched_mtu m q lg"
proof -
  have fl: "flows q = replicate 1024 empty_flow" "backlogs q = replicate 1024 0" "new_flows q = []"
    "old_flows q = []" "backlog q = 0" "qlen q = 0" "flows_cnt q = 1024" "quantum q = psched_mtu" "sch_limit q = 10240"
    "lg = log_init"
    using assms by (auto simp: fq_codel_init_def Let_def)
  have "map queue (flows q) = replicate 1024 []" by (simp add: fl empty_flow_def)
  then have "all_packets q = []" by (simp add: all_packets_def)
  then show ?thesis using log_rep_init
    by (auto simp: fq_inv_def fq_ok_def counters_ok_def lists_ok_def fl empty_flow_def)
qed

lemma classify_range:
  assumes "good_kernel env" "flows_cnt q = 1024" "fq_codel_classify env s q = (idx, ret)"
  shows "idx \<le> flows_cnt q" "idx = 0 \<Longrightarrow> ret \<noteq> None"
proof -
  have "fq_codel_hash env q s < 1024" using assms(1,2) by (simp add: good_kernel_def fq_codel_hash_def)
  then have h: "unat (fq_codel_hash env q s) < 1024" by (simp add: word_less_nat_alt)
  then have u: "unat (fq_codel_hash env q s + 1) = unat (fq_codel_hash env q s) + 1"
    using unat_add_lem [of "fq_codel_hash env q s" 1] by simp
  with h have "fq_codel_hash env q s + 1 \<le> 1024" by (simp add: word_le_nat_alt)
  moreover from u have "fq_codel_hash env q s + 1 \<noteq> 0" by (metis add_is_0 one_neq_zero unat_0)
  ultimately have "fq_codel_hash env q s + 1 \<le> 1024" "fq_codel_hash env q s + 1 \<noteq> 0" by blast+
  with assms show "idx \<le> flows_cnt q" "idx = 0 \<Longrightarrow> ret \<noteq> None"
    by (auto simp: fq_codel_classify_def Let_def split: option.splits prod.splits if_splits)
qed

lemma in_set_tl: "x \<in> set (tl xs) \<Longrightarrow> x \<in> set xs"
  by (cases xs) auto

lemma fq_inv_enqueue:
  assumes inv: "fq_inv psched_mtu m q lg" and env: "good_kernel env" and len: "1 \<le> unat (pkt_len s)" "unat (pkt_len s) \<le> m"
    and m: "10241 * m < 2 ^ 32"
  shows "\<exists>ret q'. fq_codel_enqueue env s q = Some (ret, q') \<and> fq_inv psched_mtu m q' lg"
proof -
  obtain idx ret where c: "fq_codel_classify env s q = (idx, ret)" by (meson surj_pair)
  from inv have ok: "fq_ok q" and few: "length (all_packets q) \<le> 10240" and cnt: "flows_cnt q = 1024"
    and lens: "\<forall>i < length (flows q). \<forall>p \<in> set (queue (flows q ! i)). 1 \<le> unat (pkt_len p) \<and> unat (pkt_len p) \<le> m"
    by (simp_all add: fq_inv_def)
  note range = classify_range [OF env cnt c]
  show ?thesis
  proof (cases "idx = 0")
    case True
    with range(2) obtain r where r: "ret = Some r" by blast
    define q1 where "q1 = q\<lparr>drops := drops q + 1\<rparr>"
    have "counters_ok q1 = counters_ok q" by (simp add: counters_ok_def all_packets_def q1_def)
    moreover have "lists_ok q1 = lists_ok q" by (simp add: lists_ok_def q1_def)
    moreover have "all_packets q1 = all_packets q" by (simp add: all_packets_def q1_def)
    ultimately have "fq_inv psched_mtu m q1 lg" using inv by (simp add: fq_inv_def fq_ok_def) (simp add: q1_def)
    then have "fq_inv psched_mtu m (q\<lparr>drops := drops q + 1\<rparr>) lg" by (simp add: q1_def)
    with inv True r c show ?thesis by (simp add: fq_codel_enqueue_def)
  next
    case False
    define i where "i = unat (idx - 1)"
    have i: "i < length (flows q)"
    proof -
      have "unat (idx - 1) = unat idx - 1" "0 < unat idx" "unat idx \<le> unat (flows_cnt q)"
        using False range(1) by (simp_all add: unat_minus_one unat_gt_0 word_le_nat_alt)
      then show ?thesis using ok by (simp add: i_def fq_ok_def counters_ok_def)
    qed
    define p where "p = codel_set_enqueue_time (core env) s"
    have p: "pkt_len p = pkt_len s" by (simp add: p_def codel_set_enqueue_time_def)
    have "backlogs q ! i + pkt_len s = qbytes (queue (flows q ! i) @ [p])"
      using ok i p by (simp add: fq_ok_def counters_ok_def)
    also have "\<dots> \<noteq> 0"
    proof (rule qbytes_nonzero)
      have "length (queue (flows q ! i)) \<le> length (all_packets q)"
        unfolding all_packets_def by (rule length_queue_le [OF i])
      then have "length (queue (flows q ! i) @ [p]) * m \<le> 10241 * m" using few by (intro mult_right_mono) auto
      with m show "length (queue (flows q ! i) @ [p]) * m < 2 ^ 32" by (rule le_less_trans [rotated])
    qed (use lens i len p in auto)
    finally have bytes: "backlogs q ! unat (idx - 1) + pkt_len s \<noteq> 0" by (simp add: i_def)
    have room: "length (all_packets q) + 1 < 2 ^ 32" using few by simp
    from fq_codel_enqueue_spec [OF ok c False range(1) room bytes, folded i_def p_def] obtain r q' where
      e: "fq_codel_enqueue env s q = Some (r, q')" "fq_ok q'" "length (flows q') = length (flows q)"
        "quantum q' = quantum q" "sch_limit q' = sch_limit q" "flows_cnt q' = flows_cnt q"
      and res: "if qlen q + 1 \<le> sch_limit q then r = NET_XMIT_SUCCESS \<and>
          length (all_packets q') = length (all_packets q) + 1 \<and>
          (\<forall>j < length (flows q). queue (flows q' ! j) = queue (flows q ! j) @ (if j = i then [p] else []))
        else length (all_packets q') = length (all_packets q) \<and>
          (\<exists>v < length (flows q). r = (if v = i then NET_XMIT_CN else NET_XMIT_SUCCESS) \<and>
             queue (flows q ! v) @ (if v = i then [p] else []) \<noteq> [] \<and>
             (\<forall>j < length (flows q). qbytes (queue (flows q ! j) @ (if j = i then [p] else [])) \<le>
                qbytes (queue (flows q ! v) @ (if v = i then [p] else []))) \<and>
             (\<forall>j < length (flows q). queue (flows q' ! j) =
                (if j = v then tl (queue (flows q ! v) @ (if v = i then [p] else []))
                 else queue (flows q ! j) @ (if j = i then [p] else []))))"
      by blast
    have "length (all_packets q') \<le> 10240"
    proof (cases "qlen q + 1 \<le> sch_limit q")
      case True
      have q: "qlen q = of_nat (length (all_packets q))" using ok by (simp add: fq_ok_def counters_ok_def)
      have "unat (qlen q + 1) = length (all_packets q) + 1"
      proof -
        have "qlen q + 1 = of_nat (length (all_packets q) + 1)" unfolding q by simp
        then show ?thesis using room by (simp only: unsigned_of_nat) (simp add: take_bit_nat_eq_self)
      qed
      with True inv have "length (all_packets q) + 1 \<le> 10240" by (simp add: fq_inv_def word_le_nat_alt)
      with True res show ?thesis by simp
    qed (use res few in simp)
    moreover have "1 \<le> unat (pkt_len x) \<and> unat (pkt_len x) \<le> m"
      if "j < length (flows q)" "x \<in> set (queue (flows q' ! j))" for j x
    proof -
      have "set (queue (flows q' ! j)) \<subseteq> set (queue (flows q ! j)) \<union> {p}"
        using res that(1) by (auto split: if_splits dest: in_set_tl)
      with that lens len p show ?thesis by auto
    qed
    ultimately have "fq_inv psched_mtu m q' lg" using inv e by (simp add: fq_inv_def)
    with e show ?thesis by blast
  qed
qed

lemma served_packets:
  assumes "served q q' out owner" "i < length (flows q)" "p \<in> set (queue (flows q' ! i))"
  shows "\<exists>p' \<in> set (queue (flows q ! i)). pkt_len p' = pkt_len p"
proof -
  from assms obtain ds where "same_packets (queue (flows q ! i))
       (ds @ (if i = owner then opt_list out else []) @ queue (flows q' ! i))" by (auto simp: served_def)
  with assms(3) have "unmarked p \<in> unmarked ` set (queue (flows q ! i))"
    by (metis UnCI imageI list.set_map same_packets_def set_append)
  then obtain p' where "p' \<in> set (queue (flows q ! i))" "unmarked p = unmarked p'" by blast
  moreover have "pkt_len p' = pkt_len p" using arg_cong [OF calculation(2), of pkt_len] by (simp add: unmarked_def)
  ultimately show ?thesis by blast
qed

lemma served_length:
  assumes "served q q' out owner"
  shows "length (all_packets q') \<le> length (all_packets q)"
proof -
  have "length (queue (flows q' ! i)) \<le> length (queue (flows q ! i))" if "i < length (flows q)" for i
    using assms that by (force simp: served_def dest: same_packets_length)
  moreover have "length (flows q') = length (flows q)" using assms by (simp add: served_def)
  ultimately have "list_all2 (\<le>) (map (\<lambda>fl. length (queue fl)) (flows q')) (map (\<lambda>fl. length (queue fl)) (flows q))"
    by (simp add: list_all2_conv_all_nth)
  then have "sum_list (map (\<lambda>fl. length (queue fl)) (flows q')) \<le> sum_list (map (\<lambda>fl. length (queue fl)) (flows q))"
    by (induction rule: list_all2_induct) auto
  then show ?thesis by (simp add: all_packets_def length_concat o_def)
qed

lemma fq_inv_dequeue:
  assumes inv: "fq_inv psched_mtu m q lg" and env: "good_kernel env" and n: "0 < sint psched_mtu"
  shows "\<exists>out q' lg'. fq_codel_dequeue env q lg = Some (out, q', lg') \<and> fq_inv psched_mtu m q' lg' \<and> dequeue_done q out q'"
proof -
  from inv obtain es k where i: "fq_ok q" "quantum q = psched_mtu" "log_rep lg es k" by (auto simp: fq_inv_def)
  from fq_codel_dequeue_spec [of env q lg es k] env i n obtain out q' lg' es' k' where
    d: "fq_codel_dequeue env q lg = Some (out, q', lg')" "dequeue_done q out q'" "log_rep lg' es' k'"
    by (auto simp: good_kernel_def)
  from d(2) obtain owner where s: "served q q' out owner" and ok: "fq_ok q'" and f: "quantum q' = quantum q"
    "sch_limit q' = sch_limit q" by (auto simp: dequeue_done_def)
  have "flows_cnt q' = flows_cnt q"
  proof -
    have "unat (flows_cnt q') = unat (flows_cnt q)"
      using ok i(1) s by (simp add: fq_ok_def counters_ok_def served_def)
    then show ?thesis by (simp only: word_unat_eq_iff)
  qed
  moreover have "\<forall>i < length (flows q'). \<forall>p \<in> set (queue (flows q' ! i)). 1 \<le> unat (pkt_len p) \<and> unat (pkt_len p) \<le> m"
    using served_packets [OF s] inv s by (fastforce simp: fq_inv_def served_def)
  ultimately have "fq_inv psched_mtu m q' lg'"
    using inv ok f d(3) served_length [OF s] by (auto simp: fq_inv_def)
  with d show ?thesis by blast
qed

lemma fq_reach_inv:
  assumes "fq_reach psched_mtu m q lg" "0 < sint psched_mtu" "10241 * m < 2 ^ 32"
  shows "fq_inv psched_mtu m q lg"
  using assms(1)
proof induction
  case (reach_init q0 env rnd q lg)
  then show ?case by (rule fq_inv_init)
next
  case (reach_enqueue q lg env s ret q')
  from fq_inv_enqueue [OF reach_enqueue.IH reach_enqueue.hyps(2-4) assms(3)] reach_enqueue.hyps(5)
  show ?case by simp
next
  case (reach_dequeue q lg env out q' lg')
  from fq_inv_dequeue [OF reach_dequeue.IH reach_dequeue.hyps(2) assms(2)] reach_dequeue.hyps(3)
  show ?case by simp
next
  case (reach_collect q lg es lg')
  from reach_collect.IH obtain es0 k where "log_rep lg es0 k" by (auto simp: fq_inv_def)
  from collect_rep(2) [OF this] reach_collect show ?case by (auto simp: fq_inv_def)
qed

section \<open>Reconfiguration\<close>

lemma all_packets_length_sum:
  "length (all_packets q) = (\<Sum>i < length (flows q). length (queue (flows q ! i)))"
  by (simp add: all_packets_def length_concat o_def sum_list_sum_nth atLeast0LessThan)

lemma served_length_out:
  assumes "served q q' out owner"
  shows "length (all_packets q') + length (opt_list out) \<le> length (all_packets q)"
proof (cases out)
  case None
  then show ?thesis using served_length [OF assms] by simp
next
  case (Some s)
  with assms have own: "owner < length (flows q)" and len: "length (flows q') = length (flows q)"
    by (simp_all add: served_def)
  have "length (queue (flows q' ! i)) + (if i = owner then 1 else 0) \<le> length (queue (flows q ! i))"
    if "i < length (flows q)" for i
    using assms that Some by (fastforce simp: served_def dest: same_packets_length)
  then have "(\<Sum>i < length (flows q). length (queue (flows q' ! i)) + (if i = owner then 1 else 0))
      \<le> (\<Sum>i < length (flows q). length (queue (flows q ! i)))" by (intro sum_mono) simp
  then show ?thesis using own Some
    by (simp add: all_packets_length_sum len sum.distrib)
qed

lemma cstats_frame [simp]:
  "counters_ok (q\<lparr>cstats := st\<rparr>) = counters_ok q" "lists_ok (q\<lparr>cstats := st\<rparr>) = lists_ok q"
  "fq_ok (q\<lparr>cstats := st\<rparr>) = fq_ok q" "all_packets (q\<lparr>cstats := st\<rparr>) = all_packets q"
  by (simp_all add: fq_ok_def counters_ok_def lists_ok_def all_packets_def)

lemma shrink_spec:
  assumes mem: "kmalloc (alloc_node (core env))"
    and "fq_ok q" "0 < sint (quantum q)" "log_rep lg es k"
  shows "\<exists>q' lg' es' k'. shrink env q lg = Some (q', lg') \<and> fq_ok q' \<and> qlen q' \<le> sch_limit q' \<and>
    sch_limit q' = sch_limit q \<and> quantum q' = quantum q \<and> cparams q' = cparams q \<and> log_rep lg' es' k'"
  using assms(2-4)
proof (induction "length (all_packets q)" arbitrary: q lg es k rule: less_induct)
  case less
  show ?case
  proof (cases "sch_limit q < qlen q")
    case False
    then have "shrink env q lg = Some (q, lg)" by (subst shrink.simps) simp
    with False less.prems show ?thesis by (auto simp: not_less)
  next
    case True
    from fq_codel_dequeue_spec [OF mem less.prems] obtain out q1 lg1 es1 k1 where
      d: "fq_codel_dequeue env q lg = Some (out, q1, lg1)" "dequeue_done q out q1" "log_rep lg1 es1 k1"
      by blast
    have "all_packets q \<noteq> []"
    proof
      assume "all_packets q = []"
      with less.prems(1) have "qlen q = 0" by (simp add: fq_ok_def counters_ok_def)
      with True show False by simp
    qed
    with d(2) obtain s where s: "out = Some s" by (auto simp: dequeue_done_def)
    define q2 where "q2 = q1\<lparr>cstats := (cstats q1)\<lparr>drop_len := drop_len (cstats q1) + pkt_len s,
                                            drop_count := drop_count (cstats q1) + 1\<rparr>\<rparr>"
    have again: "shrink env q lg = shrink env q2 lg1"
      using True d(1) s by (subst shrink.simps) (simp add: q2_def)
    have "length (all_packets q2) < length (all_packets q)"
      using d(2) s served_length_out by (fastforce simp: dequeue_done_def q2_def)
    moreover have "fq_ok q2" "quantum q2 = quantum q" "sch_limit q2 = sch_limit q" "cparams q2 = cparams q"
      using d(2) by (simp_all add: dequeue_done_def q2_def)
    ultimately show ?thesis
      using less.hyps [of q2 lg1 es1 k1] less.prems(2) d(3) again by simp
  qed
qed

lemma apply_opts_frame [simp]:
  "fq_ok (apply_opts os q) = fq_ok q" "flows (apply_opts os q) = flows q"
  "new_flows (apply_opts os q) = new_flows q" "old_flows (apply_opts os q) = old_flows q"
  "flows_cnt (apply_opts os q) = flows_cnt q" "all_packets (apply_opts os q) = all_packets q"
  "backlogs (apply_opts os q) = backlogs q"
  by (simp_all add: apply_opts_def Let_def fq_ok_def counters_ok_def lists_ok_def all_packets_def)

lemma codel_time_to_us_of_us:
  "uint (codel_time_to_us (us_to_time t)) \<le> uint t" "uint t \<le> uint (codel_time_to_us (us_to_time t)) + 2"
proof -
  define a where "a = uint t"
  have a: "0 \<le> a" "a < 2 ^ 32" using uint_lt2p [of t] by (simp_all add: a_def)
  have "uint (ucast t * 1000 :: u64) = a * 1000"
    unfolding uint_word_ariths unsigned_ucast_eq using a by (simp add: a_def take_bit_int_eq_self)
  then have u: "uint (us_to_time t) = a * 1000 div 1024"
    using a by (simp add: us_to_time_def CODEL_SHIFT_def unsigned_ucast_eq uint_drop_bit_div take_bit_int_eq_self
        pos_imp_zdiv_nonneg_iff)
  define b where "b = a * 1000 div 1024"
  have b: "0 \<le> b" "b < 2 ^ 32" "b * 1024 \<le> a * 1000" "a * 1000 < b * 1024 + 1024"
    using a by (auto simp: b_def pos_imp_zdiv_nonneg_iff)
  have "uint (push_bit 10 (ucast (us_to_time t)) :: u64) = b * 1024"
    using b(1,2) by (simp add: unsigned_push_bit_eq unsigned_ucast_eq u b_def [symmetric]
        push_bit_eq_mult [where 'a=int] take_bit_int_eq_self)
  then have c: "uint (push_bit 10 (ucast (us_to_time t)) div 1000 :: u64) = b * 1024 div 1000"
    by (simp add: uint_div_distrib)
  have "0 \<le> b * 1024 div 1000" using b(1) by (simp add: pos_imp_zdiv_nonneg_iff)
  moreover have "b * 1024 div 1000 < 2 ^ 32" using b a by linarith
  ultimately have d: "uint (codel_time_to_us (us_to_time t)) = b * 1024 div 1000"
    unfolding codel_time_to_us_def CODEL_SHIFT_def unsigned_ucast_eq c by (simp add: take_bit_int_eq_self)
  show "uint (codel_time_to_us (us_to_time t)) \<le> uint t" "uint t \<le> uint (codel_time_to_us (us_to_time t)) + 2"
    unfolding d a_def [symmetric] using b(3,4) by linarith+
qed

section \<open>A quantum of half the range\<close>

text \<open>A deficit that is 0 or \<open>-2\<^sup>3\<^sup>1\<close> never becomes positive by adding \<open>2\<^sup>3\<^sup>1\<close> in 32 bits.\<close>

definition hung :: "fq_codel \<Rightarrow> bool" where
  "hung q \<longleftrightarrow> quantum q = 0x80000000 \<and> (new_flows q \<noteq> [] \<or> old_flows q \<noteq> []) \<and>
     (\<forall>i \<in> set (new_flows q @ old_flows q). i < length (flows q) \<and>
        (deficit (flows q ! i) = 0 \<or> deficit (flows q ! i) = 0x80000000))"

lemma hung_recharge:
  assumes "hung q"
  shows "sint (deficit (flows q ! first_flow q)) \<le> 0" "hung (recharge (first_flow q) q)"
proof -
  from assms have ne: "new_flows q \<noteq> [] \<or> old_flows q \<noteq> []" by (simp add: hung_def)
  have i: "first_flow q \<in> set (new_flows q @ old_flows q)"
    using ne by (cases rule: first_flow_cases) (metis UnCI list.set_intros(1) set_append)+
  with assms have "deficit (flows q ! first_flow q) = 0 \<or> deficit (flows q ! first_flow q) = 0x80000000"
    unfolding hung_def by blast
  then show "sint (deficit (flows q ! first_flow q)) \<le> 0" by (auto simp: sint_u32)
  have sub: "set (new_flows (recharge (first_flow q) q) @ old_flows (recharge (first_flow q) q)) \<subseteq>
      set (new_flows q @ old_flows q)"
    using ne by (cases rule: first_flow_cases)
      (auto simp: recharge_def move_first_to_old_def unlink_first_def Let_def)
  have ne': "old_flows (recharge (first_flow q) q) \<noteq> []"
    by (simp add: recharge_def move_first_to_old_def Let_def)
  have "deficit (flows (recharge (first_flow q) q) ! j) = 0 \<or>
      deficit (flows (recharge (first_flow q) q) ! j) = 0x80000000"
    if "j \<in> set (new_flows q @ old_flows q)" for j
  proof (cases "j = first_flow q")
    case True
    with that assms show ?thesis by (auto simp: hung_def recharge_flows)
  next
    case False
    with that assms show ?thesis by (auto simp: hung_def recharge_flows)
  qed
  with sub ne' assms show "hung (recharge (first_flow q) q)" by (auto simp: hung_def)
qed

lemma hung_dequeue: "hung q \<Longrightarrow> fq_codel_dequeue env q lg = None"
proof -
  have "\<not> hung q" if "fq_codel_dequeue env q lg = Some y" for y
  proof (rule fq_codel_dequeue.raw_induct [where P = "\<lambda>env q lg y. \<not> hung q", OF _ that])
    fix self :: "fq_kernel \<Rightarrow> fq_codel \<Rightarrow> codel_log_entry drop_log \<Rightarrow>
      (sk_buff option \<times> fq_codel \<times> codel_log_entry drop_log) option"
    fix env q lg y
    assume rec: "\<And>env q lg y. self env q lg = Some y \<Longrightarrow> \<not> hung q"
      and body: "(if new_flows q = [] \<and> old_flows q = [] then Some (None, q, lg)
        else if sint (deficit (flows q ! first_flow q)) \<le> 0 then self env (recharge (first_flow q) q) lg
        else (case codel_dequeue (core env) (cparams q) (fq_pop (first_flow q)) (flow_run (first_flow q) q lg) of
          None \<Rightarrow> None
        | Some (sk, r) \<Rightarrow>
            (case sk of
               None \<Rightarrow> self env (retire (first_flow q) (write_back (first_flow q) q r)) (log r)
             | Some s \<Rightarrow> Some (Some s, deliver_packet env (first_flow q) s (write_back (first_flow q) q r), log r))))
        = Some y"
    show "\<not> hung q"
    proof
      assume h: "hung q"
      then have "\<not> (new_flows q = [] \<and> old_flows q = [])" by (simp add: hung_def)
      with body hung_recharge(1) [OF h] have "self env (recharge (first_flow q) q) lg = Some y"
        by (simp split: if_splits)
      from rec [OF this] hung_recharge(2) [OF h] show False by simp
    qed
  qed
  then show "hung q \<Longrightarrow> fq_codel_dequeue env q lg = None" by (cases "fq_codel_dequeue env q lg") auto
qed

section \<open>Properties\<close>

definition demo_fq_kernel :: fq_kernel where
  "demo_fq_kernel = \<lparr>core = demo_kernel, skb_get_hash_perturb = (\<lambda>s n. seq s + n), tc_classify = None,
     qdisc_bstats_update = (\<lambda>s (b, n). (b + ucast (pkt_len s), n + 1)),
     gnet_stats_copy = (\<lambda>q. \<lparr>tc_bytes = fst (bstats q), tc_packets = snd (bstats q), tc_qlen = qlen q,
        tc_backlog = backlog q, tc_drops = drops q, tc_overlimits = 0\<rparr>), report_time = 7\<rparr>"

lemma reciprocal_scale_range:
  assumes "0 < (n :: u32)"
  shows "ucast (drop_bit 32 (ucast (v :: u32) * ucast n :: u64)) < n"
proof -
  define a b where "a = uint v" and "b = uint n"
  have a: "0 \<le> a" "a < 2 ^ 32" and b: "0 < b" "b < 2 ^ 32"
    using uint_lt2p [of v] uint_lt2p [of n] assms by (simp_all add: a_def b_def word_less_def)
  have ab: "a * b < 2 ^ 32 * b" using a b by (intro mult_strict_right_mono)
  also have "\<dots> < 2 ^ 32 * 2 ^ 32" using b by simp
  finally have "uint (ucast v * ucast n :: u64) = a * b"
    unfolding uint_word_ariths unsigned_ucast_eq using a b
    by (simp add: take_bit_int_eq_self a_def [symmetric] b_def [symmetric])
  moreover have "a * b div 2 ^ 32 < b" using ab by simp
  moreover have "0 \<le> a * b div 2 ^ 32" using a b by (simp add: pos_imp_zdiv_nonneg_iff)
  ultimately show ?thesis
    using b by (simp add: word_less_def unsigned_ucast_eq uint_drop_bit_div take_bit_int_eq_self b_def)
qed

lemma good_demo_kernel: "good_kernel demo_fq_kernel"
  using bump_alloc_fresh
  by (auto simp: good_kernel_def demo_fq_kernel_def demo_kernel_def kmalloc_def reciprocal_scale_range)

definition demo_blank :: fq_codel where
  "demo_blank = \<lparr>backlog = 0, drops = 0, qlen = 0, sch_limit = 0, handle = 0, can_bypass = False, bstats = (0, 0),
     flows = [], backlogs = [], flows_cnt = 0, perturbation = 0, quantum = 0, cparams = codel_params_init 1514,
     cstats = \<lparr>maxpacket = 0, drop_count = 0, drop_len = 0, ecn_mark = 0, ce_mark = 0\<rparr>, drop_overlimit = 0,
     new_flow_count = 0, new_flows = [], old_flows = [], tree_reduced = [],
     queue_global = \<lparr>qr_bytes = 0, qr_packets = 0, qr_systime = 0, qr_qlen = 0, qr_backlog = 0, qr_drops = 0,
        qr_overlimits = 0\<rparr>, max_packets_keep = 0\<rparr>"

definition demo_fq :: fq_codel where
  "demo_fq = fst (snd (the (fq_codel_init demo_fq_kernel 1514 0 (True, True) None demo_blank log_init)))"

lemma demo_fq_init:
  "fq_codel_init demo_fq_kernel 1514 0 (True, True) None demo_blank log_init = Some (0, demo_fq, log_init)"
  by (simp add: demo_fq_def fq_codel_init_def Let_def demo_blank_def)

lemma demo_fq_reach: "fq_reach 1514 1514 demo_fq log_init"
  by (rule reach_init [OF _ _ _ demo_fq_init]) (simp_all add: demo_blank_def)



text \<open>
  C18.  Packets of a flow are neither reordered nor lost silently: dequeueing removes packets from
  the heads of the flows only, at most one of them is delivered, the others are counted as
  drops, and the discipline stays well formed.
\<close>

theorem fq_codel_dequeue_fifo:
  assumes "good_kernel env" and "fq_ok q" and "0 < sint (quantum q)" and "log_rep lg es k"
  shows "\<exists>out q' lg' owner. fq_codel_dequeue env q lg = Some (out, q', lg') \<and> fq_ok q' \<and>
    (out \<noteq> None \<longrightarrow> owner < length (flows q)) \<and>
    (\<forall>i < length (flows q). \<exists>dropped. same_packets (queue (flows q ! i))
       (dropped @ (if i = owner then opt_list out else []) @ queue (flows q' ! i))) \<and>
    drops q' + qlen q' + of_nat (length (opt_list out)) = drops q + qlen q"
proof -
  from fq_codel_dequeue_spec [of env, OF _ assms(2-4)] assms(1) obtain out q' lg' where
    "fq_codel_dequeue env q lg = Some (out, q', lg')" "dequeue_done q out q'"
    by (auto simp: good_kernel_def)
  then show ?thesis unfolding dequeue_done_def served_def by blast
qed

lemma demo_fq_ok: "fq_ok demo_fq" "quantum demo_fq = 1514"
  using fq_inv_init [OF _ _ _ demo_fq_init, of 1] by (simp_all add: demo_blank_def fq_inv_def)

theorem fq_codel_dequeue_fifo_witness:
  "\<exists>out q' lg' owner. fq_codel_dequeue demo_fq_kernel demo_fq log_init = Some (out, q', lg') \<and> fq_ok q' \<and>
    (out \<noteq> None \<longrightarrow> owner < length (flows demo_fq)) \<and>
    (\<forall>i < length (flows demo_fq). \<exists>dropped. same_packets (queue (flows demo_fq ! i))
       (dropped @ (if i = owner then opt_list out else []) @ queue (flows q' ! i))) \<and>
    drops q' + qlen q' + of_nat (length (opt_list out)) = drops demo_fq + qlen demo_fq"
  by (rule fq_codel_dequeue_fifo [OF good_demo_kernel demo_fq_ok(1) _ log_rep_init])
    (simp add: demo_fq_ok sint_u32)

text \<open>
  C17.  An accepted packet is stamped and put at the end of the flow it was classified to; when the
  limit is exceeded, the first packet of a flow with the largest backlog is dropped instead, and
  the caller is told of congestion exactly when that is the flow of the packet.
\<close>

theorem fq_codel_enqueue_result:
  assumes "fq_ok q" and "fq_codel_classify env s q = (idx, ret)" "idx \<noteq> 0" "idx \<le> flows_cnt q"
    and "length (all_packets q) + 1 < 2 ^ 32" and "backlogs q ! unat (idx - 1) + pkt_len s \<noteq> 0"
  shows "\<exists>r q'. fq_codel_enqueue env s q = Some (r, q') \<and> fq_ok q' \<and>
    (let i = unat (idx - 1);
         full = (\<lambda>j. queue (flows q ! j) @ (if j = i then [codel_set_enqueue_time (core env) s] else []))
     in if qlen q + 1 \<le> sch_limit q then
          r = NET_XMIT_SUCCESS \<and> (\<forall>j < length (flows q). queue (flows q' ! j) = full j)
        else \<exists>v < length (flows q). r = (if v = i then NET_XMIT_CN else NET_XMIT_SUCCESS) \<and>
          (\<forall>j < length (flows q). qbytes (full j) \<le> qbytes (full v)) \<and>
          (\<forall>j < length (flows q). queue (flows q' ! j) = (if j = v then tl (full v) else full j)))"
proof -
  define i where "i = unat (idx - 1)"
  define full where "full j = queue (flows q ! j) @ (if j = i then [codel_set_enqueue_time (core env) s] else [])" for j
  from fq_codel_enqueue_spec [OF assms, folded i_def, folded full_def] obtain r q' where
    e: "fq_codel_enqueue env s q = Some (r, q')" "fq_ok q'"
    and res: "if qlen q + 1 \<le> sch_limit q then r = NET_XMIT_SUCCESS \<and>
        length (all_packets q') = length (all_packets q) + 1 \<and> (\<forall>j < length (flows q). queue (flows q' ! j) = full j)
      else length (all_packets q') = length (all_packets q) \<and>
        (\<exists>v < length (flows q). r = (if v = i then NET_XMIT_CN else NET_XMIT_SUCCESS) \<and> full v \<noteq> [] \<and>
           (\<forall>j < length (flows q). qbytes (full j) \<le> qbytes (full v)) \<and>
           (\<forall>j < length (flows q). queue (flows q' ! j) = (if j = v then tl (full v) else full j)))"
    by blast
  from res have "if qlen q + 1 \<le> sch_limit q then
      r = NET_XMIT_SUCCESS \<and> (\<forall>j < length (flows q). queue (flows q' ! j) = full j)
    else \<exists>v < length (flows q). r = (if v = i then NET_XMIT_CN else NET_XMIT_SUCCESS) \<and>
      (\<forall>j < length (flows q). qbytes (full j) \<le> qbytes (full v)) \<and>
      (\<forall>j < length (flows q). queue (flows q' ! j) = (if j = v then tl (full v) else full j))"
    by (cases "qlen q + 1 \<le> sch_limit q") (simp only: if_True if_False, blast)+
  with e show ?thesis unfolding Let_def i_def [symmetric] full_def [symmetric] by blast
qed

lemma demo_classify: "fq_codel_classify demo_fq_kernel (demo_skb 0 100) demo_fq = (1, None)"
proof -
  have "handle demo_fq = 0" "flows_cnt demo_fq = 1024" "perturbation demo_fq = 0"
    by (simp_all add: demo_fq_def fq_codel_init_def Let_def demo_blank_def)
  then show ?thesis
    by (simp add: fq_codel_classify_def demo_fq_kernel_def demo_kernel_def demo_skb_def fq_codel_hash_def
        TC_H_MAJ_def TC_H_MIN_def drop_bit_eq_div)
qed

lemma demo_fq_fields: "flows_cnt demo_fq = 1024" "all_packets demo_fq = []" "backlogs demo_fq = replicate 1024 0"
  "new_flows demo_fq = []" "old_flows demo_fq = []"
  by (simp_all add: demo_fq_def fq_codel_init_def Let_def demo_blank_def all_packets_def empty_flow_def)

theorem fq_codel_enqueue_result_witness:
  "\<exists>r q'. fq_codel_enqueue demo_fq_kernel (demo_skb 0 100) demo_fq = Some (r, q') \<and> fq_ok q' \<and>
    (let i = unat (1 - 1 :: u32);
         full = (\<lambda>j. queue (flows demo_fq ! j) @
           (if j = i then [codel_set_enqueue_time (core demo_fq_kernel) (demo_skb 0 100)] else []))
     in if qlen demo_fq + 1 \<le> sch_limit demo_fq then
          r = NET_XMIT_SUCCESS \<and> (\<forall>j < length (flows demo_fq). queue (flows q' ! j) = full j)
        else \<exists>v < length (flows demo_fq). r = (if v = i then NET_XMIT_CN else NET_XMIT_SUCCESS) \<and>
          (\<forall>j < length (flows demo_fq). qbytes (full j) \<le> qbytes (full v)) \<and>
          (\<forall>j < length (flows demo_fq). queue (flows q' ! j) = (if j = v then tl (full v) else full j)))"
  by (rule fq_codel_enqueue_result [OF demo_fq_ok(1) demo_classify])
    (simp_all add: demo_fq_fields demo_skb_def)

text \<open>
  C37.  A quantum of \<open>0x80000000\<close>, which \<^verbatim>\<open>fq_codel_change\<close> accepts, hangs the discipline: after the
  first packet arrives at the idle queue, dequeueing never ends, whatever the kernel answers.
\<close>

theorem fq_codel_quantum_hang:
  assumes "fq_ok q" and "new_flows q = []" "old_flows q = []" and "opt_quantum os = Some 0x80000000"
    and "fq_codel_classify env s (apply_opts os q) = (idx, ret)" "idx \<noteq> 0" "idx \<le> flows_cnt q" "pkt_len s \<noteq> 0"
  shows "\<exists>r q'. fq_codel_enqueue env s (apply_opts os q) = Some (r, q') \<and>
    (\<forall>env' lg. fq_codel_dequeue env' q' lg = None)"
proof -
  have ok: "fq_ok (apply_opts os q)" using assms(1) by simp
  have empty: "all_packets q = []" using assms(1-3) by (auto simp: fq_ok_def lists_ok_def all_packets_empty)
  have n: "quantum (apply_opts os q) = 0x80000000"
    using assms(4) by (simp add: apply_opts_def Let_def max_def)
  define i where "i = unat (idx - 1)"
  have "unat (idx - 1) = unat idx - 1" "0 < unat idx" "unat idx \<le> unat (flows_cnt q)"
    using assms(6,7) by (simp_all add: unat_minus_one unat_gt_0 word_le_nat_alt)
  then have i: "i < length (flows q)" using assms(1) by (simp add: i_def fq_ok_def counters_ok_def)
  have "queue (flows q ! i) = []" using empty i by (simp add: all_packets_empty)
  then have "backlogs q ! i = 0" using assms(1) i by (simp add: fq_ok_def counters_ok_def)
  with assms(8) have bytes: "backlogs (apply_opts os q) ! unat (idx - 1) + pkt_len s \<noteq> 0" by (simp add: i_def)
  have room: "length (all_packets (apply_opts os q)) + 1 < 2 ^ 32" by (simp add: empty)
  from fq_codel_enqueue_spec [OF ok assms(5,6) _ room bytes] assms(7,2,3) n obtain r q' where
    e: "fq_codel_enqueue env s (apply_opts os q) = Some (r, q')" "length (flows q') = length (flows q)"
    "quantum q' = 0x80000000" "new_flows q' = [i]" "old_flows q' = []" "deficit (flows q' ! i) = 0x80000000"
    by (auto simp: i_def)
  have "hung q'" using e i by (simp add: hung_def)
  from hung_dequeue [OF this] e(1) show ?thesis by blast
qed

definition no_opts :: fq_opts where
  "no_opts = \<lparr>opt_target = None, opt_limit = None, opt_interval = None, opt_ecn = None, opt_flows = None,
     opt_quantum = None, opt_ce_threshold = None\<rparr>"

theorem fq_codel_quantum_hang_witness:
  "\<exists>r q'. fq_codel_enqueue demo_fq_kernel (demo_skb 0 100)
      (apply_opts (no_opts\<lparr>opt_quantum := Some 0x80000000\<rparr>) demo_fq) = Some (r, q') \<and>
    (\<forall>env' lg. fq_codel_dequeue env' q' lg = None)"
proof (rule fq_codel_quantum_hang [where idx = 1 and ret = None])
  have "fq_codel_classify demo_fq_kernel (demo_skb 0 100) (apply_opts (no_opts\<lparr>opt_quantum := Some 0x80000000\<rparr>) demo_fq)
      = fq_codel_classify demo_fq_kernel (demo_skb 0 100) demo_fq"
    by (simp add: fq_codel_classify_def apply_opts_def no_opts_def fq_codel_hash_def demo_fq_kernel_def)
  then show "fq_codel_classify demo_fq_kernel (demo_skb 0 100)
      (apply_opts (no_opts\<lparr>opt_quantum := Some 0x80000000\<rparr>) demo_fq) = (1, None)" by (simp add: demo_classify)
qed (simp_all add: demo_fq_ok demo_fq_fields no_opts_def demo_skb_def)

text \<open>
  Reconfiguring a running discipline ends without a null packet, brings the queue within the
  new limit, and a dump then reports the configured times to within two microseconds.
\<close>

theorem fq_codel_change_applies:
  assumes "good_kernel env" and "fq_ok q" and "0 < sint (quantum (apply_opts os q))" and "log_rep lg es k"
    and "opt_flows os = None" and "opt_target os = Some t" and "opt_interval os = Some i"
  shows "\<exists>q' lg' t' i'. fq_codel_change env (Some (Inr os)) q lg = Some (0, q', lg') \<and> fq_ok q' \<and>
    qlen q' \<le> sch_limit q' \<and> (\<forall>l. opt_limit os = Some l \<longrightarrow> sch_limit q' = l) \<and>
    (TCA_TARGET, t') \<in> set (fq_codel_dump q') \<and> uint t' \<le> uint t \<and> uint t \<le> uint t' + 2 \<and>
    (TCA_INTERVAL, i') \<in> set (fq_codel_dump q') \<and> uint i' \<le> uint i \<and> uint i \<le> uint i' + 2"
proof -
  have mem: "kmalloc (alloc_node (core env))" using assms(1) by (simp add: good_kernel_def)
  from shrink_spec [OF mem _ assms(3,4)] assms(2) obtain q1 lg1 where
    s: "shrink env (apply_opts os q) lg = Some (q1, lg1)" "fq_ok q1" "qlen q1 \<le> sch_limit q1"
      "sch_limit q1 = sch_limit (apply_opts os q)" "cparams q1 = cparams (apply_opts os q)" by auto
  define q2 where "q2 = (tree_reduce_backlog (drop_count (cstats q1)) (drop_len (cstats q1)) q1)
    \<lparr>cstats := (cstats q1)\<lparr>drop_count := 0, drop_len := 0\<rparr>\<rparr>"
  have c: "fq_codel_change env (Some (Inr os)) q lg = Some (0, q2, lg1)"
    using assms(5) s(1) by (simp add: fq_codel_change_def Let_def q2_def)
  have "counters_ok (tree_reduce_backlog n l q1) = counters_ok q1" for n l
    by (simp add: tree_reduce_backlog_def counters_ok_def all_packets_def)
  moreover have "lists_ok (tree_reduce_backlog n l q1) = lists_ok q1" for n l
    by (simp add: tree_reduce_backlog_def lists_ok_def)
  ultimately have "fq_ok q2" using s(2) by (simp add: q2_def fq_ok_def)
  moreover have "target (cparams q2) = us_to_time t" "interval (cparams q2) = us_to_time i"
    "sch_limit q2 = sch_limit (apply_opts os q)" "qlen q2 \<le> sch_limit q2"
    using s(3-5) assms(6,7)
    by (simp_all add: q2_def tree_reduce_backlog_def apply_opts_def Let_def split: option.splits)
  ultimately show ?thesis
    using c codel_time_to_us_of_us [of t] codel_time_to_us_of_us [of i]
    by (intro exI [of _ q2] exI [of _ lg1] exI [of _ "codel_time_to_us (us_to_time t)"]
        exI [of _ "codel_time_to_us (us_to_time i)"])
      (auto simp: fq_codel_dump_def apply_opts_def Let_def)
qed

theorem fq_codel_change_applies_witness:
  "\<exists>q' lg' t' i'. fq_codel_change demo_fq_kernel
      (Some (Inr (no_opts\<lparr>opt_target := Some 5000, opt_interval := Some 100000, opt_limit := Some 0\<rparr>))) demo_fq log_init
        = Some (0, q', lg') \<and> fq_ok q' \<and> qlen q' \<le> sch_limit q' \<and>
    (\<forall>l. opt_limit (no_opts\<lparr>opt_target := Some 5000, opt_interval := Some 100000, opt_limit := Some 0\<rparr>) = Some l \<longrightarrow>
       sch_limit q' = l) \<and>
    (TCA_TARGET, t') \<in> set (fq_codel_dump q') \<and> uint t' \<le> uint (5000 :: u32) \<and> uint (5000 :: u32) \<le> uint t' + 2 \<and>
    (TCA_INTERVAL, i') \<in> set (fq_codel_dump q') \<and> uint i' \<le> uint (100000 :: u32) \<and> uint (100000 :: u32) \<le> uint i' + 2"
  by (rule fq_codel_change_applies [OF good_demo_kernel demo_fq_ok(1) _ log_rep_init])
    (simp_all add: no_opts_def apply_opts_def demo_fq_ok sint_u32)

text \<open>
  C34.  CoDel on one flow: it ends; what it took from the flow are the packets it dropped, in order,
  then the one it returns; the TCP packets among the dropped ones are the new entries of the log;
  and the drop rate stays within its bound.
\<close>

theorem codel_dequeue_flow:
  assumes "kmalloc (alloc_node env)" and "log_rep lg es 0" and "rate_ok (cvars (flows q ! i))"
    and "uint (count (cvars (flows q ! i))) + int (length (flow_packets i q)) < 2 ^ 32"
  shows "\<exists>out r dropped. codel_dequeue env (cparams q) (fq_pop i) (flow_run i q lg) = Some (out, r) \<and>
    same_packets (flow_packets i q) (dropped @ opt_list out @ flow_packets i (sched r)) \<and>
    (out = None \<longrightarrow> flow_packets i (sched r) = []) \<and>
    drop_count (stats r) = drop_count (cstats q) + of_nat (length dropped) \<and>
    drop_len (stats r) = drop_len (cstats q) + qbytes dropped \<and>
    log_rep (log r) (es @ drop_entries env (drop_count (cstats q)) dropped) 0 \<and> rate_ok (vars r)"
proof -
  define r0 where "r0 = flow_run i q lg"
  have r0: "sched r0 = q" "stats r0 = cstats q" "vars r0 = cvars (flows q ! i)" "log_rep (log r0) es 0"
    using assms(2) by (simp_all add: r0_def flow_run_def)
  from fq_flow.codel_dequeue_spec [OF assms(1) r0(4), of "cparams q" i] assms(3,4) obtain out r where
    d: "codel_dequeue env (cparams q) (fq_pop i) r0 = Some (out, r)"
    and c: "fq_flow.codel_ok i env es 0 r0 out r" and rate: "rate_ok (vars r)"
    unfolding r0(1,3) by blast
  from c obtain ds where "same_packets (flow_packets i q) (ds @ opt_list out @ flow_packets i (sched r))"
    "drops_done env es 0 r0 r ds" "out = None \<longrightarrow> flow_packets i (sched r) = []"
    by (auto simp: fq_flow.codel_ok_def r0(1))
  moreover have "log_rep (log r) (es @ drop_entries env (drop_count (cstats q)) ds) 0"
    using calculation(2) by (auto simp: drops_done_def log_extended_def r0 split: if_splits)
  ultimately show ?thesis
    using d rate unfolding r0_def by (intro exI [of _ out] exI [of _ r] exI [of _ ds])
      (simp add: drops_done_def flow_run_def)
qed

theorem codel_dequeue_flow_witness:
  "\<exists>out r dropped. codel_dequeue demo_kernel (cparams demo_fq) (fq_pop 0) (flow_run 0 demo_fq log_init) = Some (out, r) \<and>
    same_packets (flow_packets 0 demo_fq) (dropped @ opt_list out @ flow_packets 0 (sched r)) \<and>
    (out = None \<longrightarrow> flow_packets 0 (sched r) = []) \<and>
    drop_count (stats r) = drop_count (cstats demo_fq) + of_nat (length dropped) \<and>
    drop_len (stats r) = drop_len (cstats demo_fq) + qbytes dropped \<and>
    log_rep (log r) ([] @ drop_entries demo_kernel (drop_count (cstats demo_fq)) dropped) 0 \<and> rate_ok (vars r)"
proof (rule codel_dequeue_flow [OF _ log_rep_init])
  show "kmalloc (alloc_node demo_kernel)" using good_demo_kernel by (simp add: good_kernel_def demo_fq_kernel_def)
  have "flows demo_fq ! 0 = empty_flow"
    by (simp add: demo_fq_def fq_codel_init_def Let_def demo_blank_def)
  then show "rate_ok (cvars (flows demo_fq ! 0))"
    "uint (count (cvars (flows demo_fq ! 0))) + int (length (flow_packets 0 demo_fq)) < 2 ^ 32"
    by (simp_all add: empty_flow_def codel_vars_init_def rate_ok_def flow_packets_def)
qed

end
