(* ===== verification/Spec2Isabelle.thy ===== *)
theory Spec2Isabelle
  imports Receiver_Api Deployment Kept_Lists Link_Stats Tree_Memory Flow_Monitor
    Beacon_List Format_Data Exp_Threads Flow_Control Window_Query Log_Files Hash_Memory
    Keyboard_Machine Nested_Machine Reverse_Files Fq_Codel
begin

text \<open>
  A model of a congestion controller for WiFi networks, with the theorems that make its parts
  correct and those that show where they are not.

  \<^bold>\<open>The program.\<close>  On every router patched kernel modules measure: the queue discipline
  (\<^verbatim>\<open>sch_fq_codel.c\<close> with \<^verbatim>\<open>codel.h\<close>) logs the TCP packets it drops and reports the backlog, the
  transmit status of mac80211 (\<^verbatim>\<open>project/status.c\<close>) logs the frames that were not acknowledged,
  the scanning code (\<^verbatim>\<open>project/scan.c\<close>) keeps the list of access points heard, and the virtual
  switch (\<^verbatim>\<open>project/flow.c\<close>) records every TCP segment.  A reporter module (\<^verbatim>\<open>project/sendudp.c\<close>)
  collects these measurements once per tick, sends what is new in UDP datagrams of tagged
  messages, and keeps a window of states that a user program asks for over netlink.  That program
  (\<^verbatim>\<open>create_tree/createtree.c\<close>) walks a decision tree over the state and chooses the flow whose
  congestion window is to be set; a client with the same tree is built into the switch daemon
  (\<^verbatim>\<open>project/ofproto.c\<close>) and passes the flows on to a server (\<^verbatim>\<open>udp/server_local.c\<close>), which asks the
  host of the flow (\<^verbatim>\<open>udp/server.c\<close>) for its window and prints the command that sets it.
  On the controller a daemon (\<^verbatim>\<open>new_receiver.c\<close>) stores the datagrams in a pool between two threads, decodes the
  messages into log lines and into ring buffers, tracks the TCP flows in a hash table
  (\<^verbatim>\<open>EXP/hash_lin.h\<close>), and answers API queries from the ring buffers.  An experimental variant
  (\<^verbatim>\<open>EXP/receive.c\<close>) listens on two ports, keeps what it decodes in linked lists, detects
  retransmitted segments, and has a thread that puts the lists together to lines of statistics.  The repository also carries a
  library for hierarchical state machines (\<^verbatim>\<open>stateMachine/src\<close>) with an example, and small
  programs that reverse files (\<^verbatim>\<open>reverse\<close>).

  \<^bold>\<open>Theories, in the order of the data.\<close>

  \<^item> \<open>Prelude\<close>: word types, little-endian byte strings, guarded reads out of C objects, the lemma
    collections.  \<open>Byteorder\<close>: the helpers of \<^verbatim>\<open>EXP/newstructures.h\<close>.  \<open>Wire\<close>: the six measurement
    structures, their image in a big-endian router and in the little-endian receiver.
  \<^item> \<open>Codel\<close> and \<open>Fq_Codel\<close>: \<^verbatim>\<open>codel.h\<close> and \<^verbatim>\<open>sch_fq_codel.c\<close>.  CoDel is stated over an interface of
    packet queues (locale \<open>packet_queue\<close>), which every flow of the discipline provides.  The main
    results: reachable states count their packets correctly and never get stuck, dequeueing
    ends and takes from the heads of the flows only, drops need an interval above target and are
    spaced by the control law.
  \<^item> \<open>Drop_Log\<close>: the linked lists of dropped packets in an explicit heap, their writers and their
    reader, under the contract of the kernel's allocator (locale \<open>kmalloc\<close>); every drop is reported,
    unless reader and writer interleave.
  \<^item> \<open>Beacon_List\<close>: the list of access points of \<^verbatim>\<open>project/scan.c\<close> in the same heap, as a refinement
    of a list of records.
  \<^item> \<open>Flow_Monitor\<close>: the block of \<open>key_extract\<close> that walks the TCP options and keeps a table of flows.
  \<^item> \<open>Sendudp\<close> (definitions), \<open>Public_Buffer\<close> (the transmit buffer and its composition with the
    receiver), \<open>Reporter\<close> (what a sequence of ticks sends and keeps), \<open>Link_Stats\<close> (the rates per
    station), \<open>Kept_Lists\<close> (the copies it keeps from tick to tick, as chains in the heap: a refinement
    of the lists of \<open>Sendudp\<close>).
  \<^item> \<open>Decision_Tree\<close>: reading, rebuilding and searching the tree, and the choice of the flow.
    \<open>Tree_Memory\<close>: the blocks this takes, as a refinement of \<open>Decision_Tree\<close>: which of them are freed
    after a round, and which are not.  \<open>Tree_Text\<close>: the texts of trees and items that the two readers accept, and when the second one
    overflows its array.  \<open>Flow_Control\<close>: the netlink client in the switch daemon, from the states it is
    sent to the flows it reports.  \<open>Window_Server\<close>: the two servers that find the window of such a flow.
    From a station the tree decides on this gives exactly the commands for its flows.
    \<open>Window_Query\<close>: the rounds of \<^verbatim>\<open>create_tree/createtree.c\<close> itself, from the state to the command.
  \<^item> \<open>Msg_Pool\<close>: the pool between the two threads, as a step relation over their critical
    sections and as an instance of a bounded queue (locale \<open>bounded_fifo\<close>).
  \<^item> \<open>Hash_Table\<close>: the table of flows, a refinement of a bounded map (locale \<open>flow_store\<close>).
    \<open>Hash_Memory\<close>: the same table with its pointers in the heap, a refinement of \<open>Hash_Table\<close>.
    \<open>Api_Ring\<close>: the ring buffers.  \<open>Receiver\<close>: the decoders and the walk over a datagram.
    \<open>Receiver_Api\<close>: the query functions, with the bounds of the arrays of their callers.
    \<open>Receiver_Types\<close>: the invariant that the addresses in the rings are texts of MAC addresses, which
    the answers inherit.
  \<^item> \<open>Deployment\<close>: routers, a network that loses, repeats and reorders datagrams, the threads of the
    receiver, its decoders and its API as one step relation.  The reporter enters through an interface
    of message sources (locale \<open>message_source\<close>); in every run the lines of the log and the answers to
    queries are traced back to what the drivers of some router measured.
  \<^item> \<open>Retrans\<close>: the table of sequence numbers of \<^verbatim>\<open>EXP/receive.c\<close>.  \<open>Neighbour_List\<close>: its list of
    neighbours and the appending of measurements, in the heap of \<open>Drop_Log\<close>.  \<open>Exp_Receiver\<close>: its decoders.
    \<open>Exp_Threads\<close>: its two receiving threads and the processing one as a step relation over the pool of
    \<open>Msg_Pool\<close>.  \<open>Format_Data\<close>: a round of its statistics thread.
  \<^item> \<open>Log_Files\<close>: the names of the log files of the receivers, and the dump of a datagram.
  \<^item> \<open>State_Machine\<close>, \<open>Keyboard_Machine\<close> and \<open>Nested_Machine\<close>: the library with user code as arguments,
    the example program, shown to be an automaton with four states, and the test program with nested
    states, which returns 0 exactly for what a flat automaton of the leaves accepts.
  \<^item> \<open>Reverse_Files\<close>: the programs that reverse a file, its records or its lines, with what they do to
    empty and very large files and to strings that fill their buffer.

  \<^bold>\<open>Correspondence.\<close>  A C structure is a record and a global variable a field of the state record
  of its component; a function is a definition of the same name, whose loops are recursive
  functions named after them.  Integers are words of their width, signed ones where the code
  has \<^verbatim>\<open>int\<close> are written with \<open>signed\<close> conversions or as \<open>int\<close> with the wrap-around stated.
  Reads and writes that can leave an object, dereferences of null or freed nodes, and loops that
  can run forever give \<open>None\<close>: a theorem that a function returns states that it gives \<open>Some\<close>.  Code
  that is not in the repository (the allocator, the clock, the hash of the kernel, the values
  measured, floating-point arithmetic and printing, the output of \<open>ss\<close> and of \<open>date\<close>, the memory behind an
  unterminated block) is an argument, with its laws as hypotheses where the code relies on them.

  \<^bold>\<open>Bounds.\<close>  The pool has 10000 places of 1024 bytes, of which 9999 can be filled; the ring buffers
  hold 10000 records; the window of states has 250 places, of which 249 are reported; the hash
  table accepts 10000 entries; the transmit buffer has 1024 bytes and no message
  is longer; the reader of items has room for 40 tokens.  No fuel is used: loops that may not end are \<open>partial_function\<close> definitions
  (the dequeueing loops of CoDel and FQ-CoDel, the walk over TCP options, the walks over linked lists and trees
  and over the chains of states), and the theorems say for which inputs they end.  The routers are
  32-bit big-endian machines, the receiver is a little-endian one.

  \<^bold>\<open>Not modelled.\<close>  Sockets, timers, threads and files themselves (a socket delivers or fails as the
  code can observe it); the printing of floating-point columns and the printing for debugging; the
  kernel and Open vSwitch code around the inserted measurements and the netlink client, whose
  structures are not in the repository; interference between the statistics thread and the decoders
  inside a round; the sizes of the blocks of the decision tree; functions that nothing calls and that only print; the older versions and copies of
  modelled files; the small programs that print socket information; the Python scripts.
\<close>

end
